(* ===== verification/Xhome_Prelude.thy ===== *)
theory Xhome_Prelude
  imports "HOL-Library.Word"
begin

unbundle bit_operations_syntax

text \<open>
  Shared vocabulary of the development: the C integer types of an LP64 build, the bytes the
  parsers compare against, nginx's return codes, the 256-bit character tables, and the
  byte-at-a-time scanning loop that every nginx parser runs, together with the interface
  (\<^verbatim>\<open>prefix_step\<close>) under which such a loop can be suspended at the end of a buffer and resumed
  when more bytes arrive.
\<close>

section \<open>C types\<close>

type_synonym u_char = "8 word"
type_synonym uint16 = "16 word"
type_synonym uint32 = "32 word"
type_synonym ngx_uint_t = "64 word"
type_synonym ngx_int_t = "64 word"
type_synonym buffer = "u_char list"

text \<open>
  Signed 64-bit values (\<^verbatim>\<open>ngx_int_t\<close>, \<^verbatim>\<open>ssize_t\<close>, \<^verbatim>\<open>off_t\<close>, \<^verbatim>\<open>time_t\<close>) are 64-bit words read with
  \<^const>\<open>sint\<close>; arithmetic on them wraps in two's complement, which is what the compiled code computes.  A nullable pointer into a buffer is an optional index.
\<close>

type_synonym ptr = "nat option"

definition bytes :: "string \<Rightarrow> buffer" where
  [simp]: "bytes s = map of_char s"

section \<open>The bytes of the ASCII character set\<close>

abbreviation NUL :: u_char where "NUL \<equiv> 0"
abbreviation LF :: u_char where "LF \<equiv> 0x0a"
abbreviation CR :: u_char where "CR \<equiv> 0x0d"
abbreviation ch_space :: u_char where "ch_space \<equiv> 0x20"
abbreviation ch_excl :: u_char where "ch_excl \<equiv> 0x21"
abbreviation ch_dquote :: u_char where "ch_dquote \<equiv> 0x22"
abbreviation ch_hash :: u_char where "ch_hash \<equiv> 0x23"
abbreviation ch_dollar :: u_char where "ch_dollar \<equiv> 0x24"
abbreviation ch_percent :: u_char where "ch_percent \<equiv> 0x25"
abbreviation ch_amp :: u_char where "ch_amp \<equiv> 0x26"
abbreviation ch_quote :: u_char where "ch_quote \<equiv> 0x27"
abbreviation ch_lparen :: u_char where "ch_lparen \<equiv> 0x28"
abbreviation ch_rparen :: u_char where "ch_rparen \<equiv> 0x29"
abbreviation ch_star :: u_char where "ch_star \<equiv> 0x2a"
abbreviation ch_plus :: u_char where "ch_plus \<equiv> 0x2b"
abbreviation ch_comma :: u_char where "ch_comma \<equiv> 0x2c"
abbreviation ch_minus :: u_char where "ch_minus \<equiv> 0x2d"
abbreviation ch_dot :: u_char where "ch_dot \<equiv> 0x2e"
abbreviation ch_slash :: u_char where "ch_slash \<equiv> 0x2f"
abbreviation ch_0 :: u_char where "ch_0 \<equiv> 0x30"
abbreviation ch_1 :: u_char where "ch_1 \<equiv> 0x31"
abbreviation ch_2 :: u_char where "ch_2 \<equiv> 0x32"
abbreviation ch_3 :: u_char where "ch_3 \<equiv> 0x33"
abbreviation ch_4 :: u_char where "ch_4 \<equiv> 0x34"
abbreviation ch_5 :: u_char where "ch_5 \<equiv> 0x35"
abbreviation ch_6 :: u_char where "ch_6 \<equiv> 0x36"
abbreviation ch_7 :: u_char where "ch_7 \<equiv> 0x37"
abbreviation ch_8 :: u_char where "ch_8 \<equiv> 0x38"
abbreviation ch_9 :: u_char where "ch_9 \<equiv> 0x39"
abbreviation ch_colon :: u_char where "ch_colon \<equiv> 0x3a"
abbreviation ch_semi :: u_char where "ch_semi \<equiv> 0x3b"
abbreviation ch_lt :: u_char where "ch_lt \<equiv> 0x3c"
abbreviation ch_eq :: u_char where "ch_eq \<equiv> 0x3d"
abbreviation ch_gt :: u_char where "ch_gt \<equiv> 0x3e"
abbreviation ch_qmark :: u_char where "ch_qmark \<equiv> 0x3f"
abbreviation ch_at :: u_char where "ch_at \<equiv> 0x40"
abbreviation ch_A :: u_char where "ch_A \<equiv> 0x41"
abbreviation ch_B :: u_char where "ch_B \<equiv> 0x42"
abbreviation ch_C :: u_char where "ch_C \<equiv> 0x43"
abbreviation ch_D :: u_char where "ch_D \<equiv> 0x44"
abbreviation ch_E :: u_char where "ch_E \<equiv> 0x45"
abbreviation ch_F :: u_char where "ch_F \<equiv> 0x46"
abbreviation ch_G :: u_char where "ch_G \<equiv> 0x47"
abbreviation ch_H :: u_char where "ch_H \<equiv> 0x48"
abbreviation ch_I :: u_char where "ch_I \<equiv> 0x49"
abbreviation ch_J :: u_char where "ch_J \<equiv> 0x4a"
abbreviation ch_K :: u_char where "ch_K \<equiv> 0x4b"
abbreviation ch_L :: u_char where "ch_L \<equiv> 0x4c"
abbreviation ch_M :: u_char where "ch_M \<equiv> 0x4d"
abbreviation ch_N :: u_char where "ch_N \<equiv> 0x4e"
abbreviation ch_O :: u_char where "ch_O \<equiv> 0x4f"
abbreviation ch_P :: u_char where "ch_P \<equiv> 0x50"
abbreviation ch_Q :: u_char where "ch_Q \<equiv> 0x51"
abbreviation ch_R :: u_char where "ch_R \<equiv> 0x52"
abbreviation ch_S :: u_char where "ch_S \<equiv> 0x53"
abbreviation ch_T :: u_char where "ch_T \<equiv> 0x54"
abbreviation ch_U :: u_char where "ch_U \<equiv> 0x55"
abbreviation ch_V :: u_char where "ch_V \<equiv> 0x56"
abbreviation ch_W :: u_char where "ch_W \<equiv> 0x57"
abbreviation ch_X :: u_char where "ch_X \<equiv> 0x58"
abbreviation ch_Y :: u_char where "ch_Y \<equiv> 0x59"
abbreviation ch_Z :: u_char where "ch_Z \<equiv> 0x5a"
abbreviation ch_lbrack :: u_char where "ch_lbrack \<equiv> 0x5b"
abbreviation ch_bslash :: u_char where "ch_bslash \<equiv> 0x5c"
abbreviation ch_rbrack :: u_char where "ch_rbrack \<equiv> 0x5d"
abbreviation ch_caret :: u_char where "ch_caret \<equiv> 0x5e"
abbreviation ch_underscore :: u_char where "ch_underscore \<equiv> 0x5f"
abbreviation ch_backtick :: u_char where "ch_backtick \<equiv> 0x60"
abbreviation ch_a :: u_char where "ch_a \<equiv> 0x61"
abbreviation ch_b :: u_char where "ch_b \<equiv> 0x62"
abbreviation ch_c :: u_char where "ch_c \<equiv> 0x63"
abbreviation ch_d :: u_char where "ch_d \<equiv> 0x64"
abbreviation ch_e :: u_char where "ch_e \<equiv> 0x65"
abbreviation ch_f :: u_char where "ch_f \<equiv> 0x66"
abbreviation ch_g :: u_char where "ch_g \<equiv> 0x67"
abbreviation ch_h :: u_char where "ch_h \<equiv> 0x68"
abbreviation ch_i :: u_char where "ch_i \<equiv> 0x69"
abbreviation ch_j :: u_char where "ch_j \<equiv> 0x6a"
abbreviation ch_k :: u_char where "ch_k \<equiv> 0x6b"
abbreviation ch_l :: u_char where "ch_l \<equiv> 0x6c"
abbreviation ch_m :: u_char where "ch_m \<equiv> 0x6d"
abbreviation ch_n :: u_char where "ch_n \<equiv> 0x6e"
abbreviation ch_o :: u_char where "ch_o \<equiv> 0x6f"
abbreviation ch_p :: u_char where "ch_p \<equiv> 0x70"
abbreviation ch_q :: u_char where "ch_q \<equiv> 0x71"
abbreviation ch_r :: u_char where "ch_r \<equiv> 0x72"
abbreviation ch_s :: u_char where "ch_s \<equiv> 0x73"
abbreviation ch_t :: u_char where "ch_t \<equiv> 0x74"
abbreviation ch_u :: u_char where "ch_u \<equiv> 0x75"
abbreviation ch_v :: u_char where "ch_v \<equiv> 0x76"
abbreviation ch_w :: u_char where "ch_w \<equiv> 0x77"
abbreviation ch_x :: u_char where "ch_x \<equiv> 0x78"
abbreviation ch_y :: u_char where "ch_y \<equiv> 0x79"
abbreviation ch_z :: u_char where "ch_z \<equiv> 0x7a"
abbreviation ch_lbrace :: u_char where "ch_lbrace \<equiv> 0x7b"
abbreviation ch_bar :: u_char where "ch_bar \<equiv> 0x7c"
abbreviation ch_rbrace :: u_char where "ch_rbrace \<equiv> 0x7d"
abbreviation ch_tilde :: u_char where "ch_tilde \<equiv> 0x7e"

section \<open>Return codes\<close>

text \<open>
  The codes of \<^verbatim>\<open>src/core/ngx_core.h\<close> (0, -1, -2, -3 and -5) and of \<^verbatim>\<open>src/http/ngx_http_request.h\<close>
  (1 and 10 to 13): pairwise different numbers, so a datatype.
\<close>

datatype ngx_rc =
    NGX_OK
  | NGX_ERROR
  | NGX_AGAIN
  | NGX_BUSY
  | NGX_DECLINED
  | NGX_HTTP_PARSE_HEADER_DONE
  | NGX_HTTP_PARSE_INVALID_METHOD
  | NGX_HTTP_PARSE_INVALID_REQUEST
  | NGX_HTTP_PARSE_INVALID_09_METHOD
  | NGX_HTTP_PARSE_INVALID_HEADER

section \<open>Collections of facts\<close>

named_theorems step_defs \<open>one definition per case of a parser's switch\<close>
named_theorems table_facts \<open>what the character tables contain\<close>

section \<open>Bytes as numbers\<close>

lemma unat_drop_bit_div: "unat (drop_bit n (w :: 'a::len word)) = unat w div 2 ^ n"
  by (simp only: unat_drop_bit_eq) (simp add: drop_bit_eq_div)

lemma unat_and_mask_mod: "unat ((w :: 'a::len word) AND mask n) = unat w mod 2 ^ n"
  by (simp only: take_bit_eq_mask [symmetric] unsigned_take_bit_eq) (simp add: take_bit_eq_mod)

lemma unat_u_char_less [simp]: "unat (c :: u_char) < 256"
  using unsigned_less [of c, where ?'a = nat] by simp

lemma unat_ucast_byte [simp]:
  "unat (ucast (c :: u_char) :: uint16) = unat c"
  "unat (ucast (c :: u_char) :: uint32) = unat c"
  "unat (ucast (c :: u_char) :: ngx_uint_t) = unat c"
  using unat_u_char_less [of c]
  by (simp_all add: unsigned_ucast_eq take_bit_nat_eq_self del: unat_u_char_less)

lemma ucast_u_char_twice: "(ucast (ucast (c :: u_char) :: uint16) :: ngx_uint_t) = ucast c"
  using ucast_up_ucast [where ?'a = 8 and ?'b = 16 and ?'c = 64] by (simp add: is_up)

lemma unat_of_nat_64: "n < 2 ^ 64 \<Longrightarrow> unat (of_nat n :: ngx_uint_t) = n"
  by (simp add: unsigned_of_nat take_bit_nat_eq_self)

lemma u_char_all: "(\<forall>n\<in>set [0..<256]. P (of_nat n :: u_char)) \<Longrightarrow> P c"
  using bspec [of "set [0..<256]" "\<lambda>n. P (of_nat n)" "unat c"] by simp

lemma div_32: "32 * q \<le> n \<Longrightarrow> n < 32 * Suc q \<Longrightarrow> n div 32 = (q :: nat)"
  by (rule div_nat_eqI) auto

text \<open>Setting the bit that tells lower-case letters from upper-case ones.\<close>

lemma or_0x20:
  fixes c :: u_char
  shows "unat (c OR 0x20) = (if unat c div 32 mod 2 = 1 then unat c else unat c + 32)"
proof -
  have bit5: "bit (0x20 :: u_char) n \<longleftrightarrow> n = 5" for n
    using bit_exp_iff [of 5 n, where ?'a = u_char] by auto
  have odd: "bit c 5 \<longleftrightarrow> unat c div 32 mod 2 = 1"
    using bit_unsigned_iff [of c 5, where ?'a = nat] by (simp add: bit_iff_odd odd_iff_mod_2_eq_one)
  show ?thesis
  proof (cases "bit c 5")
    case True
    then have "c OR 0x20 = c" by (intro bit_eqI) (metis bit_or_iff bit5)
    with True odd show ?thesis by simp
  next
    case False
    then have "c + 0x20 = c OR 0x20" 
      by (intro disjunctive_add_eq_or bit_eqI) (metis bit_and_iff bit5 bit_0_eq bot_apply bot_bool_def)
    moreover from False odd have "unat c div 32 mod 2 \<noteq> 1" by simp
    then have "unat c < 224"
      using unat_u_char_less [of c] div_32 [of 7 "unat c"] by (cases "unat c < 224") auto
    then have "unat (c + 0x20) = unat c + 32" by (simp add: unat_word_ariths)
    ultimately show ?thesis using False odd by simp
  qed
qed

text \<open>A signed word that is not negative is its number.\<close>

lemma sint_unat: "unat (x :: ngx_uint_t) < 2 ^ 63 \<Longrightarrow> sint x = int (unat x)"
proof -
  assume "unat x < 2 ^ 63"
  then have "sint (of_nat (unat x) :: ngx_uint_t) = int (unat x)" by (simp add: signed_of_nat signed_take_bit_int_eq_self del: of_nat_unat)
  then show ?thesis by simp
qed

section \<open>Character tables\<close>

text \<open>
  \<^verbatim>\<open>tbl[ch >> 5] & (1 << (ch & 0x1f))\<close>: bit \<open>ch\<close> of a table of eight 32-bit words.
\<close>

definition in_table :: "uint32 list \<Rightarrow> u_char \<Rightarrow> bool" where
  "in_table tbl ch \<longleftrightarrow> (tbl ! unat (drop_bit 5 ch)) AND push_bit (unat (ch AND 0x1f)) 1 \<noteq> 0"

lemma in_table_bit: "in_table tbl ch \<longleftrightarrow> bit (tbl ! (unat ch div 32)) (unat ch mod 32)"
proof -
  have "(0x1f :: u_char) = mask 5" by (simp add: mask_eq_exp_minus_1)
  then have low: "unat (ch AND 0x1f) = unat ch mod 32"
    using unat_and_mask_mod [of ch 5] by simp
  have high: "unat (drop_bit 5 ch) = unat ch div 32"
    using unat_drop_bit_div [of 5 ch] by simp
  show ?thesis
    unfolding in_table_def low high
    by (simp add: push_bit_eq_mult and_exp_eq_0_iff_not_bit)
qed

lemma in_table_all:
  assumes "\<forall>k\<in>set [0..<8]. \<forall>n\<in>set [0..<32]. bit (tbl ! k) n = P (32 * k + n)"
  shows "in_table tbl ch \<longleftrightarrow> P (unat ch)"
proof -
  have "unat ch div 32 < 8" "unat ch mod 32 < 32"
    using unat_u_char_less [of ch] by (simp_all add: less_mult_imp_div_less)
  then have "bit (tbl ! (unat ch div 32)) (unat ch mod 32) = P (32 * (unat ch div 32) + unat ch mod 32)"
    using assms by simp
  then show ?thesis by (simp add: in_table_bit)
qed

section \<open>The scanning loop\<close>

text \<open>
  \<^verbatim>\<open>for (p = b->pos; p < b->last; p++) { ch = *p; switch (state) ... }\<close>: the body sees the
  buffer, the position and the parser's state, and either goes round again (\<^verbatim>\<open>break\<close> out of the
  switch) or leaves the loop (\<^verbatim>\<open>return\<close> or \<^verbatim>\<open>goto\<close>).  When the buffer is exhausted the loop yields
  the position and the state, which the parsers save before returning \<^verbatim>\<open>NGX_AGAIN\<close>.
\<close>

datatype ('s, 'r) outcome = Continue 's | Stop 'r

function scan ::
  "('a list \<Rightarrow> nat \<Rightarrow> 's \<Rightarrow> ('s, 'r) outcome) \<Rightarrow> 'a list \<Rightarrow> nat \<Rightarrow> 's \<Rightarrow> (nat \<times> 's) + 'r"
where
  "scan step buf p s =
     (if p < length buf
      then (case step buf p s of
              Continue s' \<Rightarrow> scan step buf (Suc p) s'
            | Stop r \<Rightarrow> Inr r)
      else Inl (p, s))"
  by pat_completeness auto
termination
  by (relation "measure (\<lambda>(step, buf, p, s). length buf - p)") auto

declare scan.simps [simp del]

lemma scan_end [simp]: "length buf \<le> p \<Longrightarrow> scan step buf p s = Inl (p, s)"
  by (simp add: scan.simps)

lemma scan_Continue:
  "p < length buf \<Longrightarrow> step buf p s = Continue s' \<Longrightarrow> scan step buf p s = scan step buf (Suc p) s'"
  by (simp add: scan.simps)

lemma scan_Stop: "p < length buf \<Longrightarrow> step buf p s = Stop r \<Longrightarrow> scan step buf p s = Inr r"
  by (simp add: scan.simps)

text \<open>A stretch of bytes that leave the state alone.\<close>

lemma scan_skip:
  assumes "p \<le> q" and "q \<le> length buf"
    and "\<And>i. p \<le> i \<Longrightarrow> i < q \<Longrightarrow> step buf i s = Continue s"
  shows "scan step buf p s = scan step buf q s"
  using assms
proof (induction "q - p" arbitrary: p)
  case 0
  then show ?case by simp
next
  case (Suc n)
  then have "p < q" by simp
  with Suc.prems have "scan step buf p s = scan step buf (Suc p) s"
    by (intro scan_Continue) auto
  also have "\<dots> = scan step buf q s"
    using Suc \<open>p < q\<close> by (intro Suc.hyps(1)) auto
  finally show ?case .
qed

text \<open>
  The invariant rule: what the body keeps from position to position holds when the buffer is
  exhausted, and just before the body leaves the loop.
\<close>

lemma scan_invariant:
  assumes "p \<le> length buf" and "I p s"
    and "\<And>q t t'. p \<le> q \<Longrightarrow> q < length buf \<Longrightarrow> I q t \<Longrightarrow> step buf q t = Continue t' \<Longrightarrow> I (Suc q) t'"
  shows "case scan step buf p s of
           Inl (q, t) \<Rightarrow> q = length buf \<and> I q t
         | Inr r \<Rightarrow> \<exists>q t. p \<le> q \<and> q < length buf \<and> I q t \<and> step buf q t = Stop r"
  using assms
proof (induction step buf p s rule: scan.induct)
  case (1 step buf p s)
  show ?case
  proof (cases "p < length buf")
    case False
    with "1.prems" show ?thesis by simp
  next
    case True
    show ?thesis
    proof (cases "step buf p s")
      case (Stop r)
      with True "1.prems" show ?thesis by (auto simp: scan_Stop)
    next
      case (Continue s')
      note c = this
      have "I (Suc p) s'"
        by (rule "1.prems"(3) [OF order_refl True "1.prems"(2) c])
      then have "case scan step buf (Suc p) s' of
          Inl (q, t) \<Rightarrow> q = length buf \<and> I q t
        | Inr r \<Rightarrow> \<exists>q t. Suc p \<le> q \<and> q < length buf \<and> I q t \<and> step buf q t = Stop r"
        using True by (intro "1.IH" [OF True c]) (auto intro: "1.prems"(3) Suc_leD)
      with True c show ?thesis
        by (auto simp: scan_Continue split: sum.splits intro: Suc_leD)
    qed
  qed
qed

text \<open>A relabelling of states that the body commutes with commutes with the loop.\<close>

lemma scan_map:
  assumes "\<And>q t. step buf q (f t) = map_outcome f g (step buf q t)"
  shows "scan step buf p (f s) = map_sum (map_prod id f) g (scan step buf p s)"
proof (induction "length buf - p" arbitrary: p s)
  case 0
  then show ?case by simp
next
  case (Suc n)
  then have "p < length buf" by simp
  with Suc assms [of p s] show ?case
    by (cases "step buf p s") (simp_all add: scan_Continue scan_Stop)
qed

section \<open>Resumable scanners\<close>

text \<open>
  The interface every nginx parser offers its caller: the body looks only at bytes up to and
  including the current one, so what it does is not changed by bytes that arrive later.  Then a
  buffer may be parsed in pieces.
\<close>

locale prefix_step =
  fixes step :: "'a list \<Rightarrow> nat \<Rightarrow> 's \<Rightarrow> ('s, 'r) outcome"
  assumes step_append: "p < length b \<Longrightarrow> step (b @ e) p s = step b p s"
begin

lemma scan_append:
  assumes "p \<le> length b"
  shows "scan step (b @ e) p s =
    (case scan step b p s of
       Inl (p', s') \<Rightarrow> scan step (b @ e) p' s'
     | Inr r \<Rightarrow> Inr r)"
  using assms
proof (induction "length b - p" arbitrary: p s)
  case 0
  then show ?case by simp
next
  case (Suc n)
  then have p: "p < length b" by simp
  show ?case
  proof (cases "step b p s")
    case (Continue s')
    then show ?thesis
      using Suc p by (simp add: scan_Continue step_append)
  next
    case (Stop r)
    then show ?thesis
      using p by (simp add: scan_Stop step_append)
  qed
qed

lemma scan_resume:
  "p \<le> length b \<Longrightarrow> scan step b p s = Inl (p', s') \<Longrightarrow>
   scan step (b @ e) p s = scan step (b @ e) p' s'"
  by (simp add: scan_append)

lemma scan_decided:
  "p \<le> length b \<Longrightarrow> scan step b p s = Inr r \<Longrightarrow> scan step (b @ e) p s = Inr r"
  by (simp add: scan_append)

end

end
