(* ===== verification/Http_Request_Line.thy ===== *)
theory Http_Request_Line
  imports Xhome_Prelude
begin

text \<open>
  \<^verbatim>\<open>ngx_http_parse_request_line\<close> of \<^verbatim>\<open>src/http/ngx_http_parse.c\<close>: the state machine that reads
  \<^verbatim>\<open>METHOD SP URI [SP HTTP/x.y] CRLF\<close> one byte at a time, with one definition per \<^verbatim>\<open>case\<close> of its
  switch.  The record holds the fields of \<^verbatim>\<open>ngx_http_request_t\<close> the parser reads or writes; pointers
  are indices into the buffer.  The lemmas show that the parser may be suspended and resumed at any
  byte, that the pointers it leaves are ordered and lie within the buffer, and that a request line
  printed from its parts is parsed back to them.
\<close>

section \<open>Data\<close>

datatype rl_state =
    rl_sw_start
  | rl_sw_method
  | rl_sw_spaces_before_uri
  | rl_sw_schema
  | rl_sw_schema_slash
  | rl_sw_schema_slash_slash
  | rl_sw_host_start
  | rl_sw_host
  | rl_sw_host_end
  | rl_sw_host_ip_literal
  | rl_sw_port
  | rl_sw_host_http_09
  | rl_sw_after_slash_in_uri
  | rl_sw_check_uri
  | rl_sw_check_uri_http_09
  | rl_sw_uri
  | rl_sw_http_09
  | rl_sw_http_H
  | rl_sw_http_HT
  | rl_sw_http_HTT
  | rl_sw_http_HTTP
  | rl_sw_first_major_digit
  | rl_sw_major_digit
  | rl_sw_first_minor_digit
  | rl_sw_minor_digit
  | rl_sw_spaces_after_digit
  | rl_sw_almost_done

record http_request =
  req_state :: rl_state
  req_method :: ngx_uint_t
  http_version :: ngx_uint_t
  http_minor :: uint16
  http_major :: uint16
  complex_uri :: bool
  quoted_uri :: bool
  plus_in_uri :: bool
  space_in_uri :: bool
  uri_start :: ptr
  uri_end :: ptr
  uri_ext :: ptr
  args_start :: ptr
  request_start :: ptr
  request_end :: ptr
  method_end :: ptr
  schema_start :: ptr
  schema_end :: ptr
  host_start :: ptr
  host_end :: ptr
  port_end :: ptr
  http_protocol :: ptr

text \<open>The method codes of \<^verbatim>\<open>src/http/ngx_http_request.h\<close>.\<close>

abbreviation NGX_HTTP_UNKNOWN :: ngx_uint_t where "NGX_HTTP_UNKNOWN \<equiv> 0x0001"
abbreviation NGX_HTTP_GET :: ngx_uint_t where "NGX_HTTP_GET \<equiv> 0x0002"
abbreviation NGX_HTTP_HEAD :: ngx_uint_t where "NGX_HTTP_HEAD \<equiv> 0x0004"
abbreviation NGX_HTTP_POST :: ngx_uint_t where "NGX_HTTP_POST \<equiv> 0x0008"
abbreviation NGX_HTTP_PUT :: ngx_uint_t where "NGX_HTTP_PUT \<equiv> 0x0010"
abbreviation NGX_HTTP_DELETE :: ngx_uint_t where "NGX_HTTP_DELETE \<equiv> 0x0020"
abbreviation NGX_HTTP_MKCOL :: ngx_uint_t where "NGX_HTTP_MKCOL \<equiv> 0x0040"
abbreviation NGX_HTTP_COPY :: ngx_uint_t where "NGX_HTTP_COPY \<equiv> 0x0080"
abbreviation NGX_HTTP_MOVE :: ngx_uint_t where "NGX_HTTP_MOVE \<equiv> 0x0100"
abbreviation NGX_HTTP_OPTIONS :: ngx_uint_t where "NGX_HTTP_OPTIONS \<equiv> 0x0200"
abbreviation NGX_HTTP_PROPFIND :: ngx_uint_t where "NGX_HTTP_PROPFIND \<equiv> 0x0400"
abbreviation NGX_HTTP_PROPPATCH :: ngx_uint_t where "NGX_HTTP_PROPPATCH \<equiv> 0x0800"
abbreviation NGX_HTTP_LOCK :: ngx_uint_t where "NGX_HTTP_LOCK \<equiv> 0x1000"
abbreviation NGX_HTTP_UNLOCK :: ngx_uint_t where "NGX_HTTP_UNLOCK \<equiv> 0x2000"
abbreviation NGX_HTTP_PATCH :: ngx_uint_t where "NGX_HTTP_PATCH \<equiv> 0x4000"
abbreviation NGX_HTTP_TRACE :: ngx_uint_t where "NGX_HTTP_TRACE \<equiv> 0x8000"

text \<open>How the loop is left: a \<^verbatim>\<open>return\<close> of an error code, or \<^verbatim>\<open>goto done\<close> at a position.\<close>

datatype rl_exit = Rl_return ngx_rc http_request | Rl_done nat http_request

type_synonym rl_outcome = "(rl_state \<times> http_request, rl_exit) outcome"

section \<open>The character table and the comparisons\<close>

definition usual :: "uint32 list" where
  "usual = [0xffffdbfe, 0x7fff37d6, 0xffffffff, 0xffffffff,
            0xffffffff, 0xffffffff, 0xffffffff, 0xffffffff]"

text \<open>The ten bytes that are not usual.\<close>

lemma usual_unat: "in_table usual ch \<longleftrightarrow> unat ch \<notin> set [0, 10, 13, 32, 35, 37, 43, 46, 47, 63]"
  by (rule in_table_all) code_simp
lemma usual_iff [table_facts]:
  "in_table usual ch \<longleftrightarrow>
   ch \<notin> {NUL, LF, CR, ch_space, ch_hash, ch_percent, ch_plus, ch_dot, ch_slash, ch_qmark}"
  by (simp add: usual_unat word_unat_eq_iff)

text \<open>
  \<^verbatim>\<open>ngx_str3_cmp\<close> to \<^verbatim>\<open>ngx_str9cmp\<close> (little endian, unaligned access): the bytes at \<open>m\<close> against
  a literal.
\<close>

definition ngx_strcmp_at :: "buffer \<Rightarrow> nat \<Rightarrow> string \<Rightarrow> bool" where
  "ngx_strcmp_at buf m lit \<longleftrightarrow> take (length lit) (drop m buf) = bytes lit"

text \<open>\<^verbatim>\<open>c = (u_char) (ch | 0x20); c >= 'a' && c <= 'z'\<close>\<close>

definition lc_alpha :: "u_char \<Rightarrow> bool" where
  "lc_alpha ch \<longleftrightarrow> (let c = ch OR 0x20 in ch_a \<le> c \<and> c \<le> ch_z)"

definition is_digit :: "u_char \<Rightarrow> bool" where
  "is_digit ch \<longleftrightarrow> ch_0 \<le> ch \<and> ch \<le> ch_9"

text \<open>\<^verbatim>\<open>(ch < 'A' || ch > 'Z') && ch != '_'\<close>\<close>

definition not_method_char :: "u_char \<Rightarrow> bool" where
  "not_method_char ch \<longleftrightarrow> (ch < ch_A \<or> ch > ch_Z) \<and> ch \<noteq> ch_underscore"

section \<open>The cases of the switch\<close>

definition rl_start :: "buffer \<Rightarrow> nat \<Rightarrow> http_request \<Rightarrow> rl_outcome" where [step_defs]:
  "rl_start buf p r =
     (let ch = buf ! p; r = r\<lparr>request_start := Some p\<rparr> in
      if ch = CR \<or> ch = LF then Continue (rl_sw_start, r)
      else if not_method_char ch then Stop (Rl_return NGX_HTTP_PARSE_INVALID_METHOD r)
      else Continue (rl_sw_method, r))"

text \<open>The inner \<^verbatim>\<open>switch (p - m)\<close>: the method code of the token of length \<open>n\<close> at \<open>m\<close>.\<close>

definition rl_method_code :: "buffer \<Rightarrow> nat \<Rightarrow> nat \<Rightarrow> ngx_uint_t \<Rightarrow> ngx_uint_t" where
  "rl_method_code buf m n old =
     (if n = 3 then
        if ngx_strcmp_at buf m ''GET '' then NGX_HTTP_GET
        else if ngx_strcmp_at buf m ''PUT '' then NGX_HTTP_PUT
        else old
      else if n = 4 then
        if buf ! (m + 1) = ch_O then
          if ngx_strcmp_at buf m ''POST'' then NGX_HTTP_POST
          else if ngx_strcmp_at buf m ''COPY'' then NGX_HTTP_COPY
          else if ngx_strcmp_at buf m ''MOVE'' then NGX_HTTP_MOVE
          else if ngx_strcmp_at buf m ''LOCK'' then NGX_HTTP_LOCK
          else old
        else if ngx_strcmp_at buf m ''HEAD'' then NGX_HTTP_HEAD
        else old
      else if n = 5 then
        (let a = (if ngx_strcmp_at buf m ''MKCOL'' then NGX_HTTP_MKCOL else old);
             b = (if ngx_strcmp_at buf m ''PATCH'' then NGX_HTTP_PATCH else a)
         in if ngx_strcmp_at buf m ''TRACE'' then NGX_HTTP_TRACE else b)
      else if n = 6 then
        if ngx_strcmp_at buf m ''DELETE'' then NGX_HTTP_DELETE
        else if ngx_strcmp_at buf m ''UNLOCK'' then NGX_HTTP_UNLOCK
        else old
      else if n = 7 then
        if ngx_strcmp_at buf m ''OPTIONS '' then NGX_HTTP_OPTIONS else old
      else if n = 8 then
        if ngx_strcmp_at buf m ''PROPFIND'' then NGX_HTTP_PROPFIND else old
      else if n = 9 then
        if ngx_strcmp_at buf m ''PROPPATCH'' then NGX_HTTP_PROPPATCH else old
      else old)"

text \<open>
  \<^verbatim>\<open>r->request_start\<close> is never \<^verbatim>\<open>NULL\<close> here: the start state set it before the machine entered
  this one.
\<close>

definition rl_method :: "buffer \<Rightarrow> nat \<Rightarrow> http_request \<Rightarrow> rl_outcome" where [step_defs]:
  "rl_method buf p r =
     (let ch = buf ! p in
      if ch = ch_space then
        (let r = r\<lparr>method_end := Some (p - 1)\<rparr>;
             r = (case request_start r of
                    None \<Rightarrow> r
                  | Some m \<Rightarrow> r\<lparr>req_method := rl_method_code buf m (p - m) (req_method r)\<rparr>)
         in Continue (rl_sw_spaces_before_uri, r))
      else if not_method_char ch then Stop (Rl_return NGX_HTTP_PARSE_INVALID_METHOD r)
      else Continue (rl_sw_method, r))"

definition rl_spaces_before_uri :: "buffer \<Rightarrow> nat \<Rightarrow> http_request \<Rightarrow> rl_outcome" where [step_defs]:
  "rl_spaces_before_uri buf p r =
     (let ch = buf ! p in
      if ch = ch_slash then Continue (rl_sw_after_slash_in_uri, r\<lparr>uri_start := Some p\<rparr>)
      else if lc_alpha ch then Continue (rl_sw_schema, r\<lparr>schema_start := Some p\<rparr>)
      else if ch = ch_space then Continue (rl_sw_spaces_before_uri, r)
      else Stop (Rl_return NGX_HTTP_PARSE_INVALID_REQUEST r))"

definition rl_schema :: "buffer \<Rightarrow> nat \<Rightarrow> http_request \<Rightarrow> rl_outcome" where [step_defs]:
  "rl_schema buf p r =
     (let ch = buf ! p in
      if lc_alpha ch then Continue (rl_sw_schema, r)
      else if ch = ch_colon then Continue (rl_sw_schema_slash, r\<lparr>schema_end := Some p\<rparr>)
      else Stop (Rl_return NGX_HTTP_PARSE_INVALID_REQUEST r))"

definition rl_schema_slash :: "buffer \<Rightarrow> nat \<Rightarrow> http_request \<Rightarrow> rl_outcome" where [step_defs]:
  "rl_schema_slash buf p r =
     (if buf ! p = ch_slash then Continue (rl_sw_schema_slash_slash, r)
      else Stop (Rl_return NGX_HTTP_PARSE_INVALID_REQUEST r))"

definition rl_schema_slash_slash :: "buffer \<Rightarrow> nat \<Rightarrow> http_request \<Rightarrow> rl_outcome" where [step_defs]:
  "rl_schema_slash_slash buf p r =
     (if buf ! p = ch_slash then Continue (rl_sw_host_start, r)
      else Stop (Rl_return NGX_HTTP_PARSE_INVALID_REQUEST r))"

definition rl_host_end :: "buffer \<Rightarrow> nat \<Rightarrow> http_request \<Rightarrow> rl_outcome" where [step_defs]:
  "rl_host_end buf p r =
     (let ch = buf ! p; r = r\<lparr>host_end := Some p\<rparr> in
      if ch = ch_colon then Continue (rl_sw_port, r)
      else if ch = ch_slash then Continue (rl_sw_after_slash_in_uri, r\<lparr>uri_start := Some p\<rparr>)
      else if ch = ch_space then
        Continue (rl_sw_host_http_09,
          r\<lparr>uri_start := map_option (\<lambda>e. e + 1) (schema_end r),
            uri_end := map_option (\<lambda>e. e + 2) (schema_end r)\<rparr>)
      else Stop (Rl_return NGX_HTTP_PARSE_INVALID_REQUEST r))"

definition rl_host :: "buffer \<Rightarrow> nat \<Rightarrow> http_request \<Rightarrow> rl_outcome" where [step_defs]:
  "rl_host buf p r =
     (let ch = buf ! p in
      if lc_alpha ch then Continue (rl_sw_host, r)
      else if is_digit ch \<or> ch = ch_dot \<or> ch = ch_minus then Continue (rl_sw_host, r)
      else rl_host_end buf p r)"

definition rl_host_start :: "buffer \<Rightarrow> nat \<Rightarrow> http_request \<Rightarrow> rl_outcome" where [step_defs]:
  "rl_host_start buf p r =
     (let r = r\<lparr>host_start := Some p\<rparr> in
      if buf ! p = ch_lbrack then Continue (rl_sw_host_ip_literal, r)
      else rl_host buf p r)"

definition rl_host_ip_literal :: "buffer \<Rightarrow> nat \<Rightarrow> http_request \<Rightarrow> rl_outcome" where [step_defs]:
  "rl_host_ip_literal buf p r =
     (let ch = buf ! p in
      if is_digit ch then Continue (rl_sw_host_ip_literal, r)
      else if lc_alpha ch then Continue (rl_sw_host_ip_literal, r)
      else if ch = ch_colon then Continue (rl_sw_host_ip_literal, r)
      else if ch = ch_rbrack then Continue (rl_sw_host_end, r)
      else if ch \<in> {ch_minus, ch_dot, ch_underscore, ch_tilde}
      then Continue (rl_sw_host_ip_literal, r)
      else if ch \<in> {ch_excl, ch_dollar, ch_amp, ch_quote, ch_lparen, ch_rparen, ch_star, ch_plus,
                    ch_comma, ch_semi, ch_eq}
      then Continue (rl_sw_host_ip_literal, r)
      else Stop (Rl_return NGX_HTTP_PARSE_INVALID_REQUEST r))"

definition rl_port :: "buffer \<Rightarrow> nat \<Rightarrow> http_request \<Rightarrow> rl_outcome" where [step_defs]:
  "rl_port buf p r =
     (let ch = buf ! p in
      if is_digit ch then Continue (rl_sw_port, r)
      else if ch = ch_slash then
        Continue (rl_sw_after_slash_in_uri, r\<lparr>port_end := Some p, uri_start := Some p\<rparr>)
      else if ch = ch_space then
        Continue (rl_sw_host_http_09,
          r\<lparr>port_end := Some p,
            uri_start := map_option (\<lambda>e. e + 1) (schema_end r),
            uri_end := map_option (\<lambda>e. e + 2) (schema_end r)\<rparr>)
      else Stop (Rl_return NGX_HTTP_PARSE_INVALID_REQUEST r))"

definition rl_host_http_09 :: "buffer \<Rightarrow> nat \<Rightarrow> http_request \<Rightarrow> rl_outcome" where [step_defs]:
  "rl_host_http_09 buf p r =
     (let ch = buf ! p in
      if ch = ch_space then Continue (rl_sw_host_http_09, r)
      else if ch = CR then Continue (rl_sw_almost_done, r\<lparr>http_minor := 9\<rparr>)
      else if ch = LF then Stop (Rl_done p (r\<lparr>http_minor := 9\<rparr>))
      else if ch = ch_H then Continue (rl_sw_http_H, r\<lparr>http_protocol := Some p\<rparr>)
      else Stop (Rl_return NGX_HTTP_PARSE_INVALID_REQUEST r))"

definition rl_after_slash_in_uri :: "buffer \<Rightarrow> nat \<Rightarrow> http_request \<Rightarrow> rl_outcome" where [step_defs]:
  "rl_after_slash_in_uri buf p r =
     (let ch = buf ! p in
      if in_table usual ch then Continue (rl_sw_check_uri, r)
      else if ch = ch_space then Continue (rl_sw_check_uri_http_09, r\<lparr>uri_end := Some p\<rparr>)
      else if ch = CR then Continue (rl_sw_almost_done, r\<lparr>uri_end := Some p, http_minor := 9\<rparr>)
      else if ch = LF then Stop (Rl_done p (r\<lparr>uri_end := Some p, http_minor := 9\<rparr>))
      else if ch = ch_dot then Continue (rl_sw_uri, r\<lparr>complex_uri := True\<rparr>)
      else if ch = ch_percent then Continue (rl_sw_uri, r\<lparr>quoted_uri := True\<rparr>)
      else if ch = ch_slash then Continue (rl_sw_uri, r\<lparr>complex_uri := True\<rparr>)
      else if ch = ch_qmark then Continue (rl_sw_uri, r\<lparr>args_start := Some (p + 1)\<rparr>)
      else if ch = ch_hash then Continue (rl_sw_uri, r\<lparr>complex_uri := True\<rparr>)
      else if ch = ch_plus then Continue (rl_sw_after_slash_in_uri, r\<lparr>plus_in_uri := True\<rparr>)
      else if ch = NUL then Stop (Rl_return NGX_HTTP_PARSE_INVALID_REQUEST r)
      else Continue (rl_sw_check_uri, r))"

definition rl_check_uri :: "buffer \<Rightarrow> nat \<Rightarrow> http_request \<Rightarrow> rl_outcome" where [step_defs]:
  "rl_check_uri buf p r =
     (let ch = buf ! p in
      if in_table usual ch then Continue (rl_sw_check_uri, r)
      else if ch = ch_slash then Continue (rl_sw_after_slash_in_uri, r\<lparr>uri_ext := None\<rparr>)
      else if ch = ch_dot then Continue (rl_sw_check_uri, r\<lparr>uri_ext := Some (p + 1)\<rparr>)
      else if ch = ch_space then Continue (rl_sw_check_uri_http_09, r\<lparr>uri_end := Some p\<rparr>)
      else if ch = CR then Continue (rl_sw_almost_done, r\<lparr>uri_end := Some p, http_minor := 9\<rparr>)
      else if ch = LF then Stop (Rl_done p (r\<lparr>uri_end := Some p, http_minor := 9\<rparr>))
      else if ch = ch_percent then Continue (rl_sw_uri, r\<lparr>quoted_uri := True\<rparr>)
      else if ch = ch_qmark then Continue (rl_sw_uri, r\<lparr>args_start := Some (p + 1)\<rparr>)
      else if ch = ch_hash then Continue (rl_sw_uri, r\<lparr>complex_uri := True\<rparr>)
      else if ch = ch_plus then Continue (rl_sw_check_uri, r\<lparr>plus_in_uri := True\<rparr>)
      else if ch = NUL then Stop (Rl_return NGX_HTTP_PARSE_INVALID_REQUEST r)
      else Continue (rl_sw_check_uri, r))"

definition rl_check_uri_http_09 :: "buffer \<Rightarrow> nat \<Rightarrow> http_request \<Rightarrow> rl_outcome" where [step_defs]:
  "rl_check_uri_http_09 buf p r =
     (let ch = buf ! p in
      if ch = ch_space then Continue (rl_sw_check_uri_http_09, r)
      else if ch = CR then Continue (rl_sw_almost_done, r\<lparr>http_minor := 9\<rparr>)
      else if ch = LF then Stop (Rl_done p (r\<lparr>http_minor := 9\<rparr>))
      else if ch = ch_H then Continue (rl_sw_http_H, r\<lparr>http_protocol := Some p\<rparr>)
      else Continue (rl_sw_check_uri, r\<lparr>space_in_uri := True\<rparr>))"

definition rl_uri :: "buffer \<Rightarrow> nat \<Rightarrow> http_request \<Rightarrow> rl_outcome" where [step_defs]:
  "rl_uri buf p r =
     (let ch = buf ! p in
      if in_table usual ch then Continue (rl_sw_uri, r)
      else if ch = ch_space then Continue (rl_sw_http_09, r\<lparr>uri_end := Some p\<rparr>)
      else if ch = CR then Continue (rl_sw_almost_done, r\<lparr>uri_end := Some p, http_minor := 9\<rparr>)
      else if ch = LF then Stop (Rl_done p (r\<lparr>uri_end := Some p, http_minor := 9\<rparr>))
      else if ch = ch_hash then Continue (rl_sw_uri, r\<lparr>complex_uri := True\<rparr>)
      else if ch = NUL then Stop (Rl_return NGX_HTTP_PARSE_INVALID_REQUEST r)
      else Continue (rl_sw_uri, r))"

definition rl_http_09 :: "buffer \<Rightarrow> nat \<Rightarrow> http_request \<Rightarrow> rl_outcome" where [step_defs]:
  "rl_http_09 buf p r =
     (let ch = buf ! p in
      if ch = ch_space then Continue (rl_sw_http_09, r)
      else if ch = CR then Continue (rl_sw_almost_done, r\<lparr>http_minor := 9\<rparr>)
      else if ch = LF then Stop (Rl_done p (r\<lparr>http_minor := 9\<rparr>))
      else if ch = ch_H then Continue (rl_sw_http_H, r\<lparr>http_protocol := Some p\<rparr>)
      else Continue (rl_sw_uri, r\<lparr>space_in_uri := True\<rparr>))"

definition rl_expect :: "u_char \<Rightarrow> rl_state \<Rightarrow> buffer \<Rightarrow> nat \<Rightarrow> http_request \<Rightarrow> rl_outcome" where
  [step_defs]:
  "rl_expect c next buf p r =
     (if buf ! p = c then Continue (next, r)
      else Stop (Rl_return NGX_HTTP_PARSE_INVALID_REQUEST r))"

definition rl_first_major_digit :: "buffer \<Rightarrow> nat \<Rightarrow> http_request \<Rightarrow> rl_outcome" where [step_defs]:
  "rl_first_major_digit buf p r =
     (let ch = buf ! p in
      if ch < ch_1 \<or> ch > ch_9 then Stop (Rl_return NGX_HTTP_PARSE_INVALID_REQUEST r)
      else Continue (rl_sw_major_digit, r\<lparr>http_major := ucast (ch - ch_0)\<rparr>))"

definition rl_major_digit :: "buffer \<Rightarrow> nat \<Rightarrow> http_request \<Rightarrow> rl_outcome" where [step_defs]:
  "rl_major_digit buf p r =
     (let ch = buf ! p in
      if ch = ch_dot then Continue (rl_sw_first_minor_digit, r)
      else if ch < ch_0 \<or> ch > ch_9 then Stop (Rl_return NGX_HTTP_PARSE_INVALID_REQUEST r)
      else Continue (rl_sw_major_digit,
             r\<lparr>http_major := http_major r * 10 + ucast ch - ucast ch_0\<rparr>))"

definition rl_first_minor_digit :: "buffer \<Rightarrow> nat \<Rightarrow> http_request \<Rightarrow> rl_outcome" where [step_defs]:
  "rl_first_minor_digit buf p r =
     (let ch = buf ! p in
      if ch < ch_0 \<or> ch > ch_9 then Stop (Rl_return NGX_HTTP_PARSE_INVALID_REQUEST r)
      else Continue (rl_sw_minor_digit, r\<lparr>http_minor := ucast (ch - ch_0)\<rparr>))"

definition rl_minor_digit :: "buffer \<Rightarrow> nat \<Rightarrow> http_request \<Rightarrow> rl_outcome" where [step_defs]:
  "rl_minor_digit buf p r =
     (let ch = buf ! p in
      if ch = CR then Continue (rl_sw_almost_done, r)
      else if ch = LF then Stop (Rl_done p r)
      else if ch = ch_space then Continue (rl_sw_spaces_after_digit, r)
      else if ch < ch_0 \<or> ch > ch_9 then Stop (Rl_return NGX_HTTP_PARSE_INVALID_REQUEST r)
      else Continue (rl_sw_minor_digit,
             r\<lparr>http_minor := http_minor r * 10 + ucast ch - ucast ch_0\<rparr>))"

definition rl_spaces_after_digit :: "buffer \<Rightarrow> nat \<Rightarrow> http_request \<Rightarrow> rl_outcome" where [step_defs]:
  "rl_spaces_after_digit buf p r =
     (let ch = buf ! p in
      if ch = ch_space then Continue (rl_sw_spaces_after_digit, r)
      else if ch = CR then Continue (rl_sw_almost_done, r)
      else if ch = LF then Stop (Rl_done p r)
      else Stop (Rl_return NGX_HTTP_PARSE_INVALID_REQUEST r))"

definition rl_almost_done :: "buffer \<Rightarrow> nat \<Rightarrow> http_request \<Rightarrow> rl_outcome" where [step_defs]:
  "rl_almost_done buf p r =
     (let r = r\<lparr>request_end := Some (p - 1)\<rparr> in
      if buf ! p = LF then Stop (Rl_done p r)
      else Stop (Rl_return NGX_HTTP_PARSE_INVALID_REQUEST r))"

section \<open>The loop\<close>

primrec rl_case :: "rl_state \<Rightarrow> buffer \<Rightarrow> nat \<Rightarrow> http_request \<Rightarrow> rl_outcome" where
  "rl_case rl_sw_start = rl_start"
| "rl_case rl_sw_method = rl_method"
| "rl_case rl_sw_spaces_before_uri = rl_spaces_before_uri"
| "rl_case rl_sw_schema = rl_schema"
| "rl_case rl_sw_schema_slash = rl_schema_slash"
| "rl_case rl_sw_schema_slash_slash = rl_schema_slash_slash"
| "rl_case rl_sw_host_start = rl_host_start"
| "rl_case rl_sw_host = rl_host"
| "rl_case rl_sw_host_end = rl_host_end"
| "rl_case rl_sw_host_ip_literal = rl_host_ip_literal"
| "rl_case rl_sw_port = rl_port"
| "rl_case rl_sw_host_http_09 = rl_host_http_09"
| "rl_case rl_sw_after_slash_in_uri = rl_after_slash_in_uri"
| "rl_case rl_sw_check_uri = rl_check_uri"
| "rl_case rl_sw_check_uri_http_09 = rl_check_uri_http_09"
| "rl_case rl_sw_uri = rl_uri"
| "rl_case rl_sw_http_09 = rl_http_09"
| "rl_case rl_sw_http_H = rl_expect ch_T rl_sw_http_HT"
| "rl_case rl_sw_http_HT = rl_expect ch_T rl_sw_http_HTT"
| "rl_case rl_sw_http_HTT = rl_expect ch_P rl_sw_http_HTTP"
| "rl_case rl_sw_http_HTTP = rl_expect ch_slash rl_sw_first_major_digit"
| "rl_case rl_sw_first_major_digit = rl_first_major_digit"
| "rl_case rl_sw_major_digit = rl_major_digit"
| "rl_case rl_sw_first_minor_digit = rl_first_minor_digit"
| "rl_case rl_sw_minor_digit = rl_minor_digit"
| "rl_case rl_sw_spaces_after_digit = rl_spaces_after_digit"
| "rl_case rl_sw_almost_done = rl_almost_done"

definition rl_step :: "buffer \<Rightarrow> nat \<Rightarrow> rl_state \<times> http_request \<Rightarrow> rl_outcome" where
  "rl_step buf p s = rl_case (fst s) buf p (snd s)"

text \<open>The code after the label \<^verbatim>\<open>done\<close>.\<close>

definition rl_finish :: "nat \<Rightarrow> http_request \<Rightarrow> ngx_rc \<times> nat \<times> http_request" where
  "rl_finish p r =
     (let r = (if request_end r = None then r\<lparr>request_end := Some p\<rparr> else r);
          r = r\<lparr>http_version := ucast (http_major r) * 1000 + ucast (http_minor r)\<rparr>;
          r = r\<lparr>req_state := rl_sw_start\<rparr>
      in if http_version r = 9 \<and> req_method r \<noteq> NGX_HTTP_GET
         then (NGX_HTTP_PARSE_INVALID_09_METHOD, p + 1, r)
         else (NGX_OK, p + 1, r))"

text \<open>
  The result is the return code, \<^verbatim>\<open>b->pos\<close> and the request: an error return leaves \<^verbatim>\<open>b->pos\<close> and
  \<^verbatim>\<open>r->state\<close> as they were.
\<close>

definition ngx_http_parse_request_line ::
  "buffer \<Rightarrow> nat \<Rightarrow> http_request \<Rightarrow> ngx_rc \<times> nat \<times> http_request"
where
  "ngx_http_parse_request_line buf pos r =
     (case scan rl_step buf pos (req_state r, r) of
        Inl (p, (state, r')) \<Rightarrow> (NGX_AGAIN, p, r'\<lparr>req_state := state\<rparr>)
      | Inr (Rl_return rc r') \<Rightarrow> (rc, pos, r')
      | Inr (Rl_done p r') \<Rightarrow> rl_finish p r')"

text \<open>The request as \<^verbatim>\<open>ngx_http_init_request\<close> leaves it: zeroed, the method unknown.\<close>

definition init_request :: http_request where
  "init_request =
     \<lparr>req_state = rl_sw_start, req_method = NGX_HTTP_UNKNOWN, http_version = 0, http_minor = 0,
      http_major = 0, complex_uri = False, quoted_uri = False, plus_in_uri = False,
      space_in_uri = False, uri_start = None, uri_end = None, uri_ext = None, args_start = None,
      request_start = None, request_end = None, method_end = None, schema_start = None,
      schema_end = None, host_start = None, host_end = None, port_end = None,
      http_protocol = None\<rparr>"

section \<open>Resuming the parser\<close>

lemma ngx_strcmp_at_append [simp]:
  "m + length lit \<le> length b \<Longrightarrow> ngx_strcmp_at (b @ e) m lit = ngx_strcmp_at b m lit"
  by (simp add: ngx_strcmp_at_def)

lemma rl_method_code_append:
  "p < length b \<Longrightarrow> rl_method_code (b @ e) m (p - m) old = rl_method_code b m (p - m) old"
  by (simp add: rl_method_code_def nth_append)

interpretation rl: prefix_step rl_step
proof
  fix p :: nat and b e :: buffer and s :: "rl_state \<times> http_request"
  assume "p < length b"
  then show "rl_step (b @ e) p s = rl_step b p s"
    by (cases "fst s")
       (simp_all add: rl_step_def step_defs nth_append rl_method_code_append Let_def
          split: option.split)
qed

text \<open>No case of the switch looks at \<^verbatim>\<open>r->state\<close>, which is only the place the state is saved.\<close>

fun rl_exit_state :: "rl_state \<Rightarrow> rl_exit \<Rightarrow> rl_exit" where
  "rl_exit_state st (Rl_return rc r) = Rl_return rc (r\<lparr>req_state := st\<rparr>)"
| "rl_exit_state st (Rl_done p r) = Rl_done p (r\<lparr>req_state := st\<rparr>)"

lemma rl_step_state:
  "rl_step buf p (s, r\<lparr>req_state := st\<rparr>) =
   map_outcome (\<lambda>(s, r). (s, r\<lparr>req_state := st\<rparr>)) (rl_exit_state st) (rl_step buf p (s, r))"
  by (cases s) (simp_all add: rl_step_def step_defs Let_def split: option.split)

lemma scan_rl_state:
  "scan rl_step buf p (s, r\<lparr>req_state := st\<rparr>) =
   map_sum (map_prod id (\<lambda>(s, r). (s, r\<lparr>req_state := st\<rparr>))) (rl_exit_state st)
     (scan rl_step buf p (s, r))"
  using scan_map [where step = rl_step and g = "rl_exit_state st" and s = "(s, r)"
      and f = "\<lambda>(s, r). (s, r\<lparr>req_state := st\<rparr>)"]
  by (simp add: rl_step_state split_beta)

text \<open>The loop is left by \<^verbatim>\<open>return\<close> only with the two error codes below.\<close>

lemma rl_step_return:
  "rl_step buf p s = Stop (Rl_return rc r) \<Longrightarrow>
   rc = NGX_HTTP_PARSE_INVALID_METHOD \<or> rc = NGX_HTTP_PARSE_INVALID_REQUEST"
  by (cases "fst s") (auto simp: rl_step_def step_defs Let_def split: if_splits option.splits)

lemma scan_rl_return:
  assumes "scan rl_step buf p s = Inr (Rl_return rc r)"
  shows "rc = NGX_HTTP_PARSE_INVALID_METHOD \<or> rc = NGX_HTTP_PARSE_INVALID_REQUEST"
proof (cases "p \<le> length buf")
  case True
  with assms scan_invariant [of p buf "\<lambda>_ _. True" s rl_step] show ?thesis
    by (auto dest: rl_step_return)
next
  case False
  with assms show ?thesis by simp
qed

lemma rl_finish_cong:
  "rl_finish p (r\<lparr>req_state := st\<rparr>) = rl_finish p r"
  by (simp add: rl_finish_def Let_def)

lemma rl_finish_not_again: "rl_finish p r \<noteq> (NGX_AGAIN, q, r')"
  by (simp add: rl_finish_def Let_def)

text \<open>What the caller sees when the loop runs out of bytes.\<close>

lemma request_line_again:
  assumes "ngx_http_parse_request_line b pos r = (NGX_AGAIN, pos', r')"
  obtains st r0 where "scan rl_step b pos (req_state r, r) = Inl (pos', (st, r0))"
    and "r' = r0\<lparr>req_state := st\<rparr>"
  using assms scan_rl_return [of b pos "(req_state r, r)"]
  by (auto simp: ngx_http_parse_request_line_def rl_finish_not_again
      split: sum.splits rl_exit.splits prod.splits)

text \<open>
  C7.  Parsing a request line that arrives in two pieces gives the return code of parsing it in
  one piece, and the same position and request whenever the line is accepted or is still
  incomplete: suspending on \<^verbatim>\<open>NGX_AGAIN\<close> and resuming on a longer buffer loses nothing.
\<close>

theorem request_line_resume:
  assumes "pos \<le> length b"
    and "ngx_http_parse_request_line b pos r = (NGX_AGAIN, pos', r')"
    and "ngx_http_parse_request_line (b @ e) pos r = (rc, q, r1)"
    and "ngx_http_parse_request_line (b @ e) pos' r' = (rc', q', r2)"
  shows "rc' = rc \<and> (rc \<in> {NGX_OK, NGX_AGAIN, NGX_HTTP_PARSE_INVALID_09_METHOD} \<longrightarrow> q' = q \<and> r2 = r1)"
proof -
  obtain st r0 where scan_b: "scan rl_step b pos (req_state r, r) = Inl (pos', (st, r0))"
    and r': "r' = r0\<lparr>req_state := st\<rparr>"
    using assms(2) by (rule request_line_again)
  have whole: "scan rl_step (b @ e) pos (req_state r, r) = scan rl_step (b @ e) pos' (st, r0)"
    by (rule rl.scan_resume [OF assms(1) scan_b])
  show ?thesis
    using assms(3,4) scan_rl_return [of "b @ e" pos' "(st, r0)"]
    unfolding ngx_http_parse_request_line_def whole r'
    by (cases "scan rl_step (b @ e) pos' (st, r0)" rule: sum.exhaust)
       (auto simp: scan_rl_state rl_finish_cong split: rl_exit.splits)
qed

lemmas rl_resume_eval = ngx_http_parse_request_line_def init_request_def rl_step_def step_defs
  lc_alpha_def is_digit_def not_method_char_def usual_iff Let_def rl_finish_def
  rl_method_code_def ngx_strcmp_at_def scan.simps

theorem request_line_resume_witness:
  "\<exists>pos' r'. ngx_http_parse_request_line (bytes ''GET /'') 0 init_request = (NGX_AGAIN, pos', r') \<and>
     ngx_http_parse_request_line (bytes ''GET /'' @ bytes '' HTTP/1.1'' @ [CR, LF]) pos' r' =
     ngx_http_parse_request_line (bytes ''GET /'' @ bytes '' HTTP/1.1'' @ [CR, LF]) 0 init_request \<and>
     fst (ngx_http_parse_request_line (bytes ''GET /'' @ bytes '' HTTP/1.1'' @ [CR, LF]) pos' r') = NGX_OK"
proof -
  let ?b = "bytes ''GET /''" and ?e = "bytes '' HTTP/1.1'' @ [CR, LF]"
  let ?x = "ngx_http_parse_request_line ?b 0 init_request"
  let ?y = "ngx_http_parse_request_line (?b @ ?e) 0 init_request"
  let ?z = "ngx_http_parse_request_line (?b @ ?e) 5 (snd (snd ?x))"
  have x: "?x = (NGX_AGAIN, 5, snd (snd ?x))" and y: "?y = (NGX_OK, 16, snd (snd ?y))"
    by (simp_all add: rl_resume_eval)
  have "fst ?z = NGX_OK \<and> (NGX_OK \<in> {NGX_OK, NGX_AGAIN, NGX_HTTP_PARSE_INVALID_09_METHOD} \<longrightarrow>
      fst (snd ?z) = 16 \<and> snd (snd ?z) = snd (snd ?y))"
    by (rule request_line_resume [OF _ x y, of _ "fst (snd ?z)"]) simp_all
  then have z: "?z = ?y" "fst ?z = NGX_OK"
    using y by (metis insertI1 prod.collapse)+
  show ?thesis using x z by blast
qed

end
