(* ===== verification/Http_Request_Line_Safety.thy ===== *)
theory Http_Request_Line_Safety
  imports Http_Request_Line
begin

text \<open>
  What an accepted request line guarantees to \<^verbatim>\<open>ngx_http_process_request_line\<close>: the pointers the
  parser leaves are ordered and inside the buffer, those of the scheme, host and port included; a URI
  it does not flag for normalisation (\<^verbatim>\<open>complex_uri\<close>, \<^verbatim>\<open>quoted_uri\<close>) and that has no unescaped space is
  free of control bytes, escapes, fragments and of dot and double-slash segments; a line printed from
  a method, a path, arguments and a version is parsed back to them.  The invariants are carried from
  byte to byte by the scanning rule of the prelude.
\<close>

section \<open>Where the pointers are\<close>

text \<open>After the method: its token lies before \<open>p\<close> and is followed by a space.\<close>

definition method_ptrs :: "nat \<Rightarrow> nat \<Rightarrow> ptr \<Rightarrow> ptr \<Rightarrow> ptr \<Rightarrow> bool" where
  "method_ptrs pos p rs me re \<longleftrightarrow>
     re = None \<and> (\<exists>m n. rs = Some m \<and> me = Some n \<and> pos \<le> m \<and> m \<le> n \<and> n + 1 < p)"

text \<open>Inside the URI: it starts with a slash after the method; arguments and extension follow.\<close>

definition uri_ptrs :: "buffer \<Rightarrow> nat \<Rightarrow> ptr \<Rightarrow> ptr \<Rightarrow> ptr \<Rightarrow> ptr \<Rightarrow> bool" where
  "uri_ptrs buf p me us as ext \<longleftrightarrow>
     (\<exists>u. us = Some u \<and> the me < u \<and> u < p \<and> buf ! u = ch_slash \<and>
        (\<forall>a. as = Some a \<longrightarrow> u < a \<and> a \<le> p \<and> buf ! (a - 1) = ch_qmark) \<and>
        (\<forall>x. ext = Some x \<longrightarrow> u < x \<and> x \<le> p))"

definition end_ptrs :: "buffer \<Rightarrow> nat \<Rightarrow> ptr \<Rightarrow> ptr \<Rightarrow> ptr \<Rightarrow> ptr \<Rightarrow> ptr \<Rightarrow> bool" where
  "end_ptrs buf p me us ue as ext \<longleftrightarrow>
     (\<exists>e. ue = Some e \<and> e < p \<and> uri_ptrs buf e me us as ext)"

definition schema_ptrs :: "buffer \<Rightarrow> nat \<Rightarrow> ptr \<Rightarrow> ptr \<Rightarrow> bool" where
  "schema_ptrs buf p me se \<longleftrightarrow>
     (\<exists>e. se = Some e \<and> the me < e \<and> e + 2 < p \<and> buf ! (e + 1) = ch_slash)"

lemma method_ptrs_Suc: "method_ptrs pos p rs me re \<Longrightarrow> method_ptrs pos (Suc p) rs me re"
  by (auto simp: method_ptrs_def)
lemma schema_ptrs_Suc: "schema_ptrs buf p me se \<Longrightarrow> schema_ptrs buf (Suc p) me se"
  by (auto simp: schema_ptrs_def)

lemma uri_ptrs_Suc:
  "uri_ptrs buf p me us as ext \<Longrightarrow> uri_ptrs buf (Suc p) me us as ext"
  "uri_ptrs buf p me us as ext \<Longrightarrow> uri_ptrs buf (Suc p) me us as None"
  "uri_ptrs buf p me us as ext \<Longrightarrow> buf ! p = ch_qmark \<Longrightarrow> uri_ptrs buf (Suc p) me us (Some (Suc p)) ext"
  "uri_ptrs buf p me us as ext \<Longrightarrow> uri_ptrs buf (Suc p) me us as (Some (Suc p))"
  by (auto simp: uri_ptrs_def)

lemma uri_ptrs_start:
  "method_ptrs pos p rs me re \<Longrightarrow> buf ! p = ch_slash \<Longrightarrow> uri_ptrs buf (Suc p) me (Some p) None None"
  by (auto simp: uri_ptrs_def method_ptrs_def)

lemma end_ptrs_now: "uri_ptrs buf p me us as ext \<Longrightarrow> end_ptrs buf (Suc p) me us (Some p) as ext"
  by (auto simp: end_ptrs_def)

lemma end_ptrs_Suc: "end_ptrs buf p me us ue as ext \<Longrightarrow> end_ptrs buf (Suc p) me us ue as ext"
  by (auto simp: end_ptrs_def)

lemma end_ptrs_schema:
  "schema_ptrs buf p me se \<Longrightarrow>
   end_ptrs buf (Suc p) me (map_option (\<lambda>e. e + 1) se) (map_option (\<lambda>e. e + 2) se) None None"
  by (auto simp: end_ptrs_def schema_ptrs_def uri_ptrs_def)

lemma end_ptrs_uri: "end_ptrs buf p me us ue as ext \<Longrightarrow> uri_ptrs buf (Suc p) me us as ext"
  by (fastforce simp: end_ptrs_def uri_ptrs_def)

lemmas ptrs_intros = method_ptrs_Suc schema_ptrs_Suc uri_ptrs_Suc uri_ptrs_start end_ptrs_now end_ptrs_Suc
  end_ptrs_schema [simplified] end_ptrs_uri

fun rl_ptrs :: "nat \<Rightarrow> buffer \<Rightarrow> nat \<Rightarrow> rl_state \<times> http_request \<Rightarrow> bool" where
  "rl_ptrs pos buf p (st, r) =
    (if st = rl_sw_start then
       pos \<le> p \<and> args_start r = None \<and> uri_ext r = None \<and> request_end r = None
     else if st = rl_sw_method then
       (\<exists>m. request_start r = Some m \<and> pos \<le> m \<and> m < p) \<and>
       args_start r = None \<and> uri_ext r = None \<and> request_end r = None
     else method_ptrs pos p (request_start r) (method_end r) (request_end r) \<and>
       (if st \<in> {rl_sw_spaces_before_uri, rl_sw_schema} then
          args_start r = None \<and> uri_ext r = None
        else if st = rl_sw_schema_slash then args_start r = None \<and> uri_ext r = None \<and>
          (\<exists>e. schema_end r = Some e \<and> the (method_end r) < e \<and> p = e + 1)
        else if st = rl_sw_schema_slash_slash then args_start r = None \<and> uri_ext r = None \<and>
          (\<exists>e. schema_end r = Some e \<and> the (method_end r) < e \<and> p = e + 2 \<and> buf ! (e + 1) = ch_slash)
        else if st \<in> {rl_sw_host_start, rl_sw_host, rl_sw_host_end, rl_sw_host_ip_literal, rl_sw_port} then
          args_start r = None \<and> uri_ext r = None \<and> schema_ptrs buf p (method_end r) (schema_end r)
        else if st \<in> {rl_sw_after_slash_in_uri, rl_sw_check_uri, rl_sw_uri} then
          uri_ptrs buf p (method_end r) (uri_start r) (args_start r) (uri_ext r)
        else end_ptrs buf p (method_end r) (uri_start r) (uri_end r) (args_start r) (uri_ext r)))"

lemma rl_ptrs_step:
  assumes "rl_ptrs pos buf p (st, r)" "rl_case st buf p r = Continue s'"
  shows "rl_ptrs pos buf (Suc p) s'"
proof (cases "st \<in> {rl_sw_start, rl_sw_method, rl_sw_schema, rl_sw_schema_slash, rl_sw_schema_slash_slash}")
  case True
  with assms show ?thesis
    by (auto simp: step_defs Let_def method_ptrs_def schema_ptrs_def split: if_splits)
next
  case False
  with assms show ?thesis
    by (cases st) (auto simp: step_defs Let_def intro: ptrs_intros split: if_splits)
qed

section \<open>Where the host is\<close>

text \<open>
  In the absolute form the scheme follows the method, the host follows the two slashes, and the port,
  when there is a colon, follows the host.
\<close>

definition schema_at :: "buffer \<Rightarrow> nat \<Rightarrow> ptr \<Rightarrow> ptr \<Rightarrow> ptr \<Rightarrow> bool" where
  "schema_at buf p me ss se \<longleftrightarrow> (\<exists>s e. ss = Some s \<and> se = Some e \<and> the me < s \<and> s < e \<and> e + 2 < p \<and>
     buf ! e = ch_colon \<and> buf ! (e + 1) = ch_slash \<and> buf ! (e + 2) = ch_slash)"

definition host_at :: "buffer \<Rightarrow> nat \<Rightarrow> ptr \<Rightarrow> ptr \<Rightarrow> bool" where
  "host_at buf h se hs \<longleftrightarrow> (\<exists>k. hs = Some k \<and> k = the se + 3 \<and> k \<le> h \<and>
     (\<forall>i. k \<le> i \<and> i < h \<longrightarrow> buf ! i \<notin> {ch_slash, ch_space}))"

definition port_at :: "buffer \<Rightarrow> nat \<Rightarrow> nat \<Rightarrow> bool" where
  "port_at buf h k \<longleftrightarrow> h < k \<and> buf ! h = ch_colon \<and> (\<forall>i. h < i \<and> i < k \<longrightarrow> is_digit (buf ! i))"

text \<open>The host and the port up to \<open>a\<close>, which is the slash or the space behind them.\<close>

definition authority_at :: "buffer \<Rightarrow> nat \<Rightarrow> ptr \<Rightarrow> ptr \<Rightarrow> ptr \<Rightarrow> ptr \<Rightarrow> bool" where
  "authority_at buf a se hs he pe \<longleftrightarrow> (\<exists>h. he = Some h \<and> host_at buf h se hs \<and>
     (pe = None \<and> a = h \<or> pe = Some a \<and> port_at buf h a))"

definition no_authority :: "ptr \<Rightarrow> ptr \<Rightarrow> ptr \<Rightarrow> ptr \<Rightarrow> ptr \<Rightarrow> bool" where
  "no_authority ss se hs he pe \<longleftrightarrow> ss = None \<and> se = None \<and> hs = None \<and> he = None \<and> pe = None"

definition uri_form :: "buffer \<Rightarrow> nat \<Rightarrow> ptr \<Rightarrow> ptr \<Rightarrow> ptr \<Rightarrow> ptr \<Rightarrow> ptr \<Rightarrow> ptr \<Rightarrow> ptr \<Rightarrow> bool" where
  "uri_form buf p me ss se hs he pe us \<longleftrightarrow> no_authority ss se hs he pe \<or>
     (\<exists>a. us = Some a \<and> a < p \<and> schema_at buf p me ss se \<and> authority_at buf a se hs he pe)"

text \<open>With nothing behind the host, the URI is the second slash of the scheme.\<close>

definition bare_form ::
  "buffer \<Rightarrow> nat \<Rightarrow> ptr \<Rightarrow> ptr \<Rightarrow> ptr \<Rightarrow> ptr \<Rightarrow> ptr \<Rightarrow> ptr \<Rightarrow> ptr \<Rightarrow> ptr \<Rightarrow> bool"
where
  "bare_form buf p me ss se hs he pe us ue \<longleftrightarrow>
     (\<exists>a e. se = Some e \<and> us = Some (e + 1) \<and> ue = Some (e + 2) \<and> a < p \<and> buf ! a = ch_space \<and>
        schema_at buf p me ss se \<and> authority_at buf a se hs he pe)"

fun rl_authority :: "buffer \<Rightarrow> nat \<Rightarrow> rl_state \<times> http_request \<Rightarrow> bool" where
  "rl_authority buf p (st, r) =
    (let me = method_end r; ss = schema_start r; se = schema_end r; hs = host_start r; he = host_end r;
         pe = port_end r; us = uri_start r; ue = uri_end r in
     if st \<in> {rl_sw_start, rl_sw_method, rl_sw_spaces_before_uri} then no_authority ss se hs he pe
     else if st = rl_sw_schema then
       (\<exists>s. ss = Some s \<and> the me < s \<and> s < p) \<and> no_authority None se hs he pe
     else if st = rl_sw_schema_slash then
       (\<exists>s e. ss = Some s \<and> se = Some e \<and> the me < s \<and> s < e \<and> p = e + 1 \<and> buf ! e = ch_colon) \<and>
       no_authority None None hs he pe
     else if st = rl_sw_schema_slash_slash then
       (\<exists>s e. ss = Some s \<and> se = Some e \<and> the me < s \<and> s < e \<and> p = e + 2 \<and> buf ! e = ch_colon \<and>
          buf ! (e + 1) = ch_slash) \<and> no_authority None None hs he pe
     else if st = rl_sw_host_start then
       schema_at buf p me ss se \<and> host_at buf p se (Some p) \<and> no_authority None None hs he pe
     else if st \<in> {rl_sw_host, rl_sw_host_end, rl_sw_host_ip_literal} then
       schema_at buf p me ss se \<and> host_at buf p se hs \<and> no_authority None None None he pe
     else if st = rl_sw_port then
       schema_at buf p me ss se \<and> pe = None \<and> (\<exists>h. he = Some h \<and> host_at buf h se hs \<and> port_at buf h p)
     else if st = rl_sw_host_http_09 then bare_form buf p me ss se hs he pe us ue
     else if st \<in> {rl_sw_after_slash_in_uri, rl_sw_check_uri, rl_sw_check_uri_http_09, rl_sw_uri,
                   rl_sw_http_09} then uri_form buf p me ss se hs he pe us
     else uri_form buf p me ss se hs he pe us \<or> bare_form buf p me ss se hs he pe us ue)"

lemma schema_at_Suc: "schema_at buf p me ss se \<Longrightarrow> schema_at buf (Suc p) me ss se"
  by (auto simp: schema_at_def)
lemma host_at_Suc:
  "host_at buf p se hs \<Longrightarrow> buf ! p \<noteq> ch_slash \<Longrightarrow> buf ! p \<noteq> ch_space \<Longrightarrow> host_at buf (Suc p) se hs"
  by (auto simp: host_at_def less_Suc_eq)
lemma host_at_start: "host_at buf (Suc (Suc (Suc e))) (Some e) (Some (Suc (Suc (Suc e))))"
  by (auto simp: host_at_def)
lemma port_at_Suc: "port_at buf h p \<Longrightarrow> is_digit (buf ! p) \<Longrightarrow> port_at buf h (Suc p)"
  by (auto simp: port_at_def less_Suc_eq)
lemma port_at_start: "buf ! p = ch_colon \<Longrightarrow> port_at buf p (Suc p)"
  by (auto simp: port_at_def)
lemma uri_form_Suc:
  "uri_form buf p me ss se hs he pe us \<Longrightarrow> uri_form buf (Suc p) me ss se hs he pe us"
  by (auto simp: uri_form_def intro: schema_at_Suc)
lemma bare_form_Suc:
  "bare_form buf p me ss se hs he pe us ue \<Longrightarrow> bare_form buf (Suc p) me ss se hs he pe us ue"
  unfolding bare_form_def using less_SucI schema_at_Suc by blast

lemma uri_form_host:
  "schema_at buf p me ss se \<Longrightarrow> host_at buf p se hs \<Longrightarrow>
   uri_form buf (Suc p) me ss se hs (Some p) None (Some p)"
  by (auto simp: uri_form_def authority_at_def intro: schema_at_Suc)
lemma uri_form_port:
  "schema_at buf p me ss se \<Longrightarrow> host_at buf h se hs \<Longrightarrow> port_at buf h p \<Longrightarrow>
   uri_form buf (Suc p) me ss se hs (Some h) (Some p) (Some p)"
  by (auto simp: uri_form_def authority_at_def intro: schema_at_Suc)
lemma bare_form_host:
  "schema_at buf p me ss se \<Longrightarrow> host_at buf p se hs \<Longrightarrow> buf ! p = ch_space \<Longrightarrow>
   bare_form buf (Suc p) me ss se hs (Some p) None (map_option Suc se)
     (map_option (\<lambda>e. Suc (Suc e)) se)"
  by (auto simp: bare_form_def authority_at_def schema_at_def)
lemma bare_form_port:
  "schema_at buf p me ss se \<Longrightarrow> host_at buf h se hs \<Longrightarrow> port_at buf h p \<Longrightarrow> buf ! p = ch_space \<Longrightarrow>
   bare_form buf (Suc p) me ss se hs (Some h) (Some p) (map_option Suc se)
     (map_option (\<lambda>e. Suc (Suc e)) se)"
  by (auto simp: bare_form_def authority_at_def schema_at_def)
lemma uri_form_origin: "no_authority ss se hs he pe \<Longrightarrow> uri_form buf p me ss se hs he pe us"
  by (simp add: uri_form_def)

lemmas authority_intros = schema_at_Suc host_at_Suc host_at_start port_at_Suc port_at_start uri_form_Suc
  bare_form_Suc uri_form_host uri_form_port bare_form_host bare_form_port uri_form_origin

lemma host_byte: "lc_alpha c \<or> is_digit c \<Longrightarrow> c \<noteq> ch_slash \<and> c \<noteq> ch_space"
  by (auto simp: lc_alpha_def is_digit_def Let_def)

lemma rl_authority_host:
  assumes "schema_at buf p (method_end r) (schema_start r) (schema_end r)"
    and "host_at buf p (schema_end r) (host_start r)" and "host_end r = None" and "port_end r = None"
  shows "rl_host_end buf p r = Continue s' \<Longrightarrow> rl_authority buf (Suc p) s'"
    and "rl_host buf p r = Continue s' \<Longrightarrow> rl_authority buf (Suc p) s'"
    and "rl_host_ip_literal buf p r = Continue s' \<Longrightarrow> rl_authority buf (Suc p) s'"
proof -
  note next_at = schema_at_Suc [OF assms(1)] host_at_Suc [OF assms(2)]
  show *: "rl_host_end buf p r = Continue s' \<Longrightarrow> rl_authority buf (Suc p) s'"
    using assms next_at by (auto simp: rl_host_end_def Let_def no_authority_def
      intro!: port_at_start uri_form_host bare_form_host split: if_splits)
  show "rl_host buf p r = Continue s' \<Longrightarrow> rl_authority buf (Suc p) s'"
    using assms(3,4) next_at * host_byte [of "buf ! p"]
    by (auto simp: rl_host_def Let_def no_authority_def simp del: rl_authority.simps split: if_splits)
      (auto simp: no_authority_def)
  show "rl_host_ip_literal buf p r = Continue s' \<Longrightarrow> rl_authority buf (Suc p) s'"
    using assms(3,4) next_at host_byte [of "buf ! p"]
    by (auto simp: rl_host_ip_literal_def Let_def no_authority_def split: if_splits)
qed

lemma rl_authority_host_start:
  assumes "rl_authority buf p (rl_sw_host_start, r)" and "rl_host_start buf p r = Continue s'"
  shows "rl_authority buf (Suc p) s'"
proof (cases "buf ! p = ch_lbrack")
  case True
  with assms show ?thesis
    by (auto simp: rl_host_start_def Let_def no_authority_def intro!: schema_at_Suc host_at_Suc)
next
  case False
  with assms show ?thesis
    by (intro rl_authority_host(2) [where r = "r\<lparr>host_start := Some p\<rparr>"])
       (simp_all add: rl_host_start_def Let_def no_authority_def)
qed

lemma rl_authority_port:
  assumes "rl_authority buf p (rl_sw_port, r)" and "rl_port buf p r = Continue s'"
  shows "rl_authority buf (Suc p) s'"
  using assms by (auto simp: rl_port_def Let_def intro: authority_intros split: if_splits)

lemma rl_authority_step:
  assumes "rl_ptrs pos buf p (st, r)" "rl_authority buf p (st, r)" "rl_case st buf p r = Continue s'"
  shows "rl_authority buf (Suc p) s'"
proof (cases "st \<in> {rl_sw_start, rl_sw_method, rl_sw_spaces_before_uri, rl_sw_schema, rl_sw_schema_slash,
    rl_sw_schema_slash_slash}")
  case True
  with assms show ?thesis
    by (elim insertE) (auto simp: step_defs Let_def method_ptrs_def schema_at_def no_authority_def
       uri_form_def host_at_start split: if_splits option.splits)
next
  case False
  show ?thesis
  proof (cases "st \<in> {rl_sw_host_start, rl_sw_host, rl_sw_host_end, rl_sw_host_ip_literal, rl_sw_port}")
    case True
    with assms(2,3) show ?thesis
      using rl_authority_host_start [of buf p r s'] rl_authority_port [of buf p r s']
        rl_authority_host [of buf p r s']
      by (elim insertE) (auto simp: no_authority_def Let_def simp del: rl_authority.simps
        simp: rl_authority.simps [of buf p])
  next
    case F2: False
    with False assms(2,3) show ?thesis
      by (cases st) (auto simp: step_defs Let_def intro: authority_intros split: if_splits)
  qed
qed

section \<open>What the path contains\<close>

definition clean :: "buffer \<Rightarrow> nat \<Rightarrow> nat \<Rightarrow> bool" where
  "clean buf u k \<longleftrightarrow>
     (\<forall>i. u \<le> i \<longrightarrow> i < k \<longrightarrow> buf ! i \<notin> {ch_percent, ch_qmark}) \<and>
     (\<forall>i. u \<le> i \<longrightarrow> Suc i < k \<longrightarrow> buf ! i = ch_slash \<longrightarrow> buf ! Suc i \<notin> {ch_dot, ch_slash})"

definition no_ctl :: "buffer \<Rightarrow> nat \<Rightarrow> nat \<Rightarrow> bool" where
  "no_ctl buf u k \<longleftrightarrow> (\<forall>i. u \<le> i \<longrightarrow> i < k \<longrightarrow> buf ! i \<notin> {NUL, CR, LF, ch_space, ch_hash})"

lemma clean_Suc: "u \<le> p \<Longrightarrow> clean buf u (Suc p) \<longleftrightarrow>
   clean buf u p \<and> buf ! p \<notin> {ch_percent, ch_qmark} \<and> (u < p \<longrightarrow> buf ! (p - 1) = ch_slash \<longrightarrow> buf ! p \<notin> {ch_dot, ch_slash})"
  unfolding clean_def
  by (auto simp: less_Suc_eq)

lemma no_ctl_Suc: "u \<le> p \<Longrightarrow> no_ctl buf u (Suc p) \<longleftrightarrow> no_ctl buf u p \<and> buf ! p \<notin> {NUL, CR, LF, ch_space, ch_hash}"
  unfolding no_ctl_def by (auto simp: less_Suc_eq)

definition rl_plain :: "http_request \<Rightarrow> bool" where
  "rl_plain r \<longleftrightarrow> \<not> complex_uri r \<and> \<not> quoted_uri r \<and> \<not> space_in_uri r"

definition path_end :: "http_request \<Rightarrow> nat" where
  "path_end r = (if args_start r = None then the (uri_end r) else the (args_start r) - 1)"

fun rl_path :: "buffer \<Rightarrow> nat \<Rightarrow> rl_state \<times> http_request \<Rightarrow> bool" where
  "rl_path buf p (st, r) =
    (let u = the (uri_start r); ue = the (uri_end r) in
     if st \<in> {rl_sw_start, rl_sw_method, rl_sw_spaces_before_uri, rl_sw_schema, rl_sw_schema_slash,
              rl_sw_schema_slash_slash, rl_sw_host_start, rl_sw_host, rl_sw_host_end,
              rl_sw_host_ip_literal, rl_sw_port}
     then True
     else if st = rl_sw_after_slash_in_uri then
       args_start r = None \<and> clean buf u p \<and> no_ctl buf u p
     else if st = rl_sw_check_uri then
       args_start r = None \<and> clean buf u p \<and> no_ctl buf u p \<and> buf ! (p - 1) \<noteq> ch_slash
     else if st \<in> {rl_sw_check_uri_http_09, rl_sw_host_http_09} then
       args_start r = None \<and> clean buf u ue \<and> no_ctl buf u ue
     else if st = rl_sw_uri then
       args_start r \<noteq> None \<and> clean buf u (the (args_start r) - 1) \<and> no_ctl buf u p
     else if st = rl_sw_http_09 then
       args_start r \<noteq> None \<and> clean buf u (the (args_start r) - 1) \<and> no_ctl buf u ue
     else clean buf u (path_end r) \<and> no_ctl buf u ue)"

lemma clean_one: "buf ! u = ch_slash \<Longrightarrow> clean buf u (Suc u)"
  by (auto simp: clean_def less_Suc_eq_le)
lemma no_ctl_one: "buf ! u = ch_slash \<Longrightarrow> no_ctl buf u (Suc u)"
  by (auto simp: no_ctl_def less_Suc_eq_le)

lemma rl_plain_step:
  "rl_case st buf p r = Continue (st', r') \<Longrightarrow> rl_plain r' \<Longrightarrow> rl_plain r"
  by (cases st) (auto simp: rl_plain_def step_defs Let_def split: if_splits option.splits)


lemmas rl_uri_cases = rl_after_slash_in_uri_def rl_check_uri_def rl_uri_def
lemmas rl_path_simps = Let_def clean_Suc no_ctl_Suc path_end_def table_facts

lemma rl_path_after_slash:
  assumes "uri_ptrs buf p me (uri_start r) as ext" and "rl_path buf p (rl_sw_after_slash_in_uri, r)"
    and "rl_after_slash_in_uri buf p r = Continue (st', r')" and "rl_plain r'"
  shows "rl_path buf (Suc p) (st', r')"
  using assms by (auto simp: rl_after_slash_in_uri_def uri_ptrs_def rl_plain_def rl_path_simps split: if_splits)

lemma rl_path_check_uri:
  assumes "uri_ptrs buf p me (uri_start r) as ext" and "rl_path buf p (rl_sw_check_uri, r)"
    and "rl_check_uri buf p r = Continue (st', r')" and "rl_plain r'"
  shows "rl_path buf (Suc p) (st', r')"
  using assms by (auto simp: rl_check_uri_def uri_ptrs_def rl_plain_def rl_path_simps split: if_splits)

lemma rl_path_uri:
  assumes "uri_ptrs buf p me (uri_start r) as ext" and "rl_path buf p (rl_sw_uri, r)"
    and "rl_uri buf p r = Continue (st', r')" and "rl_plain r'"
  shows "rl_path buf (Suc p) (st', r')"
  using assms by (auto simp: rl_uri_def uri_ptrs_def rl_plain_def rl_path_simps split: if_splits)

lemma rl_path_step:
  assumes "rl_ptrs pos buf p (st, r)" and "rl_plain r \<longrightarrow> rl_path buf p (st, r)"
    and "rl_case st buf p r = Continue (st', r')"
  shows "rl_plain r' \<longrightarrow> rl_path buf (Suc p) (st', r')"
proof
  assume plain: "rl_plain r'"
  with rl_plain_step [OF assms(3)] assms(2) have path: "rl_path buf p (st, r)" by blast
  show "rl_path buf (Suc p) (st', r')"
  proof (cases "st \<in> {rl_sw_after_slash_in_uri, rl_sw_check_uri, rl_sw_uri}")
    case True
    with assms(1,3) path plain show ?thesis
      by (elim insertE)
        (auto simp del: rl_path.simps intro: rl_path_after_slash rl_path_check_uri rl_path_uri)
  next
    case False
    with assms(1,3) path plain show ?thesis
      by (cases st) (auto simp: step_defs Let_def schema_ptrs_def rl_plain_def
       clean_one no_ctl_one path_end_def split: if_splits)
  qed
qed

section \<open>Accepted lines\<close>

definition rl_accepted :: "nat \<Rightarrow> buffer \<Rightarrow> nat \<Rightarrow> http_request \<Rightarrow> bool" where
  "rl_accepted pos buf p r \<longleftrightarrow> buf ! p = LF \<and>
     method_ptrs pos p (request_start r) (method_end r) None \<and>
     (\<exists>e. uri_end r = Some e \<and> e \<le> p \<and>
       uri_ptrs buf e (method_end r) (uri_start r) (args_start r) (uri_ext r) \<and>
       (request_end r = None \<or> request_end r = Some (p - 1) \<and> e < p)) \<and>
     (rl_plain r \<longrightarrow> clean buf (the (uri_start r)) (path_end r) \<and>
        no_ctl buf (the (uri_start r)) (the (uri_end r)))"

definition rl_forms :: "buffer \<Rightarrow> nat \<Rightarrow> http_request \<Rightarrow> bool" where
  "rl_forms buf q r \<longleftrightarrow>
     uri_form buf q (method_end r) (schema_start r) (schema_end r) (host_start r) (host_end r)
        (port_end r) (uri_start r) \<or>
     bare_form buf q (method_end r) (schema_start r) (schema_end r) (host_start r) (host_end r)
        (port_end r) (uri_start r) (uri_end r)"

lemma rl_done_forms:
  assumes "rl_authority buf p (st, r)" and "rl_case st buf p r = Stop (Rl_done q r')"
  shows "rl_forms buf (Suc p) r'"
  using assms uri_form_Suc bare_form_Suc unfolding rl_forms_def
  by (cases st) (auto simp: step_defs Let_def simp del: One_nat_def split: if_splits option.splits)

lemma rl_done_accepted:
  assumes "rl_ptrs pos buf p (st, r)" and "rl_plain r \<longrightarrow> rl_path buf p (st, r)"
    and "rl_case st buf p r = Stop (Rl_done q r')"
  shows "q = p \<and> rl_accepted pos buf p r'"
  using assms
  by (cases st) (auto simp: rl_accepted_def step_defs Let_def path_end_def end_ptrs_def method_ptrs_def
      rl_plain_def split: if_splits option.splits)

declare rl_ptrs.simps [simp del] rl_path.simps [simp del] rl_authority.simps [simp del]

lemma init_request_inv:
  "pos \<le> length buf \<Longrightarrow>
   rl_ptrs pos buf pos (rl_sw_start, init_request) \<and> rl_authority buf pos (rl_sw_start, init_request)"
  by (simp add: init_request_def rl_ptrs.simps rl_authority.simps no_authority_def)

lemma rl_path_init: "rl_path buf p (rl_sw_start, r)"
  by (simp add: rl_path.simps)

lemma scan_rl_accepted:
  assumes "pos \<le> length buf"
    and "scan rl_step buf pos (rl_sw_start, init_request) = Inr (Rl_done p r)"
  shows "p < length buf \<and> rl_accepted pos buf p r \<and> rl_forms buf (Suc p) r"
proof -
  let ?I = "\<lambda>p s. rl_ptrs pos buf p s \<and> rl_authority buf p s \<and> (rl_plain (snd s) \<longrightarrow> rl_path buf p s)"
  have "case scan rl_step buf pos (rl_sw_start, init_request) of
      Inl (q, t) \<Rightarrow> q = length buf \<and> ?I q t
    | Inr x \<Rightarrow> \<exists>q t. pos \<le> q \<and> q < length buf \<and> ?I q t \<and> rl_step buf q t = Stop x"
  proof (rule scan_invariant [OF assms(1)])
    show "?I pos (rl_sw_start, init_request)"
      using assms(1) by (simp add: init_request_inv rl_path_init)
    show "?I (Suc q) t'" if "?I q t" "rl_step buf q t = Continue t'" for q t t'
      using that rl_ptrs_step [of pos buf q "fst t" "snd t" t']
        rl_authority_step [of pos buf q "fst t" "snd t" t']
        rl_path_step [of pos buf q "fst t" "snd t" "fst t'" "snd t'"]
      by (simp add: rl_step_def)
  qed
  then obtain q t where "q < length buf" "?I q t" "rl_step buf q t = Stop (Rl_done p r)"
    unfolding assms(2) by fastforce
  with rl_done_accepted [of pos buf q "fst t" "snd t" p r] rl_done_forms [of buf q "fst t" "snd t" p r]
  show ?thesis
    by (simp add: rl_step_def)
qed

lemma request_line_ok:
  assumes "ngx_http_parse_request_line buf pos init_request = (NGX_OK, q, r)"
  obtains p r0 where "scan rl_step buf pos (rl_sw_start, init_request) = Inr (Rl_done p r0)"
    and "rl_finish p r0 = (NGX_OK, q, r)"
  using assms scan_rl_return [of buf pos "(rl_sw_start, init_request)"]
  by (auto simp: ngx_http_parse_request_line_def init_request_def
      split: sum.splits rl_exit.splits prod.splits)

lemma rl_finish_ok:
  "rl_finish p r0 = (NGX_OK, q, r) \<Longrightarrow>
   q = p + 1 \<and> r = r0\<lparr>request_end := Some (case request_end r0 of None \<Rightarrow> p | Some e \<Rightarrow> e),
     http_version := ucast (http_major r0) * 1000 + ucast (http_minor r0),
     req_state := rl_sw_start\<rparr>"
  by (auto simp: rl_finish_def Let_def split: if_splits)

lemma accepted_forms:
  assumes "uri_form buf q me ss se hs hp pe us \<or> bare_form buf q me ss se hs hp pe us ue"
  shows "ss = None \<and> se = None \<and> hs = None \<and> hp = None \<and> pe = None \<or>
     (\<exists>s e h he a. ss = Some s \<and> se = Some e \<and> hs = Some h \<and> hp = Some he \<and>
       the me < s \<and> s < e \<and> h = e + 3 \<and> h \<le> he \<and>
       buf ! e = ch_colon \<and> buf ! (e + 1) = ch_slash \<and> buf ! (e + 2) = ch_slash \<and>
       (\<forall>i. h \<le> i \<and> i < he \<longrightarrow> buf ! i \<notin> {ch_slash, ch_space}) \<and>
       (pe = None \<and> a = he \<or>
        pe = Some a \<and> he < a \<and> buf ! he = ch_colon \<and> (\<forall>i. he < i \<and> i < a \<longrightarrow> is_digit (buf ! i))) \<and>
       (us = Some a \<or> us = Some (e + 1) \<and> ue = Some (e + 2) \<and> a < q \<and> buf ! a = ch_space))"
  using assms unfolding uri_form_def bare_form_def no_authority_def schema_at_def authority_at_def
    host_at_def port_at_def
  by (elim disjE exE conjE) simp_all

text \<open>
  C8.  Every pointer the parser leaves after accepting a request line lies in the buffer and they
  come in the order of the line: request start, method end, the slash that starts the URI, the URI
  end, the request end, the line feed just before the new buffer position; the argument and
  extension pointers lie within the URI.  Either the request names no host and all the scheme, host and
  port pointers are null, or it is in the absolute form: the scheme lies between the method and its
  colon, the host starts behind the two slashes and runs to \<open>he\<close> without a slash or space, the port, if
  there is a colon at \<open>he\<close>, consists of the digits up to \<open>a\<close>, and the URI starts there; when a space
  stands there instead, the URI is the second slash of the scheme.
\<close>

theorem request_line_pointers:
  assumes "pos \<le> length buf"
    and "ngx_http_parse_request_line buf pos init_request = (NGX_OK, q, r)"
  shows "\<exists>m me u ue re. request_start r = Some m \<and> method_end r = Some me \<and> uri_start r = Some u \<and>
    uri_end r = Some ue \<and> request_end r = Some re \<and>
    pos \<le> m \<and> m \<le> me \<and> me < u \<and> u < ue \<and> ue \<le> re \<and> re < q \<and> q \<le> length buf \<and>
    buf ! u = ch_slash \<and> buf ! (q - 1) = LF \<and>
    (\<forall>a. args_start r = Some a \<longrightarrow> u < a \<and> a \<le> ue \<and> buf ! (a - 1) = ch_qmark) \<and> (\<forall>x. uri_ext r = Some x \<longrightarrow> u < x \<and> x \<le> ue) \<and>
    (schema_start r = None \<and> schema_end r = None \<and> host_start r = None \<and> host_end r = None \<and>
       port_end r = None \<or>
     (\<exists>s e h he a. schema_start r = Some s \<and> schema_end r = Some e \<and> host_start r = Some h \<and>
       host_end r = Some he \<and> me < s \<and> s < e \<and> h = e + 3 \<and> h \<le> he \<and>
       buf ! e = ch_colon \<and> buf ! (e + 1) = ch_slash \<and> buf ! (e + 2) = ch_slash \<and>
       (\<forall>i. h \<le> i \<and> i < he \<longrightarrow> buf ! i \<notin> {ch_slash, ch_space}) \<and>
       (port_end r = None \<and> a = he \<or>
        port_end r = Some a \<and> he < a \<and> buf ! he = ch_colon \<and>
          (\<forall>i. he < i \<and> i < a \<longrightarrow> is_digit (buf ! i))) \<and>
       (u = a \<or> u = e + 1 \<and> ue = e + 2 \<and> a < q \<and> buf ! a = ch_space)))"
proof -
  obtain p r0 where scan: "scan rl_step buf pos (rl_sw_start, init_request) = Inr (Rl_done p r0)"
    and fin: "rl_finish p r0 = (NGX_OK, q, r)"
    using assms(2) by (rule request_line_ok)
  have acc: "p < length buf \<and> rl_accepted pos buf p r0 \<and> rl_forms buf (Suc p) r0"
    by (rule scan_rl_accepted [OF assms(1) scan])
  then have "rl_forms buf q r" using rl_finish_ok [OF fin] by (simp add: rl_forms_def)
  note forms = accepted_forms [OF this [unfolded rl_forms_def]]
  from acc rl_finish_ok [OF fin] obtain m me u ue re where
    p: "request_start r = Some m" "method_end r = Some me" "uri_start r = Some u" "uri_end r = Some ue"
      "request_end r = Some re" "pos \<le> m" "m \<le> me" "me < u" "u < ue" "ue \<le> re" "re < q" "q \<le> length buf"
      "buf ! u = ch_slash" "buf ! (q - 1) = LF"
    and opt: "\<forall>a. args_start r = Some a \<longrightarrow> u < a \<and> a \<le> ue \<and> buf ! (a - 1) = ch_qmark"
      "\<forall>x. uri_ext r = Some x \<longrightarrow> u < x \<and> x \<le> ue"
    by (auto simp: rl_accepted_def method_ptrs_def uri_ptrs_def)
  with forms show ?thesis by simp
qed

text \<open>
  C9.  When an accepted request line has none of the flags \<^verbatim>\<open>complex_uri\<close>, \<^verbatim>\<open>quoted_uri\<close> and
  \<^verbatim>\<open>space_in_uri\<close>, so that the URI is used without normalisation, it contains no NUL, CR, LF or space
  byte and no fragment, and its path, which ends at the first question mark, contains no escape and no
  slash followed by a dot or another slash: no traversal segment gets through.
\<close>

theorem request_line_plain_path_safe:
  assumes "pos \<le> length buf"
    and "ngx_http_parse_request_line buf pos init_request = (NGX_OK, q, r)"
    and "\<not> complex_uri r" "\<not> quoted_uri r" "\<not> space_in_uri r"
  shows "(\<forall>i. the (uri_start r) \<le> i \<and> i < the (uri_end r) \<longrightarrow>
       buf ! i \<notin> {NUL, CR, LF, ch_space, ch_hash}) \<and>
    (\<forall>i. the (uri_start r) \<le> i \<and> i < path_end r \<longrightarrow> buf ! i \<notin> {ch_percent, ch_qmark}) \<and>
    (\<forall>i. the (uri_start r) \<le> i \<and> Suc i < path_end r \<and> buf ! i = ch_slash \<longrightarrow>
       buf ! Suc i \<notin> {ch_dot, ch_slash}) \<and>
    (args_start r \<noteq> None \<longrightarrow> buf ! path_end r = ch_qmark)"
proof -
  obtain p r0 where scan: "scan rl_step buf pos (rl_sw_start, init_request) = Inr (Rl_done p r0)"
    and fin: "rl_finish p r0 = (NGX_OK, q, r)"
    using assms(2) by (rule request_line_ok)
  from scan_rl_accepted [OF assms(1) scan] rl_finish_ok [OF fin] assms(3-5) show ?thesis
    by (auto simp: rl_accepted_def rl_plain_def no_ctl_def clean_def path_end_def uri_ptrs_def)
qed

section \<open>Printing and parsing\<close>

text \<open>The methods the server knows, as RFC names and codes.\<close>

definition http_methods :: "(buffer \<times> ngx_uint_t) list" where
  "http_methods =
     [(bytes ''GET'', NGX_HTTP_GET), (bytes ''PUT'', NGX_HTTP_PUT), (bytes ''POST'', NGX_HTTP_POST),
      (bytes ''COPY'', NGX_HTTP_COPY), (bytes ''MOVE'', NGX_HTTP_MOVE), (bytes ''LOCK'', NGX_HTTP_LOCK),
      (bytes ''HEAD'', NGX_HTTP_HEAD), (bytes ''MKCOL'', NGX_HTTP_MKCOL), (bytes ''PATCH'', NGX_HTTP_PATCH),
      (bytes ''TRACE'', NGX_HTTP_TRACE), (bytes ''DELETE'', NGX_HTTP_DELETE),
      (bytes ''UNLOCK'', NGX_HTTP_UNLOCK), (bytes ''OPTIONS'', NGX_HTTP_OPTIONS),
      (bytes ''PROPFIND'', NGX_HTTP_PROPFIND), (bytes ''PROPPATCH'', NGX_HTTP_PROPPATCH)]"

definition method_code :: "buffer \<Rightarrow> ngx_uint_t" where
  "method_code m = (case map_of http_methods m of None \<Rightarrow> NGX_HTTP_UNKNOWN | Some c \<Rightarrow> c)"

lemma rl_method_code_known:
  "(m, c) \<in> set http_methods \<Longrightarrow> rl_method_code (m @ ch_space # t) 0 (length m) old = c"
  unfolding http_methods_def
  by (elim set_ConsD [elim_format] disjE) (simp_all add: rl_method_code_def ngx_strcmp_at_def)


text \<open>A code other than the old one means that one of the comparisons succeeded.\<close>

lemma rl_method_code_cases:
  "rl_method_code buf m n old = old \<or>
   (\<exists>lit\<in>set [''GET '', ''PUT '', ''OPTIONS '']. n + 1 = length lit \<and> ngx_strcmp_at buf m lit) \<or>
   (\<exists>lit\<in>set [''POST'', ''COPY'', ''MOVE'', ''LOCK'', ''HEAD'', ''MKCOL'', ''PATCH'', ''TRACE'',
       ''DELETE'', ''UNLOCK'', ''PROPFIND'', ''PROPPATCH'']. n = length lit \<and> ngx_strcmp_at buf m lit)"
  unfolding rl_method_code_def Let_def by (simp split del: if_split) (simp split: if_split)


lemma strcmp_token_names:
  assumes "ngx_strcmp_at (m @ ch_space # t) 0 lit" and "length m = length lit"
  shows "m = bytes lit"
  using assms by (simp add: ngx_strcmp_at_def)

lemma strcmp_token_names_space:
  assumes "ngx_strcmp_at (m @ ch_space # t) 0 lit" and "length m + 1 = length lit"
  shows "m = butlast (bytes lit)"
proof -
  have "m @ [ch_space] = bytes lit"
    using assms by (simp add: ngx_strcmp_at_def flip: assms(2))
  then show ?thesis by (metis butlast_snoc)
qed

lemma rl_method_code_unknown:
  assumes "m \<notin> fst ` set http_methods"
  shows "rl_method_code (m @ ch_space # t) 0 (length m) old = old"
proof (rule ccontr)
  assume "\<not> ?thesis"
  then consider
    (sp) lit where "lit \<in> set [''GET '', ''PUT '', ''OPTIONS '']" "length m + 1 = length lit"
      "ngx_strcmp_at (m @ ch_space # t) 0 lit"
  | (plain) lit where "lit \<in> set [''POST'', ''COPY'', ''MOVE'', ''LOCK'', ''HEAD'', ''MKCOL'', ''PATCH'',
       ''TRACE'', ''DELETE'', ''UNLOCK'', ''PROPFIND'', ''PROPPATCH'']" "length m = length lit"
      "ngx_strcmp_at (m @ ch_space # t) 0 lit"
    using rl_method_code_cases [of "m @ ch_space # t" 0 "length m" old] by metis
  then show False
  proof cases
    case sp
    then have "m = butlast (bytes lit)" by (intro strcmp_token_names_space)
    with sp(1) have "m \<in> fst ` set http_methods" unfolding http_methods_def by auto
    with assms show False ..
  next
    case plain
    then have "m = bytes lit" by (intro strcmp_token_names)
    with plain(1) have "m \<in> fst ` set http_methods" unfolding http_methods_def by auto
    with assms show False ..
  qed
qed

lemma rl_method_code_eq:
  "rl_method_code (m @ ch_space # t) 0 (length m) NGX_HTTP_UNKNOWN = method_code m"
proof (cases "map_of http_methods m")
  case None
  then have "m \<notin> fst ` set http_methods" by (simp add: map_of_eq_None_iff)
  with None show ?thesis by (simp add: method_code_def rl_method_code_unknown)
next
  case (Some c)
  then show ?thesis
    by (simp add: method_code_def rl_method_code_known [OF map_of_SomeD])
qed

lemma rl_go:
  "p < length buf \<Longrightarrow> rl_case st buf p r = Continue (st', r') \<Longrightarrow> q = Suc p \<Longrightarrow>
   scan rl_step buf p (st, r) = scan rl_step buf q (st', r')"
  by (simp add: scan_Continue rl_step_def)

text \<open>The digits of a version number.\<close>

definition decimal_value :: "nat \<Rightarrow> buffer \<Rightarrow> nat" where
  "decimal_value = foldl (\<lambda>n c. n * 10 + (unat c - 48))"

lemma ucast_eq_of_nat: "ucast (c :: 'a::len word) = (of_nat (unat c) :: 'b::len word)"
  by transfer simp

lemma digit_uint16:
  assumes "is_digit c"
  shows "ucast c - ucast ch_0 = (of_nat (unat c - 48) :: uint16)"
    and "ucast (c - ch_0) = (of_nat (unat c - 48) :: uint16)"
proof -
  have "48 \<le> unat c" "unat c \<le> 57" using assms by (auto simp: is_digit_def word_le_nat_alt)
  moreover from this have "unat (c - ch_0) = unat c - 48"
    by (subst unat_sub) (simp_all add: word_le_nat_alt)
  ultimately show "ucast (c - ch_0) = (of_nat (unat c - 48) :: uint16)"
    using ucast_eq_of_nat [of "c - ch_0"] by simp
  have "(of_nat (unat c - 48) :: uint16) = of_nat (unat c) - 48"
    using \<open>48 \<le> unat c\<close> by (simp add: of_nat_diff)
  then show "ucast c - ucast ch_0 = (of_nat (unat c - 48) :: uint16)"
    using ucast_eq_of_nat [of c] by simp
qed

lemma major_digit: "is_digit a \<Longrightarrow> a \<noteq> ch_0 \<Longrightarrow> \<not> a < ch_1 \<and> \<not> a > ch_9"
  by (auto simp: is_digit_def word_le_nat_alt word_less_nat_alt word_unat_eq_iff)

lemma rl_scan_major:
  assumes "buf = pre @ ds @ post" and "\<forall>c\<in>set ds. is_digit c" and "http_major r = of_nat n"
  shows "scan rl_step buf (length pre) (rl_sw_major_digit, r) =
    scan rl_step buf (length pre + length ds)
      (rl_sw_major_digit, r\<lparr>http_major := of_nat (decimal_value n ds)\<rparr>)"
  using assms
proof (induction ds arbitrary: pre r n)
  case Nil
  then have same: "r\<lparr>http_major := of_nat n\<rparr> = r" by (cases r) simp
  show ?case by (simp add: decimal_value_def same)
next
  case (Cons c ds)
  have c: "is_digit c" using Cons.prems(2) by simp
  then have "c \<noteq> ch_dot" "\<not> c < ch_0" "\<not> c > ch_9" by (auto simp: is_digit_def)
  moreover have "http_major r * 10 + ucast c - ucast ch_0 = of_nat (n * 10 + (unat c - 48))"
    by (simp only: add_diff_eq [symmetric] digit_uint16(1) [OF c] Cons.prems(3) of_nat_add of_nat_mult
        of_nat_numeral)
  ultimately have "scan rl_step buf (length pre) (rl_sw_major_digit, r) =
      scan rl_step buf (Suc (length pre))
        (rl_sw_major_digit, r\<lparr>http_major := of_nat (n * 10 + (unat c - 48))\<rparr>)"
    using Cons.prems(1) by (intro rl_go) (simp_all add: rl_major_digit_def)
  also have "\<dots> = scan rl_step buf (length (pre @ [c]) + length ds)
      (rl_sw_major_digit, r\<lparr>http_major := of_nat (n * 10 + (unat c - 48)),
         http_major := of_nat (decimal_value (n * 10 + (unat c - 48)) ds)\<rparr>)"
    using Cons.IH [of "pre @ [c]" "r\<lparr>http_major := of_nat (n * 10 + (unat c - 48))\<rparr>"
      "n * 10 + (unat c - 48)"] Cons.prems(1,2) by simp
  finally show ?case by (simp add: decimal_value_def)
qed

lemma rl_scan_minor:
  assumes "buf = pre @ ds @ post" and "\<forall>c\<in>set ds. is_digit c" and "http_minor r = of_nat n"
  shows "scan rl_step buf (length pre) (rl_sw_minor_digit, r) =
    scan rl_step buf (length pre + length ds)
      (rl_sw_minor_digit, r\<lparr>http_minor := of_nat (decimal_value n ds)\<rparr>)"
  using assms
proof (induction ds arbitrary: pre r n)
  case Nil
  then have same: "r\<lparr>http_minor := of_nat n\<rparr> = r" by (cases r) simp
  show ?case by (simp add: decimal_value_def same)
next
  case (Cons c ds)
  have c: "is_digit c" using Cons.prems(2) by simp
  then have "c \<notin> {CR, LF, ch_space}" "\<not> c < ch_0" "\<not> c > ch_9" by (auto simp: is_digit_def)
  moreover have "http_minor r * 10 + ucast c - ucast ch_0 = of_nat (n * 10 + (unat c - 48))"
    by (simp only: add_diff_eq [symmetric] digit_uint16(1) [OF c] Cons.prems(3) of_nat_add of_nat_mult
        of_nat_numeral)
  ultimately have "scan rl_step buf (length pre) (rl_sw_minor_digit, r) =
      scan rl_step buf (Suc (length pre))
        (rl_sw_minor_digit, r\<lparr>http_minor := of_nat (n * 10 + (unat c - 48))\<rparr>)"
    using Cons.prems(1) by (intro rl_go) (simp_all add: rl_minor_digit_def)
  also have "\<dots> = scan rl_step buf (length (pre @ [c]) + length ds)
      (rl_sw_minor_digit, r\<lparr>http_minor := of_nat (n * 10 + (unat c - 48)),
         http_minor := of_nat (decimal_value (n * 10 + (unat c - 48)) ds)\<rparr>)"
    using Cons.IH [of "pre @ [c]" "r\<lparr>http_minor := of_nat (n * 10 + (unat c - 48))\<rparr>"
      "n * 10 + (unat c - 48)"] Cons.prems(1,2) by simp
  finally show ?case by (simp add: decimal_value_def)
qed

text \<open>From the space behind the URI to the end of the line.\<close>

definition print_version :: "buffer \<Rightarrow> buffer \<Rightarrow> buffer" where
  "print_version ma mi = bytes '' HTTP/'' @ ma @ [ch_dot] @ mi @ [CR, LF]"

lemma rl_scan_version:
  assumes buf: "buf = pre @ print_version ma mi @ rest" and t: "t = length pre"
    and ma: "ma = a # ma'" "is_digit a" "a \<noteq> ch_0" "\<forall>c\<in>set ma'. is_digit c"
    and mi: "mi = b # mi'" "is_digit b" "\<forall>c\<in>set mi'. is_digit c"
    and st: "st = rl_sw_check_uri \<or> st = rl_sw_after_slash_in_uri \<or> st = rl_sw_uri"
  shows "scan rl_step buf t (st, r) =
    Inr (Rl_done (t + 8 + length ma + length mi) (r\<lparr>uri_end := Some t, http_protocol := Some (t + 1),
       http_major := of_nat (decimal_value 0 ma), http_minor := of_nat (decimal_value 0 mi),
       request_end := Some (t + 7 + length ma + length mi)\<rparr>))"
proof -
  let ?r1 = "r\<lparr>uri_end := Some t\<rparr>" and ?k = "t + 7 + length ma'" and ?l = "t + 8 + length ma' + length mi"
  let ?r2 = "?r1\<lparr>http_protocol := Some (t + 1)\<rparr>"
  let ?r3 = "?r2\<lparr>http_major := of_nat (unat a - 48)\<rparr>"
  let ?r4 = "?r2\<lparr>http_major := of_nat (decimal_value 0 ma)\<rparr>"
  let ?r5 = "?r4\<lparr>http_minor := of_nat (unat b - 48)\<rparr>"
  let ?r6 = "?r4\<lparr>http_minor := of_nat (decimal_value 0 mi)\<rparr>"
  let ?m = "pre @ bytes '' HTTP/'' @ [a]"
  let ?n = "?m @ ma' @ [ch_dot, b]"
  have bufm: "buf = ?m @ ma' @ ch_dot # mi @ CR # LF # rest"
    and bufn: "buf = ?n @ mi' @ CR # LF # rest"
    by (simp_all add: buf print_version_def ma mi)
  have start: "buf ! (t + k) = (bytes '' HTTP/'') ! k" if "k < 6" for k
    using that unfolding buf t print_version_def nth_append by simp
  have len: "t + 6 < length buf" by (simp add: buf t print_version_def ma)
  have at: "buf ! (t + 6) = a" "buf ! ?k = ch_dot" "buf ! (?k + 1) = b" "buf ! ?l = CR" "buf ! Suc ?l = LF"
    by (simp_all add: buf t print_version_def ma mi nth_append)
  have ends: "length ?m + length ma' = ?k" "length ?n + length mi' = ?l" by (simp_all add: t mi)
  have len2: "?l + 1 < length buf" by (simp add: buf t print_version_def ma mi)
  have dd: "\<not> a < ch_1" "\<not> a > ch_9" "is_digit b" using major_digit ma(2,3) mi(2) by blast+
  obtain st' where st': "st' = rl_sw_check_uri_http_09 \<or> st' = rl_sw_http_09"
    and "scan rl_step buf t (st, r) = scan rl_step buf (t + 1) (st', ?r1)"
  proof -
    have "rl_case st buf t r = Continue (if st = rl_sw_uri then rl_sw_http_09 else rl_sw_check_uri_http_09, ?r1)"
      using st start [of 0] by (auto simp: rl_check_uri_def rl_after_slash_in_uri_def rl_uri_def usual_iff Let_def)
    with len have "scan rl_step buf t (st, r) =
        scan rl_step buf (t + 1) (if st = rl_sw_uri then rl_sw_http_09 else rl_sw_check_uri_http_09, ?r1)"
      by (intro rl_go) simp_all
    then show thesis by (intro that [of "if st = rl_sw_uri then rl_sw_http_09 else rl_sw_check_uri_http_09"]) simp_all
  qed
  note this(2)
  also have "scan rl_step buf (t + 1) (st', ?r1) = scan rl_step buf (t + 2) (rl_sw_http_H, ?r2)"
    using st' start [of 1] len
    by (intro rl_go) (auto simp: rl_check_uri_http_09_def rl_http_09_def Let_def)
  also have "\<dots> = scan rl_step buf (t + 3) (rl_sw_http_HT, ?r2)"
    using start [of 2] len by (intro rl_go) (simp_all add: rl_expect_def)
  also have "\<dots> = scan rl_step buf (t + 4) (rl_sw_http_HTT, ?r2)"
    using start [of 3] len by (intro rl_go) (simp_all add: rl_expect_def)
  also have "\<dots> = scan rl_step buf (t + 5) (rl_sw_http_HTTP, ?r2)"
    using start [of 4] len by (intro rl_go) (simp_all add: rl_expect_def)
  also have "\<dots> = scan rl_step buf (t + 6) (rl_sw_first_major_digit, ?r2)"
    using start [of 5] len by (intro rl_go) (simp_all add: rl_expect_def)
  also have "\<dots> = scan rl_step buf (length ?m) (rl_sw_major_digit, ?r3)"
    using at len dd digit_uint16(2) [OF ma(2)]
    by (intro rl_go) (simp_all add: rl_first_major_digit_def t)
  also have "\<dots> = scan rl_step buf ?k (rl_sw_major_digit, ?r4)"
    using rl_scan_major [OF bufm ma(4), of ?r3 "unat a - 48", unfolded ends]
    by (simp add: ma decimal_value_def)
  also have "\<dots> = scan rl_step buf (?k + 1) (rl_sw_first_minor_digit, ?r4)"
    using at len2 by (intro rl_go) (simp_all add: rl_major_digit_def)
  also have "\<dots> = scan rl_step buf (length ?n) (rl_sw_minor_digit, ?r5)"
    using at len2 dd digit_uint16(2) [OF mi(2)]
    by (intro rl_go) (auto simp: rl_first_minor_digit_def is_digit_def t Let_def)
  also have "\<dots> = scan rl_step buf ?l (rl_sw_minor_digit, ?r6)"
    using rl_scan_minor [OF bufn mi(3), of ?r5 "unat b - 48", unfolded ends]
    by (simp add: mi decimal_value_def)
  also have "\<dots> = scan rl_step buf (Suc ?l) (rl_sw_almost_done, ?r6)"
    using at len2 by (intro rl_go) (simp_all add: rl_minor_digit_def)
  also have "\<dots> = Inr (Rl_done (Suc ?l) (?r6\<lparr>request_end := Some ?l\<rparr>))"
    using at len2 by (intro scan_Stop) (simp_all add: rl_step_def rl_almost_done_def)
  finally show ?thesis by (simp add: ma)
qed

text \<open>The method token, the space and the slash.\<close>

lemma rl_scan_method:
  assumes "m \<noteq> []" and ok: "\<forall>c\<in>set m. \<not> not_method_char c"
  shows "scan rl_step (m @ ch_space # ch_slash # t) 0 (rl_sw_start, init_request) =
    scan rl_step (m @ ch_space # ch_slash # t) (length m + 2) (rl_sw_after_slash_in_uri,
      init_request\<lparr>request_start := Some 0, method_end := Some (length m - 1),
        req_method := method_code m, uri_start := Some (length m + 1)\<rparr>)"
proof -
  let ?buf = "m @ ch_space # ch_slash # t" and ?n = "length m"
  let ?r1 = "init_request\<lparr>request_start := Some 0\<rparr>"
  let ?r2 = "?r1\<lparr>method_end := Some (?n - 1), req_method := method_code m\<rparr>"
  have n0: "0 < ?n" using assms(1) by simp
  have nc: "\<not> not_method_char c \<Longrightarrow> c \<noteq> ch_space \<and> c \<noteq> CR \<and> c \<noteq> LF" for c
    by (auto simp: not_method_char_def)
  have nm: "?buf ! i = m ! i" "\<not> not_method_char (m ! i)" if "i < ?n" for i
    using that ok by (simp_all add: nth_append)
  have "scan rl_step ?buf 0 (rl_sw_start, init_request) = scan rl_step ?buf 1 (rl_sw_method, ?r1)"
    using nm [OF n0] nc [of "m ! 0"] n0 by (intro rl_go) (simp_all add: rl_start_def)
  also have "\<dots> = scan rl_step ?buf ?n (rl_sw_method, ?r1)"
    using nm nc n0 by (intro scan_skip) (simp_all add: rl_step_def rl_method_def Suc_le_eq)
  also have "\<dots> = scan rl_step ?buf (?n + 1) (rl_sw_spaces_before_uri, ?r2)"
    using rl_method_code_eq [of m]
    by (intro rl_go) (simp_all add: rl_method_def init_request_def)
  also have "\<dots> = scan rl_step ?buf (?n + 2) (rl_sw_after_slash_in_uri, ?r2\<lparr>uri_start := Some (?n + 1)\<rparr>)"
    by (intro rl_go) (simp_all add: rl_spaces_before_uri_def nth_append)
  finally show ?thesis by simp
qed

text \<open>
  Paths that need no normalisation: plus signs aside, a dot or a slash never follows a slash.  The
  flag says whether the bytes before are a slash and plus signs only.
\<close>

fun plain_path :: "bool \<Rightarrow> buffer \<Rightarrow> bool" where
  "plain_path after [] = True"
| "plain_path after (c # cs) =
     (if c = ch_slash then \<not> after \<and> plain_path True cs
      else if c = ch_dot then \<not> after \<and> plain_path False cs
      else if c = ch_plus then plain_path after cs
      else in_table usual c \<and> plain_path False cs)"

definition plain_args :: "buffer \<Rightarrow> bool" where
  "plain_args cs \<longleftrightarrow> (\<forall>c\<in>set cs. c \<notin> {NUL, CR, LF, ch_space, ch_hash})"

text \<open>Where the extension starts: behind the last dot, if no slash comes after it.\<close>

definition extension :: "buffer \<Rightarrow> nat option" where
  "extension path =
     (if ch_dot \<in> set (takeWhile (\<lambda>c. c \<noteq> ch_slash) (rev path))
      then Some (length path - length (takeWhile (\<lambda>c. c \<noteq> ch_dot) (rev path)))
      else None)"

fun scan_ext :: "nat \<Rightarrow> buffer \<Rightarrow> ptr \<Rightarrow> ptr" where
  "scan_ext p [] e = e"
| "scan_ext p (c # cs) e =
     scan_ext (Suc p) cs (if c = ch_slash then None else if c = ch_dot then Some (Suc p) else e)"

lemma scan_ext_snoc:
  "scan_ext p (cs @ [c]) e =
   (if c = ch_slash then None else if c = ch_dot then Some (Suc (p + length cs)) else scan_ext p cs e)"
  by (induction cs arbitrary: p e) simp_all

lemma scan_ext_extension: "scan_ext p path None = map_option (\<lambda>k. p + k) (extension path)"
proof (induction path rule: rev_induct)
  case Nil
  then show ?case by (simp add: extension_def)
next
  case (snoc c cs)
  have "length (takeWhile (\<lambda>c. c \<noteq> ch_dot) (rev cs)) \<le> length cs"
    using length_takeWhile_le [of _ "rev cs"] by simp
  with snoc show ?case by (auto simp: scan_ext_snoc extension_def Suc_diff_le split: if_splits)
qed

lemma rl_scan_path:
  assumes "buf = pre @ path @ post" and "plain_path after path"
    and "st = (if after then rl_sw_after_slash_in_uri else rl_sw_check_uri)"
  shows "\<exists>st'. (st' = rl_sw_check_uri \<or> st' = rl_sw_after_slash_in_uri) \<and>
    scan rl_step buf (length pre) (st, r) = scan rl_step buf (length pre + length path)
      (st', r\<lparr>uri_ext := scan_ext (length pre) path (uri_ext r),
              plus_in_uri := plus_in_uri r \<or> ch_plus \<in> set path\<rparr>)"
  using assms
proof (induction path arbitrary: pre after st r)
  case Nil
  have "r = r\<lparr>uri_ext := uri_ext r, plus_in_uri := plus_in_uri r\<rparr>" by (cases r) simp
  with Nil show ?case by auto
next
  case (Cons c cs)
  let ?r = "r\<lparr>uri_ext := (if c = ch_slash then None else if c = ch_dot then Some (Suc (length pre)) else uri_ext r),
              plus_in_uri := plus_in_uri r \<or> c = ch_plus\<rparr>"
  let ?after = "c = ch_slash \<or> c = ch_plus \<and> after"
  let ?st = "if ?after then rl_sw_after_slash_in_uri else rl_sw_check_uri"
  have "rl_case st buf (length pre) r = Continue (?st, ?r)"
    using Cons.prems
    by (cases r) (auto simp: rl_after_slash_in_uri_def rl_check_uri_def usual_iff Let_def split: if_splits)
  then have "scan rl_step buf (length pre) (st, r) = scan rl_step buf (length (pre @ [c])) (?st, ?r)"
    using Cons.prems(1) by (intro rl_go) simp_all
  moreover have "plain_path ?after cs" using Cons.prems(2) by (auto split: if_splits)
  moreover have "buf = (pre @ [c]) @ cs @ post" using Cons.prems(1) by simp
  ultimately show ?case
    using Cons.IH [of "pre @ [c]" ?after ?st ?r] by (auto simp: disj_ac)
qed

lemma rl_scan_args:
  assumes "buf = pre @ ch_qmark # args @ post" and "plain_args args"
    and "st = rl_sw_check_uri \<or> st = rl_sw_after_slash_in_uri"
  shows "scan rl_step buf (length pre) (st, r) =
    scan rl_step buf (Suc (length pre + length args)) (rl_sw_uri, r\<lparr>args_start := Some (Suc (length pre))\<rparr>)"
proof -
  have "scan rl_step buf (length pre) (st, r) =
      scan rl_step buf (Suc (length pre)) (rl_sw_uri, r\<lparr>args_start := Some (Suc (length pre))\<rparr>)"
    using assms(1,3)
    by (intro rl_go) (auto simp: rl_after_slash_in_uri_def rl_check_uri_def usual_iff Let_def)
  also have "\<dots> = scan rl_step buf (Suc (length pre + length args))
      (rl_sw_uri, r\<lparr>args_start := Some (Suc (length pre))\<rparr>)"
  proof (rule scan_skip)
    fix i assume i: "Suc (length pre) \<le> i" "i < Suc (length pre + length args)"
    then obtain k where "i = Suc (length pre) + k" "k < length args" by (auto dest: le_Suc_ex)
    with assms(2) have "buf ! i \<notin> {NUL, CR, LF, ch_space, ch_hash}"
      by (simp add: assms(1) nth_append plain_args_def)
    then show "rl_step buf i (rl_sw_uri, r\<lparr>args_start := Some (Suc (length pre))\<rparr>) =
        Continue (rl_sw_uri, r\<lparr>args_start := Some (Suc (length pre))\<rparr>)"
      by (simp add: rl_step_def rl_uri_def Let_def)
  qed (simp_all add: assms(1))
  finally show ?thesis .
qed

lemma decimal_value_pos: "is_digit a \<Longrightarrow> a \<noteq> ch_0 \<Longrightarrow> 0 < decimal_value 0 (a # ds)"
proof -
  have "0 < n \<Longrightarrow> 0 < decimal_value n ds" for n
    by (induction ds arbitrary: n) (simp_all add: decimal_value_def)
  moreover assume "is_digit a" "a \<noteq> ch_0"
  then have "0 < unat a - 48" by (auto simp: is_digit_def word_le_nat_alt word_unat_eq_iff)
  ultimately show ?thesis by (simp add: decimal_value_def)
qed

definition print_uri :: "buffer \<Rightarrow> buffer option \<Rightarrow> buffer" where
  "print_uri path args = ch_slash # path @ (case args of None \<Rightarrow> [] | Some a \<Rightarrow> ch_qmark # a)"

definition print_request_line :: "buffer \<Rightarrow> buffer \<Rightarrow> buffer option \<Rightarrow> buffer \<Rightarrow> buffer \<Rightarrow> buffer" where
  "print_request_line m path args ma mi = m @ [ch_space] @ print_uri path args @ print_version ma mi"

lemma rl_scan_uri:
  assumes "buf = pre @ print_uri path args @ post" and "plain_path True path"
    and "\<forall>a. args = Some a \<longrightarrow> plain_args a" and "uri_ext r = None" and "p = length pre + 1"
    and "plus_in_uri r = False" and "args_start r = None"
  shows "\<exists>st. (st = rl_sw_check_uri \<or> st = rl_sw_after_slash_in_uri \<or> st = rl_sw_uri) \<and>
    scan rl_step buf p (rl_sw_after_slash_in_uri, r) =
    scan rl_step buf (length pre + length (print_uri path args))
      (st, r\<lparr>uri_ext := map_option (\<lambda>k. p + k) (extension path), plus_in_uri := ch_plus \<in> set path,
             args_start := map_option (\<lambda>_. p + length path + 1) args\<rparr>)"
proof -
  let ?r = "r\<lparr>uri_ext := map_option (\<lambda>k. p + k) (extension path), plus_in_uri := ch_plus \<in> set path\<rparr>"
  have buf: "buf = (pre @ [ch_slash]) @ path @ (case args of None \<Rightarrow> [] | Some a \<Rightarrow> ch_qmark # a) @ post"
    by (simp add: assms(1) print_uri_def)
  obtain st where st: "st = rl_sw_check_uri \<or> st = rl_sw_after_slash_in_uri"
    and eq: "scan rl_step buf p (rl_sw_after_slash_in_uri, r) = scan rl_step buf (p + length path) (st, ?r)"
    using rl_scan_path [OF buf assms(2) refl, of r] assms(4,5,6) by (auto simp: scan_ext_extension)
  show ?thesis
  proof (cases args)
    case None
    then have "?r = ?r\<lparr>args_start := map_option (\<lambda>_. p + length path + 1) args\<rparr>"
      using assms(7) by (cases r) simp
    with st eq None assms(5) show ?thesis by (auto simp: print_uri_def)
  next
    case (Some a)
    then have "scan rl_step buf (p + length path) (st, ?r) =
        scan rl_step buf (Suc (p + length path + length a)) (rl_sw_uri, ?r\<lparr>args_start := Some (p + length path + 1)\<rparr>)"
      using rl_scan_args [of buf "(pre @ [ch_slash]) @ path" a post st ?r] buf assms(3,5) st by simp
    with eq Some assms(5) show ?thesis
      by (intro exI [of _ rl_sw_uri]) (simp add: print_uri_def add.assoc)
  qed
qed

lemma rl_finish_version:
  assumes "request_end r = Some e" and "http_major r = of_nat m" and "http_minor r = of_nat n"
    and "0 < m" and "m < 2 ^ 16" and "n < 2 ^ 16"
  shows "rl_finish p r = (NGX_OK, p + 1, r\<lparr>http_version := of_nat (m * 1000 + n), req_state := rl_sw_start\<rparr>)"
proof -
  have u: "ucast (of_nat k :: uint16) = (of_nat k :: ngx_uint_t)" if "k < 2 ^ 16" for k
    using that by (simp add: ucast_eq_of_nat unat_of_nat)
  have "unat (of_nat (m * 1000 + n) :: ngx_uint_t) = m * 1000 + n"
    using assms(5,6) by (intro unat_of_nat_64) simp
  then have "(of_nat (m * 1000 + n) :: ngx_uint_t) \<noteq> 9"
    using assms(4) by (auto simp: word_unat_eq_iff)
  with assms u [of m] u [of n] show ?thesis by (simp add: rl_finish_def Let_def)
qed

text \<open>
  C3.  A request line printed from a method token, a path, optional arguments and a version is
  accepted, whatever follows it in the buffer, and parsed back: the method code is the one of the
  method table (or \<^verbatim>\<open>NGX_HTTP_UNKNOWN\<close>), the pointers delimit the printed URI, its extension and its
  arguments, the version is the printed one and no flag is raised but the one for a plus sign in the
  path.  The path may have several segments, none of them (plus signs aside) empty but the last or
  starting with a dot; the arguments are any bytes but NUL, CR, LF, space and number sign; the version
  numbers are below 65536 and the major one does not start with a zero.
\<close>

theorem request_line_roundtrip:
  assumes "line = print_request_line m path args ma mi"
    and "m \<noteq> []" and "\<forall>c\<in>set m. \<not> not_method_char c"
    and "plain_path True path" and "\<forall>a. args = Some a \<longrightarrow> plain_args a"
    and "ma \<noteq> []" and "hd ma \<noteq> ch_0" and "mi \<noteq> []" and "\<forall>c\<in>set (ma @ mi). is_digit c"
    and "decimal_value 0 ma < 2 ^ 16" and "decimal_value 0 mi < 2 ^ 16"
  shows "ngx_http_parse_request_line (line @ rest) 0 init_request =
    (NGX_OK, length line, init_request\<lparr>
       req_method := method_code m,
       http_version := of_nat (decimal_value 0 ma * 1000 + decimal_value 0 mi),
       http_minor := of_nat (decimal_value 0 mi),
       http_major := of_nat (decimal_value 0 ma),
       plus_in_uri := ch_plus \<in> set path,
       uri_start := Some (length m + 1),
       uri_end := Some (length m + 1 + length (print_uri path args)),
       uri_ext := map_option (\<lambda>k. length m + 2 + k) (extension path),
       args_start := map_option (\<lambda>_. length m + 3 + length path) args,
       request_start := Some 0,
       request_end := Some (length line - 2),
       method_end := Some (length m - 1),
       http_protocol := Some (length m + 2 + length (print_uri path args))\<rparr>)"
proof -
  let ?buf = "line @ rest" and ?t = "length m + 1 + length (print_uri path args)"
  let ?r = "init_request\<lparr>request_start := Some 0, method_end := Some (length m - 1),
        req_method := method_code m, uri_start := Some (length m + 1)\<rparr>"
  let ?r2 = "?r\<lparr>uri_ext := map_option (\<lambda>k. length m + 2 + k) (extension path),
       plus_in_uri := ch_plus \<in> set path, args_start := map_option (\<lambda>_. length m + 2 + length path + 1) args\<rparr>"
  let ?rf = "?r2\<lparr>uri_end := Some ?t, http_protocol := Some (?t + 1),
       http_major := of_nat (decimal_value 0 ma), http_minor := of_nat (decimal_value 0 mi),
       request_end := Some (?t + 7 + length ma + length mi)\<rparr>"
  obtain a ma' b mi' where digits: "ma = a # ma'" "mi = b # mi'"
    using assms(6,8) by (cases ma; cases mi) auto
  have buf: "?buf = (m @ [ch_space]) @ print_uri path args @ print_version ma mi @ rest"
    by (simp add: assms(1) print_request_line_def)
  have len: "length line = ?t + 9 + length ma + length mi"
    by (simp add: assms(1) print_request_line_def print_version_def)
  have "scan rl_step ?buf 0 (rl_sw_start, init_request) =
      scan rl_step ?buf (length m + 2) (rl_sw_after_slash_in_uri, ?r)"
    using rl_scan_method [OF assms(2,3)] unfolding buf print_uri_def by simp
  also obtain st where st: "st = rl_sw_check_uri \<or> st = rl_sw_after_slash_in_uri \<or> st = rl_sw_uri"
    and "scan rl_step ?buf (length m + 2) (rl_sw_after_slash_in_uri, ?r) = scan rl_step ?buf ?t (st, ?r2)"
  proof -
    have r: "uri_ext ?r = None" "plus_in_uri ?r = False" "args_start ?r = None"
      by (simp_all add: init_request_def)
    have "length m + 2 = length (m @ [ch_space]) + 1" by simp
    from rl_scan_uri [OF buf assms(4,5) r(1) this r(2,3)] that show thesis by auto
  qed
  note this(2)
  also have "scan rl_step ?buf ?t (st, ?r2) =
    Inr (Rl_done (?t + 8 + length ma + length mi) ?rf)"
    using assms(7,9) digits st
    by (intro rl_scan_version [where pre = "(m @ [ch_space]) @ print_uri path args" and rest = rest])
       (auto simp: buf)
  finally have scan: "scan rl_step ?buf 0 (rl_sw_start, init_request) = \<dots>" .
  have "0 < decimal_value 0 ma" using digits assms(7,9) by (simp add: decimal_value_pos)
  then have "rl_finish (?t + 8 + length ma + length mi) ?rf = (NGX_OK, ?t + 8 + length ma + length mi + 1,
      ?rf\<lparr>http_version := of_nat (decimal_value 0 ma * 1000 + decimal_value 0 mi), req_state := rl_sw_start\<rparr>)"
    by (intro rl_finish_version [OF _ _ _ _ assms(10,11)]) simp_all
  with scan have "ngx_http_parse_request_line ?buf 0 init_request = \<dots>"
    by (simp add: ngx_http_parse_request_line_def init_request_def)
  moreover have "length line - 2 = ?t + 7 + length ma + length mi"
    "length line = ?t + 8 + length ma + length mi + 1" by (simp_all add: len)
  ultimately show ?thesis by (simp add: init_request_def numeral_3_eq_3)
qed

section \<open>Concrete request lines\<close>

lemmas rl_eval = ngx_http_parse_request_line_def init_request_def rl_step_def step_defs lc_alpha_def
  is_digit_def not_method_char_def usual_iff Let_def rl_finish_def rl_method_code_def
  ngx_strcmp_at_def scan.simps

theorem request_line_pointers_witness:
  "\<exists>r. ngx_http_parse_request_line (bytes ''GET http://h:80/a?b HTTP/1.1'' @ [CR, LF]) 0 init_request =
      (NGX_OK, 30, r) \<and> uri_start r = Some 15 \<and> uri_end r = Some 19 \<and> args_start r = Some 18 \<and>
      host_start r = Some 11 \<and> host_end r = Some 12 \<and> port_end r = Some 15 \<and>
      the (host_start r) \<le> the (host_end r) \<and> the (host_end r) < the (port_end r) \<and>
      the (args_start r) \<le> the (uri_end r)"
proof -
  let ?b = "bytes ''GET http://h:80/a?b HTTP/1.1'' @ [CR, LF]"
  let ?x = "ngx_http_parse_request_line ?b 0 init_request"
  have x: "?x = (NGX_OK, 30, snd (snd ?x)) \<and> uri_start (snd (snd ?x)) = Some 15 \<and>
      uri_end (snd (snd ?x)) = Some 19 \<and> args_start (snd (snd ?x)) = Some 18 \<and>
      host_start (snd (snd ?x)) = Some 11 \<and> host_end (snd (snd ?x)) = Some 12 \<and>
      port_end (snd (snd ?x)) = Some 15"
    by (simp add: rl_eval)
  with request_line_pointers [of 0 ?b 30 "snd (snd ?x)"]
  have "the (host_start (snd (snd ?x))) \<le> the (host_end (snd (snd ?x))) \<and>
      the (host_end (snd (snd ?x))) < the (port_end (snd (snd ?x))) \<and>
      the (args_start (snd (snd ?x))) \<le> the (uri_end (snd (snd ?x)))"
    by (elim exE conjE disjE) (simp_all del: bytes_def)
  with x show ?thesis by blast
qed

theorem request_line_plain_path_safe_witness:
  "\<exists>r. ngx_http_parse_request_line (bytes ''GET /a/b HTTP/1.1'' @ [CR, LF]) 0 init_request =
      (NGX_OK, 19, r) \<and> (bytes ''GET /a/b HTTP/1.1'' @ [CR, LF]) ! 6 = ch_slash \<and>
      (bytes ''GET /a/b HTTP/1.1'' @ [CR, LF]) ! Suc 6 \<notin> {ch_dot, ch_slash}"
proof -
  let ?b = "bytes ''GET /a/b HTTP/1.1'' @ [CR, LF]"
  let ?x = "ngx_http_parse_request_line ?b 0 init_request"
  have x: "?x = (NGX_OK, 19, snd (snd ?x)) \<and> \<not> complex_uri (snd (snd ?x)) \<and>
      \<not> quoted_uri (snd (snd ?x)) \<and> \<not> space_in_uri (snd (snd ?x)) \<and>
      uri_start (snd (snd ?x)) = Some 4 \<and> path_end (snd (snd ?x)) = 8"
    by (simp add: rl_eval path_end_def)
  then have "the (uri_start (snd (snd ?x))) \<le> 6 \<and> Suc 6 < path_end (snd (snd ?x))" by simp
  moreover have "?b ! 6 = ch_slash" by simp
  ultimately have "?b ! Suc 6 \<notin> {ch_dot, ch_slash}"
    using x request_line_plain_path_safe [of 0 ?b 19 "snd (snd ?x)"] by blast
  with x \<open>?b ! 6 = ch_slash\<close> show ?thesis by blast
qed

theorem request_line_roundtrip_witness:
  "\<exists>r. ngx_http_parse_request_line (print_request_line (bytes ''HEAD'') (bytes ''a/index.html'')
       (Some (bytes ''x=%2f'')) [ch_1] [ch_1] @ [ch_A]) 0 init_request = (NGX_OK, 35, r) \<and>
     req_method r = NGX_HTTP_HEAD \<and> http_version r = 1001 \<and> uri_start r = Some 5 \<and>
     uri_end r = Some 24 \<and> uri_ext r = Some 14 \<and> args_start r = Some 19 \<and> \<not> complex_uri r"
proof -
  have "bytes ''HEAD'' \<noteq> []" "\<forall>c\<in>set (bytes ''HEAD''). \<not> not_method_char c"
    "plain_path True (bytes ''a/index.html'')"
    "\<forall>a. Some (bytes ''x=%2f'') = Some a \<longrightarrow> plain_args a"
    "[ch_1] \<noteq> []" "hd [ch_1] \<noteq> ch_0" "[ch_1] \<noteq> []" "\<forall>c\<in>set ([ch_1] @ [ch_1]). is_digit c"
    "decimal_value 0 [ch_1] < 2 ^ 16" "decimal_value 0 [ch_1] < 2 ^ 16"
    by (simp_all add: not_method_char_def usual_iff is_digit_def plain_args_def decimal_value_def)
  from request_line_roundtrip [OF refl this, of "[ch_A]"] show ?thesis
    by (simp add: method_code_def http_methods_def init_request_def decimal_value_def extension_def
        print_request_line_def print_uri_def print_version_def)
qed

text \<open>
  A space in the URI switches the checks off: the byte after it is taken without being looked
  at, so a NUL byte and a \<^verbatim>\<open>/../\<close> segment are both accepted in a URI that is not flagged for
  normalisation.
\<close>

theorem request_line_space_bypass:
  "(\<exists>q r. ngx_http_parse_request_line (bytes ''GET /a /../b HTTP/1.0'' @ [CR, LF]) 0 init_request =
      (NGX_OK, q, r) \<and> \<not> complex_uri r \<and> \<not> quoted_uri r \<and>
      uri_start r = Some 4 \<and> uri_end r = Some 12) \<and>
   (\<exists>q r. ngx_http_parse_request_line (bytes ''GET /a '' @ [NUL] @ bytes ''b HTTP/1.0'' @ [CR, LF]) 0
      init_request = (NGX_OK, q, r) \<and> \<not> complex_uri r \<and> \<not> quoted_uri r \<and>
      uri_start r = Some 4 \<and> uri_end r = Some 9)"
  by (simp add: rl_eval)

text \<open>
   The version fields are 16-bit and their digits are not limited: a major version of 65537 is
  accepted and leaves the version number of HTTP/1.1.
\<close>

theorem request_line_version_wraps:
  "\<exists>q r. ngx_http_parse_request_line (bytes ''GET / HTTP/65537.1'' @ [CR, LF]) 0 init_request =
     (NGX_OK, q, r) \<and> http_major r = 1 \<and> http_version r = 1001"
  by (simp add: rl_eval)

end
