(* ===== verification/Ngx_String.thy ===== *)
theory Ngx_String
  imports Xhome_Prelude "HOL-Library.List_Lexorder"
begin

text \<open>
  The string primitives of \<^verbatim>\<open>src/core/ngx_string.c\<close>: case folding, bounded copies, comparisons and
  searches.  A C string argument is the list of the bytes from the pointer to the end of its memory;
  reading past it is the value \<^const>\<open>None\<close>.  The lemmas show that on terminated strings the
  comparisons decide the lexicographic order of the case-folded texts and the searches find the first
  occurrence, and that none of them reads past a terminator.
\<close>

section \<open>Case folding and copying\<close>

definition ngx_tolower :: "u_char \<Rightarrow> u_char" where
  "ngx_tolower c = (if c \<ge> ch_A \<and> c \<le> ch_Z then c OR 0x20 else c)"

definition ngx_toupper :: "u_char \<Rightarrow> u_char" where
  "ngx_toupper c = (if c \<ge> ch_a \<and> c \<le> ch_z then c AND NOT 0x20 else c)"

text \<open>\<^verbatim>\<open>ngx_strlow(dst, src, n)\<close>: the \<open>n\<close> bytes written at \<^verbatim>\<open>dst\<close>, when \<^verbatim>\<open>src\<close> has them.\<close>

fun ngx_strlow :: "buffer \<Rightarrow> nat \<Rightarrow> buffer option" where
  "ngx_strlow src 0 = Some []"
| "ngx_strlow [] (Suc n) = None"
| "ngx_strlow (c # src) (Suc n) = map_option (Cons (ngx_tolower c)) (ngx_strlow src n)"

text \<open>
  \<^verbatim>\<open>ngx_cpystrn(dst, src, n)\<close>: the bytes written at \<^verbatim>\<open>dst\<close>; the pointer returned is at the last of
  them.
\<close>

fun ngx_cpystrn :: "buffer \<Rightarrow> nat \<Rightarrow> buffer option" where
  "ngx_cpystrn src 0 = Some []"
| "ngx_cpystrn src (Suc 0) = Some [NUL]"
| "ngx_cpystrn [] (Suc (Suc n)) = None"
| "ngx_cpystrn (c # src) (Suc (Suc n)) =
     (if c = NUL then Some [NUL] else map_option (Cons c) (ngx_cpystrn src (Suc n)))"

section \<open>Comparisons\<close>

text \<open>\<^verbatim>\<open>return c1 - c2\<close> of two \<^verbatim>\<open>ngx_uint_t\<close> values that hold bytes.\<close>

definition byte_diff :: "u_char \<Rightarrow> u_char \<Rightarrow> ngx_int_t" where
  "byte_diff c1 c2 = ucast c1 - ucast c2"

fun ngx_strcasecmp :: "buffer \<Rightarrow> buffer \<Rightarrow> ngx_int_t option" where
  "ngx_strcasecmp (c1 # s1) (c2 # s2) =
     (let c1 = ngx_tolower c1; c2 = ngx_tolower c2 in
      if c1 = c2 then if c1 \<noteq> 0 then ngx_strcasecmp s1 s2 else Some 0
      else Some (byte_diff c1 c2))"
| "ngx_strcasecmp _ _ = None"

fun ngx_strncasecmp :: "buffer \<Rightarrow> buffer \<Rightarrow> nat \<Rightarrow> ngx_int_t option" where
  "ngx_strncasecmp s1 s2 0 = Some 0"
| "ngx_strncasecmp (c1 # s1) (c2 # s2) (Suc n) =
     (let c1 = ngx_tolower c1; c2 = ngx_tolower c2 in
      if c1 = c2 then if c1 \<noteq> 0 then ngx_strncasecmp s1 s2 n else Some 0
      else Some (byte_diff c1 c2))"
| "ngx_strncasecmp _ _ (Suc n) = None"

text \<open>The C library's \<^verbatim>\<open>strncmp\<close>: is it zero?\<close>

fun ngx_strncmp_eq :: "buffer \<Rightarrow> buffer \<Rightarrow> nat \<Rightarrow> bool option" where
  "ngx_strncmp_eq s1 s2 0 = Some True"
| "ngx_strncmp_eq (c1 # s1) (c2 # s2) (Suc n) =
     (if c1 \<noteq> c2 then Some False else if c1 = NUL then Some True else ngx_strncmp_eq s1 s2 n)"
| "ngx_strncmp_eq _ _ (Suc n) = None"

fun ngx_rstrncmp :: "buffer \<Rightarrow> buffer \<Rightarrow> nat \<Rightarrow> ngx_int_t option" where
  "ngx_rstrncmp s1 s2 0 = Some 0"
| "ngx_rstrncmp s1 s2 (Suc n) =
     (if n < length s1 \<and> n < length s2 then
        if s1 ! n \<noteq> s2 ! n then Some (byte_diff (s1 ! n) (s2 ! n)) else ngx_rstrncmp s1 s2 n
      else None)"

text \<open>\<^verbatim>\<open>if (c >= 'a' && c <= 'z') c -= 'a' - 'A';\<close>\<close>

definition upper_by_sub :: "u_char \<Rightarrow> u_char" where
  "upper_by_sub c = (if c \<ge> ch_a \<and> c \<le> ch_z then c - (ch_a - ch_A) else c)"

fun ngx_rstrncasecmp :: "buffer \<Rightarrow> buffer \<Rightarrow> nat \<Rightarrow> ngx_int_t option" where
  "ngx_rstrncasecmp s1 s2 0 = Some 0"
| "ngx_rstrncasecmp s1 s2 (Suc n) =
     (if n < length s1 \<and> n < length s2 then
        (let c1 = upper_by_sub (s1 ! n); c2 = upper_by_sub (s2 ! n) in
         if c1 \<noteq> c2 then Some (byte_diff c1 c2) else ngx_rstrncasecmp s1 s2 n)
      else None)"

text \<open>
  The C library's \<^verbatim>\<open>memcmp\<close>, of which only the sign is specified: the difference of the first
  two bytes that differ.
\<close>

fun ngx_memcmp :: "buffer \<Rightarrow> buffer \<Rightarrow> nat \<Rightarrow> ngx_int_t option" where
  "ngx_memcmp s1 s2 0 = Some 0"
| "ngx_memcmp (c1 # s1) (c2 # s2) (Suc n) =
     (if c1 \<noteq> c2 then Some (byte_diff c1 c2) else ngx_memcmp s1 s2 n)"
| "ngx_memcmp _ _ (Suc n) = None"

definition ngx_memn2cmp :: "buffer \<Rightarrow> buffer \<Rightarrow> nat \<Rightarrow> nat \<Rightarrow> ngx_int_t option" where
  "ngx_memn2cmp s1 s2 n1 n2 =
     (let (n, z) = (if n1 \<le> n2 then (n1, - 1) else (n2, 1))
      in case ngx_memcmp s1 s2 n of
           None \<Rightarrow> None
         | Some m \<Rightarrow> if m \<noteq> 0 \<or> n1 = n2 then Some m else Some z)"

text \<open>\<^verbatim>\<open>c = (c == '.') ? ' ' : c\<close>\<close>

definition dot_lowest :: "u_char \<Rightarrow> u_char" where
  "dot_lowest c = (if c = ch_dot then ch_space else c)"

fun ngx_dns_strcmp :: "buffer \<Rightarrow> buffer \<Rightarrow> ngx_int_t option" where
  "ngx_dns_strcmp (c1 # s1) (c2 # s2) =
     (let c1 = ngx_tolower c1; c2 = ngx_tolower c2 in
      if c1 = c2 then if c1 \<noteq> 0 then ngx_dns_strcmp s1 s2 else Some 0
      else Some (byte_diff (dot_lowest c1) (dot_lowest c2)))"
| "ngx_dns_strcmp _ _ = None"

section \<open>Searches\<close>

text \<open>
  The searches return an index into \<^verbatim>\<open>s1\<close>, or \<^const>\<open>None\<close> for \<^verbatim>\<open>NULL\<close>, under an outer option for reads
  past the end.  The two nested \<^verbatim>\<open>do\<close> loops look at one byte per round: when it matches the first
  byte of the needle, the rest is compared.  \<open>i\<close> is the index of the byte.
\<close>

fun strnstr_loop :: "u_char \<Rightarrow> buffer \<Rightarrow> nat \<Rightarrow> buffer \<Rightarrow> nat \<Rightarrow> nat \<Rightarrow> nat option option" where
  "strnstr_loop c2 s2 n s1 0 i = Some None"
| "strnstr_loop c2 s2 n [] (Suc len) i = None"
| "strnstr_loop c2 s2 n (c1 # s1) (Suc len) i =
     (if c1 = NUL then Some None
      else if c1 \<noteq> c2 then strnstr_loop c2 s2 n s1 len (i + 1)
      else if n > len then Some None
      else case ngx_strncmp_eq s1 s2 n of
             None \<Rightarrow> None
           | Some True \<Rightarrow> Some (Some i)
           | Some False \<Rightarrow> strnstr_loop c2 s2 n s1 len (i + 1))"

text \<open>The needle is a terminated string; \<^verbatim>\<open>ngx_strlen\<close> of its rest is the distance to the terminator.\<close>

fun ngx_strlen :: "buffer \<Rightarrow> nat option" where
  "ngx_strlen [] = None"
| "ngx_strlen (c # s) = (if c = NUL then Some 0 else map_option Suc (ngx_strlen s))"

definition ngx_strnstr :: "buffer \<Rightarrow> buffer \<Rightarrow> nat \<Rightarrow> nat option option" where
  "ngx_strnstr s1 s2 len =
     (case s2 of
        [] \<Rightarrow> None
      | c2 # s2 \<Rightarrow>
          (case ngx_strlen s2 of None \<Rightarrow> None | Some n \<Rightarrow> strnstr_loop c2 s2 n s1 len 0))"

fun strstrn_loop :: "u_char \<Rightarrow> buffer \<Rightarrow> nat \<Rightarrow> buffer \<Rightarrow> nat \<Rightarrow> nat option option" where
  "strstrn_loop c2 s2 n [] i = None"
| "strstrn_loop c2 s2 n (c1 # s1) i =
     (if c1 = NUL then Some None
      else if c1 \<noteq> c2 then strstrn_loop c2 s2 n s1 (i + 1)
      else case ngx_strncmp_eq s1 s2 n of
             None \<Rightarrow> None
           | Some True \<Rightarrow> Some (Some i)
           | Some False \<Rightarrow> strstrn_loop c2 s2 n s1 (i + 1))"

definition ngx_strstrn :: "buffer \<Rightarrow> buffer \<Rightarrow> nat \<Rightarrow> nat option option" where
  "ngx_strstrn s1 s2 n = (case s2 of [] \<Rightarrow> None | c2 # s2 \<Rightarrow> strstrn_loop c2 s2 n s1 0)"

fun strcasestrn_loop :: "u_char \<Rightarrow> buffer \<Rightarrow> nat \<Rightarrow> buffer \<Rightarrow> nat \<Rightarrow> nat option option" where
  "strcasestrn_loop c2 s2 n [] i = None"
| "strcasestrn_loop c2 s2 n (c1 # s1) i =
     (if c1 = NUL then Some None
      else if ngx_tolower c1 \<noteq> c2 then strcasestrn_loop c2 s2 n s1 (i + 1)
      else case ngx_strncasecmp s1 s2 n of
             None \<Rightarrow> None
           | Some d \<Rightarrow> if d \<noteq> 0 then strcasestrn_loop c2 s2 n s1 (i + 1) else Some (Some i))"

definition ngx_strcasestrn :: "buffer \<Rightarrow> buffer \<Rightarrow> nat \<Rightarrow> nat option option" where
  "ngx_strcasestrn s1 s2 n =
     (case s2 of [] \<Rightarrow> None | c2 # s2 \<Rightarrow> strcasestrn_loop (ngx_tolower c2) s2 n s1 0)"

text \<open>The argument \<^verbatim>\<open>last\<close> is given as an index into \<^verbatim>\<open>s1\<close>; \<open>room\<close> is \<^verbatim>\<open>last - n - s1\<close>.\<close>

fun strlcasestrn_loop :: "u_char \<Rightarrow> buffer \<Rightarrow> nat \<Rightarrow> buffer \<Rightarrow> nat \<Rightarrow> nat \<Rightarrow> nat option option" where
  "strlcasestrn_loop c2 s2 n s1 0 i = Some None"
| "strlcasestrn_loop c2 s2 n [] (Suc room) i = None"
| "strlcasestrn_loop c2 s2 n (c1 # s1) (Suc room) i =
     (if ngx_tolower c1 \<noteq> c2 then strlcasestrn_loop c2 s2 n s1 room (i + 1)
      else case ngx_strncasecmp s1 s2 n of
             None \<Rightarrow> None
           | Some d \<Rightarrow> if d \<noteq> 0 then strlcasestrn_loop c2 s2 n s1 room (i + 1) else Some (Some i))"

definition ngx_strlcasestrn :: "buffer \<Rightarrow> nat \<Rightarrow> buffer \<Rightarrow> nat \<Rightarrow> nat option option" where
  "ngx_strlcasestrn s1 bound s2 n =
     (case s2 of
        [] \<Rightarrow> None
      | c2 # s2 \<Rightarrow> strlcasestrn_loop (ngx_tolower c2) s2 n s1 (bound - n) 0)"

text \<open>\<^verbatim>\<open>ngx_strlchr(p, last, c)\<close> of \<^verbatim>\<open>ngx_string.h\<close>.\<close>

fun ngx_strlchr :: "buffer \<Rightarrow> u_char \<Rightarrow> nat \<Rightarrow> nat option" where
  "ngx_strlchr [] c i = None"
| "ngx_strlchr (x # s) c i = (if x = c then Some i else ngx_strlchr s c (i + 1))"

section \<open>Folding and copying\<close>

lemma ngx_strlow_eq:
  "ngx_strlow src n = (if n \<le> length src then Some (map ngx_tolower (take n src)) else None)"
  by (induction src n rule: ngx_strlow.induct) auto

lemma ngx_cpystrn_eq:
  "NUL \<notin> set s \<Longrightarrow> ngx_cpystrn (s @ NUL # rest) (Suc n) = Some (take n s @ [NUL])"
proof (induction s arbitrary: n)
  case Nil
  then show ?case by (cases n) auto
next
  case (Cons c s)
  then show ?case by (cases n) auto
qed

lemma unat_tolower:
  "unat (ngx_tolower c) = (if 65 \<le> unat c \<and> unat c \<le> 90 then unat c + 32 else unat c)"
proof (cases "65 \<le> unat c \<and> unat c \<le> 90")
  case True
  then have "unat c div 32 mod 2 \<noteq> 1" using div_32 [of 2 "unat c"] by simp
  with True show ?thesis by (simp add: ngx_tolower_def word_le_nat_alt or_0x20)
next
  case False
  then show ?thesis by (auto simp: ngx_tolower_def word_le_nat_alt)
qed

lemma unat_upper_by_sub:
  "unat (upper_by_sub c) = (if 97 \<le> unat c \<and> unat c \<le> 122 then unat c - 32 else unat c)"
  by (auto simp: upper_by_sub_def word_le_nat_alt unat_sub)

lemma ngx_tolower_nul [simp]: "ngx_tolower c = NUL \<longleftrightarrow> c = NUL" "ngx_tolower NUL = NUL"
  by (simp_all add: word_unat_eq_iff unat_tolower)

lemma tolower_eq_nul: "ngx_tolower c = ngx_tolower d \<Longrightarrow> c = NUL \<longleftrightarrow> d = NUL"
  by (metis ngx_tolower_nul(1))

lemma upper_by_sub_tolower: "upper_by_sub c = upper_by_sub d \<longleftrightarrow> ngx_tolower c = ngx_tolower d"
  by (auto simp: word_unat_eq_iff unat_tolower unat_upper_by_sub)

section \<open>The order of the comparisons\<close>

lemma sint_byte_diff: "sint (byte_diff a b) = uint a - uint b"
proof -
  have eq: "byte_diff a b = of_int (uint a - uint b)" by (simp add: byte_diff_def)
  have big: "(256 :: int) < 2 ^ 63" by simp
  have "0 \<le> uint a" "uint a < 256" "0 \<le> uint b" "uint b < 256"
    using uint_bounded [of a] uint_bounded [of b] by simp_all
  then have "- (2 ^ 63) \<le> uint a - uint b" "uint a - uint b < 2 ^ 63"
    using big by linarith+
  then show ?thesis
    unfolding eq signed_of_int of_int_eq_id id_apply
    by (intro signed_take_bit_int_eq_self) simp_all
qed

lemma byte_diff_less: "sint (byte_diff a b) < 0 \<longleftrightarrow> a < b"
  by (simp add: sint_byte_diff word_less_def)

lemma byte_diff_zero: "byte_diff a b = 0 \<longleftrightarrow> a = b"
proof
  assume "byte_diff a b = 0"
  then have "sint (byte_diff a b) = 0" by simp
  then show "a = b" by (simp add: sint_byte_diff word_uint_eq_iff)
qed (simp add: byte_diff_def)

text \<open>
  A comparison result \<open>d\<close> decides the order of two texts: its sign is the order and zero is equality.
\<close>

definition decides :: "ngx_int_t \<Rightarrow> 'a::linorder \<Rightarrow> 'a \<Rightarrow> bool" where
  "decides d x y \<longleftrightarrow> (sint d < 0 \<longleftrightarrow> x < y) \<and> (d = 0 \<longleftrightarrow> x = y)"

lemma decides_byte: "a \<noteq> b \<Longrightarrow> decides (byte_diff a b) (a # x) (b # y)"
  by (auto simp: decides_def byte_diff_less byte_diff_zero)

lemma decides_Cons: "decides d x y \<Longrightarrow> decides d (a # x) (a # y)"
  by (simp add: decides_def)

lemma decides_Nil: "decides 0 [] []" "b \<noteq> NUL \<Longrightarrow> decides (byte_diff NUL b) [] (b # y)"
  "a \<noteq> NUL \<Longrightarrow> decides (byte_diff a NUL) (a # x) []"
  by (auto simp: decides_def byte_diff_less byte_diff_zero word_gt_0)

lemma strcasecmp_decides:
  "NUL \<notin> set s \<Longrightarrow> NUL \<notin> set t \<Longrightarrow>
   \<exists>d. ngx_strcasecmp (s @ NUL # x) (t @ NUL # y) = Some d \<and>
     decides d (map ngx_tolower s) (map ngx_tolower t)"
proof (induction s arbitrary: t)
  case Nil
  then show ?case by (cases t) (auto simp: Let_def decides_Nil)
next
  case (Cons a s)
  show ?case
  proof (cases t)
    case Nil
    with Cons.prems show ?thesis by (simp add: Let_def decides_Nil)
  next
    case (Cons b u)
    show ?thesis
    proof (cases "ngx_tolower a = ngx_tolower b")
      case True
      with Cons Cons.prems Cons.IH [of u] show ?thesis by (auto simp: Let_def decides_Cons)
    next
      case False
      with Cons Cons.prems show ?thesis by (simp add: Let_def decides_byte)
    qed
  qed
qed

lemma strncasecmp_decides:
  "NUL \<notin> set s \<Longrightarrow> NUL \<notin> set t \<Longrightarrow>
   \<exists>d. ngx_strncasecmp (s @ NUL # x) (t @ NUL # y) n = Some d \<and>
     decides d (map ngx_tolower (take n s)) (map ngx_tolower (take n t))"
proof (induction n arbitrary: s t)
  case 0
  then show ?case by (simp add: decides_def)
next
  case (Suc n)
  show ?case
  proof (cases s; cases t)
    fix a s' b t' assume st: "s = a # s'" "t = b # t'"
    show ?thesis
    proof (cases "ngx_tolower a = ngx_tolower b")
      case True
      with st Suc.prems Suc.IH [of s' t'] show ?thesis by (auto simp: Let_def decides_Cons)
    next
      case False
      with st Suc.prems show ?thesis by (simp add: Let_def decides_byte)
    qed
  qed (use Suc.prems in \<open>auto simp: Let_def decides_Nil\<close>)
qed

text \<open>With enough bytes and none of them NUL, the comparison of \<open>n\<close> bytes needs no terminator.\<close>

lemma strncasecmp_zero:
  "n \<le> length s \<Longrightarrow> n \<le> length t \<Longrightarrow> NUL \<notin> set (take n t) \<Longrightarrow>
   \<exists>d. ngx_strncasecmp s t n = Some d \<and>
     (d = 0 \<longleftrightarrow> map ngx_tolower (take n s) = map ngx_tolower (take n t))"
proof (induction s t n rule: ngx_strncasecmp.induct)
  case (2 c1 s1 c2 s2 n)
  then show ?case
    by (cases "ngx_tolower c1 = ngx_tolower c2")
       (auto simp: Let_def byte_diff_zero tolower_eq_nul [of c1 c2])
qed auto

lemma rstrncmp_zero:
  "n \<le> length s \<Longrightarrow> n \<le> length t \<Longrightarrow>
   \<exists>d. ngx_rstrncmp s t n = Some d \<and> (d = 0 \<longleftrightarrow> take n s = take n t)"
  by (induction n) (auto simp: take_Suc_conv_app_nth byte_diff_zero)

lemma rstrncasecmp_zero:
  "n \<le> length s \<Longrightarrow> n \<le> length t \<Longrightarrow>
   \<exists>d. ngx_rstrncasecmp s t n = Some d \<and>
     (d = 0 \<longleftrightarrow> map ngx_tolower (take n s) = map ngx_tolower (take n t))"
  by (induction n) (auto simp: take_Suc_conv_app_nth byte_diff_zero Let_def upper_by_sub_tolower)

lemma memcmp_decides:
  "length s = length t \<Longrightarrow> \<exists>d. ngx_memcmp (s @ x) (t @ y) (length s) = Some d \<and> decides d s t"
proof (induction s t rule: list_induct2)
  case Nil
  then show ?case by (simp add: decides_Nil)
next
  case (Cons a s b t)
  then show ?case by (cases "a = b") (auto simp: decides_Cons decides_byte)
qed

lemma list_less_take:
  fixes s t :: "'a::linorder list"
  assumes "length s \<le> length t"
  shows "s < t \<longleftrightarrow> s < take (length s) t \<or> s = take (length s) t \<and> length s < length t"
    and "t < s \<longleftrightarrow> take (length s) t < s"
  using assms
proof (induction s arbitrary: t)
  case Nil
  { case 1 then show ?case by (cases t) auto }
  { case 2 then show ?case by simp }
next
  case (Cons a s)
  { case 1 then show ?case using Cons.IH(1) [of "tl t"] by (cases t) auto }
  { case 2 then show ?case using Cons.IH(2) [of "tl t"] by (cases t) auto }
qed

lemma memn2cmp_decides: "\<exists>d. ngx_memn2cmp s t (length s) (length t) = Some d \<and> decides d s t"
proof (cases "length s \<le> length t")
  case True
  let ?t = "take (length s) t"
  obtain d where d: "ngx_memcmp s t (length s) = Some d" "decides d s ?t"
    using memcmp_decides [of s ?t "[]" "drop (length s) t"] True by auto
  have eq: "ngx_memn2cmp s t (length s) (length t) =
      (if d \<noteq> 0 \<or> length s = length t then Some d else Some (- 1))"
    using True d(1) by (simp add: ngx_memn2cmp_def)
  consider "d \<noteq> 0" | "d = 0" "length s = length t" | "d = 0" "length s < length t"
    using True by linarith
  then show ?thesis
  proof cases
    case 1
    with d(2) have "s \<noteq> ?t" "s \<noteq> t" by (auto simp: decides_def)
    with 1 d(2) eq list_less_take(1) [OF True] show ?thesis by (simp add: decides_def)
  next
    case 2 with d(2) eq show ?thesis by simp
  next
    case 3
    with d(2) have "s = ?t" by (simp add: decides_def)
    with 3 list_less_take(1) [OF True] have "s < t" by blast
    with 3 eq show ?thesis by (auto simp: decides_def)
  qed
next
  case False
  then have len: "length t \<le> length s" by simp
  let ?s = "take (length t) s"
  obtain d where d: "ngx_memcmp s t (length t) = Some d" "decides d ?s t"
    using memcmp_decides [of ?s t "drop (length t) s" "[]"] len by auto
  have eq: "ngx_memn2cmp s t (length s) (length t) = (if d \<noteq> 0 then Some d else Some 1)"
    using False d(1) by (simp add: ngx_memn2cmp_def)
  show ?thesis
  proof (cases "d = 0")
    case True
    with d(2) have "?s = t" by (simp add: decides_def)
    then have "\<not> s < t" using list_less_take(2) [OF len] by simp
    with True False eq show ?thesis by (auto simp: decides_def)
  next
    case False
    with d(2) have "?s \<noteq> t" "s \<noteq> t" by (auto simp: decides_def)
    with False d(2) eq list_less_take(2) [OF len] show ?thesis by (simp add: decides_def)
  qed
qed

text \<open>Names without blanks are ordered by \<^verbatim>\<open>ngx_dns_strcmp\<close> as if the dot were the lowest byte.\<close>

definition dns_key :: "buffer \<Rightarrow> buffer" where
  "dns_key s = map (\<lambda>c. dot_lowest (ngx_tolower c)) s"

definition dns_name :: "buffer \<Rightarrow> bool" where
  "dns_name s \<longleftrightarrow> (\<forall>c\<in>set s. c \<noteq> NUL \<and> c \<noteq> ch_space)"

lemma tolower_space: "ngx_tolower c = ch_space \<longleftrightarrow> c = ch_space"
  by (simp add: word_unat_eq_iff unat_tolower)

lemma dot_lowest_inj:
  "c \<noteq> ch_space \<Longrightarrow> d \<noteq> ch_space \<Longrightarrow> dot_lowest c = dot_lowest d \<longleftrightarrow> c = d"
  by (auto simp: dot_lowest_def)

lemma dot_lowest_nul [simp]: "dot_lowest NUL = NUL" "dot_lowest c = NUL \<longleftrightarrow> c = NUL"
  by (auto simp: dot_lowest_def)

lemma dns_strcmp_decides:
  "dns_name s \<Longrightarrow> dns_name t \<Longrightarrow>
   \<exists>d. ngx_dns_strcmp (s @ NUL # x) (t @ NUL # y) = Some d \<and> decides d (dns_key s) (dns_key t)"
proof (induction s arbitrary: t)
  case Nil
  then show ?case by (cases t) (auto simp: Let_def decides_Nil dns_key_def dns_name_def)
next
  case (Cons a s)
  show ?case
  proof (cases t)
    case Nil
    with Cons.prems show ?thesis by (simp add: Let_def decides_Nil dns_key_def dns_name_def)
  next
    case (Cons b u)
    show ?thesis
    proof (cases "ngx_tolower a = ngx_tolower b")
      case True
      with Cons Cons.prems Cons.IH [of u] show ?thesis
        by (auto simp: Let_def decides_Cons dns_key_def dns_name_def)
    next
      case False
      then have "dot_lowest (ngx_tolower a) \<noteq> dot_lowest (ngx_tolower b)"
        using Cons.prems Cons by (simp add: dot_lowest_inj tolower_space dns_name_def)
      with False Cons Cons.prems show ?thesis by (simp add: Let_def decides_byte dns_key_def)
    qed
  qed
qed

text \<open>
  On terminated strings \<^verbatim>\<open>ngx_strcasecmp\<close> and \<^verbatim>\<open>ngx_strncasecmp\<close>, on buffers \<^verbatim>\<open>ngx_memn2cmp\<close>,
  and on host names \<^verbatim>\<open>ngx_dns_strcmp\<close> read nothing past the terminator or the length, and the sign
  of their result is the lexicographic order: of the case-folded texts, of their first \<open>n\<close> bytes, of
  the bytes, and of the case-folded names with the dot below every other byte.
\<close>

theorem comparisons_decide_order:
  assumes "NUL \<notin> set s" and "NUL \<notin> set t" and "dns_name u" and "dns_name v"
  shows "(\<exists>d. ngx_strcasecmp (s @ NUL # x) (t @ NUL # y) = Some d \<and>
      decides d (map ngx_tolower s) (map ngx_tolower t)) \<and>
    (\<exists>d. ngx_strncasecmp (s @ NUL # x) (t @ NUL # y) n = Some d \<and>
      decides d (map ngx_tolower (take n s)) (map ngx_tolower (take n t))) \<and>
    (\<exists>d. ngx_memn2cmp b c (length b) (length c) = Some d \<and> decides d b c) \<and>
    (\<exists>d. ngx_dns_strcmp (u @ NUL # x) (v @ NUL # y) = Some d \<and> decides d (dns_key u) (dns_key v))"
  using strcasecmp_decides [OF assms(1,2)] strncasecmp_decides [OF assms(1,2)] memn2cmp_decides
    dns_strcmp_decides [OF assms(3,4)]
  by blast

theorem comparisons_decide_order_witness:
  "\<exists>d. ngx_dns_strcmp (bytes ''a.b'' @ [NUL]) (bytes ''A-b'' @ [NUL]) = Some d \<and>
     decides d (dns_key (bytes ''a.b'')) (dns_key (bytes ''A-b''))"
proof -
  have "dns_name (bytes ''a.b'')" "dns_name (bytes ''A-b'')" "NUL \<notin> set []"
    by (simp_all add: dns_name_def)
  from comparisons_decide_order [OF this(3,3,1,2)] show ?thesis by blast
qed

section \<open>What the searches find\<close>

text \<open>\<open>finds P r\<close>: \<open>r\<close> is the least index with \<open>P\<close>, if there is one.\<close>

definition finds :: "(nat \<Rightarrow> bool) \<Rightarrow> nat option \<Rightarrow> bool" where
  "finds P r \<longleftrightarrow> (case r of None \<Rightarrow> (\<forall>i. \<not> P i) | Some i \<Rightarrow> P i \<and> (\<forall>j<i. \<not> P j))"

lemma finds_0: "P 0 \<Longrightarrow> finds P (Some 0)"
  by (simp add: finds_def)

lemma finds_Suc: "\<not> P 0 \<Longrightarrow> finds (\<lambda>i. P (Suc i)) r \<Longrightarrow> finds P (map_option Suc r)"
  by (auto simp: finds_def less_Suc_eq_0_disj split: option.splits) (metis not0_implies_Suc)

definition occurs :: "(u_char \<Rightarrow> u_char) \<Rightarrow> buffer \<Rightarrow> buffer \<Rightarrow> nat \<Rightarrow> bool" where
  "occurs cs needle s i \<longleftrightarrow> map cs (take (length needle) (drop i s)) = map cs needle"

lemma occurs_0:
  "occurs cs (c # t) (a # s) 0 \<longleftrightarrow> cs a = cs c \<and> map cs (take (length t) s) = map cs t"
  by (simp add: occurs_def)

lemma occurs_Suc [simp]: "occurs cs needle (a # s) (Suc i) = occurs cs needle s i"
  by (simp add: occurs_def)

lemma occurs_Nil [simp]: "\<not> occurs cs (c # t) [] i"
  by (simp add: occurs_def)

text \<open>A round of a search that moves on.\<close>

lemma search_next:
  assumes "\<exists>r. f (Suc i) = Some (map_option (\<lambda>j. Suc i + j) r) \<and> finds (\<lambda>j. P (Suc j)) r" and "\<not> P 0"
  shows "\<exists>r. f (Suc i) = Some (map_option (\<lambda>j. i + j) r) \<and> finds P r"
proof -
  from assms(1) obtain r where "f (Suc i) = Some (map_option (\<lambda>j. Suc i + j) r)" "finds (\<lambda>j. P (Suc j)) r"
    by blast
  with assms(2) have "f (Suc i) = Some (map_option (\<lambda>j. i + j) (map_option Suc r)) \<and> finds P (map_option Suc r)"
    by (simp add: option.map_comp comp_def finds_Suc)
  then show ?thesis by blast
qed

lemma search_hit: "P 0 \<Longrightarrow> \<exists>r. Some (Some i) = Some (map_option (\<lambda>j. i + j) r) \<and> finds P r"
  using finds_0 [of P] by (intro exI [of _ "Some 0"]) simp

lemma search_miss: "(\<And>j. \<not> P j) \<Longrightarrow> \<exists>r. Some None = Some (map_option (\<lambda>j. i + j) r) \<and> finds P r"
  by (intro exI [of _ None]) (simp add: finds_def)

lemma strncmp_eq_terminated:
  "NUL \<notin> set a \<Longrightarrow> NUL \<notin> set t \<Longrightarrow>
   ngx_strncmp_eq (a @ NUL # x) (t @ y) (length t) = Some (take (length t) a = t)"
proof (induction t arbitrary: a)
  case (Cons c t)
  then show ?case by (cases a) auto
qed simp

lemma strncmp_eq_long:
  "length t \<le> length s \<Longrightarrow> NUL \<notin> set t \<Longrightarrow>
   ngx_strncmp_eq s (t @ y) (length t) = Some (take (length t) s = t)"
proof (induction t arbitrary: s)
  case (Cons c t)
  then show ?case by (cases s) auto
qed simp

lemma strstrn_finds:
  "NUL \<notin> set a \<Longrightarrow> NUL \<notin> set t \<Longrightarrow> c \<noteq> NUL \<Longrightarrow>
   \<exists>r. strstrn_loop c (t @ y) (length t) (a @ NUL # x) i = Some (map_option (\<lambda>j. i + j) r) \<and>
     finds (occurs id (c # t) a) r"
proof (induction a arbitrary: i)
  case Nil
  then show ?case by (simp add: finds_def)
next
  case (Cons b a)
  let ?f = "strstrn_loop c (t @ y) (length t) (a @ NUL # x)"
  have next_round: "\<not> occurs id (c # t) (b # a) 0 \<Longrightarrow>
      \<exists>r. ?f (Suc i) = Some (map_option (\<lambda>j. i + j) r) \<and> finds (occurs id (c # t) (b # a)) r"
    by (rule search_next [where f = ?f]) (use Cons.prems Cons.IH [of "Suc i"] in \<open>simp_all add: id_def\<close>)
  have cmp: "ngx_strncmp_eq (a @ NUL # x) (t @ y) (length t) = Some (take (length t) a = t)"
    using Cons.prems by (intro strncmp_eq_terminated) auto
  have occ: "occurs id (c # t) (b # a) 0 \<longleftrightarrow> b = c \<and> take (length t) a = t" by (simp add: occurs_0)
  show ?case
  proof (cases "b = c \<and> take (length t) a = t")
    case True
    with Cons.prems(3) cmp have "strstrn_loop c (t @ y) (length t) ((b # a) @ NUL # x) i = Some (Some i)"
      by simp
    with True occ show ?thesis by (simp only: search_hit)
  next
    case False
    with Cons.prems cmp have "strstrn_loop c (t @ y) (length t) ((b # a) @ NUL # x) i = ?f (Suc i)"
      by (auto split: bool.splits)
    with False occ show ?thesis by (simp only: next_round simp_thms)
  qed
qed

lemma strcasestrn_finds:
  "NUL \<notin> set a \<Longrightarrow> NUL \<notin> set t \<Longrightarrow> c \<noteq> NUL \<Longrightarrow>
   \<exists>r. strcasestrn_loop (ngx_tolower c) (t @ NUL # y) (length t) (a @ NUL # x) i =
       Some (map_option (\<lambda>j. i + j) r) \<and>
     finds (occurs ngx_tolower (c # t) a) r"
proof (induction a arbitrary: i)
  case Nil
  then show ?case by (simp add: finds_def)
next
  case (Cons b a)
  let ?f = "strcasestrn_loop (ngx_tolower c) (t @ NUL # y) (length t) (a @ NUL # x)"
  have next_round: "\<not> occurs ngx_tolower (c # t) (b # a) 0 \<Longrightarrow>
      \<exists>r. ?f (Suc i) = Some (map_option (\<lambda>j. i + j) r) \<and> finds (occurs ngx_tolower (c # t) (b # a)) r"
    by (rule search_next [where f = ?f]) (use Cons.prems Cons.IH [of "Suc i"] in \<open>simp_all add: id_def\<close>)
  obtain d where "ngx_strncasecmp (a @ NUL # x) (t @ NUL # y) (length t) = Some d"
    "d = 0 \<longleftrightarrow> map ngx_tolower (take (length t) a) = map ngx_tolower t"
    using strncasecmp_decides [of a t x y "length t"] Cons.prems by (auto simp: decides_def)
  note cmp = this
  show ?case
  proof (cases "ngx_tolower b = ngx_tolower c \<and> d = 0")
    case True
    with Cons.prems(1) cmp(1)
    have "strcasestrn_loop (ngx_tolower c) (t @ NUL # y) (length t) ((b # a) @ NUL # x) i = Some (Some i)"
      by simp
    moreover have "occurs ngx_tolower (c # t) (b # a) 0" using True cmp(2) by (simp add: occurs_0)
    ultimately show ?thesis by (simp only: search_hit)
  next
    case False
    with Cons.prems cmp(1)
    have "strcasestrn_loop (ngx_tolower c) (t @ NUL # y) (length t) ((b # a) @ NUL # x) i = ?f (Suc i)"
      by auto
    moreover have "\<not> occurs ngx_tolower (c # t) (b # a) 0" using False cmp(2) by (simp add: occurs_0)
    ultimately show ?thesis by (simp only: next_round simp_thms)
  qed
qed

lemma strlcasestrn_finds:
  "room + length t \<le> length s \<Longrightarrow> NUL \<notin> set t \<Longrightarrow>
   \<exists>r. strlcasestrn_loop (ngx_tolower c) (t @ y) (length t) s room i = Some (map_option (\<lambda>j. i + j) r) \<and>
     finds (\<lambda>j. j < room \<and> occurs ngx_tolower (c # t) s j) r"
proof (induction room arbitrary: s i)
  case 0
  then show ?case by (simp add: finds_def)
next
  case (Suc room)
  then obtain b a where s: "s = b # a" by (cases s) auto
  let ?f = "strlcasestrn_loop (ngx_tolower c) (t @ y) (length t) a room"
  let ?P = "\<lambda>j. j < Suc room \<and> occurs ngx_tolower (c # t) s j"
  have next_round: "\<not> occurs ngx_tolower (c # t) s 0 \<Longrightarrow>
      \<exists>r. ?f (Suc i) = Some (map_option (\<lambda>j. i + j) r) \<and> finds ?P r"
    by (rule search_next [where f = ?f]) (use Suc.prems Suc.IH [of a "Suc i"] in \<open>simp_all add: s id_def\<close>)
  obtain d where "ngx_strncasecmp a (t @ y) (length t) = Some d"
    "d = 0 \<longleftrightarrow> map ngx_tolower (take (length t) a) = map ngx_tolower t"
    using strncasecmp_zero [of "length t" a "t @ y"] Suc.prems by (auto simp: s)
  note cmp = this
  show ?case
  proof (cases "ngx_tolower b = ngx_tolower c \<and> d = 0")
    case True
    with cmp(1) have "strlcasestrn_loop (ngx_tolower c) (t @ y) (length t) s (Suc room) i = Some (Some i)"
      by (simp add: s)
    moreover have "?P 0" using True cmp(2) by (simp add: occurs_0 s)
    ultimately show ?thesis by (simp only: search_hit)
  next
    case False
    with cmp(1) have "strlcasestrn_loop (ngx_tolower c) (t @ y) (length t) s (Suc room) i = ?f (Suc i)"
      by (auto simp: s)
    moreover have "\<not> occurs ngx_tolower (c # t) s 0" using False cmp(2) by (simp add: occurs_0 s)
    ultimately show ?thesis by (simp only: next_round simp_thms)
  qed
qed

lemma strnstr_finds:
  "len \<le> length s \<Longrightarrow> NUL \<notin> set t \<Longrightarrow> c \<noteq> NUL \<Longrightarrow>
   \<exists>r. strnstr_loop c (t @ y) (length t) s len i = Some (map_option (\<lambda>j. i + j) r) \<and>
     finds (occurs id (c # t) (takeWhile (\<lambda>b. b \<noteq> NUL) (take len s))) r"
proof (induction len arbitrary: s i)
  case 0
  then show ?case by (simp add: finds_def)
next
  case (Suc len)
  then obtain b a where s: "s = b # a" by (cases s) auto
  let ?f = "strnstr_loop c (t @ y) (length t) a len"
  let ?h = "takeWhile (\<lambda>b. b \<noteq> NUL) (take len a)"
  show ?case
  proof (cases "b = NUL")
    case True
    then show ?thesis by (simp add: s finds_def)
  next
    case False
    let ?P = "occurs id (c # t) (b # ?h)"
    have next_round: "\<not> ?P 0 \<Longrightarrow> \<exists>r. ?f (Suc i) = Some (map_option (\<lambda>j. i + j) r) \<and> finds ?P r"
      by (rule search_next [where f = ?f]) (use Suc.prems Suc.IH [of a "Suc i"] in \<open>simp_all add: s id_def\<close>)
    have none: "\<not> ?P j" if "length t > len" for j
    proof -
      have "length (drop j (b # ?h)) < length (c # t)"
        using that length_takeWhile_le [of "\<lambda>b. b \<noteq> NUL" "take len a"] by simp linarith
      then have "length (take (length (c # t)) (drop j (b # ?h))) < length (c # t)" by simp
      then show ?thesis by (auto simp: occurs_def simp del: take_Suc_Cons length_take length_drop dest: arg_cong [of _ _ length])
    qed
    have hit: "take (length t) ?h = t \<longleftrightarrow> take (length t) a = t" if "length t \<le> len"
    proof
      assume "take (length t) ?h = t"
      then have "length t \<le> length ?h" by (metis length_take min.bounded_iff order_refl)
      moreover have "take (length ?h) (take len a) = ?h" by (rule takeWhile_eq_take [symmetric])
      then have "take (length t) (take (length ?h) (take len a)) = t"
        using \<open>take (length t) ?h = t\<close> by (simp only:)
      ultimately show "take (length t) a = t" using that by (simp only: take_take min.absorb1)
    next
      assume "take (length t) a = t"
      then have "take (length t) (take len a) = t" using that by simp
      then obtain d where d: "take len a = t @ d" by (metis append_take_drop_id)
      have "takeWhile (\<lambda>b. b \<noteq> NUL) (t @ d) = t @ takeWhile (\<lambda>b. b \<noteq> NUL) d"
        by (rule takeWhile_append2) (use Suc.prems(2) in auto)
      then have "?h = t @ takeWhile (\<lambda>b. b \<noteq> NUL) d" by (simp only: d)
      then show "take (length t) ?h = t" by simp
    qed
    show ?thesis
    proof (cases "b = c")
      case True
      show ?thesis
      proof (cases "length t > len")
        case True
        with \<open>b = c\<close> False none show ?thesis by (simp add: s id_def finds_def)
      next
        case short: False
        then have "ngx_strncmp_eq a (t @ y) (length t) = Some (take (length t) a = t)"
          using Suc.prems by (intro strncmp_eq_long) (auto simp: s)
        note cmp = this
        show ?thesis
        proof (cases "take (length t) a = t")
          case eq: True
          with True False short cmp have "strnstr_loop c (t @ y) (length t) s (Suc len) i = Some (Some i)"
            by (simp add: s)
          moreover have "?P 0" using eq True hit short by (simp add: occurs_0)
          ultimately show ?thesis using False search_hit [of ?P i] by (simp add: s id_def)
        next
          case neq: False
          with True False short cmp have "strnstr_loop c (t @ y) (length t) s (Suc len) i = ?f (Suc i)"
            by (simp add: s)
          moreover have "\<not> ?P 0" using neq hit short by (simp add: occurs_0)
          ultimately show ?thesis using False next_round by (simp add: s id_def)
        qed
      qed
    next
      case False
      with \<open>b \<noteq> NUL\<close> next_round show ?thesis by (simp add: s occurs_0 id_def)
    qed
  qed
qed

lemma ngx_strlen_eq: "NUL \<notin> set t \<Longrightarrow> ngx_strlen (t @ NUL # y) = Some (length t)"
  by (induction t) auto

text \<open>
  The four substring searches, on a haystack that is terminated (or long enough for the bound)
  and a needle \<open>c # t\<close> without NUL bytes, read nothing past the end and return the first place where
  the needle occurs, exactly or with case folded, and nothing when it does not occur.
\<close>

theorem searches_find_first:
  assumes "NUL \<notin> set a" and "NUL \<notin> set t" and "c \<noteq> NUL"
  shows "(\<exists>r. ngx_strstrn (a @ NUL # x) (c # t @ y) (length t) = Some r \<and> finds (occurs id (c # t) a) r) \<and>
    (\<exists>r. ngx_strcasestrn (a @ NUL # x) (c # t @ NUL # y) (length t) = Some r \<and>
      finds (occurs ngx_tolower (c # t) a) r) \<and>
    (len \<le> length s \<longrightarrow> (\<exists>r. ngx_strnstr s (c # t @ NUL # y) len = Some r \<and>
      finds (occurs id (c # t) (takeWhile (\<lambda>b. b \<noteq> NUL) (take len s))) r)) \<and>
    (len \<le> length s \<longrightarrow> (\<exists>r. ngx_strlcasestrn s len (c # t @ y) (length t) = Some r \<and>
      finds (\<lambda>j. j + length t < len \<and> occurs ngx_tolower (c # t) s j) r))"
proof (intro conjI impI)
  show "\<exists>r. ngx_strstrn (a @ NUL # x) (c # t @ y) (length t) = Some r \<and> finds (occurs id (c # t) a) r"
    using strstrn_finds [OF assms, of y x 0] by (simp add: ngx_strstrn_def option.map_ident)
  show "\<exists>r. ngx_strcasestrn (a @ NUL # x) (c # t @ NUL # y) (length t) = Some r \<and>
      finds (occurs ngx_tolower (c # t) a) r"
    using strcasestrn_finds [OF assms, of y x 0] by (simp add: ngx_strcasestrn_def option.map_ident)
  assume len: "len \<le> length s"
  show "\<exists>r. ngx_strnstr s (c # t @ NUL # y) len = Some r \<and>
      finds (occurs id (c # t) (takeWhile (\<lambda>b. b \<noteq> NUL) (take len s))) r"
    using strnstr_finds [OF len assms(2,3), of "NUL # y" 0] assms(2)
    by (simp add: ngx_strnstr_def ngx_strlen_eq option.map_ident)
  show "\<exists>r. ngx_strlcasestrn s len (c # t @ y) (length t) = Some r \<and>
      finds (\<lambda>j. j + length t < len \<and> occurs ngx_tolower (c # t) s j) r"
  proof (cases "length t \<le> len")
    case True
    then show ?thesis
      using strlcasestrn_finds [of "len - length t" t s c y 0] len assms(2)
      by (simp add: ngx_strlcasestrn_def option.map_ident less_diff_conv)
  next
    case False
    then show ?thesis by (simp add: ngx_strlcasestrn_def finds_def)
  qed
qed

theorem searches_find_first_witness:
  "\<exists>r. ngx_strstrn (bytes ''abcbcd'' @ NUL # []) (ch_b # bytes ''cd'' @ []) (length (bytes ''cd'')) = Some r \<and>
     finds (occurs id (ch_b # bytes ''cd'') (bytes ''abcbcd'')) r"
proof -
  have "NUL \<notin> set (bytes ''abcbcd'')" "NUL \<notin> set (bytes ''cd'')" "ch_b \<noteq> NUL" by simp_all
  from searches_find_first [OF this] show ?thesis by blast
qed

lemma ngx_strlchr_finds:
  "\<exists>r. ngx_strlchr s c i = map_option (\<lambda>j. i + j) r \<and> finds (\<lambda>j. j < length s \<and> s ! j = c) r"
proof (induction s arbitrary: i)
  case Nil
  then show ?case by (simp add: finds_def)
next
  case (Cons b s)
  show ?case
  proof (cases "b = c")
    case True
    then show ?thesis by (intro exI [of _ "Some 0"]) (simp add: finds_def)
  next
    case False
    from Cons [of "Suc i"] obtain r where
      "ngx_strlchr s c (Suc i) = map_option (\<lambda>j. Suc i + j) r" "finds (\<lambda>j. j < length s \<and> s ! j = c) r"
      by blast
    with False finds_Suc [of "\<lambda>j. j < length (b # s) \<and> (b # s) ! j = c" r] show ?thesis
      by (intro exI [of _ "map_option Suc r"]) (simp add: option.map_comp comp_def)
  qed
qed

end
