(* ===== verification/Ngx_Hash.thy ===== *)
theory Ngx_Hash
  imports Ngx_String
begin

text \<open>
  The keys of nginx's hash tables (\<^verbatim>\<open>src/core/ngx_hash.c\<close>, \<^verbatim>\<open>src/core/ngx_hash.h\<close>): a polynomial
  hash modulo the word size, computed over the bytes as they are, over their lower-case images, or
  while copying them lower-cased.
\<close>

text \<open>\<^verbatim>\<open>#define ngx_hash(key, c) ((ngx_uint_t) key * 31 + c)\<close>\<close>

definition ngx_hash :: "ngx_uint_t \<Rightarrow> u_char \<Rightarrow> ngx_uint_t" where
  "ngx_hash key c = key * 31 + ucast c"

definition ngx_hash_key :: "buffer \<Rightarrow> ngx_uint_t" where
  "ngx_hash_key data = foldl ngx_hash 0 data"

definition ngx_hash_key_lc :: "buffer \<Rightarrow> ngx_uint_t" where
  "ngx_hash_key_lc data = foldl (\<lambda>key c. ngx_hash key (ngx_tolower c)) 0 data"

text \<open>\<^verbatim>\<open>ngx_hash_strlow(dst, src, n)\<close>: the bytes written at \<^verbatim>\<open>dst\<close> and the key.\<close>

fun hash_strlow_loop :: "ngx_uint_t \<Rightarrow> buffer \<Rightarrow> nat \<Rightarrow> (buffer \<times> ngx_uint_t) option" where
  "hash_strlow_loop key src 0 = Some ([], key)"
| "hash_strlow_loop key [] (Suc n) = None"
| "hash_strlow_loop key (c # src) (Suc n) =
     map_option (map_prod (Cons (ngx_tolower c)) id)
       (hash_strlow_loop (ngx_hash key (ngx_tolower c)) src n)"

definition ngx_hash_strlow :: "buffer \<Rightarrow> nat \<Rightarrow> (buffer \<times> ngx_uint_t) option" where
  "ngx_hash_strlow src n = hash_strlow_loop 0 src n"

lemma hash_strlow_loop_eq:
  "n \<le> length src \<Longrightarrow> hash_strlow_loop key src n =
     Some (map ngx_tolower (take n src),
       foldl (\<lambda>key c. ngx_hash key (ngx_tolower c)) key (take n src))"
  by (induction key src n rule: hash_strlow_loop.induct) auto

lemma ngx_hash_key_lc_tolower: "ngx_hash_key_lc data = ngx_hash_key (map ngx_tolower data)"
  by (simp add: ngx_hash_key_lc_def ngx_hash_key_def foldl_map)

lemma ngx_hash_strlow_eq:
  "n \<le> length src \<Longrightarrow>
   ngx_hash_strlow src n = Some (map ngx_tolower (take n src), ngx_hash_key_lc (take n src))"
  by (simp add: ngx_hash_strlow_def hash_strlow_loop_eq ngx_hash_key_lc_def)

end
