(* ===== verification/Http_Header_Line.thy ===== *)
theory Http_Header_Line
  imports Ngx_Hash
begin

text \<open>
  \<^verbatim>\<open>ngx_http_parse_header_line\<close> of \<^verbatim>\<open>src/http/ngx_http_parse.c\<close>: one header line, or the empty line
  that ends the header, with the lower-cased name and its hash computed on the way.  The local
  variables \<^verbatim>\<open>hash\<close> and \<^verbatim>\<open>i\<close> travel beside the request, because an error return and the end of the
  header do not save them.  The lemmas show that the parser may be suspended and resumed, that the
  32-byte array of the lower-cased name is never written outside, and that a printed header line is
  parsed back, with the hash that \<^verbatim>\<open>ngx_hash_key_lc\<close> computes for the name.
\<close>

section \<open>Data\<close>

datatype hl_state =
    hl_sw_start
  | hl_sw_name
  | hl_sw_space_before_value
  | hl_sw_value
  | hl_sw_space_after_value
  | hl_sw_ignore_line
  | hl_sw_almost_done
  | hl_sw_header_almost_done

record http_header =
  hdr_state :: hl_state
  header_hash :: ngx_uint_t
  lowcase_index :: ngx_uint_t
  lowcase_header :: buffer
  header_name_start :: ptr
  header_name_end :: ptr
  header_start :: ptr
  header_end :: ptr
  invalid_header :: bool
  has_upstream :: bool

abbreviation NGX_HTTP_LC_HEADER_LEN :: ngx_uint_t where "NGX_HTTP_LC_HEADER_LEN \<equiv> 32"

text \<open>The state of the loop: \<^verbatim>\<open>state\<close>, \<^verbatim>\<open>hash\<close>, \<^verbatim>\<open>i\<close> and the request.\<close>

type_synonym hl_locals = "hl_state \<times> ngx_uint_t \<times> ngx_uint_t \<times> http_header"

datatype hl_exit =
    Hl_return ngx_rc http_header
  | Hl_done nat ngx_uint_t ngx_uint_t http_header
  | Hl_header_done nat http_header

type_synonym hl_outcome = "(hl_locals, hl_exit) outcome"

section \<open>The lower-case table\<close>

definition lowcase :: "u_char list" where
  "lowcase =
     replicate 32 NUL @
     replicate 13 NUL @ [ch_minus] @ replicate 2 NUL @ bytes ''0123456789'' @ replicate 6 NUL @
     [NUL] @ bytes ''abcdefghijklmnopqrstuvwxyz'' @ replicate 5 NUL @
     [NUL] @ bytes ''abcdefghijklmnopqrstuvwxyz'' @ replicate 5 NUL @
     replicate 32 NUL @ replicate 32 NUL @ replicate 32 NUL @ replicate 32 NUL"

text \<open>\<^verbatim>\<open>r->lowcase_header[i++] = c; i &= (NGX_HTTP_LC_HEADER_LEN - 1);\<close>\<close>

definition hl_put :: "u_char \<Rightarrow> ngx_uint_t \<Rightarrow> http_header \<Rightarrow> ngx_uint_t \<times> http_header" where
  "hl_put c i r =
     ((i + 1) AND (NGX_HTTP_LC_HEADER_LEN - 1),
      r\<lparr>lowcase_header := (lowcase_header r)[unat i := c]\<rparr>)"

section \<open>The cases of the switch\<close>

definition hl_start :: "buffer \<Rightarrow> nat \<Rightarrow> ngx_uint_t \<Rightarrow> ngx_uint_t \<Rightarrow> http_header \<Rightarrow> hl_outcome" where
  [step_defs]:
  "hl_start buf p hash i r =
     (let ch = buf ! p; r = r\<lparr>header_name_start := Some p, invalid_header := False\<rparr> in
      if ch = CR then Continue (hl_sw_header_almost_done, hash, i, r\<lparr>header_end := Some p\<rparr>)
      else if ch = LF then Stop (Hl_header_done p (r\<lparr>header_end := Some p\<rparr>))
      else
        (let c = lowcase ! unat ch in
         if c \<noteq> 0 then
           Continue (hl_sw_name, ngx_hash 0 c, 1, r\<lparr>lowcase_header := (lowcase_header r)[0 := c]\<rparr>)
         else if ch = NUL then Stop (Hl_return NGX_HTTP_PARSE_INVALID_HEADER r)
         else Continue (hl_sw_name, hash, i, r\<lparr>invalid_header := True\<rparr>)))"

text \<open>\<^verbatim>\<open>p - r->header_name_start == 4 && ngx_strncmp(r->header_name_start, "HTTP", 4) == 0\<close>\<close>

definition hl_iis_line :: "buffer \<Rightarrow> nat \<Rightarrow> http_header \<Rightarrow> bool" where
  "hl_iis_line buf p r =
     (case header_name_start r of
        None \<Rightarrow> False
      | Some s \<Rightarrow> p = s + 4 \<and> take 4 (drop s buf) = bytes ''HTTP'')"

definition hl_name ::
  "bool \<Rightarrow> buffer \<Rightarrow> nat \<Rightarrow> ngx_uint_t \<Rightarrow> ngx_uint_t \<Rightarrow> http_header \<Rightarrow> hl_outcome"
where [step_defs]:
  "hl_name allow_underscores buf p hash i r =
     (let ch = buf ! p; c = lowcase ! unat ch in
      if c \<noteq> 0 then
        (let (i', r') = hl_put c i r in Continue (hl_sw_name, ngx_hash hash c, i', r'))
      else if ch = ch_underscore then
        if allow_underscores then
          (let (i', r') = hl_put ch i r in Continue (hl_sw_name, ngx_hash hash ch, i', r'))
        else Continue (hl_sw_name, hash, i, r\<lparr>invalid_header := True\<rparr>)
      else if ch = ch_colon then
        Continue (hl_sw_space_before_value, hash, i, r\<lparr>header_name_end := Some p\<rparr>)
      else if ch = CR then
        Continue (hl_sw_almost_done, hash, i,
          r\<lparr>header_name_end := Some p, header_start := Some p, header_end := Some p\<rparr>)
      else if ch = LF then
        Stop (Hl_done p hash i
          (r\<lparr>header_name_end := Some p, header_start := Some p, header_end := Some p\<rparr>))
      else if ch = ch_slash \<and> has_upstream r \<and> hl_iis_line buf p r then
        Continue (hl_sw_ignore_line, hash, i, r)
      else if ch = NUL then Stop (Hl_return NGX_HTTP_PARSE_INVALID_HEADER r)
      else Continue (hl_sw_name, hash, i, r\<lparr>invalid_header := True\<rparr>))"

definition hl_space_before_value ::
  "buffer \<Rightarrow> nat \<Rightarrow> ngx_uint_t \<Rightarrow> ngx_uint_t \<Rightarrow> http_header \<Rightarrow> hl_outcome"
where [step_defs]:
  "hl_space_before_value buf p hash i r =
     (let ch = buf ! p in
      if ch = ch_space then Continue (hl_sw_space_before_value, hash, i, r)
      else if ch = CR then
        Continue (hl_sw_almost_done, hash, i, r\<lparr>header_start := Some p, header_end := Some p\<rparr>)
      else if ch = LF then
        Stop (Hl_done p hash i (r\<lparr>header_start := Some p, header_end := Some p\<rparr>))
      else if ch = NUL then Stop (Hl_return NGX_HTTP_PARSE_INVALID_HEADER r)
      else Continue (hl_sw_value, hash, i, r\<lparr>header_start := Some p\<rparr>))"

definition hl_value ::
  "buffer \<Rightarrow> nat \<Rightarrow> ngx_uint_t \<Rightarrow> ngx_uint_t \<Rightarrow> http_header \<Rightarrow> hl_outcome"
where [step_defs]:
  "hl_value buf p hash i r =
     (let ch = buf ! p in
      if ch = ch_space then Continue (hl_sw_space_after_value, hash, i, r\<lparr>header_end := Some p\<rparr>)
      else if ch = CR then Continue (hl_sw_almost_done, hash, i, r\<lparr>header_end := Some p\<rparr>)
      else if ch = LF then Stop (Hl_done p hash i (r\<lparr>header_end := Some p\<rparr>))
      else if ch = NUL then Stop (Hl_return NGX_HTTP_PARSE_INVALID_HEADER r)
      else Continue (hl_sw_value, hash, i, r))"

definition hl_space_after_value ::
  "buffer \<Rightarrow> nat \<Rightarrow> ngx_uint_t \<Rightarrow> ngx_uint_t \<Rightarrow> http_header \<Rightarrow> hl_outcome"
where [step_defs]:
  "hl_space_after_value buf p hash i r =
     (let ch = buf ! p in
      if ch = ch_space then Continue (hl_sw_space_after_value, hash, i, r)
      else if ch = CR then Continue (hl_sw_almost_done, hash, i, r)
      else if ch = LF then Stop (Hl_done p hash i r)
      else if ch = NUL then Stop (Hl_return NGX_HTTP_PARSE_INVALID_HEADER r)
      else Continue (hl_sw_value, hash, i, r))"

definition hl_ignore_line ::
  "buffer \<Rightarrow> nat \<Rightarrow> ngx_uint_t \<Rightarrow> ngx_uint_t \<Rightarrow> http_header \<Rightarrow> hl_outcome"
where [step_defs]:
  "hl_ignore_line buf p hash i r =
     (if buf ! p = LF then Continue (hl_sw_start, hash, i, r)
      else Continue (hl_sw_ignore_line, hash, i, r))"

definition hl_almost_done ::
  "buffer \<Rightarrow> nat \<Rightarrow> ngx_uint_t \<Rightarrow> ngx_uint_t \<Rightarrow> http_header \<Rightarrow> hl_outcome"
where [step_defs]:
  "hl_almost_done buf p hash i r =
     (let ch = buf ! p in
      if ch = LF then Stop (Hl_done p hash i r)
      else if ch = CR then Continue (hl_sw_almost_done, hash, i, r)
      else Stop (Hl_return NGX_HTTP_PARSE_INVALID_HEADER r))"

definition hl_header_almost_done ::
  "buffer \<Rightarrow> nat \<Rightarrow> ngx_uint_t \<Rightarrow> ngx_uint_t \<Rightarrow> http_header \<Rightarrow> hl_outcome"
where [step_defs]:
  "hl_header_almost_done buf p hash i r =
     (if buf ! p = LF then Stop (Hl_header_done p r)
      else Stop (Hl_return NGX_HTTP_PARSE_INVALID_HEADER r))"

section \<open>The loop\<close>

definition hl_step :: "bool \<Rightarrow> buffer \<Rightarrow> nat \<Rightarrow> hl_locals \<Rightarrow> hl_outcome" where
  "hl_step allow_underscores buf p = (\<lambda>(st, hash, i, r).
     (case st of
        hl_sw_start \<Rightarrow> hl_start buf p hash i r
      | hl_sw_name \<Rightarrow> hl_name allow_underscores buf p hash i r
      | hl_sw_space_before_value \<Rightarrow> hl_space_before_value buf p hash i r
      | hl_sw_value \<Rightarrow> hl_value buf p hash i r
      | hl_sw_space_after_value \<Rightarrow> hl_space_after_value buf p hash i r
      | hl_sw_ignore_line \<Rightarrow> hl_ignore_line buf p hash i r
      | hl_sw_almost_done \<Rightarrow> hl_almost_done buf p hash i r
      | hl_sw_header_almost_done \<Rightarrow> hl_header_almost_done buf p hash i r))"

definition ngx_http_parse_header_line ::
  "http_header \<Rightarrow> buffer \<Rightarrow> nat \<Rightarrow> bool \<Rightarrow> ngx_rc \<times> nat \<times> http_header"
where
  "ngx_http_parse_header_line r buf pos allow_underscores =
     (case scan (hl_step allow_underscores) buf pos
             (hdr_state r, header_hash r, lowcase_index r, r) of
        Inl (p, (state, hash, i, r')) \<Rightarrow>
          (NGX_AGAIN, p, r'\<lparr>hdr_state := state, header_hash := hash, lowcase_index := i\<rparr>)
      | Inr (Hl_return rc r') \<Rightarrow> (rc, pos, r')
      | Inr (Hl_done p hash i r') \<Rightarrow>
          (NGX_OK, p + 1, r'\<lparr>hdr_state := hl_sw_start, header_hash := hash, lowcase_index := i\<rparr>)
      | Inr (Hl_header_done p r') \<Rightarrow>
          (NGX_HTTP_PARSE_HEADER_DONE, p + 1, r'\<lparr>hdr_state := hl_sw_start\<rparr>))"

section \<open>The array of the lower-cased name\<close>

lemma lowcase_index_next: "unat ((i + 1 :: ngx_uint_t) AND 31) = (unat i + 1) mod 32"
proof -
  have "(31 :: ngx_uint_t) = mask 5" by (simp add: mask_eq_exp_minus_1)
  then have "unat ((i + 1) AND 31) = unat (i + 1) mod 32"
    using unat_and_mask_mod [of "i + 1" 5] by simp
  also have "\<dots> = (unat i + 1) mod 32"
    by (simp add: unat_word_ariths mod_mod_cancel)
  finally show ?thesis .
qed

definition hl_array_ok :: "hl_locals \<Rightarrow> bool" where
  "hl_array_ok = (\<lambda>(st, hash, i, r). unat i < 32 \<and> length (lowcase_header r) = 32)"

lemma hl_step_array_ok:
  assumes "hl_array_ok s" and "hl_step a buf p s = Continue s'"
  shows "hl_array_ok s'"
proof -
  obtain st hash i r where s: "s = (st, hash, i, r)" by (cases s) auto
  show ?thesis
    using assms unfolding s
    by (cases st)
       (auto simp: hl_step_def step_defs hl_put_def hl_array_ok_def Let_def lowcase_index_next
          split: if_splits)
qed

section \<open>Resuming the parser\<close>

lemma hl_iis_line_append: "p < length b \<Longrightarrow> hl_iis_line (b @ e) p r = hl_iis_line b p r"
  by (auto simp: hl_iis_line_def split: option.split)

interpretation hl: prefix_step "hl_step allow_underscores" for allow_underscores
proof
  fix p :: nat and b e :: buffer and s :: hl_locals
  assume "p < length b"
  then show "hl_step allow_underscores (b @ e) p s = hl_step allow_underscores b p s"
    by (auto simp: hl_step_def step_defs nth_append hl_iis_line_append Let_def
        split: prod.split hl_state.split)
qed

text \<open>No case of the switch looks at the fields that only save the locals.\<close>

definition hl_saved :: "hl_state \<Rightarrow> ngx_uint_t \<Rightarrow> ngx_uint_t \<Rightarrow> http_header \<Rightarrow> http_header" where
  "hl_saved st hash i r = r\<lparr>hdr_state := st, header_hash := hash, lowcase_index := i\<rparr>"

fun hl_exit_saved :: "hl_state \<Rightarrow> ngx_uint_t \<Rightarrow> ngx_uint_t \<Rightarrow> hl_exit \<Rightarrow> hl_exit" where
  "hl_exit_saved st hash i (Hl_return rc r) = Hl_return rc (hl_saved st hash i r)"
| "hl_exit_saved st hash i (Hl_done p h j r) = Hl_done p h j (hl_saved st hash i r)"
| "hl_exit_saved st hash i (Hl_header_done p r) = Hl_header_done p (hl_saved st hash i r)"

lemma hl_iis_saved:
  "hl_iis_line buf p (hl_saved st hash i r) = hl_iis_line buf p r"
  "has_upstream (hl_saved st hash i r) = has_upstream r"
  by (simp_all add: hl_iis_line_def hl_saved_def)

lemma hl_saved_commute [simp]:
  "lowcase_header (hl_saved st hash i r) = lowcase_header r"
  "(hl_saved st hash i r)\<lparr>lowcase_header := l\<rparr> = hl_saved st hash i (r\<lparr>lowcase_header := l\<rparr>)"
  "(hl_saved st hash i r)\<lparr>invalid_header := v\<rparr> = hl_saved st hash i (r\<lparr>invalid_header := v\<rparr>)"
  "(hl_saved st hash i r)\<lparr>header_name_start := x\<rparr> = hl_saved st hash i (r\<lparr>header_name_start := x\<rparr>)"
  "(hl_saved st hash i r)\<lparr>header_name_end := x\<rparr> = hl_saved st hash i (r\<lparr>header_name_end := x\<rparr>)"
  "(hl_saved st hash i r)\<lparr>header_start := x\<rparr> = hl_saved st hash i (r\<lparr>header_start := x\<rparr>)"
  "(hl_saved st hash i r)\<lparr>header_end := x\<rparr> = hl_saved st hash i (r\<lparr>header_end := x\<rparr>)"
  by (simp_all add: hl_saved_def)

lemma hl_step_saved:
  "hl_step a buf p (s, h, j, hl_saved st hash i r) =
   map_outcome (\<lambda>(s, h, j, r). (s, h, j, hl_saved st hash i r)) (hl_exit_saved st hash i)
     (hl_step a buf p (s, h, j, r))"
  by (cases s)
     (simp_all add: hl_step_def step_defs hl_put_def hl_iis_saved Let_def)

lemma scan_hl_saved:
  "scan (hl_step a) buf p (s, h, j, hl_saved st hash i r) =
   map_sum (map_prod id (\<lambda>(s, h, j, r). (s, h, j, hl_saved st hash i r))) (hl_exit_saved st hash i)
     (scan (hl_step a) buf p (s, h, j, r))"
  using scan_map [where step = "hl_step a" and g = "hl_exit_saved st hash i" and s = "(s, h, j, r)"
      and f = "\<lambda>(s, h, j, r). (s, h, j, hl_saved st hash i r)"]
  by (simp add: hl_step_saved split_beta)

lemma hl_step_return:
  "hl_step a buf p s = Stop (Hl_return rc r) \<Longrightarrow> rc = NGX_HTTP_PARSE_INVALID_HEADER"
  by (auto simp: hl_step_def step_defs Let_def hl_put_def split: if_splits hl_state.splits prod.splits)

lemma scan_hl_return:
  assumes "scan (hl_step a) buf p s = Inr (Hl_return rc r)"
  shows "rc = NGX_HTTP_PARSE_INVALID_HEADER"
proof (cases "p \<le> length buf")
  case True
  with assms scan_invariant [of p buf "\<lambda>_ _. True" s "hl_step a"] show ?thesis
    by (auto dest: hl_step_return)
next
  case False
  with assms show ?thesis by simp
qed

lemma header_line_again:
  assumes "ngx_http_parse_header_line r b pos a = (NGX_AGAIN, pos', r')"
  obtains st h j r0 where
    "scan (hl_step a) b pos (hdr_state r, header_hash r, lowcase_index r, r) = Inl (pos', (st, h, j, r0))"
    and "r' = hl_saved st h j r0"
  using assms scan_hl_return [of a b pos "(hdr_state r, header_hash r, lowcase_index r, r)"]
  by (auto simp: ngx_http_parse_header_line_def hl_saved_def
      split: sum.splits hl_exit.splits prod.splits)

text \<open>
  Parsing a header line that arrives in two pieces gives the return code of parsing it in one
  piece; the position and the request are the same when a header was read or more bytes are needed,
  and at the end of the header they differ at most in the hash and the index, which that return does
  not save.
\<close>

theorem header_line_resume:
  assumes "pos \<le> length b"
    and "ngx_http_parse_header_line r b pos a = (NGX_AGAIN, pos', r')"
    and "ngx_http_parse_header_line r (b @ e) pos a = (rc, q, r1)"
    and "ngx_http_parse_header_line r' (b @ e) pos' a = (rc', q', r2)"
  shows "rc' = rc \<and> (rc \<in> {NGX_OK, NGX_AGAIN} \<longrightarrow> q' = q \<and> r2 = r1) \<and>
    (rc = NGX_HTTP_PARSE_HEADER_DONE \<longrightarrow> q' = q \<and>
       r2\<lparr>header_hash := header_hash r1, lowcase_index := lowcase_index r1\<rparr> = r1)"
proof -
  obtain st h j r0 where
    scan_b: "scan (hl_step a) b pos (hdr_state r, header_hash r, lowcase_index r, r) =
      Inl (pos', (st, h, j, r0))" and r': "r' = hl_saved st h j r0"
    using assms(2) by (rule header_line_again)
  have whole: "scan (hl_step a) (b @ e) pos (hdr_state r, header_hash r, lowcase_index r, r) =
      scan (hl_step a) (b @ e) pos' (st, h, j, r0)"
    by (rule hl.scan_resume [OF assms(1) scan_b])
  have fields: "hdr_state r' = st" "header_hash r' = h" "lowcase_index r' = j"
    by (simp_all add: r' hl_saved_def)
  show ?thesis
    using assms(3,4) scan_hl_return [of a "b @ e" pos' "(st, h, j, r0)"]
    unfolding ngx_http_parse_header_line_def whole fields
    unfolding r' scan_hl_saved
    by (cases "scan (hl_step a) (b @ e) pos' (st, h, j, r0)" rule: sum.exhaust)
       (auto simp: hl_saved_def split: hl_exit.splits)
qed

section \<open>Printing and parsing\<close>

definition lowcase_of :: "nat \<Rightarrow> u_char" where
  "lowcase_of n =
     (if n = 45 \<or> 48 \<le> n \<and> n < 58 \<or> 97 \<le> n \<and> n < 123 then of_nat n
      else if 65 \<le> n \<and> n < 91 then of_nat n OR 0x20 else 0)"

lemma lowcase_map: "lowcase = map lowcase_of [0..<256]"
  by code_simp

lemma lowcase_tolower: "lowcase ! unat c \<noteq> 0 \<Longrightarrow> lowcase ! unat c = ngx_tolower c"
  by (auto simp: lowcase_map lowcase_of_def ngx_tolower_def word_le_nat_alt split: if_splits)

lemma lowcase_not_line_end: "lowcase ! unat c \<noteq> 0 \<Longrightarrow> c \<noteq> CR \<and> c \<noteq> LF"
  by (auto simp: lowcase_map lowcase_of_def)

lemma hl_go:
  "p < length buf \<Longrightarrow> hl_step a buf p (st, h, i, r) = Continue (st', h', i', r') \<Longrightarrow> q = Suc p \<Longrightarrow>
   scan (hl_step a) buf p (st, h, i, r) = scan (hl_step a) buf q (st', h', i', r')"
  by (simp add: scan_Continue)

text \<open>The name: the hash and the array follow the bytes read so far.\<close>

lemma hl_scan_name:
  assumes "k \<le> length name" and "0 < k" and "length name \<le> 32"
    and ok: "\<forall>c\<in>set name. lowcase ! unat c \<noteq> 0" and arr: "length (lowcase_header r) = 32"
    and buf: "\<And>j. j < length name \<Longrightarrow> buf ! (pos + j) = name ! j" and "pos + length name \<le> length buf"
  shows "scan (hl_step a) buf pos (hl_sw_start, h, i, r) =
    scan (hl_step a) buf (pos + k)
      (hl_sw_name, ngx_hash_key_lc (take k name), of_nat (k mod 32),
       r\<lparr>header_name_start := Some pos, invalid_header := False,
         lowcase_header := map ngx_tolower (take k name) @ drop k (lowcase_header r)\<rparr>)"
  using assms(1,2)
proof (induction k)
  case 0
  then show ?case by simp
next
  case (Suc k)
  let ?r = "\<lambda>k. r\<lparr>header_name_start := Some pos, invalid_header := False,
         lowcase_header := map ngx_tolower (take k name) @ drop k (lowcase_header r)\<rparr>"
  have c: "lowcase ! unat (name ! k) \<noteq> 0" and lc: "lowcase ! unat (name ! k) = ngx_tolower (name ! k)"
    and nl: "name ! k \<noteq> CR \<and> name ! k \<noteq> LF" and b: "buf ! (pos + k) = name ! k"
    using Suc.prems ok buf lowcase_tolower lowcase_not_line_end by auto
  have take: "take (Suc k) name = take k name @ [name ! k]"
    using Suc.prems by (simp add: take_Suc_conv_app_nth)
  have arr_Suc: "(map ngx_tolower (take k name) @ drop k (lowcase_header r))[k := ngx_tolower (name ! k)] =
      map ngx_tolower (take (Suc k) name) @ drop (Suc k) (lowcase_header r)"
    using Suc.prems assms(3) arr by (simp add: take list_update_append Cons_nth_drop_Suc [symmetric])
  show ?case
  proof (cases "k = 0")
    case True
    then show ?thesis
      using Suc.prems b c lc nl arr_Suc assms(7) take
      by (intro hl_go) (simp_all add: hl_step_def hl_start_def ngx_hash_key_lc_def Let_def)
  next
    case False
    have "scan (hl_step a) buf (pos + k) (hl_sw_name, ngx_hash_key_lc (take k name), of_nat (k mod 32), ?r k) =
        scan (hl_step a) buf (pos + Suc k)
          (hl_sw_name, ngx_hash_key_lc (take (Suc k) name), of_nat (Suc k mod 32), ?r (Suc k))"
    proof (rule hl_go)
      have k: "k < 32" using Suc.prems assms(3) by simp
      then have idx: "((of_nat (k mod 32) + 1) AND 31 :: ngx_uint_t) = of_nat (Suc k mod 32)"
        by (simp add: word_unat_eq_iff lowcase_index_next unat_of_nat_64)
      show "hl_step a buf (pos + k) (hl_sw_name, ngx_hash_key_lc (take k name), of_nat (k mod 32), ?r k) =
        Continue (hl_sw_name, ngx_hash_key_lc (take (Suc k) name), of_nat (Suc k mod 32), ?r (Suc k))"
        using Suc.prems b c lc arr_Suc k idx
        by (simp add: hl_step_def hl_name_def hl_put_def ngx_hash_key_lc_def take unat_of_nat_64 Let_def)
    qed (use Suc.prems assms(7) in simp_all)
    with Suc False show ?thesis by simp
  qed
qed

text \<open>The value: inner spaces come and go, the end pointer is settled at the end.\<close>

lemma hl_scan_value:
  assumes "0 < k" and "k \<le> length v" and "v ! 0 \<noteq> ch_space" and "\<forall>c\<in>set v. c \<notin> {CR, LF, NUL}"
    and buf: "\<And>j. j < length v \<Longrightarrow> buf ! (s + j) = v ! j" and "s + length v \<le> length buf"
  shows "\<exists>e. scan (hl_step a) buf s (hl_sw_space_before_value, h, i, r) =
    scan (hl_step a) buf (s + k)
      (if v ! (k - 1) = ch_space then hl_sw_space_after_value else hl_sw_value, h, i,
       r\<lparr>header_start := Some s, header_end := e\<rparr>)"
  using assms(1,2)
proof (induction k)
  case 0
  then show ?case by simp
next
  case (Suc k)
  have c: "v ! k \<notin> {CR, LF, NUL}" and b: "buf ! (s + k) = v ! k"
    using Suc.prems assms(4) buf by simp_all
  show ?case
  proof (cases "k = 0")
    case True
    have "scan (hl_step a) buf s (hl_sw_space_before_value, h, i, r) =
        scan (hl_step a) buf (s + 1) (hl_sw_value, h, i, r\<lparr>header_start := Some s, header_end := header_end r\<rparr>)"
      using True b c assms(3,6) Suc.prems
      by (intro hl_go) (simp_all add: hl_step_def hl_space_before_value_def)
    with True assms(3) show ?thesis by (intro exI [of _ "header_end r"]) simp
  next
    case False
    then obtain e where e: "scan (hl_step a) buf s (hl_sw_space_before_value, h, i, r) =
        scan (hl_step a) buf (s + k)
          (if v ! (k - 1) = ch_space then hl_sw_space_after_value else hl_sw_value, h, i,
           r\<lparr>header_start := Some s, header_end := e\<rparr>)" (is "_ = scan _ _ _ (?st, _, _, ?r)")
      using Suc by auto
    have "\<exists>e'. hl_step a buf (s + k) (?st, h, i, ?r) = Continue
        (if v ! k = ch_space then hl_sw_space_after_value else hl_sw_value, h, i,
         r\<lparr>header_start := Some s, header_end := e'\<rparr>)"
      using b c by (auto simp: hl_step_def hl_value_def hl_space_after_value_def)
    with e assms(6) Suc.prems show ?thesis by (auto simp: scan_Continue)
  qed
qed

text \<open>The trailing spaces and the line end.\<close>

lemma hl_scan_line_end:
  assumes sp: "\<And>j. j < b \<Longrightarrow> buf ! (t + j) = ch_space"
    and cr: "buf ! (t + b) = CR" and lf: "buf ! (t + b + 1) = LF" and len: "t + b + 2 \<le> length buf"
  shows "scan (hl_step a) buf t (hl_sw_value, h, i, r) =
    Inr (Hl_done (t + b + 1) h i (r\<lparr>header_end := Some t\<rparr>))"
proof -
  let ?r = "r\<lparr>header_end := Some t\<rparr>"
  have "scan (hl_step a) buf t (hl_sw_value, h, i, r) =
      scan (hl_step a) buf (t + b + 1) (hl_sw_almost_done, h, i, ?r)"
  proof (cases "b = 0")
    case True
    then show ?thesis
      using cr len by (intro hl_go) (simp_all add: hl_step_def hl_value_def)
  next
    case False
    have "scan (hl_step a) buf t (hl_sw_value, h, i, r) =
        scan (hl_step a) buf (t + 1) (hl_sw_space_after_value, h, i, ?r)"
      using False sp [of 0] len by (intro hl_go) (simp_all add: hl_step_def hl_value_def)
    also have "\<dots> = scan (hl_step a) buf (t + b) (hl_sw_space_after_value, h, i, ?r)"
    proof (rule scan_skip)
      fix j assume "t + 1 \<le> j" "j < t + b"
      then show "hl_step a buf j (hl_sw_space_after_value, h, i, ?r) =
          Continue (hl_sw_space_after_value, h, i, ?r)"
        using sp [of "j - t"] by (simp add: hl_step_def hl_space_after_value_def)
    qed (use False len in simp_all)
    also have "\<dots> = scan (hl_step a) buf (t + b + 1) (hl_sw_almost_done, h, i, ?r)"
      using cr len by (intro hl_go) (simp_all add: hl_step_def hl_space_after_value_def)
    finally show ?thesis .
  qed
  also have "\<dots> = Inr (Hl_done (t + b + 1) h i ?r)"
    using lf len by (intro scan_Stop) (simp_all add: hl_step_def hl_almost_done_def)
  finally show ?thesis .
qed

definition print_header_line :: "buffer \<Rightarrow> nat \<Rightarrow> buffer \<Rightarrow> nat \<Rightarrow> buffer" where
  "print_header_line name a val b =
     name @ [ch_colon] @ replicate a ch_space @ val @ replicate b ch_space @ [CR, LF]"

text \<open>
  C10.  A header line printed anywhere in the buffer from a name of at most 32 letters, digits and
  dashes and a value without line-end and NUL bytes, with any number of spaces around the value, is
  accepted and parsed back: the pointers delimit the name and the trimmed value, the array holds
  the lower-cased name and the hash is the one \<^verbatim>\<open>ngx_hash_key_lc\<close> gives, which is how the header
  tables are keyed.
\<close>

theorem header_line_roundtrip:
  assumes "name \<noteq> []" and "length name \<le> 32" and "\<forall>c\<in>set name. lowcase ! unat c \<noteq> 0"
    and "val \<noteq> []" and "hd val \<noteq> ch_space" and "last val \<noteq> ch_space"
    and "\<forall>c\<in>set val. c \<notin> {CR, LF, NUL}"
    and "hdr_state r = hl_sw_start" and "length (lowcase_header r) = 32"
  shows "ngx_http_parse_header_line r (pre @ print_header_line name a val b @ rest) (length pre) us =
    (NGX_OK, length pre + length (print_header_line name a val b),
     r\<lparr>header_hash := ngx_hash_key_lc name,
       lowcase_index := of_nat (length name mod 32),
       lowcase_header := map ngx_tolower name @ drop (length name) (lowcase_header r),
       header_name_start := Some (length pre),
       header_name_end := Some (length pre + length name),
       header_start := Some (length pre + length name + 1 + a),
       header_end := Some (length pre + length name + 1 + a + length val),
       invalid_header := False\<rparr>)"
proof -
  let ?buf = "pre @ print_header_line name a val b @ rest" and ?p = "length pre"
  let ?n = "?p + length name" and ?s = "?p + length name + 1 + a"
  let ?h = "ngx_hash_key_lc name" and ?i = "of_nat (length name mod 32) :: ngx_uint_t"
  let ?r1 = "r\<lparr>header_name_start := Some ?p, invalid_header := False,
      lowcase_header := map ngx_tolower name @ drop (length name) (lowcase_header r)\<rparr>"
  let ?r2 = "?r1\<lparr>header_name_end := Some ?n\<rparr>"
  let ?st = "(hdr_state r, header_hash r, lowcase_index r, r)"
  have at: "?buf ! (?p + j) = print_header_line name a val b ! j"
    if "j < length (print_header_line name a val b)" for j
    using that by (simp add: nth_append)
  have "scan (hl_step us) ?buf ?p ?st = scan (hl_step us) ?buf ?n (hl_sw_name, ?h, ?i, ?r1)"
    using assms at by (subst assms(8), subst hl_scan_name [of "length name" name])
      (simp_all add: print_header_line_def nth_append)
  also have "\<dots> = scan (hl_step us) ?buf (?n + 1) (hl_sw_space_before_value, ?h, ?i, ?r2)"
    by (intro hl_go) (simp_all add: print_header_line_def hl_step_def hl_name_def nth_append
        lowcase_map lowcase_of_def)
  also have "\<dots> = scan (hl_step us) ?buf ?s (hl_sw_space_before_value, ?h, ?i, ?r2)"
    by (intro scan_skip) (auto simp: print_header_line_def hl_step_def hl_space_before_value_def
        nth_append nth_Cons')
  also obtain e where "scan (hl_step us) ?buf ?s (hl_sw_space_before_value, ?h, ?i, ?r2) =
      scan (hl_step us) ?buf (?s + length val)
        (hl_sw_value, ?h, ?i, ?r2\<lparr>header_start := Some ?s, header_end := e\<rparr>)"
    using hl_scan_value [of "length val" val ?buf ?s us ?h ?i ?r2] assms(4-7)
    by (auto simp: print_header_line_def nth_append hd_conv_nth last_conv_nth)
  note this
  also have "scan (hl_step us) ?buf (?s + length val)
        (hl_sw_value, ?h, ?i, ?r2\<lparr>header_start := Some ?s, header_end := e\<rparr>) =
      Inr (Hl_done (?s + length val + b + 1) ?h ?i
        (?r2\<lparr>header_start := Some ?s, header_end := Some (?s + length val)\<rparr>))"
    by (subst hl_scan_line_end [of b]) (simp_all add: print_header_line_def nth_append)
  finally show ?thesis
    by (simp add: ngx_http_parse_header_line_def print_header_line_def assms(8) [symmetric])
qed

section \<open>Concrete header lines\<close>

definition init_header :: http_header where
  "init_header = \<lparr>hdr_state = hl_sw_start, header_hash = 0, lowcase_index = 0,
     lowcase_header = replicate 32 0, header_name_start = None, header_name_end = None,
     header_start = None, header_end = None, invalid_header = False, has_upstream = False\<rparr>"

lemmas hl_eval = ngx_http_parse_header_line_def init_header_def hl_step_def step_defs hl_put_def
  lowcase_map lowcase_of_def Let_def scan.simps

theorem header_line_resume_witness:
  "\<exists>pos' r'. ngx_http_parse_header_line init_header (bytes ''Ho'') 0 False = (NGX_AGAIN, pos', r') \<and>
     ngx_http_parse_header_line r' (bytes ''Ho'' @ bytes ''st: a'' @ [CR, LF]) pos' False =
     ngx_http_parse_header_line init_header (bytes ''Ho'' @ bytes ''st: a'' @ [CR, LF]) 0 False \<and>
     fst (ngx_http_parse_header_line r' (bytes ''Ho'' @ bytes ''st: a'' @ [CR, LF]) pos' False) = NGX_OK"
proof -
  let ?b = "bytes ''Ho''" and ?e = "bytes ''st: a'' @ [CR, LF]"
  let ?x = "ngx_http_parse_header_line init_header ?b 0 False"
  let ?y = "ngx_http_parse_header_line init_header (?b @ ?e) 0 False"
  let ?z = "ngx_http_parse_header_line (snd (snd ?x)) (?b @ ?e) 2 False"
  have x: "?x = (NGX_AGAIN, 2, snd (snd ?x))" and y: "?y = (NGX_OK, 9, snd (snd ?y))"
    by (simp_all add: hl_eval)
  have "fst ?z = NGX_OK \<and> (NGX_OK \<in> {NGX_OK, NGX_AGAIN} \<longrightarrow>
      fst (snd ?z) = 9 \<and> snd (snd ?z) = snd (snd ?y)) \<and>
      (NGX_OK = NGX_HTTP_PARSE_HEADER_DONE \<longrightarrow> fst (snd ?z) = 9 \<and>
        (snd (snd ?z))\<lparr>header_hash := header_hash (snd (snd ?y)),
          lowcase_index := lowcase_index (snd (snd ?y))\<rparr> = snd (snd ?y))"
    by (rule header_line_resume [OF _ x y, of _ "fst (snd ?z)"]) simp_all
  then have z: "?z = ?y" "fst ?z = NGX_OK"
    using y by (metis insertI1 prod.collapse)+
  show ?thesis using x z by blast
qed

theorem header_line_roundtrip_witness:
  "let x = ngx_http_parse_header_line init_header
     (bytes ''xy'' @ print_header_line (bytes ''Host'') 1 (bytes ''a b'') 2 @ [])
     (length (bytes ''xy'')) True
   in fst x = NGX_OK \<and> header_hash (snd (snd x)) = ngx_hash_key_lc (bytes ''Host'') \<and>
      header_start (snd (snd x)) = Some 8 \<and> header_end (snd (snd x)) = Some 11"
proof -
  have "bytes ''Host'' \<noteq> []" "length (bytes ''Host'') \<le> 32"
    "\<forall>c\<in>set (bytes ''Host''). lowcase ! unat c \<noteq> 0" "bytes ''a b'' \<noteq> []"
    "hd (bytes ''a b'') \<noteq> ch_space" "last (bytes ''a b'') \<noteq> ch_space"
    "\<forall>c\<in>set (bytes ''a b''). c \<notin> {CR, LF, NUL}"
    "hdr_state init_header = hl_sw_start" "length (lowcase_header init_header) = 32"
    by (simp_all add: lowcase_map lowcase_of_def init_header_def)
  note x = header_line_roundtrip [OF this, of "bytes ''xy''" 1 2 "[]" True]
  show ?thesis unfolding x by simp
qed

end
