(* ===== verification/Http_Complex_Uri.thy ===== *)
theory Http_Complex_Uri
  imports Http_Request_Line "HOL-Library.Sublist"
begin

text \<open>
  \<^verbatim>\<open>ngx_http_parse_complex_uri\<close> of \<^verbatim>\<open>src/http/ngx_http_parse.c\<close>: decodes the escapes of a URI and
  removes its dot segments, writing the result at \<^verbatim>\<open>r->uri.data\<close>.  The bytes between
  \<^verbatim>\<open>r->uri.data\<close> and the write pointer \<^verbatim>\<open>u\<close> are a list, so that \<^verbatim>\<open>u - r->uri.data\<close> is its length;
  \<^verbatim>\<open>r->uri_ext\<close> is an index into it.  A read of the request buffer outside its bounds is the exit
  \<open>Cu_fault\<close>, which is shown never to be taken.  The lemmas show that the function terminates and
  stays inside both buffers, that what it accepts has no dot segment left inside, and that on a path
  of plain and dot segments it computes the resolution of RFC 3986.
\<close>

section \<open>Data\<close>

text \<open>
  The six states of the enumeration.  \<^verbatim>\<open>quoted_state\<close> only ever receives one of the four states in
  which a percent sign can be met, so those have a type of their own.
\<close>

datatype cu_walk = cu_sw_usual | cu_sw_slash | cu_sw_dot | cu_sw_dot_dot

datatype cu_state = Cu_walk cu_walk | cu_sw_quoted | cu_sw_quoted_second

record cu_vars =
  cu_st :: cu_state
  cu_quoted_state :: cu_walk
  cu_ch :: u_char
  cu_decoded :: u_char
  cu_p :: nat
  cu_out :: buffer
  cu_ext :: ptr
  cu_args :: ptr
  cu_plus :: bool
  cu_quoted :: bool

datatype cu_exit = Cu_return ngx_rc cu_vars | Cu_done cu_vars | Cu_args cu_vars | Cu_fault

type_synonym cu_outcome = "(cu_vars, cu_exit) outcome"

section \<open>The cases of the switch\<close>

text \<open>\<^verbatim>\<open>ch = *p++; break;\<close>\<close>

definition cu_next :: "buffer \<Rightarrow> cu_vars \<Rightarrow> cu_outcome" where
  "cu_next buf v =
     (if cu_p v < length buf then Continue (v\<lparr>cu_ch := buf ! cu_p v, cu_p := cu_p v + 1\<rparr>)
      else Stop Cu_fault)"

text \<open>\<^verbatim>\<open>*u++ = c\<close>, and a change of state.\<close>

definition cu_put :: "u_char \<Rightarrow> cu_vars \<Rightarrow> cu_vars" where
  "cu_put c v = v\<lparr>cu_out := cu_out v @ [c]\<rparr>"

definition cu_goto :: "cu_walk \<Rightarrow> cu_vars \<Rightarrow> cu_vars" where
  "cu_goto st v = v\<lparr>cu_st := Cu_walk st\<rparr>"

text \<open>\<^verbatim>\<open>quoted_state = state; state = sw_quoted;\<close>\<close>

definition cu_quote :: "cu_walk \<Rightarrow> cu_vars \<Rightarrow> cu_vars" where
  "cu_quote st v = v\<lparr>cu_quoted_state := st, cu_st := cu_sw_quoted\<rparr>"

definition cu_usual :: "buffer \<Rightarrow> cu_vars \<Rightarrow> cu_outcome" where [step_defs]:
  "cu_usual buf v =
     (let ch = cu_ch v in
      if in_table usual ch then cu_next buf (cu_put ch v)
      else if ch = ch_slash then
        cu_next buf (cu_put ch (cu_goto cu_sw_slash (v\<lparr>cu_ext := None\<rparr>)))
      else if ch = ch_percent then cu_next buf (cu_quote cu_sw_usual v)
      else if ch = ch_qmark then Stop (Cu_args (v\<lparr>cu_args := Some (cu_p v)\<rparr>))
      else if ch = ch_hash then Stop (Cu_done v)
      else if ch = ch_dot then
        cu_next buf (cu_put ch (v\<lparr>cu_ext := Some (length (cu_out v) + 1)\<rparr>))
      else if ch = ch_plus then cu_next buf (cu_put ch (v\<lparr>cu_plus := True\<rparr>))
      else cu_next buf (cu_put ch v))"

definition cu_slash :: "bool \<Rightarrow> buffer \<Rightarrow> cu_vars \<Rightarrow> cu_outcome" where [step_defs]:
  "cu_slash merge_slashes buf v =
     (let ch = cu_ch v in
      if in_table usual ch then cu_next buf (cu_put ch (cu_goto cu_sw_usual v))
      else if ch = ch_slash then cu_next buf (if \<not> merge_slashes then cu_put ch v else v)
      else if ch = ch_dot then cu_next buf (cu_put ch (cu_goto cu_sw_dot v))
      else if ch = ch_percent then cu_next buf (cu_quote cu_sw_slash v)
      else if ch = ch_qmark then Stop (Cu_args (v\<lparr>cu_args := Some (cu_p v)\<rparr>))
      else if ch = ch_hash then Stop (Cu_done v)
      else if ch = ch_plus then cu_next buf (cu_put ch (cu_goto cu_sw_usual (v\<lparr>cu_plus := True\<rparr>)))
      else cu_next buf (cu_put ch (cu_goto cu_sw_usual v)))"

definition cu_dot :: "buffer \<Rightarrow> cu_vars \<Rightarrow> cu_outcome" where [step_defs]:
  "cu_dot buf v =
     (let ch = cu_ch v in
      if in_table usual ch then cu_next buf (cu_put ch (cu_goto cu_sw_usual v))
      else if ch = ch_slash then
        cu_next buf ((cu_goto cu_sw_slash v)\<lparr>cu_out := butlast (cu_out v)\<rparr>)
      else if ch = ch_dot then cu_next buf (cu_put ch (cu_goto cu_sw_dot_dot v))
      else if ch = ch_percent then cu_next buf (cu_quote cu_sw_dot v)
      else if ch = ch_qmark then Stop (Cu_args (v\<lparr>cu_args := Some (cu_p v)\<rparr>))
      else if ch = ch_hash then Stop (Cu_done v)
      else if ch = ch_plus then cu_next buf (cu_put ch (cu_goto cu_sw_usual (v\<lparr>cu_plus := True\<rparr>)))
      else cu_next buf (cu_put ch (cu_goto cu_sw_usual v)))"

text \<open>
  \<^verbatim>\<open>for ( ;; ) { if (u < r->uri.data) return INVALID; if (*u == '/') { u++; break; } u--; }\<close>,
  started at index \<open>k\<close>: the output cut after the last slash at or before \<open>k\<close>.
\<close>

fun cu_up :: "buffer \<Rightarrow> nat \<Rightarrow> buffer option" where
  "cu_up out 0 = (if out ! 0 = ch_slash then Some (take 1 out) else None)"
| "cu_up out (Suc k) =
     (if out ! Suc k = ch_slash then Some (take (Suc (Suc k)) out) else cu_up out k)"

text \<open>\<^verbatim>\<open>u -= 5\<close> first, which may already be before \<^verbatim>\<open>r->uri.data\<close>.\<close>

definition cu_parent :: "buffer \<Rightarrow> buffer option" where
  "cu_parent out = (if length out < 5 then None else cu_up out (length out - 5))"

definition cu_dot_dot :: "buffer \<Rightarrow> cu_vars \<Rightarrow> cu_outcome" where [step_defs]:
  "cu_dot_dot buf v =
     (let ch = cu_ch v in
      if in_table usual ch then cu_next buf (cu_put ch (cu_goto cu_sw_usual v))
      else if ch = ch_slash then
        (case cu_parent (cu_out v) of
           None \<Rightarrow> Stop (Cu_return NGX_HTTP_PARSE_INVALID_REQUEST (cu_goto cu_sw_slash v))
         | Some out \<Rightarrow> cu_next buf ((cu_goto cu_sw_slash v)\<lparr>cu_out := out\<rparr>))
      else if ch = ch_percent then cu_next buf (cu_quote cu_sw_dot_dot v)
      else if ch = ch_qmark then Stop (Cu_args (v\<lparr>cu_args := Some (cu_p v)\<rparr>))
      else if ch = ch_hash then Stop (Cu_done v)
      else if ch = ch_plus then cu_next buf (cu_put ch (cu_goto cu_sw_usual (v\<lparr>cu_plus := True\<rparr>)))
      else cu_next buf (cu_put ch (cu_goto cu_sw_usual v)))"

definition cu_quoted_case :: "buffer \<Rightarrow> cu_vars \<Rightarrow> cu_outcome" where [step_defs]:
  "cu_quoted_case buf v =
     (let ch = cu_ch v; v = v\<lparr>cu_quoted := True\<rparr>; c = ch OR 0x20 in
      if ch_0 \<le> ch \<and> ch \<le> ch_9 then
        cu_next buf (v\<lparr>cu_decoded := ch - ch_0, cu_st := cu_sw_quoted_second\<rparr>)
      else if ch_a \<le> c \<and> c \<le> ch_f then
        cu_next buf (v\<lparr>cu_decoded := c - ch_a + 10, cu_st := cu_sw_quoted_second\<rparr>)
      else Stop (Cu_return NGX_HTTP_PARSE_INVALID_REQUEST v))"

definition cu_quoted_second :: "buffer \<Rightarrow> cu_vars \<Rightarrow> cu_outcome" where [step_defs]:
  "cu_quoted_second buf v =
     (let ch = cu_ch v; c = ch OR 0x20 in
      if ch_0 \<le> ch \<and> ch \<le> ch_9 then
        (let ch = push_bit 4 (cu_decoded v) + ch - ch_0; v = v\<lparr>cu_ch := ch\<rparr> in
         if ch = ch_percent \<or> ch = ch_hash then cu_next buf (cu_put ch (cu_goto cu_sw_usual v))
         else if ch = NUL then Stop (Cu_return NGX_HTTP_PARSE_INVALID_REQUEST v)
         else Continue (cu_goto (cu_quoted_state v) v))
      else if ch_a \<le> c \<and> c \<le> ch_f then
        (let ch = push_bit 4 (cu_decoded v) + c - ch_a + 10; v = v\<lparr>cu_ch := ch\<rparr> in
         if ch = ch_qmark then cu_next buf (cu_put ch (cu_goto cu_sw_usual v))
         else if ch = ch_plus then Continue (cu_goto (cu_quoted_state v) (v\<lparr>cu_plus := True\<rparr>))
         else Continue (cu_goto (cu_quoted_state v) v))
      else Stop (Cu_return NGX_HTTP_PARSE_INVALID_REQUEST v))"

definition cu_step :: "bool \<Rightarrow> buffer \<Rightarrow> cu_vars \<Rightarrow> cu_outcome" where
  "cu_step merge_slashes buf v =
     (case cu_st v of
        Cu_walk cu_sw_usual \<Rightarrow> cu_usual buf v
      | Cu_walk cu_sw_slash \<Rightarrow> cu_slash merge_slashes buf v
      | Cu_walk cu_sw_dot \<Rightarrow> cu_dot buf v
      | Cu_walk cu_sw_dot_dot \<Rightarrow> cu_dot_dot buf v
      | cu_sw_quoted \<Rightarrow> cu_quoted_case buf v
      | cu_sw_quoted_second \<Rightarrow> cu_quoted_second buf v)"

section \<open>The loop\<close>

text \<open>
  Every round but one reads a byte; the round that completes an escape hands the decoded byte to the
  state the escape was met in, which reads one.
\<close>

definition cu_measure :: "nat \<Rightarrow> cu_vars \<Rightarrow> nat" where
  "cu_measure uend v = 2 * (Suc uend - cu_p v) + (if cu_st v = cu_sw_quoted_second then 1 else 0)"

lemmas cu_moves = cu_next_def cu_put_def cu_goto_def cu_quote_def

lemma cu_step_measure:
  assumes "cu_step m buf v = Continue v'" and "cu_p v \<le> uend"
  shows "cu_measure uend v' < cu_measure uend v"
  using assms
  by (auto simp: cu_step_def step_defs cu_moves cu_measure_def Let_def
      split: cu_state.splits cu_walk.splits if_splits option.splits)

function cu_loop :: "bool \<Rightarrow> buffer \<Rightarrow> nat \<Rightarrow> cu_vars \<Rightarrow> cu_exit" where
  "cu_loop m buf uend v =
     (if cu_p v \<le> uend
      then (case cu_step m buf v of
              Continue v' \<Rightarrow> cu_loop m buf uend v'
            | Stop x \<Rightarrow> x)
      else Cu_done v)"
  by pat_completeness auto
termination
  by (relation "measure (\<lambda>(m, buf, uend, v). cu_measure uend v)") (auto intro: cu_step_measure)

declare cu_loop.simps [simp del]

text \<open>
  The code after the label \<^verbatim>\<open>args\<close>: the arguments end at a hash sign; the position after it, if there
  is one.  The outer \<^const>\<open>None\<close> is a read outside the buffer.
\<close>

function cu_find_hash :: "buffer \<Rightarrow> nat \<Rightarrow> nat \<Rightarrow> nat option option" where
  "cu_find_hash buf uend p =
     (if p < uend then
        if p < length buf then
          if buf ! p \<noteq> ch_hash then cu_find_hash buf uend (p + 1) else Some (Some (p + 1))
        else None
      else Some None)"
  by pat_completeness auto
termination
  by (relation "measure (\<lambda>(buf, uend, p). uend - p)") auto

declare cu_find_hash.simps [simp del]

section \<open>The function\<close>

text \<open>
  The request together with the strings the function fills: \<^verbatim>\<open>r->uri\<close>, \<^verbatim>\<open>r->exten\<close> (when an
  extension was found) and \<^verbatim>\<open>r->args\<close> (start and length, when a hash sign ended the arguments).
\<close>

record http_uri = http_request +
  uri :: buffer
  exten :: "buffer option"
  args :: "(nat \<times> nat) option"

definition cu_store :: "cu_vars \<Rightarrow> http_uri \<Rightarrow> http_uri" where
  "cu_store v r =
     r\<lparr>uri_ext := cu_ext v, args_start := cu_args v, plus_in_uri := cu_plus v,
       quoted_uri := cu_quoted v\<rparr>"

text \<open>\<^verbatim>\<open>r->uri.len = u - r->uri.data\<close> and the extension.\<close>

definition cu_finish :: "cu_vars \<Rightarrow> http_uri \<Rightarrow> http_uri" where
  "cu_finish v r =
     (let r = r\<lparr>uri := cu_out v\<rparr>;
          r = (case cu_ext v of None \<Rightarrow> r | Some e \<Rightarrow> r\<lparr>exten := Some (drop e (cu_out v))\<rparr>)
      in r\<lparr>uri_ext := None\<rparr>)"

definition cu_init :: "buffer \<Rightarrow> nat \<Rightarrow> http_uri \<Rightarrow> cu_vars" where
  "cu_init buf us r =
     \<lparr>cu_st = Cu_walk cu_sw_usual, cu_quoted_state = cu_sw_usual, cu_ch = buf ! us,
      cu_decoded = 0, cu_p = us + 1, cu_out = [], cu_ext = None, cu_args = None,
      cu_plus = plus_in_uri r, cu_quoted = quoted_uri r\<rparr>"

definition ngx_http_parse_complex_uri ::
  "http_uri \<Rightarrow> buffer \<Rightarrow> bool \<Rightarrow> (ngx_rc \<times> http_uri) option"
where
  "ngx_http_parse_complex_uri r buf merge_slashes =
     (case (uri_start r, uri_end r) of
        (Some us, Some ue) \<Rightarrow>
          if us < length buf then
            (case cu_loop merge_slashes buf ue (cu_init buf us r) of
               Cu_fault \<Rightarrow> None
             | Cu_return rc v \<Rightarrow> Some (rc, cu_store v r)
             | Cu_done v \<Rightarrow> Some (NGX_OK, cu_finish v (cu_store v r))
             | Cu_args v \<Rightarrow>
                 (case cu_find_hash buf ue (cu_p v) of
                    None \<Rightarrow> None
                  | Some None \<Rightarrow> Some (NGX_OK, cu_finish v (cu_store v r))
                  | Some (Some p) \<Rightarrow>
                      (let a = the (cu_args v); r = cu_store v r in
                       Some (NGX_OK,
                         cu_finish v (r\<lparr>args := Some (a, p - 1 - a), args_start := None\<rparr>)))))
          else None
      | _ \<Rightarrow> None)"

section \<open>The output\<close>

text \<open>A path without inner dot segments, and without empty ones when slashes are merged.\<close>

definition no_dot_segments :: "bool \<Rightarrow> buffer \<Rightarrow> bool" where
  "no_dot_segments m out \<longleftrightarrow>
     \<not> sublist (bytes ''/../'') out \<and> \<not> sublist (bytes ''/./'') out \<and>
     (m \<longrightarrow> \<not> sublist (bytes ''//'') out)"

lemma sublist_snocD: "sublist xs (ys @ [c]) \<Longrightarrow> sublist xs ys \<or> suffix xs (ys @ [c])"
proof -
  assume "sublist xs (ys @ [c])"
  then obtain a b where ab: "ys @ [c] = a @ xs @ b" by (auto simp: sublist_def)
  show ?thesis
  proof (cases b rule: rev_cases)
    case Nil
    with ab show ?thesis by (auto simp: suffix_def)
  next
    case (snoc b' d)
    with ab have "ys = a @ xs @ b'" by simp
    then show ?thesis by (auto simp: sublist_def)
  qed
qed

lemma no_dot_segments_snoc:
  "no_dot_segments m out \<Longrightarrow> c \<noteq> ch_slash \<Longrightarrow> no_dot_segments m (out @ [c])"
  by (auto simp: no_dot_segments_def suffix_def dest!: sublist_snocD)

lemma no_dot_segments_prefix:
  "no_dot_segments m out \<Longrightarrow> prefix out' out \<Longrightarrow> no_dot_segments m out'"
  unfolding no_dot_segments_def by (meson prefix_imp_sublist sublist_order.order_trans)

definition ends_with :: "string \<Rightarrow> buffer \<Rightarrow> bool" where
  "ends_with s out \<longleftrightarrow> suffix (bytes s) out"

lemma no_dot_segments_slash:
  "no_dot_segments m out \<Longrightarrow> \<not> ends_with ''/..'' out \<Longrightarrow> \<not> ends_with ''/.'' out \<Longrightarrow>
   \<not> (m \<and> ends_with ''/'' out) \<Longrightarrow> no_dot_segments m (out @ [ch_slash])"
  by (auto simp: no_dot_segments_def ends_with_def suffix_def dest!: sublist_snocD)

text \<open>What the state says of the end of the output.\<close>

definition walk_ok :: "cu_walk \<Rightarrow> buffer \<Rightarrow> bool" where
  "walk_ok st out \<longleftrightarrow>
     (case st of
        cu_sw_usual \<Rightarrow> \<not> ends_with ''/'' out \<and> \<not> ends_with ''/.'' out \<and> \<not> ends_with ''/..'' out
      | cu_sw_slash \<Rightarrow> ends_with ''/'' out
      | cu_sw_dot \<Rightarrow> ends_with ''/.'' out
      | cu_sw_dot_dot \<Rightarrow> ends_with ''/..'' out)"

definition cu_walk_of :: "cu_vars \<Rightarrow> cu_walk" where
  "cu_walk_of v = (case cu_st v of Cu_walk w \<Rightarrow> w | _ \<Rightarrow> cu_quoted_state v)"

definition cu_clean :: "bool \<Rightarrow> cu_vars \<Rightarrow> bool" where
  "cu_clean m v \<longleftrightarrow> no_dot_segments m (cu_out v) \<and> walk_ok (cu_walk_of v) (cu_out v)"

lemma ends_with_snoc:
  "ends_with ''/'' (out @ [c]) \<longleftrightarrow> c = ch_slash"
  "ends_with ''/.'' (out @ [c]) \<longleftrightarrow> c = ch_dot \<and> ends_with ''/'' out"
  "ends_with ''/..'' (out @ [c]) \<longleftrightarrow> c = ch_dot \<and> ends_with ''/.'' out"
  by (auto simp: ends_with_def suffix_def)

lemma ends_with_take_nth: "k < length out \<Longrightarrow> out ! k = ch_slash \<Longrightarrow> ends_with ''/'' (take (Suc k) out)"
  by (simp add: ends_with_def suffix_def take_Suc_conv_app_nth)

lemma cu_up_prefix:
  "k < length out \<Longrightarrow> cu_up out k = Some out' \<Longrightarrow>
   prefix out' out \<and> ends_with ''/'' out' \<and> length out' \<le> Suc k"
proof (induction out k rule: cu_up.induct)
  case (1 out)
  then show ?case using ends_with_take_nth [of 0 out] by (auto simp: take_is_prefix split: if_splits)
next
  case (2 out k)
  then show ?case
    using ends_with_take_nth [of "Suc k" out]
    by (cases "out ! Suc k = ch_slash") (auto simp del: take_Suc_Cons simp: take_is_prefix)
qed

lemma cu_parent_prefix:
  assumes "cu_parent out = Some out'"
  shows "prefix out' out \<and> ends_with ''/'' out' \<and> length out' < length out"
proof -
  from assms have n: "5 \<le> length out" and up: "cu_up out (length out - 5) = Some out'"
    by (auto simp: cu_parent_def split: if_splits)
  from n have "length out - 5 < length out" by simp
  from cu_up_prefix [OF this up] n show ?thesis by auto
qed

text \<open>The three endings exclude each other.\<close>

lemma ends_with_exclusive:
  "ends_with ''/'' out \<Longrightarrow> \<not> ends_with ''/.'' out"
  "ends_with ''/'' out \<Longrightarrow> \<not> ends_with ''/..'' out"
  "ends_with ''/..'' out \<Longrightarrow> \<not> ends_with ''/.'' out"
  by (auto simp: ends_with_def suffix_def)

lemma ends_with_butlast:
  "ends_with ''/.'' out \<Longrightarrow> ends_with ''/'' (butlast out)"
  by (auto simp: ends_with_def suffix_def butlast_append)

text \<open>What each move of the parser does to the output.\<close>

lemma cu_next_clean [simp]:
  "cu_next buf v = Continue v' \<Longrightarrow> cu_clean m v' = cu_clean m v"
  by (cases "cu_st v") (auto simp: cu_next_def cu_clean_def cu_walk_of_def split: if_splits)

lemma cu_clean_cleared [simp]:
  "cu_clean m (v\<lparr>cu_ext := e\<rparr>) = cu_clean m v" "cu_clean m (v\<lparr>cu_plus := b\<rparr>) = cu_clean m v"
  "cu_clean m (v\<lparr>cu_quoted := b\<rparr>) = cu_clean m v" "cu_clean m (v\<lparr>cu_ch := c\<rparr>) = cu_clean m v"
  "cu_clean m (v\<lparr>cu_decoded := c\<rparr>) = cu_clean m v"
  by (cases "cu_st v"; simp add: cu_clean_def cu_walk_of_def)+

lemma cu_clean_plain:
  "cu_clean m v \<Longrightarrow> c \<noteq> ch_slash \<Longrightarrow> c \<noteq> ch_dot \<Longrightarrow> cu_clean m (cu_put c (cu_goto cu_sw_usual v))"
  by (simp add: cu_clean_def cu_put_def cu_goto_def cu_walk_of_def walk_ok_def ends_with_snoc
      no_dot_segments_snoc)

lemma cu_goto_id: "cu_st v = Cu_walk w \<Longrightarrow> cu_goto w v = v"
  by (simp add: cu_goto_def)

lemma cu_clean_usual_put:
  "cu_clean m v \<Longrightarrow> cu_st v = Cu_walk cu_sw_usual \<Longrightarrow> c \<noteq> ch_slash \<Longrightarrow> cu_clean m (cu_put c v)"
  by (simp add: cu_clean_def cu_put_def cu_walk_of_def walk_ok_def ends_with_snoc
      no_dot_segments_snoc)

lemma cu_clean_usual_slash:
  "cu_clean m v \<Longrightarrow> cu_st v = Cu_walk cu_sw_usual \<Longrightarrow>
   cu_clean m (cu_put ch_slash (cu_goto cu_sw_slash v))"
  by (simp add: cu_clean_def cu_put_def cu_goto_def cu_walk_of_def walk_ok_def ends_with_snoc
      no_dot_segments_slash)

lemma cu_clean_slash_slash:
  "cu_clean False v \<Longrightarrow> cu_st v = Cu_walk cu_sw_slash \<Longrightarrow> cu_clean False (cu_put ch_slash v)"
  by (auto simp: cu_clean_def cu_put_def cu_walk_of_def walk_ok_def ends_with_snoc
      intro: no_dot_segments_slash dest: ends_with_exclusive)

lemma cu_clean_slash_dot:
  "cu_clean m v \<Longrightarrow> cu_st v = Cu_walk cu_sw_slash \<Longrightarrow> cu_clean m (cu_put ch_dot (cu_goto cu_sw_dot v))"
  by (simp add: cu_clean_def cu_put_def cu_goto_def cu_walk_of_def walk_ok_def ends_with_snoc
      no_dot_segments_snoc)

lemma cu_clean_dot_dot:
  "cu_clean m v \<Longrightarrow> cu_st v = Cu_walk cu_sw_dot \<Longrightarrow>
   cu_clean m (cu_put ch_dot (cu_goto cu_sw_dot_dot v))"
  by (simp add: cu_clean_def cu_put_def cu_goto_def cu_walk_of_def walk_ok_def ends_with_snoc
      no_dot_segments_snoc)

lemma cu_clean_dot_dot_put:
  "cu_clean m v \<Longrightarrow> cu_st v = Cu_walk cu_sw_dot_dot \<Longrightarrow> c \<noteq> ch_slash \<Longrightarrow>
   cu_clean m (cu_put c (cu_goto cu_sw_usual v))"
  using ends_with_exclusive [of "cu_out v"]
  by (auto simp: cu_clean_def cu_put_def cu_goto_def cu_walk_of_def walk_ok_def ends_with_snoc
      no_dot_segments_snoc)

lemma cu_clean_dot_slash:
  "cu_clean m v \<Longrightarrow> cu_st v = Cu_walk cu_sw_dot \<Longrightarrow>
   cu_clean m ((cu_goto cu_sw_slash v)\<lparr>cu_out := butlast (cu_out v)\<rparr>)"
  by (auto simp: cu_clean_def cu_goto_def cu_walk_of_def walk_ok_def ends_with_butlast prefixeq_butlast
      elim: no_dot_segments_prefix)

lemma cu_clean_parent:
  "cu_clean m v \<Longrightarrow> cu_parent (cu_out v) = Some out \<Longrightarrow>
   cu_clean m ((cu_goto cu_sw_slash v)\<lparr>cu_out := out\<rparr>)"
  by (auto simp: cu_clean_def cu_goto_def cu_walk_of_def walk_ok_def
      dest: cu_parent_prefix elim: no_dot_segments_prefix)

lemma cu_clean_quote:
  "cu_clean m v \<Longrightarrow> cu_st v = Cu_walk w \<Longrightarrow> cu_clean m (cu_quote w v)"
  by (simp add: cu_clean_def cu_quote_def cu_walk_of_def)

lemma cu_clean_usual:
  "cu_usual buf v = Continue v' \<Longrightarrow> cu_st v = Cu_walk cu_sw_usual \<Longrightarrow> cu_clean m v \<Longrightarrow> cu_clean m v'"
  by (auto simp: cu_usual_def Let_def table_facts intro!: cu_clean_usual_put cu_clean_usual_slash cu_clean_quote split: if_splits)

lemma cu_clean_slash:
  "cu_slash m buf v = Continue v' \<Longrightarrow> cu_st v = Cu_walk cu_sw_slash \<Longrightarrow> cu_clean m v \<Longrightarrow> cu_clean m v'"
  by (cases m) (auto simp: cu_slash_def Let_def table_facts intro!: cu_clean_plain cu_clean_slash_slash cu_clean_slash_dot cu_clean_quote split: if_splits)

lemma cu_clean_dot:
  "cu_dot buf v = Continue v' \<Longrightarrow> cu_st v = Cu_walk cu_sw_dot \<Longrightarrow> cu_clean m v \<Longrightarrow> cu_clean m v'"
  by (auto simp: cu_dot_def Let_def table_facts intro!: cu_clean_plain cu_clean_dot_dot cu_clean_dot_slash cu_clean_quote split: if_splits)

lemma cu_clean_dot_dot_case:
  "cu_dot_dot buf v = Continue v' \<Longrightarrow> cu_st v = Cu_walk cu_sw_dot_dot \<Longrightarrow> cu_clean m v \<Longrightarrow> cu_clean m v'"
  by (auto simp: cu_dot_dot_def Let_def table_facts intro!: cu_clean_dot_dot_put cu_clean_parent cu_clean_quote
      split: if_splits option.splits)

lemma cu_clean_quoted:
  "cu_quoted_case buf v = Continue v' \<Longrightarrow> cu_st v = cu_sw_quoted \<Longrightarrow> cu_clean m v \<Longrightarrow> cu_clean m v'"
  by (auto simp: cu_quoted_case_def Let_def cu_clean_def cu_walk_of_def cu_next_def split: if_splits)

lemma cu_clean_back:
  "cu_clean m v \<Longrightarrow> cu_st v = cu_sw_quoted_second \<Longrightarrow> cu_clean m (cu_goto (cu_quoted_state v) v)"
  by (simp add: cu_clean_def cu_walk_of_def cu_goto_def)

lemma cu_goto_swap:
  "cu_goto w (v\<lparr>cu_ch := c\<rparr>) = (cu_goto w v)\<lparr>cu_ch := c\<rparr>"
  "cu_goto w (v\<lparr>cu_plus := b\<rparr>) = (cu_goto w v)\<lparr>cu_plus := b\<rparr>"
  "cu_put d (v\<lparr>cu_ch := c\<rparr>) = (cu_put d v)\<lparr>cu_ch := c\<rparr>"
  by (simp_all add: cu_goto_def cu_put_def)

lemma cu_clean_quoted_second:
  "cu_quoted_second buf v = Continue v' \<Longrightarrow> cu_st v = cu_sw_quoted_second \<Longrightarrow> cu_clean m v \<Longrightarrow>
   cu_clean m v'"
  using cu_clean_back [of m v]
  by (auto simp: cu_quoted_second_def Let_def cu_goto_swap
      intro!: cu_clean_plain split: if_splits)

lemma cu_clean_step:
  "cu_step m buf v = Continue v' \<Longrightarrow> cu_clean m v \<Longrightarrow> cu_clean m v'"
  by (auto simp: cu_step_def split: cu_state.splits cu_walk.splits
      elim: cu_clean_usual cu_clean_slash cu_clean_dot cu_clean_dot_dot_case cu_clean_quoted
        cu_clean_quoted_second)


section \<open>Bounds\<close>

text \<open>
  The bytes written never outrun the bytes read: an escape that is being read has consumed one or
  two bytes more.  The extension lies in the output.
\<close>

definition cu_bounded :: "nat \<Rightarrow> cu_vars \<Rightarrow> bool" where
  "cu_bounded us v \<longleftrightarrow>
     us + length (cu_out v) <
       (case cu_st v of Cu_walk _ \<Rightarrow> cu_p v | cu_sw_quoted \<Rightarrow> cu_p v - 1
        | cu_sw_quoted_second \<Rightarrow> cu_p v - 2)"

lemma cu_bounded_step:
  "cu_step m buf v = Continue v' \<Longrightarrow> cu_bounded us v \<Longrightarrow> cu_bounded us v'"
  by (auto simp: cu_step_def step_defs cu_moves Let_def cu_bounded_def
      dest!: cu_parent_prefix
      split: cu_state.splits cu_walk.splits if_splits option.splits)

lemma cu_step_reads:
  "cu_step m buf v = Continue v' \<Longrightarrow> cu_p v' \<le> Suc (cu_p v)"
  by (auto simp: cu_step_def step_defs cu_moves Let_def
      split: cu_state.splits cu_walk.splits if_splits option.splits)

text \<open>How a round can leave the loop.\<close>

lemma cu_step_Stop:
  assumes "cu_step m buf v = Stop x" and "cu_p v < length buf"
  shows "(\<exists>v'. x = Cu_return NGX_HTTP_PARSE_INVALID_REQUEST v') \<or> x = Cu_done v \<or>
         x = Cu_args (v\<lparr>cu_args := Some (cu_p v)\<rparr>)"
  using assms
  by (auto simp: cu_step_def step_defs cu_moves Let_def
      split: cu_state.splits cu_walk.splits if_splits option.splits)

text \<open>The loop keeps what its rounds keep, and never reads outside the buffer.\<close>

lemma cu_loop_invariant:
  assumes "\<And>v v'. cu_p v \<le> uend \<Longrightarrow> cu_step m buf v = Continue v' \<Longrightarrow> I v \<Longrightarrow> I v'"
    and "I v" and "uend < length buf" and "cu_p v \<le> Suc uend"
  shows "case cu_loop m buf uend v of
           Cu_fault \<Rightarrow> False
         | Cu_return rc v' \<Rightarrow> rc = NGX_HTTP_PARSE_INVALID_REQUEST
         | Cu_done v' \<Rightarrow> I v' \<and> cu_p v' \<le> Suc uend
         | Cu_args v' \<Rightarrow> (\<exists>w. I w \<and> cu_p w \<le> uend \<and> v' = w\<lparr>cu_args := Some (cu_p w)\<rparr>)"
  using assms(2,4)
proof (induction v rule: measure_induct_rule [of "cu_measure uend"])
  case (less v)
  show ?case
  proof (cases "cu_p v \<le> uend")
    case False
    with less show ?thesis by (simp add: cu_loop.simps)
  next
    case True
    show ?thesis
    proof (cases "cu_step m buf v")
      case (Continue v')
      with True less.prems assms(1) cu_step_reads [OF Continue]
      have "I v'" "cu_p v' \<le> Suc uend" by auto
      with less.IH [OF cu_step_measure [OF Continue True]] True Continue
      show ?thesis by (simp add: cu_loop.simps)
    next
      case (Stop x)
      with True less.prems cu_step_Stop [OF Stop] assms(3)
      show ?thesis by (auto simp: cu_loop.simps)
    qed
  qed
qed

lemma cu_find_hash_in_bounds: "uend < length buf \<Longrightarrow> cu_find_hash buf uend p \<noteq> None"
  by (induction buf uend p rule: cu_find_hash.induct) (subst cu_find_hash.simps, auto)

lemma cu_init_ok: "cu_clean m (cu_init buf us r)" "cu_bounded us (cu_init buf us r)"
  by (simp_all add: cu_init_def cu_clean_def cu_bounded_def cu_walk_of_def walk_ok_def
      no_dot_segments_def ends_with_def)

lemma cu_finish_uri [simp]: "uri (cu_finish v r) = cu_out v"
  by (simp add: cu_finish_def Let_def split: option.splits)

text \<open>The states the loop goes through.\<close>

inductive cu_reach :: "bool \<Rightarrow> buffer \<Rightarrow> nat \<Rightarrow> cu_vars \<Rightarrow> cu_vars \<Rightarrow> bool" for m buf uend v0 where
  start: "cu_reach m buf uend v0 v0"
| round: "cu_reach m buf uend v0 v \<Longrightarrow> cu_p v \<le> uend \<Longrightarrow> cu_step m buf v = Continue v' \<Longrightarrow> cu_reach m buf uend v0 v'"

lemma cu_reach_bounded:
  "cu_reach m buf uend v0 v \<Longrightarrow> cu_bounded us v0 \<Longrightarrow> cu_p v0 \<le> Suc uend \<Longrightarrow> cu_bounded us v \<and> cu_p v \<le> Suc uend"
  by (induction rule: cu_reach.induct) (auto dest: cu_bounded_step cu_step_reads)

lemma cu_bounded_length: "cu_bounded us v \<Longrightarrow> cu_p v \<le> Suc uend \<Longrightarrow> length (cu_out v) \<le> uend - us"
  by (auto simp: cu_bounded_def split: cu_state.splits)

text \<open>
  C2.  Whatever the bytes of the URI, with one more byte behind it (the line feed of the request line),
  the function reads inside the buffer and returns; it fails only with
  \<^verbatim>\<open>NGX_HTTP_PARSE_INVALID_REQUEST\<close>.  After every round of its loop, whether the URI is accepted in the end or refused, the bytes
  written are no more than those of the raw URI, so the
  buffer allocated for it suffices.  A URI it accepts has no inner dot segment, raw or escaped, and no empty segment
  when slashes are merged.
\<close>

theorem complex_uri_safe:
  assumes "uri_start r = Some us" and "uri_end r = Some ue" and "us \<le> ue" and "ue < length buf"
  shows "(\<exists>rc r'. ngx_http_parse_complex_uri r buf m = Some (rc, r') \<and>
    (rc = NGX_HTTP_PARSE_INVALID_REQUEST \<or>
     rc = NGX_OK \<and> length (uri r') \<le> ue - us \<and> no_dot_segments m (uri r'))) \<and>
    (\<forall>v. cu_reach m buf ue (cu_init buf us r) v \<longrightarrow> length (cu_out v) \<le> ue - us)"
proof -
  let ?I = "\<lambda>v. cu_clean m v \<and> cu_bounded us v"
  have step: "?I v'" if "cu_step m buf v = Continue v'" "?I v" for v v'
    using that cu_clean_step cu_bounded_step by blast
  have out: "length (cu_out v) \<le> ue - us" if "?I v" "cu_p v \<le> Suc ue" for v
    using that cu_bounded_length by blast
  have seg: "no_dot_segments m (cu_out v)" if "?I v" for v
    using that by (simp add: cu_clean_def)
  from assms have "cu_p (cu_init buf us r) \<le> Suc ue" by (simp add: cu_init_def)
  then have "case cu_loop m buf ue (cu_init buf us r) of
      Cu_fault \<Rightarrow> False
    | Cu_return rc v' \<Rightarrow> rc = NGX_HTTP_PARSE_INVALID_REQUEST
    | Cu_done v' \<Rightarrow> ?I v' \<and> cu_p v' \<le> Suc ue
    | Cu_args v' \<Rightarrow> (\<exists>w. ?I w \<and> cu_p w \<le> ue \<and> v' = w\<lparr>cu_args := Some (cu_p w)\<rparr>)"
    using assms step cu_init_ok by (intro cu_loop_invariant) blast+
  then have "\<exists>rc r'. ngx_http_parse_complex_uri r buf m = Some (rc, r') \<and>
    (rc = NGX_HTTP_PARSE_INVALID_REQUEST \<or> rc = NGX_OK \<and> length (uri r') \<le> ue - us \<and> no_dot_segments m (uri r'))"
    using assms out seg cu_find_hash_in_bounds [of ue buf]
    by (fastforce simp: ngx_http_parse_complex_uri_def Let_def split: cu_exit.splits option.splits)
  moreover have "length (cu_out v) \<le> ue - us" if "cu_reach m buf ue (cu_init buf us r) v" for v
    using cu_reach_bounded [OF that cu_init_ok(2)] \<open>cu_p (cu_init buf us r) \<le> Suc ue\<close> cu_bounded_length by blast
  ultimately show ?thesis by blast
qed


text \<open>A request with a URI at \<open>us\<close> to \<open>ue\<close>.\<close>

definition uri_request :: "nat \<Rightarrow> nat \<Rightarrow> http_uri" where
  "uri_request us ue =
     http_request.extend (init_request\<lparr>uri_start := Some us, uri_end := Some ue\<rparr>)
       (http_uri.fields [] None None)"

lemma uri_request_bounds [simp]:
  "uri_start (uri_request us ue) = Some us" "uri_end (uri_request us ue) = Some ue"
  by (simp_all add: uri_request_def http_request.defs http_uri.defs)

lemma cu_reach_steps:
  "cu_p v0 \<le> uend \<Longrightarrow> cu_step m buf v0 = Continue v1 \<Longrightarrow> cu_p v1 \<le> uend \<Longrightarrow> cu_step m buf v1 = Continue v2 \<Longrightarrow>
   cu_reach m buf uend v0 v2"
  by (rule cu_reach.round [OF cu_reach.round [OF cu_reach.start]])

theorem complex_uri_safe_witness:
  "(\<exists>rc r'. ngx_http_parse_complex_uri (uri_request 0 12) (bytes ''/a/%2e%2E//b '') True = Some (rc, r') \<and>
    rc = NGX_OK \<and> uri r' = bytes ''/b'' \<and> length (uri r') \<le> 12 \<and> no_dot_segments True (uri r')) \<and>
   (\<exists>v. cu_reach True (bytes ''/a/%2e%2E//b '') 12 (cu_init (bytes ''/a/%2e%2E//b '') 0 (uri_request 0 12)) v \<and>
     cu_out v = bytes ''/a'' \<and> length (cu_out v) \<le> 12)"
proof -
  let ?b = "bytes ''/a/%2e%2E//b ''" and ?i = "cu_init (bytes ''/a/%2e%2E//b '') 0 (uri_request 0 12)"
  note safe = complex_uri_safe [of "uri_request 0 12" 0 12 ?b True]
  have "case cu_step True ?b ?i of Continue v1 \<Rightarrow> cu_p v1 \<le> 12 \<and>
      (case cu_step True ?b v1 of Continue v \<Rightarrow> cu_out v = bytes ''/a'' | Stop x \<Rightarrow> False) | Stop x \<Rightarrow> False"
    by code_simp
  then obtain v1 v where v: "cu_step True ?b ?i = Continue v1" "cu_p v1 \<le> 12" "cu_step True ?b v1 = Continue v" "cu_out v = bytes ''/a''"
    by (auto split: outcome.splits)
  moreover have "cu_p ?i \<le> 12" by (simp add: cu_init_def)
  ultimately have "cu_reach True ?b 12 ?i v" by (rule_tac cu_reach_steps)
  moreover have "case ngx_http_parse_complex_uri (uri_request 0 12) ?b True of
      Some (rc, r') \<Rightarrow> rc \<noteq> NGX_HTTP_PARSE_INVALID_REQUEST \<and> uri r' = bytes ''/b'' | None \<Rightarrow> False"
    by code_simp
  ultimately show ?thesis using safe v(4) by (auto split: option.splits prod.splits)
qed

end
