(* ===== verification/Http_Uri_Resolution.thy ===== *)
theory Http_Uri_Resolution
  imports Http_Complex_Uri
begin

text \<open>
  What \<^verbatim>\<open>ngx_http_parse_complex_uri\<close> computes: a path written with any mixture of plain and escaped
  bytes is resolved as its decoded form is by a specification that works on whole segments.
\<close>

section \<open>Resolution of dot segments\<close>

text \<open>
  A byte of the URI as it is written: itself, or a percent sign and two hexadecimal digits.
\<close>

datatype uri_byte = Raw u_char | Esc u_char u_char

definition hex_digit :: "u_char \<Rightarrow> bool" where
  "hex_digit c \<longleftrightarrow> is_digit c \<or> (let l = c OR 0x20 in ch_a \<le> l \<and> l \<le> ch_f)"

definition hex_value :: "u_char \<Rightarrow> u_char" where
  "hex_value c = (if is_digit c then c - ch_0 else (c OR 0x20) - ch_a + 10)"

fun uri_byte_decode :: "uri_byte \<Rightarrow> u_char" where
  "uri_byte_decode (Raw c) = c"
| "uri_byte_decode (Esc h l) = push_bit 4 (hex_value h) + hex_value l"

fun uri_byte_print :: "uri_byte \<Rightarrow> buffer" where
  "uri_byte_print (Raw c) = [c]"
| "uri_byte_print (Esc h l) = [ch_percent, h, l]"

fun uri_byte_ok :: "uri_byte \<Rightarrow> bool" where
  "uri_byte_ok (Raw c) \<longleftrightarrow> c \<noteq> ch_percent \<and> c \<noteq> ch_qmark \<and> c \<noteq> ch_hash"
| "uri_byte_ok (Esc h l) \<longleftrightarrow> hex_digit h \<and> hex_digit l"

fun escaped_nul :: "uri_byte \<Rightarrow> bool" where
  "escaped_nul (Raw c) = False"
| "escaped_nul (Esc h l) \<longleftrightarrow> uri_byte_decode (Esc h l) = NUL"

text \<open>
  The specification: the decoded path is cut at its slashes; \<open>.\<close> is dropped, \<open>..\<close> removes the last
  segment kept, empty segments are dropped when slashes are merged and kept otherwise.  What follows the last slash is
  left as it is.  If the last segment kept is empty, which needs that slashes are not merged, \<open>..\<close> removes
  the one before it too: the code steps five bytes back, over both slashes.
\<close>

definition render :: "buffer list \<Rightarrow> buffer" where
  "render st = ch_slash # concat (map (\<lambda>s. s @ [ch_slash]) st)"

definition parent_stack :: "buffer list \<Rightarrow> buffer list option" where
  "parent_stack st =
     (if st = [] then None
      else if last st \<noteq> [] then Some (butlast st)
      else if butlast st = [] then None
      else Some (butlast (butlast st)))"

definition next_stack :: "bool \<Rightarrow> buffer list \<Rightarrow> buffer \<Rightarrow> buffer list option" where
  "next_stack m st s =
     (if s = bytes ''.'' \<or> s = [] \<and> m then Some st
      else if s = bytes ''..'' then parent_stack st
      else Some (st @ [s]))"

fun resolve :: "bool \<Rightarrow> buffer list \<Rightarrow> buffer \<Rightarrow> buffer \<Rightarrow> buffer option" where
  "resolve m st s [] = Some (render st @ s)"
| "resolve m st s (c # cs) =
     (if c = ch_slash
      then (case next_stack m st s of None \<Rightarrow> None | Some st' \<Rightarrow> resolve m st' [] cs)
      else resolve m st (s @ [c]) cs)"

definition remove_dot_segments :: "bool \<Rightarrow> buffer \<Rightarrow> buffer option" where
  "remove_dot_segments m path = resolve m [] [] path"

text \<open>The path of a URI as written: an escaped zero byte is refused.\<close>

definition uri_path :: "bool \<Rightarrow> uri_byte list \<Rightarrow> buffer option" where
  "uri_path m es = (if list_ex escaped_nul es then None else remove_dot_segments m (map uri_byte_decode es))"

text \<open>The state that a segment read so far leaves the parser in.\<close>

definition walk_after :: "buffer \<Rightarrow> cu_walk" where
  "walk_after s =
     (if s = [] then cu_sw_slash else if s = bytes ''.'' then cu_sw_dot
      else if s = bytes ''..'' then cu_sw_dot_dot else cu_sw_usual)"

definition cu_at :: "buffer list \<Rightarrow> buffer \<Rightarrow> cu_vars \<Rightarrow> bool" where
  "cu_at st s v \<longleftrightarrow> cu_st v = Cu_walk (walk_after s) \<and> cu_out v = render st @ s \<and>
     ch_slash \<notin> set s \<and> (\<forall>x\<in>set st. ch_slash \<notin> set x)"

lemma cu_up_find:
  "j \<le> k \<Longrightarrow> out ! j = ch_slash \<Longrightarrow> (\<And>i. j < i \<Longrightarrow> i \<le> k \<Longrightarrow> out ! i \<noteq> ch_slash) \<Longrightarrow>
   cu_up out k = Some (take (Suc j) out)"
proof (induction k)
  case 0
  then show ?case by simp
next
  case (Suc k)
  show ?case
  proof (cases "j = Suc k")
    case True
    with Suc.prems show ?thesis by simp
  next
    case False
    with Suc.prems have "out ! Suc k \<noteq> ch_slash" "j \<le> k" by auto
    with Suc show ?thesis by simp
  qed
qed

lemma render_snoc: "render (st @ [s]) = render st @ s @ [ch_slash]"
  by (simp add: render_def)

lemma render_last: "render st \<noteq> [] \<and> last (render st) = ch_slash"
  by (cases st rule: rev_cases) (simp_all add: render_def)

lemma cu_parent_render:
  assumes "s \<noteq> []" and "ch_slash \<notin> set s"
  shows "cu_parent (render (st @ [s]) @ bytes ''..'') = Some (render st)"
proof -
  define out where "out = render (st @ [s]) @ bytes ''..''"
  define n where "n = length (render st)"
  have out: "out = render st @ s @ bytes ''/..''" by (simp add: out_def render_snoc)
  have n: "n \<noteq> 0" using render_last [of st] by (simp add: n_def)
  have "length out = n + length s + 3" "0 < length s" using assms(1) by (simp_all add: out n_def)
  with n have len: "length out - 5 = n + length s - 2" "5 \<le> length out" by linarith+
  have "cu_up out (length out - 5) = Some (take (Suc (n - 1)) out)"
  proof (rule cu_up_find)
    show "n - 1 \<le> length out - 5" using assms(1) len by (cases s) auto
    show "out ! (n - 1) = ch_slash"
      using render_last [of st] n last_conv_nth [of "render st"] by (simp add: out nth_append n_def)
    show "out ! i \<noteq> ch_slash" if "n - 1 < i" "i \<le> length out - 5" for i
    proof -
      have "n \<le> i" "i - n < length s" using that len n assms(1) by (cases s; simp)+
      then have "out ! i = s ! (i - n)" by (simp add: out nth_append n_def)
      then show ?thesis using assms(2) \<open>i - n < length s\<close> by (metis nth_mem)
    qed
  qed
  with n len have "cu_parent out = Some (take n out)" by (simp add: cu_parent_def)
  moreover have "take n out = render st" by (simp add: out n_def)
  ultimately show ?thesis by (simp only: out_def)
qed

lemma cu_parent_empty:
  assumes "ch_slash \<notin> set s"
  shows "cu_parent (render (st @ [s, []]) @ bytes ''..'') = Some (render st)"
proof -
  define n where "n = length (render st)"
  define out where "out = render st @ s @ bytes ''//..''"
  have n: "n \<noteq> 0" using render_last [of st] by (simp add: n_def)
  have "length out = n + length s + 4" by (simp add: out_def n_def)
  with n have len: "length out - 5 = n + length s - 1" "5 \<le> length out" by linarith+
  have "cu_up out (length out - 5) = Some (take (Suc (n - 1)) out)"
  proof (rule cu_up_find)
    show "n - 1 \<le> length out - 5" using len n by simp
    show "out ! (n - 1) = ch_slash"
      using render_last [of st] n last_conv_nth [of "render st"] by (simp add: out_def nth_append n_def)
    show "out ! i \<noteq> ch_slash" if "n - 1 < i" "i \<le> length out - 5" for i
    proof -
      have i: "n \<le> i" "i - n < length s" using that len n by simp_all
      then have "out ! i = s ! (i - n)" by (simp add: out_def nth_append n_def)
      then show ?thesis using assms i(2) by (metis nth_mem)
    qed
  qed
  with n len have "cu_parent out = Some (take n out)" by (simp add: cu_parent_def)
  moreover have "take n out = render st" "out = render (st @ [s, []]) @ bytes ''..''" by (simp_all add: out_def n_def render_def)
  ultimately show ?thesis by simp
qed

lemma cu_parent_stack:
  assumes "\<forall>x\<in>set st. ch_slash \<notin> set x"
  shows "cu_parent (render st @ bytes ''..'') = map_option render (parent_stack st)"
proof (cases st rule: rev_cases)
  case Nil
  then show ?thesis by (simp add: cu_parent_def render_def parent_stack_def)
next
  case (snoc st' s)
  note s = this
  show ?thesis
  proof (cases "s = []")
    case False
    then show ?thesis using cu_parent_render [of s st'] s assms by (simp add: parent_stack_def)
  next
    case True
    then show ?thesis
    proof (cases st' rule: rev_cases)
      case Nil
      then show ?thesis using True s by (simp add: cu_parent_def render_def parent_stack_def)
    next
      case (snoc st'' t)
      then show ?thesis using True s cu_parent_empty [of t st''] assms by (simp add: parent_stack_def butlast_append)
    qed
  qed
qed

lemma parent_stack_set: "parent_stack st = Some st' \<Longrightarrow> set st' \<subseteq> set st"
  by (auto simp: parent_stack_def split: if_splits dest!: in_set_butlastD)

text \<open>One decoded byte.\<close>

lemma cu_at_plain:
  assumes "cu_at st s v" and "cu_p v < length buf"
    and "cu_ch v \<notin> {ch_slash, ch_percent, ch_qmark, ch_hash}"
  shows "\<exists>v'. cu_step m buf v = Continue v' \<and> cu_at st (s @ [cu_ch v]) v' \<and>
    cu_p v' = Suc (cu_p v) \<and> cu_ch v' = buf ! cu_p v"
  using assms
  by (auto simp: cu_at_def cu_step_def walk_after_def step_defs cu_moves Let_def table_facts
      append_eq_Cons_conv split: if_splits)

lemma cu_at_slash:
  assumes "cu_at st s v" and "cu_p v < length buf" and "cu_ch v = ch_slash"
  shows "case next_stack m st s of
      None \<Rightarrow> \<exists>v'. cu_step m buf v = Stop (Cu_return NGX_HTTP_PARSE_INVALID_REQUEST v')
    | Some st' \<Rightarrow> \<exists>v'. cu_step m buf v = Continue v' \<and> cu_at st' [] v' \<and>
        cu_p v' = Suc (cu_p v) \<and> cu_ch v' = buf ! cu_p v"
proof -
  note defs = cu_at_def cu_step_def walk_after_def step_defs cu_moves Let_def table_facts
    next_stack_def
  consider "s = []" | "s = bytes ''.''" | "s = bytes ''..''" | "s \<notin> {[], bytes ''.'', bytes ''..''}" by auto
  then show ?thesis
  proof cases
    case 1 with assms show ?thesis by (cases m) (auto simp: defs render_snoc)
  next
    case 2 with assms show ?thesis by (auto simp: defs butlast_append)
  next
    case 3
    have "cu_parent (render st @ bytes ''..'') = map_option render (parent_stack st)"
      using assms(1) by (intro cu_parent_stack) (simp add: cu_at_def)
    with 3 assms parent_stack_set [of st] show ?thesis by (cases "parent_stack st") (auto simp: defs)
  next
    case 4 with assms show ?thesis by (auto simp: defs render_snoc)
  qed
qed

text \<open>One round of the loop.\<close>

lemma cu_loop_Continue:
  "cu_p v \<le> uend \<Longrightarrow> cu_step m buf v = Continue v' \<Longrightarrow> cu_loop m buf uend v = cu_loop m buf uend v'"
  by (subst cu_loop.simps) simp

lemma cu_loop_Stop: "cu_p v \<le> uend \<Longrightarrow> cu_step m buf v = Stop x \<Longrightarrow> cu_loop m buf uend v = x"
  by (subst cu_loop.simps) simp

text \<open>
  An escape: three rounds that leave the state alone and hand over the decoded byte.  The bytes
  \<open>%\<close>, \<open>#\<close> and \<open>?\<close> are put at once.
\<close>

lemma hex_sum:
  "is_digit l \<Longrightarrow> h + l - ch_0 = h + hex_value l"
  "\<not> is_digit l \<Longrightarrow> h + (l OR 0x20) - ch_a + 10 = h + hex_value l"
  by (simp_all add: hex_value_def algebra_simps)

definition cu_special :: "u_char \<Rightarrow> bool" where
  "cu_special c \<longleftrightarrow> c = ch_percent \<or> c = ch_hash \<or> c = ch_qmark"

lemma hex_digit_not_digit: "hex_digit h \<Longrightarrow> \<not> is_digit h \<Longrightarrow> ch_a \<le> h OR 0x20 \<and> h OR 0x20 \<le> ch_f"
  by (simp add: hex_digit_def Let_def)

text \<open>A sum with a decimal low digit is never a question mark, one with a letter never \<open>%\<close>, \<open>#\<close>, NUL.\<close>

lemma hex_value_range:
  "(is_digit l \<longrightarrow> unat (hex_value l) < 10) \<and>
   (hex_digit l \<and> \<not> is_digit l \<longrightarrow> 10 \<le> unat (hex_value l) \<and> unat (hex_value l) < 16)"
proof (intro conjI impI)
  show "unat (hex_value l) < 10" if "is_digit l"
    using that by (auto simp: hex_value_def is_digit_def word_le_nat_alt unat_sub)
  assume l: "hex_digit l \<and> \<not> is_digit l"
  define w where "w = l OR 0x20"
  have w: "97 \<le> unat w" "unat w \<le> 102"
    using l by (auto simp: hex_digit_def Let_def word_le_nat_alt w_def)
  then have "unat (w - 0x57) = unat w - 87" by (simp add: unat_sub word_le_nat_alt)
  moreover have "hex_value l = w - 0x57" using l by (simp add: hex_value_def w_def)
  ultimately show "10 \<le> unat (hex_value l)" "unat (hex_value l) < 16" using w by simp_all
qed

lemma mod_16: "(a * 16 mod 256 + b) mod 16 = b mod (16 :: nat)"
proof -
  have "a * 16 mod 256 mod 16 = 0" by (simp add: mod_mod_cancel)
  then show ?thesis using mod_add_left_eq [of "a * 16 mod 256" 16 b] by simp
qed

lemma low_nibble:
  "is_digit l \<Longrightarrow> push_bit 4 h + hex_value l \<noteq> ch_qmark"
  "hex_digit l \<Longrightarrow> \<not> is_digit l \<Longrightarrow> push_bit 4 h + hex_value l \<notin> {NUL, ch_percent, ch_hash}"
proof -
  have sum: "unat (push_bit 4 h + hex_value l) mod 16 = unat (hex_value l) mod 16"
    by (simp add: push_bit_eq_mult unat_word_ariths mod_mod_cancel mod_16)
  show "is_digit l \<Longrightarrow> push_bit 4 h + hex_value l \<noteq> ch_qmark"
    using sum hex_value_range [of l] by auto
  show "hex_digit l \<Longrightarrow> \<not> is_digit l \<Longrightarrow> push_bit 4 h + hex_value l \<notin> {NUL, ch_percent, ch_hash}"
    using sum hex_value_range [of l] by auto
qed

lemma cu_quote_round:
  assumes "cu_st v = Cu_walk w" and "cu_ch v = ch_percent" and "cu_p v < length buf"
  shows "cu_step m buf v =
    Continue (v\<lparr>cu_quoted_state := w, cu_st := cu_sw_quoted, cu_ch := buf ! cu_p v, cu_p := Suc (cu_p v)\<rparr>)"
  using assms by (cases w) (simp_all add: cu_step_def step_defs cu_moves Let_def table_facts)

lemma cu_quoted_round:
  assumes "cu_st v = cu_sw_quoted" and "hex_digit (cu_ch v)" and "cu_p v < length buf"
  shows "cu_step m buf v =
    Continue (v\<lparr>cu_quoted := True, cu_decoded := hex_value (cu_ch v), cu_st := cu_sw_quoted_second,
      cu_ch := buf ! cu_p v, cu_p := Suc (cu_p v)\<rparr>)"
  using assms hex_digit_not_digit [of "cu_ch v"]
  by (cases "is_digit (cu_ch v)")
     (auto simp: cu_step_def step_defs cu_moves Let_def is_digit_def hex_value_def)

lemma cu_second_round:
  assumes "cu_st v = cu_sw_quoted_second" and "hex_digit (cu_ch v)" and "cu_p v < length buf"
    and "c = push_bit 4 (cu_decoded v) + hex_value (cu_ch v)" and "c \<noteq> NUL"
  shows "\<exists>b. cu_step m buf v =
    (if cu_special c then cu_next buf (cu_put c (cu_goto cu_sw_usual (v\<lparr>cu_ch := c\<rparr>)))
     else Continue (v\<lparr>cu_ch := c, cu_plus := b, cu_st := Cu_walk (cu_quoted_state v)\<rparr>))"
proof (cases "is_digit (cu_ch v)")
  case True
  then have e: "push_bit 4 (cu_decoded v) + cu_ch v - ch_0 = c" by (simp only: hex_sum assms(4))
  have "c \<noteq> ch_qmark" using low_nibble(1) [OF True] assms(4) by simp
  with True assms(1,5) show ?thesis
    unfolding cu_step_def cu_quoted_second_def Let_def e is_digit_def cu_special_def
    by (auto simp: cu_goto_def intro: exI [of _ "cu_plus v"])
next
  case False
  then have e: "push_bit 4 (cu_decoded v) + (cu_ch v OR 0x20) - ch_a + 10 = c"
    using hex_sum(2) [of "cu_ch v" "push_bit 4 (cu_decoded v)"] assms(4) by simp
  have "c \<noteq> ch_percent" "c \<noteq> ch_hash" using low_nibble(2) [OF assms(2) False] assms(4) by simp_all
  with False assms(1,5) hex_digit_not_digit [OF assms(2) False] show ?thesis
    unfolding cu_step_def cu_quoted_second_def Let_def e is_digit_def cu_special_def
    by (auto simp: cu_goto_def intro: exI [of _ "cu_plus v"])
qed

lemma cu_second_nul:
  assumes "cu_st v = cu_sw_quoted_second" and "hex_digit (cu_ch v)" and "push_bit 4 (cu_decoded v) + hex_value (cu_ch v) = NUL"
  shows "\<exists>v'. cu_step m buf v = Stop (Cu_return NGX_HTTP_PARSE_INVALID_REQUEST v')"
proof -
  have d: "is_digit (cu_ch v)" using low_nibble(2) [OF assms(2)] assms(3) by blast
  then have "push_bit 4 (cu_decoded v) + cu_ch v - ch_0 = NUL" 
    using hex_sum(1) [of "cu_ch v" "push_bit 4 (cu_decoded v)"] assms(3) by simp
  with d assms(1) show ?thesis by (simp add: cu_step_def cu_quoted_second_def Let_def is_digit_def)
qed

text \<open>A written byte, plain or escaped, moves the parser as the byte it stands for.\<close>

lemma cu_at_cong: "cu_st v' = cu_st v \<Longrightarrow> cu_out v' = cu_out v \<Longrightarrow> cu_at st s v' = cu_at st s v"
  by (simp add: cu_at_def)

lemma cu_at_special:
  assumes "cu_at st s v" and "cu_special c"
  shows "cu_at st (s @ [c]) (cu_put c (cu_goto cu_sw_usual v))"
proof -
  from assms(2) have c: "c \<noteq> ch_dot" "c \<noteq> ch_slash" by (auto simp: cu_special_def)
  then have "walk_after (s @ [c]) = cu_sw_usual"
    by (simp add: walk_after_def append_eq_Cons_conv)
  with assms(1) c show ?thesis by (simp add: cu_at_def cu_put_def cu_goto_def)
qed

lemma cu_next_eq:
  "cu_p v < length buf \<Longrightarrow> cu_next buf v = Continue (v\<lparr>cu_ch := buf ! cu_p v, cu_p := Suc (cu_p v)\<rparr>)"
  by (simp add: cu_next_def)

text \<open>The first three rounds of an escape.\<close>

lemma cu_escape:
  assumes v: "cu_at st s v" "cu_ch v = ch_percent"
    and buf: "cu_p v + 2 \<le> uend" "uend < length buf" "buf ! cu_p v = h" "buf ! Suc (cu_p v) = l"
    and hex: "hex_digit h" "hex_digit l" and c: "c = push_bit 4 (hex_value h) + hex_value l" "c \<noteq> NUL"
  shows "\<exists>v'. cu_loop m buf uend v = cu_loop m buf uend v' \<and>
    (if cu_special c then cu_at st (s @ [c]) v' \<and> cu_p v' = cu_p v + 3 \<and> cu_ch v' = buf ! (cu_p v + 2)
     else cu_at st s v' \<and> cu_p v' = cu_p v + 2 \<and> cu_ch v' = c)"
proof -
  let ?w = "walk_after s"
  define v1 where "v1 = v\<lparr>cu_quoted_state := ?w, cu_st := cu_sw_quoted, cu_ch := h, cu_p := Suc (cu_p v)\<rparr>"
  define v2 where "v2 = v1\<lparr>cu_quoted := True, cu_decoded := hex_value h, cu_st := cu_sw_quoted_second,
      cu_ch := l, cu_p := cu_p v + 2\<rparr>"
  have "cu_step m buf v = Continue v1"
    using cu_quote_round [of v ?w buf m] v buf by (simp add: cu_at_def v1_def)
  then have 1: "cu_loop m buf uend v = cu_loop m buf uend v1" using buf by (intro cu_loop_Continue) auto
  have "cu_step m buf v1 = Continue v2"
    using cu_quoted_round [of v1 buf m] hex buf by (simp add: v1_def v2_def)
  then have 2: "cu_loop m buf uend v1 = cu_loop m buf uend v2"
    using buf by (intro cu_loop_Continue) (auto simp: v1_def)
  obtain b where 3: "cu_step m buf v2 =
      (if cu_special c then cu_next buf (cu_put c (cu_goto cu_sw_usual (v2\<lparr>cu_ch := c\<rparr>)))
       else Continue (v2\<lparr>cu_ch := c, cu_plus := b, cu_st := Cu_walk (cu_quoted_state v2)\<rparr>))"
    using cu_second_round [of v2 buf c m] hex buf c by (auto simp: v2_def)
  have p2: "cu_p v2 = cu_p v + 2" by (simp add: v2_def)
  show ?thesis
  proof (cases "cu_special c")
    case True
    let ?u = "cu_put c (cu_goto cu_sw_usual (v2\<lparr>cu_ch := c\<rparr>))"
    let ?v' = "?u\<lparr>cu_ch := buf ! (cu_p v + 2), cu_p := cu_p v + 3\<rparr>"
    have "cu_step m buf v2 = Continue ?v'"
      using 3 True buf p2 by (simp add: cu_next_def cu_put_def cu_goto_def numeral_3_eq_3)
    then have "cu_loop m buf uend v2 = cu_loop m buf uend ?v'"
      using buf p2 by (intro cu_loop_Continue) auto
    moreover have "cu_at st (s @ [c]) ?v'"
      using cu_at_special [OF v(1) True]
      by (simp add: cu_at_def cu_put_def cu_goto_def v2_def v1_def)
    ultimately show ?thesis using True 1 2 by (intro exI [of _ ?v']) simp
  next
    case False
    let ?v' = "v2\<lparr>cu_ch := c, cu_plus := b, cu_st := Cu_walk (cu_quoted_state v2)\<rparr>"
    have "cu_loop m buf uend v2 = cu_loop m buf uend ?v'"
      using 3 False buf p2 by (intro cu_loop_Continue) auto
    moreover have "cu_at st s ?v'" using v(1) by (simp add: cu_at_def v2_def v1_def)
    ultimately show ?thesis using False 1 2 p2 by (intro exI [of _ ?v']) simp
  qed
qed

lemma cu_escape_nul:
  assumes v: "cu_at st s v" "cu_ch v = ch_percent"
    and buf: "cu_p v + 2 \<le> uend" "uend < length buf" "buf ! cu_p v = h" "buf ! Suc (cu_p v) = l"
    and hex: "hex_digit h" "hex_digit l" and c: "push_bit 4 (hex_value h) + hex_value l = NUL"
  shows "\<exists>v'. cu_loop m buf uend v = Cu_return NGX_HTTP_PARSE_INVALID_REQUEST v'"
proof -
  let ?w = "walk_after s"
  define v1 where "v1 = v\<lparr>cu_quoted_state := ?w, cu_st := cu_sw_quoted, cu_ch := h, cu_p := Suc (cu_p v)\<rparr>"
  define v2 where "v2 = v1\<lparr>cu_quoted := True, cu_decoded := hex_value h, cu_st := cu_sw_quoted_second,
      cu_ch := l, cu_p := cu_p v + 2\<rparr>"
  have "cu_step m buf v = Continue v1"
    using cu_quote_round [of v ?w buf m] v buf by (simp add: cu_at_def v1_def)
  then have 1: "cu_loop m buf uend v = cu_loop m buf uend v1" using buf by (intro cu_loop_Continue) auto
  have "cu_step m buf v1 = Continue v2"
    using cu_quoted_round [of v1 buf m] hex buf by (simp add: v1_def v2_def)
  then have 2: "cu_loop m buf uend v1 = cu_loop m buf uend v2"
    using buf by (intro cu_loop_Continue) (auto simp: v1_def)
  obtain v' where "cu_step m buf v2 = Stop (Cu_return NGX_HTTP_PARSE_INVALID_REQUEST v')"
    using cu_second_nul [of v2 m buf] hex c by (auto simp: v2_def)
  then have "cu_loop m buf uend v2 = Cu_return NGX_HTTP_PARSE_INVALID_REQUEST v'"
    using buf by (intro cu_loop_Stop) (simp_all add: v2_def)
  then show ?thesis using 1 2 by simp
qed

text \<open>What is left to read: written bytes up to the end of the URI.\<close>

definition cu_reads :: "buffer \<Rightarrow> nat \<Rightarrow> uri_byte list \<Rightarrow> cu_vars \<Rightarrow> bool" where
  "cu_reads buf uend es v \<longleftrightarrow> 0 < cu_p v \<and> cu_p v \<le> Suc uend \<and> uend < length buf \<and>
     cu_ch v = buf ! (cu_p v - 1) \<and>
     take (Suc uend - cu_p v) (drop (cu_p v - 1) buf) = concat (map uri_byte_print es)"

lemma take_drop_Cons:
  "take n (drop k xs) = y # ys \<Longrightarrow>
   0 < n \<and> k < length xs \<and> xs ! k = y \<and> take (n - 1) (drop (Suc k) xs) = ys"
  by (cases n; cases "k < length xs") (auto simp: Cons_nth_drop_Suc [symmetric])

lemma cu_reads_end: "cu_reads buf uend [] v \<Longrightarrow> cu_loop m buf uend v = Cu_done v"
  by (subst cu_loop.simps) (auto simp: cu_reads_def)

lemma cu_reads_next:
  assumes "cu_reads buf uend (e # es) v" and "cu_p v' = cu_p v + length (uri_byte_print e)"
    and "cu_ch v' = buf ! (cu_p v' - 1)"
  shows "cu_reads buf uend es v'"
proof -
  have eq: "take (Suc uend - cu_p v) (drop (cu_p v - 1) buf) =
      uri_byte_print e @ concat (map uri_byte_print es)"
    and p: "0 < cu_p v" "uend < length buf" using assms(1) by (simp_all add: cu_reads_def)
  let ?k = "length (uri_byte_print e)"
  have "drop ?k (take (Suc uend - cu_p v) (drop (cu_p v - 1) buf)) = concat (map uri_byte_print es)"
    unfolding eq by simp
  moreover have "?k \<le> Suc uend - cu_p v"
    using arg_cong [OF eq, of length] by simp
  ultimately show ?thesis
    using assms p by (auto simp: cu_reads_def drop_take add.commute)
qed

lemma cu_reads_Raw: "cu_reads buf uend (Raw c # es) v \<Longrightarrow> cu_ch v = c \<and> cu_p v \<le> uend"
  by (auto simp: cu_reads_def dest!: take_drop_Cons)

lemma cu_reads_Esc:
  "cu_reads buf uend (Esc h l # es) v \<Longrightarrow>
   cu_ch v = ch_percent \<and> cu_p v + 2 \<le> uend \<and> buf ! cu_p v = h \<and> buf ! Suc (cu_p v) = l"
  by (auto simp: cu_reads_def dest!: take_drop_Cons)

text \<open>The decoded byte is in \<^verbatim>\<open>ch\<close>: one round.\<close>

lemma cu_decoded_byte:
  assumes "cu_at st s v" and "cu_p v \<le> uend" "uend < length buf" and "cu_ch v = c"
    and "\<not> cu_special c"
  shows "if c = ch_slash \<and> next_stack m st s = None
    then \<exists>v'. cu_loop m buf uend v = Cu_return NGX_HTTP_PARSE_INVALID_REQUEST v'
    else \<exists>v'. cu_loop m buf uend v = cu_loop m buf uend v' \<and> cu_p v' = Suc (cu_p v) \<and>
      cu_ch v' = buf ! cu_p v \<and>
      (if c = ch_slash then cu_at (the (next_stack m st s)) [] v' else cu_at st (s @ [c]) v')"
proof (cases "c = ch_slash")
  case True
  have "cu_p v < length buf" using assms by simp
  from cu_at_slash [OF assms(1) this, of m] True assms(2,4)
  show ?thesis by (auto split: option.splits intro: cu_loop_Continue cu_loop_Stop)
next
  case False
  with assms obtain v' where "cu_step m buf v = Continue v'" "cu_at st (s @ [c]) v'"
    "cu_p v' = Suc (cu_p v)" "cu_ch v' = buf ! cu_p v"
    using cu_at_plain [of st s v buf m] by (auto simp: cu_special_def)
  with False assms(2) show ?thesis by (auto intro: cu_loop_Continue)
qed

text \<open>A written byte, plain or escaped.\<close>

lemma cu_written_byte:
  assumes "cu_at st s v" and "cu_reads buf uend (e # es) v" and "uri_byte_ok e"
    and "c = uri_byte_decode e" and "\<not> escaped_nul e"
  shows "if c = ch_slash \<and> next_stack m st s = None
    then \<exists>v'. cu_loop m buf uend v = Cu_return NGX_HTTP_PARSE_INVALID_REQUEST v'
    else \<exists>v'. cu_loop m buf uend v = cu_loop m buf uend v' \<and> cu_reads buf uend es v' \<and>
      (if c = ch_slash then cu_at (the (next_stack m st s)) [] v' else cu_at st (s @ [c]) v')"
proof (cases e)
  case (Raw d)
  with assms have "cu_ch v = c" "cu_p v \<le> uend" "uend < length buf" "\<not> cu_special c"
    using cu_reads_Raw [of buf uend c es v] by (auto simp: cu_reads_def cu_special_def)
  from cu_decoded_byte [OF assms(1) this(2,3,1,4), of m]
  show ?thesis using cu_reads_next [OF assms(2)] Raw by (auto split: if_splits)
next
  case (Esc h l)
  note r = cu_reads_Esc [OF assms(2) [unfolded Esc]]
  have len: "uend < length buf" using assms(2) by (simp add: cu_reads_def)
  have "\<exists>v'. cu_loop m buf uend v = cu_loop m buf uend v' \<and>
    (if cu_special c then cu_at st (s @ [c]) v' \<and> cu_p v' = cu_p v + 3 \<and> cu_ch v' = buf ! (cu_p v + 2)
     else cu_at st s v' \<and> cu_p v' = cu_p v + 2 \<and> cu_ch v' = c)"
    using assms(1,3,4,5) r len Esc by (intro cu_escape [where h = h and l = l]) auto
  then obtain v' where v': "cu_loop m buf uend v = cu_loop m buf uend v'"
    "if cu_special c then cu_at st (s @ [c]) v' \<and> cu_p v' = cu_p v + 3 \<and> cu_ch v' = buf ! (cu_p v + 2)
     else cu_at st s v' \<and> cu_p v' = cu_p v + 2 \<and> cu_ch v' = c" by blast
  show ?thesis
  proof (cases "cu_special c")
    case True
    then have "c \<noteq> ch_slash" by (auto simp: cu_special_def)
    with True v' cu_reads_next [OF assms(2), of v'] Esc show ?thesis by auto
  next
    case False
    with v' r have "cu_p v' \<le> uend" by simp
    from cu_decoded_byte [OF _ this len _ False, of st s m] False v' r
      cu_reads_next [OF assms(2)] Esc
    show ?thesis by (auto split: if_splits)
  qed
qed

lemma cu_written_nul:
  assumes "cu_at st s v" and "cu_reads buf uend (e # es) v" and "uri_byte_ok e" and "escaped_nul e"
  shows "\<exists>v'. cu_loop m buf uend v = Cu_return NGX_HTTP_PARSE_INVALID_REQUEST v'"
proof (cases e)
  case (Esc h l)
  have "uend < length buf" using assms(2) by (simp add: cu_reads_def)
  then show ?thesis using cu_escape_nul [OF assms(1)] cu_reads_Esc [OF assms(2) [unfolded Esc]] assms(3,4) Esc by auto
qed (use assms(4) in simp)

lemma cu_resolves:
  assumes "cu_at st s v" and "cu_reads buf uend es v" and "list_all uri_byte_ok es"
  shows "case (if list_ex escaped_nul es then None else resolve m st s (map uri_byte_decode es)) of
      None \<Rightarrow> \<exists>v'. cu_loop m buf uend v = Cu_return NGX_HTTP_PARSE_INVALID_REQUEST v'
    | Some path \<Rightarrow> \<exists>v'. cu_loop m buf uend v = Cu_done v' \<and> cu_out v' = path"
  using assms
proof (induction es arbitrary: st s v)
  case Nil
  then show ?case using cu_reads_end [of buf uend v m] by (auto simp: cu_at_def)
next
  case (Cons e es)
  let ?c = "uri_byte_decode e"
  show ?case
  proof (cases "escaped_nul e")
    case True
    with cu_written_nul [OF Cons.prems(1,2) _ True, of m] Cons.prems(3) show ?thesis by simp
  next
    case nul: False
    then have w: "if ?c = ch_slash \<and> next_stack m st s = None
      then \<exists>v'. cu_loop m buf uend v = Cu_return NGX_HTTP_PARSE_INVALID_REQUEST v'
      else \<exists>v'. cu_loop m buf uend v = cu_loop m buf uend v' \<and> cu_reads buf uend es v' \<and>
        (if ?c = ch_slash then cu_at (the (next_stack m st s)) [] v' else cu_at st (s @ [?c]) v')"
      using Cons.prems by (intro cu_written_byte) auto
    show ?thesis
    proof (cases "?c = ch_slash \<and> next_stack m st s = None")
      case True
      with w show ?thesis by auto
    next
      case False
      with w obtain v' where v': "cu_loop m buf uend v = cu_loop m buf uend v'" "cu_reads buf uend es v'"
        "if ?c = ch_slash then cu_at (the (next_stack m st s)) [] v' else cu_at st (s @ [?c]) v'" by auto
      have ok: "list_all uri_byte_ok es" using Cons.prems(3) by simp
      show ?thesis
      proof (cases "?c = ch_slash")
        case True
        with False obtain st' where st': "next_stack m st s = Some st'" by auto
        with v' True have "cu_at st' [] v'" by simp
        from Cons.IH [OF this v'(2) ok] True st' nul show ?thesis unfolding v'(1) by (cases "list_ex escaped_nul es") simp_all
      next
        case False
        with v' have "cu_at st (s @ [?c]) v'" by simp
        from Cons.IH [OF this v'(2) ok] False nul show ?thesis unfolding v'(1) by (cases "list_ex escaped_nul es") simp_all
      qed
    qed
  qed
qed

text \<open>
  C1.  A URI path that starts with a slash and is written with any mixture of bytes that stand for themselves (all but \<open>%\<close>, \<open>?\<close>
  and \<open>#\<close>) and well-formed escapes is resolved as its decoded form is by the specification: \<open>.\<close> segments are dropped, \<open>..\<close> removes the segment
  before it, empty segments are dropped when slashes are merged and kept otherwise, and what follows the last slash is left as it is, dots included.
  It is refused exactly if it climbs above the root or has an escaped zero byte.
\<close>

theorem complex_uri_resolves:
  assumes "uri_start r = Some (length pre)" and "uri_end r = Some (length pre + length text)"
    and "text = uri_byte_print (Raw ch_slash) @ concat (map uri_byte_print es)"
    and "buf = pre @ text @ post" and "post \<noteq> []"
    and "list_all uri_byte_ok es"
  shows "case uri_path m es of
      None \<Rightarrow> \<exists>r'. ngx_http_parse_complex_uri r buf m = Some (NGX_HTTP_PARSE_INVALID_REQUEST, r')
    | Some path \<Rightarrow> \<exists>r'. ngx_http_parse_complex_uri r buf m = Some (NGX_OK, r') \<and> uri r' = path"
proof -
  let ?us = "length pre" and ?ue = "length pre + length text"
  let ?v = "cu_init buf ?us r"
  let ?v' = "?v\<lparr>cu_st := Cu_walk cu_sw_slash, cu_ext := None, cu_out := [ch_slash],
    cu_ch := buf ! Suc ?us, cu_p := Suc (Suc ?us)\<rparr>"
  have buf: "buf ! ?us = ch_slash" "?ue < length buf" "?us < length buf" "Suc ?us \<le> ?ue"
    using assms(3-5) by (auto simp: nth_append)
  have "cu_step m buf ?v = Continue ?v'"
    using buf by (simp add: cu_step_def cu_usual_def cu_init_def cu_moves Let_def table_facts)
  then have loop: "cu_loop m buf ?ue ?v = cu_loop m buf ?ue ?v'"
    using buf by (intro cu_loop_Continue) (simp_all add: cu_init_def)
  have "cu_at [] [] ?v'" by (simp add: cu_at_def walk_after_def render_def)
  moreover have "cu_reads buf ?ue es ?v'"
    using assms(3-5) buf by (simp add: cu_reads_def)
  ultimately have "case uri_path m es of
      None \<Rightarrow> \<exists>v'. cu_loop m buf ?ue ?v = Cu_return NGX_HTTP_PARSE_INVALID_REQUEST v'
    | Some path \<Rightarrow> \<exists>v'. cu_loop m buf ?ue ?v = Cu_done v' \<and> cu_out v' = path"
    unfolding uri_path_def remove_dot_segments_def loop using cu_resolves [OF _ _ assms(6)] by blast
  then show ?thesis
    using assms(1,2) buf by (auto simp: ngx_http_parse_complex_uri_def split: option.splits)
qed

theorem complex_uri_resolves_witness:
  "\<exists>r'. ngx_http_parse_complex_uri (uri_request 4 16) (bytes ''GET /a/%2e%2E//b HTTP'') True = Some (NGX_OK, r') \<and>
    uri r' = bytes ''/b''"
proof -
  let ?es = "[Raw ch_a, Raw ch_slash, Esc ch_2 ch_e, Esc ch_2 ch_E, Raw ch_slash, Raw ch_slash, Raw ch_b]"
  let ?text = "uri_byte_print (Raw ch_slash) @ concat (map uri_byte_print ?es)"
  let ?pre = "bytes ''GET ''" and ?post = "bytes '' HTTP''"
  have d: "uri_path True ?es = Some (bytes ''/b'')" by code_simp
  have ok: "list_all uri_byte_ok ?es" by code_simp
  have "case uri_path True ?es of
      None \<Rightarrow> \<exists>r'. ngx_http_parse_complex_uri (uri_request 4 16) (?pre @ ?text @ ?post) True = Some (NGX_HTTP_PARSE_INVALID_REQUEST, r')
    | Some path \<Rightarrow> \<exists>r'. ngx_http_parse_complex_uri (uri_request 4 16) (?pre @ ?text @ ?post) True = Some (NGX_OK, r') \<and> uri r' = path"
    by (rule complex_uri_resolves [of _ ?pre ?text _ _ ?post]) (use ok in simp_all)
  then show ?thesis unfolding d by simp
qed

text \<open>The function on a string: return code and decoded URI.\<close>

definition parsed_uri :: "string \<Rightarrow> (ngx_rc \<times> buffer) option" where
  "parsed_uri s =
     map_option (\<lambda>(rc, r). (rc, uri r))
       (ngx_http_parse_complex_uri (uri_request 0 (length s)) (bytes s @ bytes '' '') True)"

text \<open>
   What follows the last slash is not resolved: \<open>/a/..\<close> is accepted and stays as it is, and so is
  a path that only climbs above the root with its last segment; an escape cut off by the end of the
  URI is dropped.
\<close>

theorem complex_uri_trailing_dots_kept:
  "parsed_uri ''/a/..'' = Some (NGX_OK, bytes ''/a/..'') \<and>
   parsed_uri ''/..'' = Some (NGX_OK, bytes ''/..'') \<and>
   parsed_uri ''/../'' = Some (NGX_HTTP_PARSE_INVALID_REQUEST, []) \<and>
   parsed_uri ''/a%4'' = Some (NGX_OK, bytes ''/a'')"
  by code_simp

text \<open>
  With slashes not merged, \<open>..\<close> behind an empty segment removes the segment before that one as well, where RFC 3986 removes the empty
  one only.
\<close>

lemma complex_uri_unmerged_parent:
  "map_option (\<lambda>(rc, r). (rc, uri r)) (ngx_http_parse_complex_uri (uri_request 0 8) (bytes ''/a//../b '') False) =
     Some (NGX_OK, bytes ''/b'')"
  by code_simp

end
