(* ===== verification/Http_Status_Line.thy ===== *)
theory Http_Status_Line
  imports Xhome_Prelude
begin

text \<open>
  \<^verbatim>\<open>ngx_http_parse_status_line\<close> of \<^verbatim>\<open>src/http/ngx_http_parse.c\<close>: the state machine that reads the
  first line of an upstream's response, \<^verbatim>\<open>HTTP/x.y SP code SP text CRLF\<close>, with one definition per
  \<^verbatim>\<open>case\<close>.  The record holds the fields of \<^verbatim>\<open>ngx_http_request_t\<close> and \<^verbatim>\<open>ngx_http_status_t\<close> the parser
  reads or writes.  The lemmas show that the parser may be suspended and resumed, that an accepted
  line has a code of exactly three digits whose text lies in the buffer, and that a printed status
  line is parsed back.
\<close>

section \<open>Data\<close>

datatype sl_state =
    sl_sw_start
  | sl_sw_H
  | sl_sw_HT
  | sl_sw_HTT
  | sl_sw_HTTP
  | sl_sw_first_major_digit
  | sl_sw_major_digit
  | sl_sw_first_minor_digit
  | sl_sw_minor_digit
  | sl_sw_status
  | sl_sw_space_after_status
  | sl_sw_status_text
  | sl_sw_almost_done

record http_status =
  sl_state_saved :: sl_state
  sl_http_minor :: uint16
  sl_http_major :: uint16
  status_http_version :: ngx_uint_t
  status_code :: ngx_uint_t
  status_count :: ngx_uint_t
  status_start :: ptr
  status_end :: ptr

datatype sl_exit = Sl_error http_status | Sl_done nat http_status

type_synonym sl_outcome = "(sl_state \<times> http_status, sl_exit) outcome"

section \<open>The cases of the switch\<close>

text \<open>The five states that expect one byte of \<^verbatim>\<open>HTTP/\<close>.\<close>

definition sl_expect :: "u_char \<Rightarrow> sl_state \<Rightarrow> buffer \<Rightarrow> nat \<Rightarrow> http_status \<Rightarrow> sl_outcome" where
  [step_defs]:
  "sl_expect c next buf p s = (if buf ! p = c then Continue (next, s) else Stop (Sl_error s))"

definition sl_first_major_digit :: "buffer \<Rightarrow> nat \<Rightarrow> http_status \<Rightarrow> sl_outcome" where [step_defs]:
  "sl_first_major_digit buf p s =
     (let ch = buf ! p in
      if ch < ch_1 \<or> ch > ch_9 then Stop (Sl_error s)
      else Continue (sl_sw_major_digit, s\<lparr>sl_http_major := ucast (ch - ch_0)\<rparr>))"

definition sl_major_digit :: "buffer \<Rightarrow> nat \<Rightarrow> http_status \<Rightarrow> sl_outcome" where [step_defs]:
  "sl_major_digit buf p s =
     (let ch = buf ! p in
      if ch = ch_dot then Continue (sl_sw_first_minor_digit, s)
      else if ch < ch_0 \<or> ch > ch_9 then Stop (Sl_error s)
      else Continue (sl_sw_major_digit,
             s\<lparr>sl_http_major := sl_http_major s * 10 + ucast ch - ucast ch_0\<rparr>))"

definition sl_first_minor_digit :: "buffer \<Rightarrow> nat \<Rightarrow> http_status \<Rightarrow> sl_outcome" where [step_defs]:
  "sl_first_minor_digit buf p s =
     (let ch = buf ! p in
      if ch < ch_0 \<or> ch > ch_9 then Stop (Sl_error s)
      else Continue (sl_sw_minor_digit, s\<lparr>sl_http_minor := ucast (ch - ch_0)\<rparr>))"

definition sl_minor_digit :: "buffer \<Rightarrow> nat \<Rightarrow> http_status \<Rightarrow> sl_outcome" where [step_defs]:
  "sl_minor_digit buf p s =
     (let ch = buf ! p in
      if ch = ch_space then Continue (sl_sw_status, s)
      else if ch < ch_0 \<or> ch > ch_9 then Stop (Sl_error s)
      else Continue (sl_sw_minor_digit,
             s\<lparr>sl_http_minor := sl_http_minor s * 10 + ucast ch - ucast ch_0\<rparr>))"

definition sl_status :: "buffer \<Rightarrow> nat \<Rightarrow> http_status \<Rightarrow> sl_outcome" where [step_defs]:
  "sl_status buf p s =
     (let ch = buf ! p in
      if ch = ch_space then Continue (sl_sw_status, s)
      else if ch < ch_0 \<or> ch > ch_9 then Stop (Sl_error s)
      else
        (let s = s\<lparr>status_code := status_code s * 10 + ucast ch - ucast ch_0\<rparr>;
             s = s\<lparr>status_count := status_count s + 1\<rparr>
         in if status_count s = 3 then Continue (sl_sw_space_after_status, s\<lparr>status_start := Some (p - 2)\<rparr>)
            else Continue (sl_sw_status, s)))"

definition sl_space_after_status :: "buffer \<Rightarrow> nat \<Rightarrow> http_status \<Rightarrow> sl_outcome" where [step_defs]:
  "sl_space_after_status buf p s =
     (let ch = buf ! p in
      if ch = ch_space then Continue (sl_sw_status_text, s)
      else if ch = ch_dot then Continue (sl_sw_status_text, s)
      else if ch = CR then Continue (sl_sw_almost_done, s)
      else if ch = LF then Stop (Sl_done p s)
      else Stop (Sl_error s))"

definition sl_status_text :: "buffer \<Rightarrow> nat \<Rightarrow> http_status \<Rightarrow> sl_outcome" where [step_defs]:
  "sl_status_text buf p s =
     (let ch = buf ! p in
      if ch = CR then Continue (sl_sw_almost_done, s)
      else if ch = LF then Stop (Sl_done p s)
      else Continue (sl_sw_status_text, s))"

definition sl_almost_done :: "buffer \<Rightarrow> nat \<Rightarrow> http_status \<Rightarrow> sl_outcome" where [step_defs]:
  "sl_almost_done buf p s =
     (let s = s\<lparr>status_end := Some (p - 1)\<rparr> in
      if buf ! p = LF then Stop (Sl_done p s) else Stop (Sl_error s))"

section \<open>The loop\<close>

primrec sl_case :: "sl_state \<Rightarrow> buffer \<Rightarrow> nat \<Rightarrow> http_status \<Rightarrow> sl_outcome" where
  "sl_case sl_sw_start = sl_expect ch_H sl_sw_H"
| "sl_case sl_sw_H = sl_expect ch_T sl_sw_HT"
| "sl_case sl_sw_HT = sl_expect ch_T sl_sw_HTT"
| "sl_case sl_sw_HTT = sl_expect ch_P sl_sw_HTTP"
| "sl_case sl_sw_HTTP = sl_expect ch_slash sl_sw_first_major_digit"
| "sl_case sl_sw_first_major_digit = sl_first_major_digit"
| "sl_case sl_sw_major_digit = sl_major_digit"
| "sl_case sl_sw_first_minor_digit = sl_first_minor_digit"
| "sl_case sl_sw_minor_digit = sl_minor_digit"
| "sl_case sl_sw_status = sl_status"
| "sl_case sl_sw_space_after_status = sl_space_after_status"
| "sl_case sl_sw_status_text = sl_status_text"
| "sl_case sl_sw_almost_done = sl_almost_done"

definition sl_step :: "buffer \<Rightarrow> nat \<Rightarrow> sl_state \<times> http_status \<Rightarrow> sl_outcome" where
  "sl_step buf p s = sl_case (fst s) buf p (snd s)"

text \<open>The code after the label \<^verbatim>\<open>done\<close>.\<close>

definition sl_finish :: "nat \<Rightarrow> http_status \<Rightarrow> ngx_rc \<times> nat \<times> http_status" where
  "sl_finish p s =
     (let s = (if status_end s = None then s\<lparr>status_end := Some p\<rparr> else s);
          s = s\<lparr>status_http_version := ucast (sl_http_major s) * 1000 + ucast (sl_http_minor s)\<rparr>
      in (NGX_OK, p + 1, s\<lparr>sl_state_saved := sl_sw_start\<rparr>))"

text \<open>The result is the return code, \<^verbatim>\<open>b->pos\<close> and the two records.\<close>

definition ngx_http_parse_status_line ::
  "buffer \<Rightarrow> nat \<Rightarrow> http_status \<Rightarrow> ngx_rc \<times> nat \<times> http_status"
where
  "ngx_http_parse_status_line buf pos s =
     (case scan sl_step buf pos (sl_state_saved s, s) of
        Inl (p, (state, s')) \<Rightarrow> (NGX_AGAIN, p, s'\<lparr>sl_state_saved := state\<rparr>)
      | Inr (Sl_error s') \<Rightarrow> (NGX_ERROR, pos, s')
      | Inr (Sl_done p s') \<Rightarrow> sl_finish p s')"

text \<open>Both records zeroed.\<close>

definition init_status :: http_status where
  "init_status =
     \<lparr>sl_state_saved = sl_sw_start, sl_http_minor = 0, sl_http_major = 0, status_http_version = 0,
      status_code = 0, status_count = 0, status_start = None, status_end = None\<rparr>"

section \<open>Resuming the parser\<close>

interpretation sl: prefix_step sl_step
proof
  fix p :: nat and b e :: buffer and s :: "sl_state \<times> http_status"
  assume "p < length b"
  then show "sl_step (b @ e) p s = sl_step b p s"
    by (cases "fst s") (simp_all add: sl_step_def step_defs nth_append Let_def)
qed

fun sl_exit_state :: "sl_state \<Rightarrow> sl_exit \<Rightarrow> sl_exit" where
  "sl_exit_state st (Sl_error s) = Sl_error (s\<lparr>sl_state_saved := st\<rparr>)"
| "sl_exit_state st (Sl_done p s) = Sl_done p (s\<lparr>sl_state_saved := st\<rparr>)"

lemma sl_step_state:
  "sl_step buf p (c, s\<lparr>sl_state_saved := st\<rparr>) =
   map_outcome (\<lambda>(c, s). (c, s\<lparr>sl_state_saved := st\<rparr>)) (sl_exit_state st) (sl_step buf p (c, s))"
  by (cases c) (simp_all add: sl_step_def step_defs Let_def)

lemma scan_sl_state:
  "scan sl_step buf p (c, s\<lparr>sl_state_saved := st\<rparr>) =
   map_sum (map_prod id (\<lambda>(c, s). (c, s\<lparr>sl_state_saved := st\<rparr>))) (sl_exit_state st)
     (scan sl_step buf p (c, s))"
  using scan_map [where step = sl_step and g = "sl_exit_state st" and s = "(c, s)"
      and f = "\<lambda>(c, s). (c, s\<lparr>sl_state_saved := st\<rparr>)"]
  by (simp add: sl_step_state split_beta)

text \<open>
   Parsing a status line that arrives in two pieces gives the return code of parsing it in one
  piece, and the same position and status whenever the line is accepted or still incomplete.
\<close>

theorem status_line_resume:
  assumes "pos \<le> length b"
    and "ngx_http_parse_status_line b pos s = (NGX_AGAIN, pos', s')"
    and "ngx_http_parse_status_line (b @ e) pos s = (rc, q, s1)"
    and "ngx_http_parse_status_line (b @ e) pos' s' = (rc', q', s2)"
  shows "rc' = rc \<and> (rc \<noteq> NGX_ERROR \<longrightarrow> q' = q \<and> s2 = s1)"
proof -
  obtain st s0 where scan_b: "scan sl_step b pos (sl_state_saved s, s) = Inl (pos', (st, s0))"
    and s': "s' = s0\<lparr>sl_state_saved := st\<rparr>"
    using assms(2) by (auto simp: ngx_http_parse_status_line_def sl_finish_def Let_def
        split: sum.splits sl_exit.splits prod.splits)
  have whole: "scan sl_step (b @ e) pos (sl_state_saved s, s) = scan sl_step (b @ e) pos' (st, s0)"
    by (rule sl.scan_resume [OF assms(1) scan_b])
  show ?thesis
    using assms(3,4)
    unfolding ngx_http_parse_status_line_def whole s'
    by (cases "scan sl_step (b @ e) pos' (st, s0)" rule: sum.exhaust)
       (auto simp: scan_sl_state sl_finish_def Let_def split: sl_exit.splits)
qed

section \<open>Accepted status lines\<close>

text \<open>The code so far has as many digits as have been counted, and fewer than three before the end.\<close>

definition sl_code_ok :: "nat \<Rightarrow> sl_state \<Rightarrow> http_status \<Rightarrow> bool" where
  "sl_code_ok p st s \<longleftrightarrow>
     unat (status_code s) < 10 ^ unat (status_count s) \<and>
     (if st \<in> {sl_sw_space_after_status, sl_sw_status_text, sl_sw_almost_done}
      then unat (status_count s) = 3 \<and> (\<exists>i. status_start s = Some i \<and> i + 3 \<le> p)
      else unat (status_count s) < 3 \<and> unat (status_count s) \<le> p)"

lemma unat_code_digit:
  assumes "unat (c :: ngx_uint_t) < 10 ^ n" and "n < 3" and "ch_0 \<le> ch" and "ch \<le> ch_9"
  shows "unat (c * 10 + ucast ch - ucast ch_0) < 10 * 10 ^ n"
proof -
  have ch: "unat ch \<le> 57" "48 \<le> unat ch" using assms(3,4) by (simp_all add: word_le_nat_alt)
  have "(10 :: nat) ^ n \<le> 10 ^ 2" using assms(2) by (intro power_increasing) auto
  then have c: "unat c < 100" using assms(1) by simp
  have a: "unat (c * 10) = unat c * 10" using c by (simp add: unat_word_ariths)
  have b: "unat (c * 10 + ucast ch) = unat c * 10 + unat ch"
    using c ch by (simp add: unat_word_ariths(1) a)
  have "unat (c * 10 + ucast ch - ucast ch_0) = unat c * 10 + unat ch - 48"
    using ch b by (subst unat_sub) (simp_all add: word_le_nat_alt)
  then show ?thesis using assms(1) ch by simp
qed

lemma sl_code_step:
  assumes "sl_code_ok p st s" and "sl_step buf p (st, s) = Continue (st', s')"
  shows "sl_code_ok (Suc p) st' s'"
proof (cases "st = sl_sw_status \<and> buf ! p \<noteq> ch_space")
  case True
  with assms have digit: "ch_0 \<le> buf ! p" "buf ! p \<le> ch_9"
    by (auto simp: sl_step_def sl_status_def Let_def split: if_splits)
  from True assms(1) have n: "unat (status_code s) < 10 ^ unat (status_count s)"
    "unat (status_count s) < 3" "unat (status_count s) \<le> p"
    by (auto simp: sl_code_ok_def)
  then have inc: "unat (status_count s + 1) = Suc (unat (status_count s))"
    by (simp add: unat_word_ariths)
  have code: "unat (status_code s * 10 + ucast (buf ! p) - ucast ch_0) <
      10 ^ unat (status_count s + 1)"
    using unat_code_digit [OF n(1,2) digit] inc by simp
  have three: "status_count s + 1 = 3 \<longleftrightarrow> unat (status_count s) = 2"
    using inc by (simp add: word_unat_eq_iff)
  show ?thesis
    using True assms(2) digit code inc n three
    by (auto simp: sl_step_def sl_status_def Let_def sl_code_ok_def split: if_splits)
next
  case False
  with assms show ?thesis
    by (cases st)
       (auto simp: sl_step_def step_defs Let_def sl_code_ok_def split: if_splits)
qed

text \<open>
  An accepted status line has a status code of exactly three digits (so at most 999), and
  \<^verbatim>\<open>status->start\<close> and \<^verbatim>\<open>status->end\<close> delimit a stretch of the line that is consumed.
\<close>

theorem status_line_accepted:
  assumes "ngx_http_parse_status_line buf 0 init_status = (NGX_OK, q, s)"
  shows "status_count s = 3 \<and> status_code s \<le> 999 \<and>
    (\<exists>i e. status_start s = Some i \<and> status_end s = Some e \<and> i + 3 \<le> e \<and> e < q \<and> q \<le> length buf)"
proof -
  let ?I = "\<lambda>p (st, s). sl_code_ok p st s \<and> status_end s = None \<and>
     (st = sl_sw_almost_done \<longrightarrow> (\<exists>i. status_start s = Some i \<and> i + 3 < p))"
  obtain p s0 where leave: "scan sl_step buf 0 (sl_sw_start, init_status) = Inr (Sl_done p s0)"
    and fin: "sl_finish p s0 = (NGX_OK, q, s)"
    using assms by (auto simp: ngx_http_parse_status_line_def init_status_def
        split: sum.splits sl_exit.splits)
  have init: "?I 0 (sl_sw_start, init_status)" by (simp add: sl_code_ok_def init_status_def)
  have step: "?I (Suc q) t'" if "?I q t" "sl_step buf q t = Continue t'" for q t t'
  proof -
    obtain st r st' r' where t: "t = (st, r)" "t' = (st', r')" by (cases t; cases t')
    have "sl_code_ok (Suc q) st' r'" using that sl_code_step [of q st r buf st' r'] by (simp add: t)
    moreover have "status_end r' = None" using that
      by (cases st) (auto simp: t sl_step_def step_defs Let_def split: if_splits)
    moreover have "st' = sl_sw_almost_done \<longrightarrow> (\<exists>i. status_start r' = Some i \<and> i + 3 < Suc q)"
      using that
      by (cases st) (auto simp: t sl_step_def step_defs Let_def sl_code_ok_def split: if_splits)
    ultimately show ?thesis by (simp add: t)
  qed
  have inv: "case scan sl_step buf 0 (sl_sw_start, init_status) of
      Inl (q, t) \<Rightarrow> q = length buf \<and> ?I q t
    | Inr r \<Rightarrow> \<exists>q t. 0 \<le> q \<and> q < length buf \<and> ?I q t \<and> sl_step buf q t = Stop r"
    using init step by (intro scan_invariant) auto
  then obtain q' st t where "q' < length buf" "?I q' (st, t)" "sl_step buf q' (st, t) = Stop (Sl_done p s0)"
    by (auto simp: leave)
  moreover from this have "p = q'" "unat (status_code s0) < 1000" "status_count s0 = 3"
    "\<exists>i. status_start s0 = Some i \<and> (i + 3 \<le> p \<and> status_end s0 = None \<or>
      i + 3 \<le> p - 1 \<and> status_end s0 = Some (p - 1) \<and> 0 < p)"
    by (cases st; auto simp: sl_step_def step_defs Let_def sl_code_ok_def word_unat_eq_iff
        split: if_splits)+
  ultimately show ?thesis
    using fin by (auto simp: sl_finish_def Let_def word_le_nat_alt split: if_splits)
qed

section \<open>Printed status lines\<close>

definition print_status_line :: "u_char \<Rightarrow> buffer \<Rightarrow> buffer \<Rightarrow> buffer" where
  "print_status_line d code reason =
     bytes ''HTTP/1.'' @ [d, ch_space] @ code @ [ch_space] @ reason @ [CR, LF]"

definition code_value :: "buffer \<Rightarrow> nat" where
  "code_value = foldl (\<lambda>n c. 10 * n + (unat c - 48)) 0"

definition is_dec :: "u_char \<Rightarrow> bool" where
  "is_dec c \<longleftrightarrow> ch_0 \<le> c \<and> c \<le> ch_9"

lemma sl_go:
  "sl_step buf p s = Continue s' \<Longrightarrow> p < length buf \<Longrightarrow> q = Suc p \<Longrightarrow>
   scan sl_step buf p s = scan sl_step buf q s'"
  by (simp add: scan_Continue)

lemma sl_scan_text:
  assumes "p \<le> q" and "q < length buf" and "buf ! q = CR"
    and "\<And>i. p \<le> i \<Longrightarrow> i < q \<Longrightarrow> buf ! i \<noteq> CR \<and> buf ! i \<noteq> LF"
  shows "scan sl_step buf p (sl_sw_status_text, s) = scan sl_step buf (Suc q) (sl_sw_almost_done, s)"
proof -
  have "scan sl_step buf p (sl_sw_status_text, s) = scan sl_step buf q (sl_sw_status_text, s)"
    using assms by (intro scan_skip) (auto simp: sl_step_def sl_status_text_def Let_def)
  also have "\<dots> = scan sl_step buf (Suc q) (sl_sw_almost_done, s)"
    using assms by (intro sl_go) (simp_all add: sl_step_def sl_status_text_def)
  finally show ?thesis .
qed

lemma ucast_digit:
  "ch_0 \<le> ch \<Longrightarrow> ch \<le> ch_9 \<Longrightarrow> (ucast ch - ucast ch_0 :: ngx_uint_t) = of_nat (unat ch - 48)"
  by (simp add: word_le_nat_alt of_nat_diff)

lemma sl_scan_head:
  assumes "is_dec d" and "is_dec a" and "is_dec b" and "is_dec c"
    and "buf = bytes ''HTTP/1.'' @ [d, ch_space, a, b, c, ch_space] @ tail"
  shows "scan sl_step buf 0 (sl_sw_start, init_status) =
    scan sl_step buf 13 (sl_sw_status_text, init_status\<lparr>sl_http_major := 1,
      sl_http_minor := ucast (d - ch_0), status_code := of_nat (code_value [a, b, c]),
      status_count := 3, status_start := Some 9\<rparr>)"
proof -
  have code: "(((0 :: ngx_uint_t) * 10 + ucast a - ucast ch_0) * 10 + ucast b - ucast ch_0) * 10 +
      ucast c - ucast ch_0 = of_nat (code_value [a, b, c])"
    using assms(2-4) ucast_digit [of a] ucast_digit [of b] ucast_digit [of c]
    by (simp add: code_value_def is_dec_def add_diff_eq [symmetric] del: add_diff_eq)
  have chars: "\<not> d < ch_0" "\<not> ch_9 < d" "\<not> a < ch_0" "\<not> ch_9 < a" "\<not> b < ch_0" "\<not> ch_9 < b"
    "\<not> c < ch_0" "\<not> ch_9 < c" "a \<noteq> ch_space" "b \<noteq> ch_space" "c \<noteq> ch_space" "d \<noteq> ch_space"
    using assms(1-4) by (auto simp: is_dec_def not_less)
  note go = sl_go [OF _ _ refl]
  show ?thesis
    unfolding assms(5) init_status_def
    by (subst go, (simp add: sl_step_def step_defs Let_def chars; fail), simp)+
       (simp add: code [symmetric], simp add: eval_nat_numeral)
qed

text \<open>
  C32.  A printed status line (minor version digit, three-digit code, any text without line breaks) is
  accepted whatever follows it, and parsed back: the version, the number of the code, and the
  bounds of \<^verbatim>\<open>code SP text\<close>.
\<close>

theorem status_line_roundtrip:
  assumes "line = print_status_line d code reason"
    and "list_all is_dec (d # code)" and "length code = 3" and "CR \<notin> set reason" and "LF \<notin> set reason"
  shows "ngx_http_parse_status_line (line @ rest) 0 init_status =
    (NGX_OK, length line, init_status\<lparr>
       sl_http_major := 1, sl_http_minor := ucast (d - ch_0),
       status_http_version := 1000 + ucast (d - ch_0),
       status_code := of_nat (code_value code), status_count := 3,
       status_start := Some 9, status_end := Some (9 + length (code @ [ch_space] @ reason))\<rparr>)"
proof -
  obtain a b c where code: "code = [a, b, c]"
    using assms(3) by (auto simp: length_Suc_conv numeral_3_eq_3)
  let ?buf = "line @ rest" and ?n = "13 + length reason"
  let ?s = "init_status\<lparr>sl_http_major := 1, sl_http_minor := ucast (d - ch_0),
    status_code := of_nat (code_value code), status_count := 3, status_start := Some 9\<rparr>"
  have buf: "?buf = bytes ''HTTP/1.'' @ [d, ch_space, a, b, c, ch_space] @ reason @ [CR, LF] @ rest"
    by (simp add: assms(1) print_status_line_def code)
  have nth: "?buf ! (13 + i) = (reason @ [CR, LF] @ rest) ! i" for i
    unfolding buf by simp
  have len: "length line = ?n + 2" by (simp add: assms(1) print_status_line_def code)
  have "scan sl_step ?buf 0 (sl_sw_start, init_status) = scan sl_step ?buf 13 (sl_sw_status_text, ?s)"
    using sl_scan_head [OF _ _ _ _ buf] assms(2) by (simp add: code)
  also have "\<dots> = scan sl_step ?buf (Suc ?n) (sl_sw_almost_done, ?s)"
  proof (rule sl_scan_text)
    show "?buf ! ?n = CR" by (simp only: nth) simp
    fix i assume i: "13 \<le> i" "i < ?n"
    define j where "j = i - 13"
    have "i = 13 + j" "j < length reason" using i by (auto simp: j_def)
    then have "?buf ! i = reason ! j" by (simp only: nth) (simp add: nth_append)
    with assms(4,5) \<open>j < length reason\<close> show "?buf ! i \<noteq> CR \<and> ?buf ! i \<noteq> LF" by (metis nth_mem)
  qed (use len in simp_all)
  also have "\<dots> = Inr (Sl_done (Suc ?n) (?s\<lparr>status_end := Some ?n\<rparr>))"
  proof (rule scan_Stop)
    have "?buf ! (13 + Suc (length reason)) = LF" by (simp only: nth) (simp add: nth_append)
    then show "sl_step ?buf (Suc ?n) (sl_sw_almost_done, ?s) = Stop (Sl_done (Suc ?n) (?s\<lparr>status_end := Some ?n\<rparr>))"
      by (simp add: sl_step_def sl_almost_done_def)
  qed (use len in simp)
  finally have scan: "scan sl_step ?buf 0 (sl_sw_start, init_status) = \<dots>" .
  have "sl_state_saved init_status = sl_sw_start" by (simp add: init_status_def)
  then show ?thesis
    by (simp add: ngx_http_parse_status_line_def scan sl_finish_def Let_def len code ucast_u_char_twice)
qed

section \<open>Concrete status lines\<close>

lemmas sl_eval = ngx_http_parse_status_line_def init_status_def sl_step_def step_defs Let_def
  sl_finish_def scan.simps

theorem status_line_resume_witness:
  "\<exists>p s. ngx_http_parse_status_line (bytes ''HTTP/1.1 2'') 0 init_status = (NGX_AGAIN, p, s) \<and>
    fst (ngx_http_parse_status_line (bytes ''HTTP/1.1 2'' @ bytes ''00'' @ [LF]) p s) = NGX_OK"
proof -
  let ?b = "bytes ''HTTP/1.1 2''" and ?e = "bytes ''00'' @ [LF]"
  let ?x = "ngx_http_parse_status_line ?b 0 init_status"
  let ?y = "ngx_http_parse_status_line (?b @ ?e) 0 init_status"
  let ?z = "ngx_http_parse_status_line (?b @ ?e) 10 (snd (snd ?x))"
  have x: "?x = (NGX_AGAIN, 10, snd (snd ?x))" and y: "fst ?y = NGX_OK"
    by (simp_all add: sl_eval)
  from status_line_resume [OF _ x, of ?e "fst ?y" "fst (snd ?y)" "snd (snd ?y)" "fst ?z" "fst (snd ?z)"
      "snd (snd ?z)"] y
  have "fst ?z = NGX_OK" by simp
  with x show ?thesis by blast
qed

theorem status_line_accepted_witness:
  "\<exists>s. ngx_http_parse_status_line (bytes ''HTTP/1.0 404 No'' @ [CR, LF]) 0 init_status = (NGX_OK, 17, s) \<and>
    status_count s = 3 \<and> status_code s \<le> 999"
proof -
  let ?x = "ngx_http_parse_status_line (bytes ''HTTP/1.0 404 No'' @ [CR, LF]) 0 init_status"
  have x: "?x = (NGX_OK, 17, snd (snd ?x))" by (simp add: sl_eval)
  from status_line_accepted [OF x] x show ?thesis by blast
qed

theorem status_line_roundtrip_witness:
  "status_code (snd (snd (ngx_http_parse_status_line
      (print_status_line ch_1 (bytes ''404'') (bytes ''Not Found'') @ [ch_A]) 0 init_status))) = 404"
proof -
  have "list_all is_dec (ch_1 # bytes ''404'')" by (simp add: is_dec_def)
  from status_line_roundtrip [OF refl this, of "bytes ''Not Found''" "[ch_A]"] show ?thesis
    by (simp add: code_value_def)
qed

end
