(* ===== verification/Ngx_Number.thy ===== *)
theory Ngx_Number
  imports Xhome_Prelude
begin

text \<open>
  The number readers and the number printer of \<^verbatim>\<open>src/core/ngx_string.c\<close>: \<^verbatim>\<open>ngx_atoi\<close>, \<^verbatim>\<open>ngx_atosz\<close>,
  \<^verbatim>\<open>ngx_atoof\<close>, \<^verbatim>\<open>ngx_atotm\<close>, \<^verbatim>\<open>ngx_hextoi\<close>, \<^verbatim>\<open>ngx_atofp\<close>, \<^verbatim>\<open>ngx_hex_dump\<close> and
  \<^verbatim>\<open>ngx_sprintf_num\<close>, on an LP64 build, where \<^verbatim>\<open>ngx_int_t\<close>, \<^verbatim>\<open>ssize_t\<close>, \<^verbatim>\<open>off_t\<close> and
  \<^verbatim>\<open>time_t\<close> all have 64 bits.  \<^verbatim>\<open>NGX_ERROR\<close> is \<^const>\<open>None\<close>.  The five plain readers meet one contract
  (locale \<open>number_reader\<close>): the value modulo the word size, refused when its sign bit is set.
\<close>

section \<open>The readers\<close>

text \<open>\<^verbatim>\<open>*line - '0'\<close>, when \<^verbatim>\<open>*line\<close> is a decimal digit.\<close>

definition dec_digit :: "u_char \<Rightarrow> ngx_int_t option" where
  "dec_digit c = (if c < ch_0 \<or> c > ch_9 then None else Some (ucast c - ucast ch_0))"

text \<open>The two branches of \<^verbatim>\<open>ngx_hextoi\<close>.\<close>

definition hex_char :: "u_char \<Rightarrow> ngx_int_t option" where
  "hex_char ch =
     (if ch \<ge> ch_0 \<and> ch \<le> ch_9 then Some (ucast ch - ucast ch_0)
      else let c = ch OR 0x20 in
        if c \<ge> ch_a \<and> c \<le> ch_f then Some (ucast c - ucast ch_a + 10) else None)"

text \<open>\<^verbatim>\<open>for (value = 0; n--; line++) { ... value = value * base + digit; }\<close>\<close>

fun read_loop :: "ngx_int_t \<Rightarrow> (u_char \<Rightarrow> ngx_int_t option) \<Rightarrow> ngx_int_t \<Rightarrow> buffer \<Rightarrow> ngx_int_t option"
where
  "read_loop base digit val [] = Some val"
| "read_loop base digit val (c # line) =
     (case digit c of
        None \<Rightarrow> None
      | Some d \<Rightarrow> read_loop base digit (val * base + d) line)"

text \<open>\<^verbatim>\<open>if (value < 0) return NGX_ERROR; else return value;\<close>\<close>

definition not_negative :: "ngx_int_t \<Rightarrow> ngx_int_t option" where
  "not_negative val = (if sint val < 0 then None else Some val)"

definition ngx_atoi :: "buffer \<Rightarrow> ngx_int_t option" where
  "ngx_atoi line = (if line = [] then None else Option.bind (read_loop 10 dec_digit 0 line) not_negative)"

definition ngx_atosz :: "buffer \<Rightarrow> ngx_int_t option" where
  "ngx_atosz line = (if line = [] then None else Option.bind (read_loop 10 dec_digit 0 line) not_negative)"

definition ngx_atoof :: "buffer \<Rightarrow> ngx_int_t option" where
  "ngx_atoof line = (if line = [] then None else Option.bind (read_loop 10 dec_digit 0 line) not_negative)"

definition ngx_atotm :: "buffer \<Rightarrow> ngx_int_t option" where
  "ngx_atotm line = (if line = [] then None else Option.bind (read_loop 10 dec_digit 0 line) not_negative)"

definition ngx_hextoi :: "buffer \<Rightarrow> ngx_int_t option" where
  "ngx_hextoi line = (if line = [] then None else Option.bind (read_loop 16 hex_char 0 line) not_negative)"

text \<open>
  \<^verbatim>\<open>ngx_atofp\<close>: \<open>dot\<close> is set by the decimal point, after which each digit uses up one of the \<open>point\<close>
  places.  The result is the value and the places left.
\<close>

fun atofp_loop :: "ngx_int_t \<Rightarrow> nat \<Rightarrow> bool \<Rightarrow> buffer \<Rightarrow> (ngx_int_t \<times> nat) option" where
  "atofp_loop val point dot [] = Some (val, point)"
| "atofp_loop val point dot (c # line) =
     (if point = 0 then None
      else if c = ch_dot then (if dot then None else atofp_loop val point True line)
      else if c < ch_0 \<or> c > ch_9 then None
      else atofp_loop (val * 10 + (ucast c - ucast ch_0)) (if dot then point - 1 else point) dot line)"

text \<open>\<^verbatim>\<open>while (point--) value = value * 10;\<close>\<close>

fun atofp_scale :: "ngx_int_t \<Rightarrow> nat \<Rightarrow> ngx_int_t" where
  "atofp_scale val 0 = val"
| "atofp_scale val (Suc point) = atofp_scale (val * 10) point"

definition ngx_atofp :: "buffer \<Rightarrow> nat \<Rightarrow> ngx_int_t option" where
  "ngx_atofp line point =
     (if line = [] then None
      else Option.bind (atofp_loop 0 point False line) (\<lambda>(val, point). not_negative (atofp_scale val point)))"

section \<open>The printers\<close>

definition hex :: buffer where "hex = bytes ''0123456789abcdef''"

definition HEX :: buffer where "HEX = bytes ''0123456789ABCDEF''"

fun ngx_hex_dump :: "buffer \<Rightarrow> buffer" where
  "ngx_hex_dump [] = []"
| "ngx_hex_dump (c # src) = hex ! unat (drop_bit 4 c) # hex ! unat (c AND 0xf) # ngx_hex_dump src"

text \<open>
  The digit loops of \<^verbatim>\<open>ngx_sprintf_num\<close>: \<^verbatim>\<open>do { *--p = ...; } while (ui /= 10)\<close>, on the
  64-bit number and, when it fits, on its 32-bit copy; \<open>acc\<close> is what is already at \<^verbatim>\<open>p\<close>.
\<close>

function print_dec :: "'a::len word \<Rightarrow> buffer \<Rightarrow> buffer" where
  "print_dec ui acc =
     (let acc = (ucast (ui mod 10) + ch_0) # acc; ui = ui div 10
      in if ui \<noteq> 0 then print_dec ui acc else acc)"
  by pat_completeness auto

function print_hex :: "buffer \<Rightarrow> ngx_uint_t \<Rightarrow> buffer \<Rightarrow> buffer" where
  "print_hex digits ui acc =
     (let acc = digits ! unat (ui AND 0xf) # acc; ui = drop_bit 4 ui
      in if ui \<noteq> 0 then print_hex digits ui acc else acc)"
  by pat_completeness auto

text \<open>
  \<^verbatim>\<open>while (len++ < width && buf < last) *buf++ = zero;\<close> with \<open>room = last - buf\<close>: the bytes
  written.
\<close>

function print_pad :: "nat \<Rightarrow> nat \<Rightarrow> nat \<Rightarrow> u_char \<Rightarrow> buffer" where
  "print_pad len width room zero =
     (if len < width \<and> 0 < room then zero # print_pad (len + 1) width (room - 1) zero else [])"
  by pat_completeness auto
termination
  by (relation "measure (\<lambda>(len, width, room, zero). room)") auto

declare print_pad.simps [simp del]

lemma word_div_10_less: "(ui :: 'a::len word) div 10 \<noteq> 0 \<Longrightarrow> unat (ui div 10) < unat ui"
proof -
  let ?k = "unat (10 :: 'a word)"
  assume nz: "ui div 10 \<noteq> 0"
  have "?k = 10 mod 2 ^ LENGTH('a)" by (simp only: unsigned_numeral take_bit_eq_mod of_nat_id)
  then have "even ?k" by (simp add: dvd_mod)
  moreover have "?k \<noteq> 0" using nz by (metis div_by_0 unat_eq_zero)
  ultimately have "1 < ?k" by (metis Suc_lessI less_one odd_one not_gr_zero One_nat_def)
  moreover have "0 < unat ui" using nz by (metis div_0 unat_gt_0)
  ultimately show ?thesis by (simp add: unat_div)
qed

lemma drop_bit_4_less: "drop_bit 4 (ui :: ngx_uint_t) \<noteq> 0 \<Longrightarrow> unat (drop_bit 4 ui) < unat ui"
proof -
  assume "drop_bit 4 ui \<noteq> 0"
  then have "ui \<noteq> 0" by auto
  then have "0 < unat ui" by (rule unat_gt_0 [THEN iffD2])
  then show ?thesis by (simp add: unat_drop_bit_div)
qed

termination print_dec
  by (relation "measure (\<lambda>(ui, acc). unat ui)") (auto intro: word_div_10_less)

termination print_hex
  by (relation "measure (\<lambda>(digits, ui, acc). unat ui)") (auto intro: drop_bit_4_less)

declare print_dec.simps [simp del] print_hex.simps [simp del]

text \<open>\<^verbatim>\<open>NGX_INT64_LEN\<close> is the length of the longest 64-bit decimal number with its sign.\<close>

abbreviation NGX_INT64_LEN :: nat where "NGX_INT64_LEN \<equiv> 20"

abbreviation NGX_MAX_UINT32_VALUE :: ngx_uint_t where "NGX_MAX_UINT32_VALUE \<equiv> 0xffffffff"

definition num_digits :: "ngx_uint_t \<Rightarrow> nat \<Rightarrow> buffer" where
  "num_digits ui64 hexadecimal =
     (if hexadecimal = 0 then
        if ui64 \<le> NGX_MAX_UINT32_VALUE then print_dec (ucast ui64 :: uint32) [] else print_dec ui64 []
      else if hexadecimal = 1 then print_hex hex ui64 []
      else print_hex HEX ui64 [])"

text \<open>The bytes written at \<^verbatim>\<open>buf\<close>, with \<open>room = last - buf\<close>.\<close>

definition ngx_sprintf_num :: "nat \<Rightarrow> ngx_uint_t \<Rightarrow> u_char \<Rightarrow> nat \<Rightarrow> nat \<Rightarrow> buffer" where
  "ngx_sprintf_num room ui64 zero hexadecimal width =
     (let p = num_digits ui64 hexadecimal;
          pad = print_pad (length p) width room zero;
          len = (if length pad + length p > room then room - length pad else length p)
      in pad @ take len p)"

section \<open>The contract of the readers\<close>

lemma not_bit_63: "\<not> bit (v :: ngx_int_t) 63 \<Longrightarrow> unat v < 2 ^ 63"
proof -
  assume "\<not> bit v 63"
  then have "even (unat v div 2 ^ 63)" 
    using bit_unsigned_iff [of v 63, where ?'a = nat] by (simp add: bit_iff_odd)
  moreover have "unat v < 2 ^ 64" using unsigned_less [of v, where ?'a = nat] by simp
  then have "unat v div 2 ^ 63 < 2" by (simp add: less_mult_imp_div_less)
  ultimately have "unat v div 2 ^ 63 = 0" by (auto simp: less_2_cases_iff)
  then show ?thesis by (simp add: div_eq_0_iff)
qed

definition number :: "nat \<Rightarrow> (u_char \<Rightarrow> nat option) \<Rightarrow> nat \<Rightarrow> buffer \<Rightarrow> nat" where
  "number base digit = foldl (\<lambda>n c. n * base + the (digit c))"

text \<open>
  What a caller may rely on: a text of digits yields its value modulo the word size if that is not
  negative; anything else is an error.
\<close>

locale number_reader =
  fixes reader :: "buffer \<Rightarrow> ngx_int_t option" and base :: nat and digit :: "u_char \<Rightarrow> nat option"
  assumes reader_digits: "line \<noteq> [] \<Longrightarrow> \<forall>c\<in>set line. digit c \<noteq> None \<Longrightarrow>
      reader line = not_negative (of_nat (number base digit 0 line))"
    and reader_other: "line = [] \<or> (\<exists>c\<in>set line. digit c = None) \<Longrightarrow> reader line = None"
    and digit_less: "digit c = Some d \<Longrightarrow> d < base"
begin

lemma reader_exact:
  assumes "line \<noteq> []" and "\<forall>c\<in>set line. digit c \<noteq> None" and "number base digit 0 line < 2 ^ 63"
  shows "reader line = Some (of_nat (number base digit 0 line))"
proof -
  have "sint (of_nat (number base digit 0 line) :: ngx_int_t) = int (number base digit 0 line)"
    using assms(3) by (simp add: signed_of_nat signed_take_bit_int_eq_self)
  with reader_digits [OF assms(1,2)] show ?thesis by (simp add: not_negative_def)
qed

lemma reader_contract:
  "(line \<noteq> [] \<longrightarrow> (\<forall>c\<in>set line. digit c \<noteq> None) \<longrightarrow> number base digit 0 line < 2 ^ 63 \<longrightarrow>
      reader line = Some (of_nat (number base digit 0 line))) \<and>
   (line = [] \<or> (\<exists>c\<in>set line. digit c = None) \<longrightarrow> reader line = None)"
  by (intro conjI impI) (erule (2) reader_exact, erule reader_other)

lemma reader_in_range:
  assumes "reader line = Some v"
  shows "unat v < 2 ^ 63 \<and> v = of_nat (number base digit 0 line) \<and> line \<noteq> [] \<and>
    (\<forall>c\<in>set line. digit c \<noteq> None)"
proof -
  have *: "line \<noteq> []" "\<forall>c\<in>set line. digit c \<noteq> None"
    using assms reader_other [of line] by force+
  with reader_digits [OF this] assms have v: "v = of_nat (number base digit 0 line)" "0 \<le> sint v"
    by (auto simp: not_negative_def split: if_splits)
  from v(2) have "\<not> bit v 63" using bit_last_iff [of v] by simp
  then have "unat v < 2 ^ 63" by (rule not_bit_63)
  with v * show ?thesis by simp
qed

lemma number_bound: "\<forall>c\<in>set line. digit c \<noteq> None \<Longrightarrow> number base digit 0 line < base ^ length line"
proof (induction line rule: rev_induct)
  case Nil
  then show ?case by (simp add: number_def)
next
  case (snoc c line)
  then obtain d where d: "digit c = Some d" "d < base" using digit_less by auto
  from snoc have "number base digit 0 line + 1 \<le> base ^ length line" by simp
  then have "(number base digit 0 line + 1) * base \<le> base ^ length line * base" by (rule mult_right_mono) simp
  with d show ?case by (simp add: number_def algebra_simps)
qed

end

text \<open>The loop on words is the loop on numbers.\<close>

lemma read_loop_number:
  assumes "\<And>c. wdigit c = map_option of_nat (digit c)"
  shows "read_loop (of_nat base) wdigit (of_nat n) line =
    (if \<forall>c\<in>set line. digit c \<noteq> None then Some (of_nat (number base digit n line)) else None)"
proof (induction line arbitrary: n)
  case Nil
  then show ?case by (simp add: number_def)
next
  case (Cons c line)
  show ?case
  proof (cases "digit c")
    case None
    then show ?thesis by (simp add: assms)
  next
    case (Some d)
    then show ?thesis using Cons [of "n * base + d"] by (simp add: assms number_def)
  qed
qed

definition dec_digit_value :: "u_char \<Rightarrow> nat option" where
  "dec_digit_value c = (if unat c \<in> {48..57} then Some (unat c - 48) else None)"

definition hex_digit_value :: "u_char \<Rightarrow> nat option" where
  "hex_digit_value c =
     (let n = unat c in
      if n \<in> {48..57} then Some (n - 48)
      else if n \<in> {65..70} then Some (n - 55)
      else if n \<in> {97..102} then Some (n - 87) else None)"

lemma dec_digit_eq: "dec_digit c = map_option of_nat (dec_digit_value c)"
  by (auto simp: dec_digit_def dec_digit_value_def word_less_nat_alt of_nat_diff)

lemma hex_letter:
  fixes c :: u_char
  shows "ch_a \<le> c OR 0x20 \<and> c OR 0x20 \<le> ch_f \<longleftrightarrow> unat c \<in> {65..70} \<or> unat c \<in> {97..102}"
proof -
  have "unat c div 32 mod 2 = 1 \<Longrightarrow> \<not> (65 \<le> unat c \<and> unat c \<le> 70)"
    using div_32 [of 2 "unat c"] by auto
  moreover have "97 \<le> unat c \<and> unat c \<le> 102 \<Longrightarrow> unat c div 32 mod 2 = 1"
    using div_32 [of 3 "unat c"] by simp
  ultimately show ?thesis by (auto simp: word_le_nat_alt or_0x20)
qed

lemma hex_letter_value:
  fixes c :: u_char
  shows "unat c \<in> {65..70} \<Longrightarrow> ucast (c OR 0x20) = (of_nat (unat c + 32) :: ngx_int_t)"
    and "unat c \<in> {97..102} \<Longrightarrow> ucast (c OR 0x20) = (of_nat (unat c) :: ngx_int_t)"
proof -
  assume "unat c \<in> {65..70}"
  then have "65 \<le> unat c" "unat c \<le> 70" by simp_all
  then have "unat c div 32 mod 2 \<noteq> 1" using div_32 [of 2 "unat c"] by simp
  then have "unat (c OR 0x20) = unat c + 32" by (simp add: or_0x20)
  then show "ucast (c OR 0x20) = (of_nat (unat c + 32) :: ngx_int_t)" by (metis of_nat_unat)
next
  assume "unat c \<in> {97..102}"
  then have "97 \<le> unat c" "unat c \<le> 102" by simp_all
  then have "unat c div 32 mod 2 = 1" using div_32 [of 3 "unat c"] by simp
  then have "unat (c OR 0x20) = unat c" by (simp add: or_0x20)
  then show "ucast (c OR 0x20) = (of_nat (unat c) :: ngx_int_t)" by (metis of_nat_unat)
qed

lemma hex_digit_eq: "hex_char c = map_option of_nat (hex_digit_value c)"
proof (cases "ch_0 \<le> c \<and> c \<le> ch_9")
  case True
  then show ?thesis
    by (auto simp: hex_char_def hex_digit_value_def word_le_nat_alt of_nat_diff)
next
  case False
  then have "unat c \<notin> {48..57}" by (auto simp: word_le_nat_alt)
  with False show ?thesis
    by (auto simp: hex_char_def hex_digit_value_def Let_def hex_letter hex_letter_value of_nat_diff
        simp del: of_nat_unat)
qed

lemmas dec_loop_number = read_loop_number [OF dec_digit_eq, where base = 10 and n = 0, simplified]
lemmas hex_loop_number = read_loop_number [OF hex_digit_eq, where base = 16 and n = 0, simplified]

lemma dec_digit_value_less: "dec_digit_value c = Some d \<Longrightarrow> d < 10"
  by (auto simp: dec_digit_value_def split: if_splits)

lemma hex_digit_value_less: "hex_digit_value c = Some d \<Longrightarrow> d < 16"
  by (auto simp: hex_digit_value_def Let_def split: if_splits)

interpretation atoi: number_reader ngx_atoi 10 dec_digit_value
  by unfold_locales (auto simp: ngx_atoi_def dec_loop_number dec_digit_value_less)

interpretation atosz: number_reader ngx_atosz 10 dec_digit_value
  by unfold_locales (auto simp: ngx_atosz_def dec_loop_number dec_digit_value_less)

interpretation atoof: number_reader ngx_atoof 10 dec_digit_value
  by unfold_locales (auto simp: ngx_atoof_def dec_loop_number dec_digit_value_less)

interpretation atotm: number_reader ngx_atotm 10 dec_digit_value
  by unfold_locales (auto simp: ngx_atotm_def dec_loop_number dec_digit_value_less)

interpretation hextoi: number_reader ngx_hextoi 16 hex_digit_value
  by unfold_locales (auto simp: ngx_hextoi_def hex_loop_number hex_digit_value_less)

section \<open>The printed digits\<close>

lemma number_append: "number b d n (xs @ ys) = number b d (number b d n xs) ys"
  by (simp add: number_def)

lemma number_start: "number b d n xs = n * b ^ length xs + number b d 0 xs"
proof (induction xs arbitrary: n)
  case Nil
  then show ?case by (simp add: number_def)
next
  case (Cons x xs)
  have "number b d n (x # xs) = number b d (n * b + the (d x)) xs" by (simp add: number_def)
  also have "\<dots> = (n * b + the (d x)) * b ^ length xs + number b d 0 xs" by (rule Cons)
  also have "\<dots> = n * b ^ length (x # xs) + number b d (the (d x)) xs"
    using Cons [of "the (d x)"] by (simp add: algebra_simps)
  finally show ?case by (simp add: number_def)
qed


lemma print_dec_append: "print_dec ui (xs @ ys) = print_dec ui xs @ ys"
proof (induction ui xs rule: print_dec.induct)
  case (1 ui acc)
  then show ?case
    by (cases "ui div 10 = 0")
       (simp_all add: Let_def print_dec.simps [of ui "acc @ ys"] print_dec.simps [of ui acc])
qed

lemma print_hex_append: "print_hex d ui (xs @ ys) = print_hex d ui xs @ ys"
proof (induction d ui xs rule: print_hex.induct)
  case (1 d ui acc)
  then show ?case
    by (cases "drop_bit 4 ui = 0")
       (simp_all add: Let_def print_hex.simps [of d ui "acc @ ys"] print_hex.simps [of d ui acc])
qed

definition dec_text :: "nat \<Rightarrow> buffer \<Rightarrow> bool" where
  "dec_text n s \<longleftrightarrow> s \<noteq> [] \<and> (\<forall>c\<in>set s. dec_digit_value c \<noteq> None) \<and>
     number 10 dec_digit_value 0 s = n \<and> (1 < length s \<longrightarrow> hd s \<noteq> ch_0)"

definition hex_text :: "nat \<Rightarrow> buffer \<Rightarrow> bool" where
  "hex_text n s \<longleftrightarrow> s \<noteq> [] \<and> (\<forall>c\<in>set s. hex_digit_value c \<noteq> None) \<and>
     number 16 hex_digit_value 0 s = n \<and> (1 < length s \<longrightarrow> hd s \<noteq> ch_0)"

lemma print_dec_text:
  assumes "10 < (2 :: nat) ^ LENGTH('a)"
  shows "dec_text (unat ui) (print_dec (ui :: 'a::len word) []) \<and>
    (ui \<noteq> 0 \<longrightarrow> hd (print_dec ui []) \<noteq> ch_0)"
proof (induction "unat ui" arbitrary: ui rule: less_induct)
  case less
  have ten: "unat (10 :: 'a word) = 10" using assms by (simp add: unsigned_numeral take_bit_nat_eq_self)
  then have div: "unat (ui div 10) = unat ui div 10" and mod: "unat (ui mod 10) = unat ui mod 10"
    by (simp_all add: unat_div unat_mod)
  let ?c = "ucast (ui mod 10) + ch_0"
  have "unat (ucast (ui mod 10) :: u_char) = unat ui mod 10"
    by (simp add: unsigned_ucast_eq take_bit_nat_eq_self mod)
  then have c: "unat ?c = unat ui mod 10 + 48" by (simp add: unat_word_ariths)
  then have digit: "dec_digit_value ?c = Some (unat ui mod 10)"
    by (simp add: dec_digit_value_def)
  show ?case
  proof (cases "ui div 10 = 0")
    case True
    then have small: "unat ui div 10 = 0" by (metis div unat_eq_zero)
    have "?c \<noteq> ch_0" if "ui \<noteq> 0"
    proof
      assume "?c = ch_0"
      then have "unat ui mod 10 = 0" using arg_cong [of ?c ch_0 unat] c by simp
      moreover have "0 < unat ui" using that by (rule unat_gt_0 [THEN iffD2])
      ultimately show False using small by (metis div_mult_mod_eq add_0 mult_0 less_irrefl)
    qed
    with True digit small show ?thesis
      by (simp add: print_dec.simps [of ui "[]"] dec_text_def number_def)
  next
    case False
    then have "unat (ui div 10) < unat ui" by (rule word_div_10_less)
    note IH = less [OF this]
    have eq: "print_dec ui [] = print_dec (ui div 10) [] @ [?c]"
      using False print_dec_append [of "ui div 10" "[]" "[?c]"]
      by (simp add: print_dec.simps [of ui "[]"] Let_def)
    from IH div False digit show ?thesis
      unfolding eq dec_text_def by (simp add: number_append) (simp add: number_def)
  qed
qed

definition hex_digits :: "buffer \<Rightarrow> bool" where
  "hex_digits d \<longleftrightarrow> (\<forall>k\<in>set [0..<16]. hex_digit_value (d ! k) = Some k \<and> (d ! k = ch_0 \<longrightarrow> k = 0))"

lemma hex_digits: "hex_digits hex" "hex_digits HEX"
  by code_simp+

lemma hex_digitsD:
  "hex_digits d \<Longrightarrow> k < 16 \<Longrightarrow> hex_digit_value (d ! k) = Some k"
  "hex_digits d \<Longrightarrow> k < 16 \<Longrightarrow> d ! k = ch_0 \<Longrightarrow> k = 0"
  by (simp_all only: hex_digits_def atLeastLessThan_upt [symmetric] atLeastLessThan_iff Ball_def) blast+

lemma and_0xf: "unat ((w :: 'a::len word) AND 0xf) = unat w mod 16"
proof -
  have "(0xf :: 'a word) = mask 4" by (simp add: mask_eq_exp_minus_1)
  then show ?thesis using unat_and_mask_mod [of w 4] by simp
qed

lemma print_hex_text:
  assumes d: "hex_digits d"
  shows "hex_text (unat ui) (print_hex d ui []) \<and> (ui \<noteq> 0 \<longrightarrow> hd (print_hex d ui []) \<noteq> ch_0)"
proof (induction "unat ui" arbitrary: ui rule: less_induct)
  case less
  have div: "unat (drop_bit 4 ui) = unat ui div 16" using unat_drop_bit_div [of 4 ui] by simp
  let ?k = "unat ui mod 16"
  have k: "?k < 16" by simp
  note digit = hex_digitsD(1) [OF d k]
  show ?case
  proof (cases "drop_bit 4 ui = 0")
    case True
    then have small: "unat ui div 16 = 0" by (metis div unat_eq_zero)
    have "d ! ?k \<noteq> ch_0" if "ui \<noteq> 0"
    proof
      assume "d ! ?k = ch_0"
      then have "?k = 0" using hex_digitsD(2) [OF d k] by simp
      moreover have "0 < unat ui" using that by (rule unat_gt_0 [THEN iffD2])
      ultimately show False using small by (metis div_mult_mod_eq add_0 mult_0 less_irrefl)
    qed
    with True digit small show ?thesis
      by (simp add: print_hex.simps [of d ui "[]"] hex_text_def number_def and_0xf)
  next
    case False
    then have "unat (drop_bit 4 ui) < unat ui" by (rule drop_bit_4_less)
    note IH = less [OF this]
    have eq: "print_hex d ui [] = print_hex d (drop_bit 4 ui) [] @ [d ! ?k]"
      using False print_hex_append [of d "drop_bit 4 ui" "[]" "[d ! ?k]"]
      by (simp add: print_hex.simps [of d ui "[]"] Let_def and_0xf)
    from IH div False digit show ?thesis
      unfolding eq hex_text_def by (simp add: number_append) (simp add: number_def)
  qed
qed

lemma num_digits_text:
  "dec_text (unat ui64) (num_digits ui64 0)"
  "0 < h \<Longrightarrow> hex_text (unat ui64) (num_digits ui64 h)"
proof -
  have "unat (ucast ui64 :: uint32) = unat ui64" if "ui64 \<le> NGX_MAX_UINT32_VALUE"
    using that by (simp add: unsigned_ucast_eq take_bit_nat_eq_self word_le_nat_alt)
  then show "dec_text (unat ui64) (num_digits ui64 0)"
    using print_dec_text [of "ucast ui64 :: uint32"] print_dec_text [of ui64]
    by (cases "ui64 \<le> NGX_MAX_UINT32_VALUE") (simp_all add: num_digits_def)
  show "0 < h \<Longrightarrow> hex_text (unat ui64) (num_digits ui64 h)"
    using print_hex_text hex_digits by (simp add: num_digits_def)
qed

text \<open>A text without leading zeros is as short as its value allows: the temporary buffer suffices.\<close>

lemma number_hd:
  assumes "s \<noteq> []" and "the (digit (hd s)) \<noteq> 0"
  shows "base ^ (length s - 1) \<le> number base digit 0 s"
proof -
  obtain c t where s: "s = c # t" using assms(1) by (cases s) auto
  have "number base digit 0 s = the (digit c) * base ^ length t + number base digit 0 t"
    using number_start [of base digit "the (digit c)" t] by (simp add: s number_def)
  moreover have "base ^ length t \<le> the (digit c) * base ^ length t"
    using assms(2) by (simp add: s Suc_le_eq)
  ultimately show ?thesis unfolding s by (metis diff_Suc_1 length_Cons trans_le_add1)
qed

lemma digit_zero:
  "dec_digit_value c = Some 0 \<Longrightarrow> c = ch_0" "hex_digit_value c = Some 0 \<Longrightarrow> c = ch_0"
  by (auto simp: dec_digit_value_def hex_digit_value_def Let_def word_unat_eq_iff split: if_splits)

lemma number_length:
  assumes "n < (2 :: nat) ^ 64"
  shows "dec_text n s \<Longrightarrow> length s \<le> 20" "hex_text n s \<Longrightarrow> length s \<le> 16"
proof -
  have hd: "the (f (hd s)) \<noteq> 0" if "1 < length s" "hd s \<noteq> ch_0" "\<forall>c\<in>set s. f c \<noteq> None"
    "\<And>c. f c = Some 0 \<Longrightarrow> c = ch_0" for f
    using that by (cases s) auto
  show "length s \<le> 20" if "dec_text n s"
  proof (rule ccontr)
    assume "\<not> length s \<le> 20"
    then have len: "20 \<le> length s - 1" "1 < length s" by auto
    have "(2 :: nat) ^ 64 < 10 ^ 20" by simp
    also have "\<dots> \<le> 10 ^ (length s - 1)" using len by (intro power_increasing) auto
    also have "\<dots> \<le> n"
      using that len number_hd [of s dec_digit_value 10] hd [of dec_digit_value] digit_zero(1)
      by (auto simp: dec_text_def)
    finally show False using assms by simp
  qed
  show "length s \<le> 16" if "hex_text n s"
  proof (rule ccontr)
    assume "\<not> length s \<le> 16"
    then have len: "16 \<le> length s - 1" "1 < length s" by auto
    have "(2 :: nat) ^ 64 \<le> 16 ^ 16" by simp
    also have "\<dots> \<le> 16 ^ (length s - 1)" using len by (intro power_increasing) auto
    also have "\<dots> \<le> n"
      using that len number_hd [of s hex_digit_value 16] hd [of hex_digit_value] digit_zero(2)
      by (auto simp: hex_text_def)
    finally show False using assms by simp
  qed
qed

lemma print_pad_eq: "print_pad len width room zero = replicate (min (width - len) room) zero"
proof (induction len width room zero rule: print_pad.induct)
  case (1 len width room zero)
  show ?case
  proof (cases "len < width \<and> 0 < room")
    case True
    then have "min (width - len) room = Suc (min (width - (len + 1)) (room - 1))" by auto
    with 1 True show ?thesis by (simp add: print_pad.simps [of len])
  next
    case False
    then show ?thesis by (auto simp: print_pad.simps [of len])
  qed
qed

lemma num_digits_length: "length (num_digits ui64 h) \<le> NGX_INT64_LEN"
proof -
  have "unat ui64 < 2 ^ 64" using unsigned_less [of ui64, where ?'a = nat] by simp
  then show ?thesis
    using number_length [of "unat ui64" "num_digits ui64 h"] num_digits_text(1) [of ui64] num_digits_text(2) [of h ui64]
    by (cases "h = 0") fastforce+
qed

lemma sprintf_num_bound: "length (ngx_sprintf_num room ui64 zero h width) \<le> room"
  by (auto simp: ngx_sprintf_num_def Let_def print_pad_eq)

lemma sprintf_num_room:
  "max width NGX_INT64_LEN \<le> room \<Longrightarrow>
   ngx_sprintf_num room ui64 zero h width =
     replicate (width - length (num_digits ui64 h)) zero @ num_digits ui64 h"
  using num_digits_length [of ui64 h] by (auto simp: ngx_sprintf_num_def Let_def print_pad_eq)

section \<open>What the readers and the printer do\<close>

text \<open>
  The four decimal readers return exactly the value of a non-empty text of digits that is below
  \<open>2\<^sup>6\<^sup>3\<close>, and refuse the empty text and every text with another byte.
\<close>

theorem decimal_readers_exact:
  assumes "reader \<in> {ngx_atoi, ngx_atosz, ngx_atoof, ngx_atotm}"
  shows "(line \<noteq> [] \<longrightarrow> (\<forall>c\<in>set line. dec_digit_value c \<noteq> None) \<longrightarrow>
      number 10 dec_digit_value 0 line < 2 ^ 63 \<longrightarrow>
      reader line = Some (of_nat (number 10 dec_digit_value 0 line))) \<and>
    (line = [] \<or> (\<exists>c\<in>set line. dec_digit_value c = None) \<longrightarrow> reader line = None)"
proof -
  from assms consider "reader = ngx_atoi" | "reader = ngx_atosz" | "reader = ngx_atoof"
    | "reader = ngx_atotm" by auto
  then show ?thesis
  proof cases
    case 1 show ?thesis unfolding 1 by (rule atoi.reader_contract)
  next
    case 2 show ?thesis unfolding 2 by (rule atosz.reader_contract)
  next
    case 3 show ?thesis unfolding 3 by (rule atoof.reader_contract)
  next
    case 4 show ?thesis unfolding 4 by (rule atotm.reader_contract)
  qed
qed

theorem decimal_readers_exact_witness:
  "ngx_atoof (bytes ''9223372036854775807'') = Some 9223372036854775807 \<and>
   ngx_atoof (bytes ''12a'') = None"
proof -
  let ?a = "bytes ''9223372036854775807''" and ?b = "bytes ''12a''"
  have r: "ngx_atoof \<in> {ngx_atoi, ngx_atosz, ngx_atoof, ngx_atotm}" by simp
  have a: "?a \<noteq> []" "\<forall>c\<in>set ?a. dec_digit_value c \<noteq> None"
    "number 10 dec_digit_value 0 ?a = 9223372036854775807" by (simp_all add: dec_digit_value_def number_def)
  have b: "\<exists>c\<in>set ?b. dec_digit_value c = None" by (simp add: dec_digit_value_def)
  have "ngx_atoof ?a = Some (of_nat (number 10 dec_digit_value 0 ?a))"
    using decimal_readers_exact [OF r, of ?a] a by simp
  moreover have "ngx_atoof ?b = None"
    using decimal_readers_exact [OF r, of ?b] b by blast
  ultimately show ?thesis unfolding a(3) by simp
qed

text \<open>
   The overflow check of the readers looks only at the sign of the last value: a number that
  wraps around to a positive one is accepted with a wrong value.
\<close>

theorem number_readers_wrap:
  "ngx_atoof (bytes ''18446744073709551617'') = Some 1 \<and>
   ngx_atoi (bytes ''18446744073709551617'') = Some 1 \<and>
   ngx_hextoi (bytes ''10000000000000001'') = Some 1 \<and>
   ngx_atoof (bytes ''9223372036854775808'') = None"
  by (simp add: ngx_atoof_def ngx_atoi_def ngx_hextoi_def dec_digit_def hex_char_def not_negative_def)

text \<open>
  \<^verbatim>\<open>ngx_sprintf_num\<close> never writes past \<^verbatim>\<open>last\<close>, never needs more than \<^verbatim>\<open>NGX_INT64_LEN\<close> bytes of
  its temporary buffer, and when there is room writes the padding and then the number, without
  leading zeros, in the base asked for.
\<close>

theorem sprintf_num_correct:
  "length (ngx_sprintf_num room ui64 zero h width) \<le> room \<and>
   length (num_digits ui64 h) \<le> NGX_INT64_LEN \<and>
   (max width NGX_INT64_LEN \<le> room \<longrightarrow>
     ngx_sprintf_num room ui64 zero h width =
       replicate (width - length (num_digits ui64 h)) zero @ num_digits ui64 h) \<and>
   (if h = 0 then dec_text (unat ui64) (num_digits ui64 h) else hex_text (unat ui64) (num_digits ui64 h))"
  using num_digits_text(1) [of ui64] num_digits_text(2) [of h ui64]
  by (auto simp: sprintf_num_bound num_digits_length sprintf_num_room)

theorem sprintf_num_correct_witness:
  "length (ngx_sprintf_num 3 123456 ch_0 0 8) \<le> 3 \<and>
   ngx_sprintf_num 64 123456 ch_0 0 8 = bytes ''00123456''"
proof -
  have "print_dec (123456 :: uint32) [] = bytes ''123456''" by (simp add: print_dec.simps)
  then have "num_digits 123456 0 = bytes ''123456''" by (simp add: num_digits_def)
  with sprintf_num_correct [of 3 123456 ch_0 0 8] sprintf_num_correct [of 64 123456 ch_0 0 8]
  show ?thesis by (simp add: numeral_2_eq_2)
qed

text \<open>
  C34.  What \<^verbatim>\<open>ngx_sprintf_num\<close> prints, padded with zeros to any width, the readers read back.
\<close>

theorem sprintf_num_roundtrip:
  assumes "unat n < 2 ^ 63" and "max width NGX_INT64_LEN \<le> room"
  shows "ngx_atoi (ngx_sprintf_num room n ch_0 0 width) = Some n \<and>
    (0 < h \<longrightarrow> ngx_hextoi (ngx_sprintf_num room n ch_0 h width) = Some n)"
proof -
  have zeros: "number b d 0 (replicate k ch_0) = 0" if "d ch_0 = Some 0" for d b k
    using that by (induction k) (simp_all add: number_def)
  have zero: "dec_digit_value ch_0 = Some 0" "hex_digit_value ch_0 = Some 0"
    by (simp_all add: dec_digit_value_def hex_digit_value_def)
  have dec: "ngx_atoi (replicate k ch_0 @ s) = Some n" if "dec_text (unat n) s" for k s
  proof -
    have "\<forall>c\<in>set (replicate k ch_0 @ s). dec_digit_value c \<noteq> None"
      using that zero(1) by (auto simp: dec_text_def in_set_replicate)
    then show ?thesis using that assms(1) zeros [of dec_digit_value, OF zero(1)] atoi.reader_exact [of "replicate k ch_0 @ s"]
      by (auto simp: dec_text_def number_append)
  qed
  have hexa: "ngx_hextoi (replicate k ch_0 @ s) = Some n" if "hex_text (unat n) s" for k s
  proof -
    have "\<forall>c\<in>set (replicate k ch_0 @ s). hex_digit_value c \<noteq> None"
      using that zero(2) by (auto simp: hex_text_def in_set_replicate)
    then show ?thesis using that assms(1) zeros [of hex_digit_value, OF zero(2)] hextoi.reader_exact [of "replicate k ch_0 @ s"]
      by (auto simp: hex_text_def number_append)
  qed
  have len: "length (num_digits n h) \<le> 20" for h
    using number_length [of "unat n"] num_digits_text(1) [of n] num_digits_text(2) [of h n] assms(1) by (cases "h = 0") fastforce+
  have "ngx_sprintf_num room n ch_0 h width =
      replicate (width - length (num_digits n h)) ch_0 @ num_digits n h" for h
    using assms(2) len [of h] by (auto simp: ngx_sprintf_num_def Let_def print_pad_eq)
  then show ?thesis using dec hexa num_digits_text(1) [of n] num_digits_text(2) [of h n] by simp
qed

theorem sprintf_num_roundtrip_witness:
  "ngx_atoi (ngx_sprintf_num 64 (9223372036854775807) ch_0 0 30) = Some 9223372036854775807 \<and>
   ngx_hextoi (ngx_sprintf_num 64 (9223372036854775807) ch_0 2 30) = Some 9223372036854775807"
  using sprintf_num_roundtrip [of 9223372036854775807 30 64 2] by simp

text \<open>The bytes of a dump, two digits each, most significant first.\<close>

lemma hex_dump_digits:
  "length (ngx_hex_dump src) = 2 * length src \<and>
   (\<forall>c\<in>set (ngx_hex_dump src). hex_digit_value c \<noteq> None) \<and>
   number 16 hex_digit_value 0 (ngx_hex_dump src) = foldl (\<lambda>n c. n * 256 + unat c) 0 src"
proof (induction src rule: rev_induct)
  case Nil
  then show ?case by (simp add: number_def)
next
  case (snoc c src)
  have app: "ngx_hex_dump (xs @ ys) = ngx_hex_dump xs @ ngx_hex_dump ys" for xs ys
    by (induction xs) simp_all
  have high: "unat (drop_bit 4 c) = unat c div 16" using unat_drop_bit_div [of 4 c] by simp
  have "unat c div 16 < 16" using unat_u_char_less [of c] by (simp add: less_mult_imp_div_less)
  note digits = hex_digitsD(1) [OF hex_digits(1) this]
    hex_digitsD(1) [OF hex_digits(1), of "unat c mod 16", simplified]
  show ?case
    using snoc digits by (simp add: app number_append high and_0xf) (simp add: number_def)
qed

text \<open>
   \<^verbatim>\<open>ngx_hex_dump\<close> writes two digits per byte, and \<^verbatim>\<open>ngx_hextoi\<close> reads them back as the big-endian
  number the bytes spell, when that is below \<open>2\<^sup>6\<^sup>3\<close>.
\<close>

theorem hex_dump_roundtrip:
  assumes "src \<noteq> []" and "foldl (\<lambda>n c. n * 256 + unat c) 0 src < 2 ^ 63"
  shows "length (ngx_hex_dump src) = 2 * length src \<and>
    ngx_hextoi (ngx_hex_dump src) = Some (of_nat (foldl (\<lambda>n c. n * 256 + unat c) 0 src))"
proof -
  have "ngx_hex_dump src \<noteq> []" using assms(1) by (cases src) simp_all
  then show ?thesis using hextoi.reader_exact [of "ngx_hex_dump src"] hex_dump_digits [of src] assms(2) by simp
qed

theorem hex_dump_roundtrip_witness:
  "ngx_hex_dump [0x0f, 0xa0] = bytes ''0fa0'' \<and> ngx_hextoi (ngx_hex_dump [0x0f, 0xa0]) = Some 4000"
proof -
  have "ngx_hex_dump [0x0f, 0xa0] = bytes ''0fa0''" by (simp add: hex_def)
  with hex_dump_roundtrip [of "[0x0f, 0xa0]"] show ?thesis by simp
qed

section \<open>Fixed-point numbers\<close>

lemma atofp_scale_eq: "atofp_scale val k = val * 10 ^ k"
  by (induction val k rule: atofp_scale.induct) (simp_all add: algebra_simps)

lemma dec_digit_char:
  "dec_digit_value c \<noteq> None \<Longrightarrow> c \<noteq> ch_dot \<and> \<not> c < ch_0 \<and> \<not> c > ch_9 \<and>
   ucast c - ucast ch_0 = (of_nat (the (dec_digit_value c)) :: ngx_int_t)"
  by (auto simp: dec_digit_value_def word_less_nat_alt of_nat_diff split: if_splits)

lemma atofp_loop_integer:
  assumes "\<forall>c\<in>set s. dec_digit_value c \<noteq> None" and "0 < point"
  shows "atofp_loop (of_nat n) point False (s @ t) =
    atofp_loop (of_nat (number 10 dec_digit_value n s)) point False t"
  using assms
proof (induction s arbitrary: n)
  case Nil
  then show ?case by (simp add: number_def)
next
  case (Cons c s)
  have "atofp_loop (of_nat n) point False ((c # s) @ t) =
      atofp_loop (of_nat (n * 10 + the (dec_digit_value c))) point False (s @ t)"
    using Cons.prems dec_digit_char [of c] by simp
  also have "\<dots> = atofp_loop (of_nat (number 10 dec_digit_value (n * 10 + the (dec_digit_value c)) s)) point False t"
    using Cons.prems by (intro Cons.IH) simp_all
  finally show ?case by (simp add: number_def)
qed

lemma atofp_loop_fraction:
  assumes "\<forall>c\<in>set s. dec_digit_value c \<noteq> None"
  shows "atofp_loop (of_nat n) point True s =
    (if length s \<le> point then Some (of_nat (number 10 dec_digit_value n s), point - length s) else None)"
  using assms
proof (induction s arbitrary: n point)
  case Nil
  then show ?case by (simp add: number_def)
next
  case (Cons c s)
  show ?case
  proof (cases point)
    case 0
    then show ?thesis by simp
  next
    case (Suc k)
    have "atofp_loop (of_nat n) point True (c # s) =
        atofp_loop (of_nat (n * 10 + the (dec_digit_value c))) k True s"
      using Cons.prems dec_digit_char [of c] Suc by simp
    also have "\<dots> = (if length s \<le> k
        then Some (of_nat (number 10 dec_digit_value (n * 10 + the (dec_digit_value c)) s), k - length s) else None)"
      using Cons.prems by (intro Cons.IH) simp_all
    finally show ?thesis using Suc by (simp add: number_def)
  qed
qed

text \<open>
   \<^verbatim>\<open>ngx_atofp\<close> reads a fixed-point number: digits, and optionally a point with at most \<open>point\<close>
  digits behind it, give the value scaled by \<open>10\<^sup>p\<^sup>o\<^sup>i\<^sup>n\<^sup>t\<close> when that is below \<open>2\<^sup>6\<^sup>3\<close>; with more digits
  behind the point, or when no place is asked for, it is an error.
\<close>

theorem atofp_fixed_point:
  assumes "\<forall>c\<in>set (whole @ frac). dec_digit_value c \<noteq> None" and "0 < point"
  shows "ngx_atofp (whole @ [ch_dot] @ frac) point =
    (if length frac \<le> point
     then not_negative (of_nat (number 10 dec_digit_value 0 (whole @ frac) * 10 ^ (point - length frac)))
     else None) \<and>
    (whole \<noteq> [] \<longrightarrow> ngx_atofp whole point =
      not_negative (of_nat (number 10 dec_digit_value 0 whole * 10 ^ point)))"
proof -
  have dot: "atofp_loop v point False (ch_dot # frac) = atofp_loop v point True frac" for v
    using assms(2) by simp
  have "atofp_loop (of_nat 0) point False (whole @ [ch_dot] @ frac) =
      atofp_loop (of_nat (number 10 dec_digit_value 0 whole)) point True frac"
    using assms atofp_loop_integer [of whole point 0 "[ch_dot] @ frac"] dot by simp
  moreover have "atofp_loop (of_nat 0) point False whole =
      Some (of_nat (number 10 dec_digit_value 0 whole), point)"
    using assms atofp_loop_integer [of whole point 0 "[]"] by simp
  ultimately show ?thesis
    using assms(1) atofp_loop_fraction [of frac]
    by (simp add: ngx_atofp_def atofp_scale_eq number_append)
qed

theorem atofp_fixed_point_witness:
  "ngx_atofp (bytes ''10'' @ [ch_dot] @ bytes ''5'') 2 = Some 1050 \<and>
   ngx_atofp (bytes ''10'' @ [ch_dot] @ bytes ''555'') 2 = None"
proof -
  have "\<forall>c\<in>set (bytes ''10'' @ bytes ''5''). dec_digit_value c \<noteq> None"
    "\<forall>c\<in>set (bytes ''10'' @ bytes ''555''). dec_digit_value c \<noteq> None"
    by (simp_all add: dec_digit_value_def)
  from atofp_fixed_point [OF this(1), of 2] atofp_fixed_point [OF this(2), of 2] show ?thesis
    by (simp add: not_negative_def number_def dec_digit_value_def)
qed

end
