(* ===== verification/Ngx_Sort.thy ===== *)
theory Ngx_Sort
  imports Ngx_String "HOL-Library.Multiset"
begin

text \<open>
  \<^verbatim>\<open>ngx_sort\<close> of \<^verbatim>\<open>src/core/ngx_string.c\<close>: insertion sort of an array of \<open>n\<close> elements with a
  caller's comparison, done in place with one spare element.  The comment in the code promises a stable
  sort; the lemmas show that it is one for every comparison that orders the elements by a key, and
  \<^verbatim>\<open>ngx_dns_strcmp\<close>, with which the configuration sorts wildcard names, is such a comparison.
\<close>

section \<open>The two loops\<close>

text \<open>
  \<^verbatim>\<open>for (p2 = p1; p2 > base && cmp(p2 - size, p) > 0; p2 -= size) memcpy(p2, p2 - size)\<close>: the array
  and the index of \<^verbatim>\<open>p2\<close>.
\<close>

fun sort_shift :: "('a \<Rightarrow> 'a \<Rightarrow> int) \<Rightarrow> 'a \<Rightarrow> 'a list \<Rightarrow> nat \<Rightarrow> 'a list \<times> nat" where
  "sort_shift cmp p a 0 = (a, 0)"
| "sort_shift cmp p a (Suc i) =
     (if cmp (a ! i) p > 0 then sort_shift cmp p (a[Suc i := a ! i]) i else (a, Suc i))"

text \<open>One round of the outer loop: \<open>a ! i\<close> is saved, the larger elements are shifted, it is put back.\<close>

definition sort_round :: "('a \<Rightarrow> 'a \<Rightarrow> int) \<Rightarrow> 'a list \<Rightarrow> nat \<Rightarrow> 'a list" where
  "sort_round cmp a i = (let p = a ! i; (a', j) = sort_shift cmp p a i in a'[j := p])"

text \<open>The spare element is allocated first; without it the array is left alone.\<close>

definition ngx_sort :: "bool \<Rightarrow> ('a \<Rightarrow> 'a \<Rightarrow> int) \<Rightarrow> 'a list \<Rightarrow> 'a list" where
  "ngx_sort allocated cmp a =
     (if \<not> allocated then a else foldl (sort_round cmp) a [1..<length a])"

section \<open>One insertion\<close>

lemma sort_shift_spec:
  "i < length a \<Longrightarrow> sort_shift cmp p a i = (a', j) \<Longrightarrow>
   j \<le> i \<and> a'[j := p] = take j a @ p # drop j (take i a) @ drop (Suc i) a \<and>
   (\<forall>k. j \<le> k \<and> k < i \<longrightarrow> cmp (a ! k) p > 0) \<and> (j = 0 \<or> \<not> cmp (a ! (j - 1)) p > 0)"
proof (induction i arbitrary: a)
  case 0
  then show ?case by (cases a) auto
next
  case (Suc i)
  show ?case
  proof (cases "cmp (a ! i) p > 0")
    case False
    with Suc.prems have "a' = a" "j = Suc i" by auto
    with False Suc.prems(1) show ?thesis by (simp add: upd_conv_take_nth_drop)
  next
    case True
    let ?b = "a[Suc i := a ! i]"
    have b: "sort_shift cmp p ?b i = (a', j)" "i < length ?b" using True Suc.prems by auto
    from Suc.IH [OF b(2,1)] have j: "j \<le> i"
      and eq: "a'[j := p] = take j ?b @ p # drop j (take i ?b) @ drop (Suc i) ?b"
      and big: "\<forall>k. j \<le> k \<and> k < i \<longrightarrow> cmp (?b ! k) p > 0"
      and stop: "j = 0 \<or> \<not> cmp (?b ! (j - 1)) p > 0" by blast+
    have "drop (Suc i) ?b = a ! i # drop (Suc (Suc i)) a"
      using Suc.prems(1) by (simp add: drop_update_swap Cons_nth_drop_Suc [symmetric])
    moreover have "drop j (take (Suc i) a) = drop j (take i a) @ [a ! i]"
      using Suc.prems(1) j by (simp add: take_Suc_conv_app_nth)
    ultimately have "a'[j := p] = take j a @ p # drop j (take (Suc i) a) @ drop (Suc (Suc i)) a"
      using eq j by simp
    moreover have "\<forall>k. j \<le> k \<and> k < Suc i \<longrightarrow> cmp (a ! k) p > 0"
      using big True by (auto simp: less_Suc_eq)
    moreover have "j = 0 \<or> \<not> cmp (a ! (j - 1)) p > 0" using stop j by auto
    ultimately show ?thesis using j by simp
  qed
qed

section \<open>Sorting by a key\<close>

text \<open>
  What a client of \<^verbatim>\<open>ngx_sort\<close> must provide: on the elements it sorts, the comparison is positive
  exactly when the first has the larger key.
\<close>

locale key_order =
  fixes cmp :: "'a \<Rightarrow> 'a \<Rightarrow> int" and key :: "'a \<Rightarrow> 'k::linorder" and carrier :: "'a set"
  assumes cmp_key: "x \<in> carrier \<Longrightarrow> y \<in> carrier \<Longrightarrow> cmp x y > 0 \<longleftrightarrow> key y < key x"
begin

lemma insert_sorted:
  assumes "sorted (map key s)" and "set s \<subseteq> carrier" and "p \<in> carrier" and "j \<le> length s"
    and "\<forall>k. j \<le> k \<and> k < length s \<longrightarrow> cmp (s ! k) p > 0" and "j = 0 \<or> \<not> cmp (s ! (j - 1)) p > 0"
  shows "(\<forall>x\<in>set (take j s). key x \<le> key p) \<and> (\<forall>x\<in>set (drop j s). key p < key x)"
proof
  have in_carrier: "s ! k \<in> carrier" if "k < length s" for k using that assms(2) nth_mem by blast
  show "\<forall>x\<in>set (take j s). key x \<le> key p"
  proof
    fix x assume "x \<in> set (take j s)"
    then obtain k where k: "k < j" "k < length s" "x = s ! k" by (auto simp: in_set_conv_nth)
    then have "key x \<le> key (s ! (j - 1))"
      using sorted_nth_mono [OF assms(1), of k "j - 1"] assms(4) by simp
    also have "j - 1 < length s" using k assms(4) by linarith
    then have "key (s ! (j - 1)) \<le> key p"
      using assms(6) k cmp_key [OF in_carrier assms(3)] by (auto simp: not_less)
    finally show "key x \<le> key p" .
  qed
  show "\<forall>x\<in>set (drop j s). key p < key x"
  proof
    fix x assume "x \<in> set (drop j s)"
    then obtain k where "k < length s - j" "x = s ! (j + k)" by (auto simp: in_set_conv_nth)
    then show "key p < key x" using assms(5) cmp_key [OF in_carrier assms(3)] by simp
  qed
qed

lemma round_sort_key:
  assumes "i < length a" and "set a \<subseteq> carrier"
  shows "sort_round cmp (sort_key key (take i a) @ drop i a) i = sort_key key (take (Suc i) a) @ drop (Suc i) a"
proof -
  let ?s = "sort_key key (take i a)" and ?p = "a ! i"
  let ?b = "?s @ drop i a"
  have len: "length ?s = i" using assms(1) by simp
  have bi: "?b ! i = ?p" using assms(1) len by (simp add: nth_append)
  obtain b' j where sh: "sort_shift cmp ?p ?b i = (b', j)" by fastforce
  have "i < length ?b" using assms(1) by simp
  note spec = sort_shift_spec [OF this sh]
  let ?new = "take j ?s @ ?p # drop j ?s"
  have "b'[j := ?p] = ?new @ drop (Suc i) a"
    using spec len assms(1) by simp
  then have round: "sort_round cmp ?b i = ?new @ drop (Suc i) a"
    unfolding sort_round_def bi by (simp add: sh)
  have carrier: "set ?s \<subseteq> carrier" "?p \<in> carrier"
    using assms by (auto dest: in_set_takeD)
  have nth: "?b ! k = ?s ! k" if "k < i" for k using that len by (simp add: nth_append)
  have big: "\<forall>k. j \<le> k \<and> k < length ?s \<longrightarrow> cmp (?s ! k) ?p > 0"
    unfolding len using spec nth by metis
  have stop: "j = 0 \<or> \<not> cmp (?s ! (j - 1)) ?p > 0"
    using spec nth [of "j - 1"] by (cases "j = 0") auto
  have parts: "\<forall>x\<in>set (take j ?s). key x \<le> key ?p" "\<forall>x\<in>set (drop j ?s). key ?p < key x"
    using insert_sorted [OF sorted_sort_key carrier _ big stop] spec unfolding len by blast+
  have take: "take (Suc i) a = take i a @ [?p]" using assms(1) by (simp add: take_Suc_conv_app_nth)
  have "sort_key key (take (Suc i) a) = ?new"
  proof (rule properties_for_sort_key)
    have "mset (take j ?s) + mset (drop j ?s) = mset ?s" by (metis append_take_drop_id mset_append)
    then show "mset ?new = mset (take (Suc i) a)" by (simp add: take)
    have "sorted (map key (take j ?s))" "sorted (map key (drop j ?s))"
      by (simp_all add: take_map [symmetric] drop_map [symmetric] sorted_wrt_take sorted_wrt_drop)
    with parts show "sorted (map key ?new)"
      by (auto simp: sorted_append) (meson le_less_trans less_imp_le)+
    fix k assume "k \<in> set ?new"
    have stable: "filter (\<lambda>x. key k = key x) ?s = filter (\<lambda>x. key k = key x) (take i a)"
      using sort_key_stable [of key "key k" "take i a"] by (simp add: eq_commute [of "key k"])
    have split: "filter (\<lambda>x. key k = key x) (take j ?s) @ filter (\<lambda>x. key k = key x) (drop j ?s) =
        filter (\<lambda>x. key k = key x) ?s"
      by (metis append_take_drop_id filter_append)
    show "filter (\<lambda>x. key k = key x) ?new = filter (\<lambda>x. key k = key x) (take (Suc i) a)"
    proof (cases "key k = key ?p")
      case True
      with parts have "filter (\<lambda>x. key k = key x) (drop j ?s) = []" by (auto simp: filter_empty_conv)
      with True stable split take show ?thesis by simp
    next
      case False
      with stable split take show ?thesis by simp
    qed
  qed
  with round show ?thesis by simp
qed

lemma sort_is_sort_key:
  assumes "set a \<subseteq> carrier"
  shows "ngx_sort True cmp a = sort_key key a"
proof -
  have "foldl (sort_round cmp) a [1..<n] = sort_key key (take n a) @ drop n a" if "n \<le> length a" "0 < n" for n
    using that
  proof (induction n)
    case (Suc n)
    show ?case
    proof (cases "n = 0")
      case True
      with Suc.prems show ?thesis by (cases a) simp_all
    next
      case False
      then have "[1..<Suc n] = [1..<n] @ [n]" by simp
      with False Suc round_sort_key [of n a] assms show ?thesis by simp
    qed
  qed simp
  from this [of "length a"] show ?thesis by (cases "a = []") (simp_all add: ngx_sort_def)
qed

end

section \<open>The order of wildcard names\<close>

text \<open>
  The comparison with which \<^verbatim>\<open>ngx_http_cmp_dns_wildcards\<close> calls \<^verbatim>\<open>ngx_dns_strcmp\<close> on two terminated
  keys.
\<close>

definition ngx_http_cmp_dns_wildcards :: "buffer \<Rightarrow> buffer \<Rightarrow> int" where
  "ngx_http_cmp_dns_wildcards one two =
     (case ngx_dns_strcmp (one @ [NUL]) (two @ [NUL]) of None \<Rightarrow> 0 | Some d \<Rightarrow> sint d)"

interpretation dns: key_order ngx_http_cmp_dns_wildcards dns_key "Collect dns_name"
proof
  fix x y assume "x \<in> Collect dns_name" "y \<in> Collect dns_name"
  then obtain d where d: "ngx_dns_strcmp (x @ [NUL]) (y @ [NUL]) = Some d" "decides d (dns_key x) (dns_key y)"
    using dns_strcmp_decides [of x y "[]" "[]"] by auto
  have "0 < sint d \<longleftrightarrow> \<not> sint d < 0 \<and> d \<noteq> 0" using signed_eq_0_iff [of d, where ?'a = int] by auto
  with d show "0 < ngx_http_cmp_dns_wildcards x y \<longleftrightarrow> dns_key y < dns_key x"
    by (auto simp: ngx_http_cmp_dns_wildcards_def decides_def)
qed

text \<open>
  C35.  \<^verbatim>\<open>ngx_sort\<close> is a stable sort: with the comparison of wildcard names it computes the stable
  sorting of the array by case-folded name with the dot lowest; and for any comparison that orders
  the elements by a key it yields the stable sorting by that key.  When the spare element cannot be
  allocated the array is unchanged.
\<close>

theorem sort_stable:
  "((\<forall>x\<in>set a. dns_name x) \<longrightarrow> ngx_sort True ngx_http_cmp_dns_wildcards a = sort_key dns_key a) \<and>
   ((\<forall>x\<in>set b. \<forall>y\<in>set b. cmp x y > 0 \<longleftrightarrow> key y < key x) \<longrightarrow> ngx_sort True cmp b = sort_key key b) \<and>
   ngx_sort False cmp b = b"
proof (intro conjI impI)
  show "ngx_sort True ngx_http_cmp_dns_wildcards a = sort_key dns_key a" if "\<forall>x\<in>set a. dns_name x"
    using that by (intro dns.sort_is_sort_key) auto
  show "ngx_sort True cmp b = sort_key key b" if "\<forall>x\<in>set b. \<forall>y\<in>set b. cmp x y > 0 \<longleftrightarrow> key y < key x"
    using that by (intro key_order.sort_is_sort_key [where carrier = "set b"] key_order.intro) auto
  show "ngx_sort False cmp b = b" by (simp add: ngx_sort_def)
qed

theorem sort_stable_witness:
  "ngx_sort True (\<lambda>(x, _) (y, _). x - y) [(2, True), (1, False), (2, False), (1 :: int, True)] =
   [(1, False), (1, True), (2, True), (2, False)]"
proof -
  let ?b = "[(2, True), (1, False), (2, False), (1 :: int, True)]"
  let ?cmp = "\<lambda>(x :: int, _ :: bool) (y, _ :: bool). x - y"
  have "\<forall>x\<in>set ?b. \<forall>y\<in>set ?b. ?cmp x y > 0 \<longleftrightarrow> fst y < fst x" by simp
  then have "ngx_sort True ?cmp ?b = sort_key fst ?b" using sort_stable [of "[]" ?b ?cmp fst] by blast
  then show ?thesis by simp
qed

end
