(* ===== verification/Http_Args.thy ===== *)
theory Http_Args
  imports Http_Request_Line Ngx_String "HOL-Library.Sublist"
begin

text \<open>
  The small parsers at the end of \<^verbatim>\<open>src/http/ngx_http_parse.c\<close>: \<^verbatim>\<open>ngx_http_parse_unsafe_uri\<close> (the check
  of URIs that do not come from the request line), \<^verbatim>\<open>ngx_http_parse_multi_header_lines\<close> (the lookup
  of a name in list-valued headers such as \<^verbatim>\<open>Cookie\<close>), \<^verbatim>\<open>ngx_http_arg\<close> (the lookup of a query argument)
  and \<^verbatim>\<open>ngx_http_split_args\<close>.  A string is its memory and its length where the code may look past the
  end, and the list of its bytes where it does not.
\<close>

section \<open>Unsafe URIs\<close>

text \<open>
  \<^verbatim>\<open>uri->len\<close> and \<^verbatim>\<open>args\<close> (start and length) on success; \<open>Unsafe\<close> is \<^verbatim>\<open>goto unsafe\<close>, which returns
  \<^verbatim>\<open>NGX_ERROR\<close>.
\<close>

datatype unsafe_result = Unsafe | Safe nat "(nat \<times> nat) option"

abbreviation ngx_path_separator :: "u_char \<Rightarrow> bool" where
  "ngx_path_separator c \<equiv> c = ch_slash"

text \<open>
  The loop, with \<open>len\<close> bytes left and the next one at \<open>i\<close>; \<^const>\<open>None\<close> is a read outside the memory.
\<close>

fun unsafe_loop :: "buffer \<Rightarrow> nat \<Rightarrow> nat \<Rightarrow> nat \<Rightarrow> unsafe_result option" where
  "unsafe_loop mem ulen i 0 = Some (Safe ulen None)"
| "unsafe_loop mem ulen i (Suc n) =
     (if length mem \<le> i then None
      else let ch = mem ! i; p = i + 1 in
        if in_table usual ch then unsafe_loop mem ulen p n
        else if ch = ch_qmark then Some (Safe (ulen - Suc n) (Some (p, n)))
        else if ch = NUL then Some Unsafe
        else if ngx_path_separator ch \<and> Suc n > 2 then
          if length mem \<le> p + 1 then None
          else if mem ! p = ch_dot \<and> mem ! (p + 1) = ch_dot then
            if length mem \<le> p + 2 then None
            else if ngx_path_separator (mem ! (p + 2)) then Some Unsafe
            else unsafe_loop mem ulen p n
          else unsafe_loop mem ulen p n
        else unsafe_loop mem ulen p n)"

definition ngx_http_parse_unsafe_uri :: "buffer \<Rightarrow> nat \<Rightarrow> unsafe_result option" where
  "ngx_http_parse_unsafe_uri mem len =
     (if len = 0 then Some Unsafe
      else if length mem < len then None
      else if mem ! 0 = ch_qmark then Some Unsafe
      else if mem ! 0 = ch_dot \<and> len = 3 \<and> mem ! 1 = ch_dot \<and> ngx_path_separator (mem ! 2)
      then Some Unsafe
      else unsafe_loop mem len 0 len)"

section \<open>Lookup in list-valued headers\<close>

text \<open>
  \<open>s\<close> is the rest of the header value, from \<^verbatim>\<open>start\<close> to \<^verbatim>\<open>end\<close>.  Header values are terminated by a
  NUL byte in place of the line end, which \<^verbatim>\<open>ngx_strncasecmp\<close> may see.
\<close>

definition skip_spaces :: "buffer \<Rightarrow> buffer" where
  "skip_spaces s = dropWhile (\<lambda>c. c = ch_space) s"

text \<open>The code after the label \<^verbatim>\<open>skip\<close>: past the next separator and the spaces behind it.\<close>

fun mh_skip_item :: "buffer \<Rightarrow> buffer" where
  "mh_skip_item [] = []"
| "mh_skip_item (ch # s) = (if ch = ch_semi \<or> ch = ch_comma then s else mh_skip_item s)"

definition mh_skip :: "buffer \<Rightarrow> buffer" where
  "mh_skip s = skip_spaces (mh_skip_item s)"

datatype mh_result = Mh_not_found | Mh_found buffer | Mh_fault

lemma length_mh_skip_item: "length (mh_skip_item s) \<le> length s - 1"
  by (induction s) (auto intro: le_trans)

lemma length_mh_skip: "length (mh_skip s) \<le> length s - 1"
  unfolding mh_skip_def skip_spaces_def
  by (rule le_trans [OF length_dropWhile_le length_mh_skip_item])

lemma length_skip_spaces: "length (skip_spaces s) \<le> length s"
  by (simp add: skip_spaces_def length_dropWhile_le)

text \<open>
  The \<^verbatim>\<open>while (start < end)\<close> loop on one header; \<open>want_value\<close> is \<^verbatim>\<open>value != NULL\<close>, and the value
  found is empty when none is wanted.
\<close>

function mh_value :: "buffer \<Rightarrow> bool \<Rightarrow> buffer \<Rightarrow> mh_result" where
  "mh_value name want_value s =
     (if s = [] then Mh_not_found
      else case ngx_strncasecmp (s @ [NUL]) name (length name) of
        None \<Rightarrow> Mh_fault
      | Some d \<Rightarrow>
          if d \<noteq> 0 then mh_value name want_value (mh_skip s)
          else let s' = skip_spaces (drop (length name) s) in
            if \<not> want_value then
              if s' = [] \<or> hd s' = ch_comma then Mh_found [] else mh_value name want_value (mh_skip s')
            else if s' = [] then mh_value name want_value (mh_skip s')
            else if hd s' \<noteq> ch_eq then mh_value name want_value (mh_skip (tl s'))
            else Mh_found (takeWhile (\<lambda>c. c \<noteq> ch_semi) (skip_spaces (tl s'))))"
  by pat_completeness auto
termination
proof (relation "measure (\<lambda>(name, w, s). length s)", goal_cases)
  case (2 name w s d)
  then have "0 < length s" by simp
  with length_mh_skip [of s] have "length (mh_skip s) < length s" by linarith
  then show ?case by simp
next
  case (3 name w s d s')
  then have "0 < length s" "length s' \<le> length s"
    using length_skip_spaces [of "drop (length name) s"] by simp_all
  with length_mh_skip [of s'] have "length (mh_skip s') < length s" by linarith
  then show ?case by simp
next
  case (4 name w s d s')
  then have "0 < length s" "length s' = 0" by simp_all
  with length_mh_skip [of s'] have "length (mh_skip s') < length s" by linarith
  then show ?case by simp
next
  case (5 name w s d s')
  then have "0 < length s" "length s' \<le> length s"
    using length_skip_spaces [of "drop (length name) s"] by simp_all
  moreover have "length (tl s') \<le> length s'" by simp
  ultimately have "length (mh_skip (tl s')) < length s" using length_mh_skip [of "tl s'"] by linarith
  then show ?case by simp
qed simp

declare mh_value.simps [simp del]

text \<open>The loop over the headers: the index of the header and the value; \<^verbatim>\<open>NGX_DECLINED\<close> otherwise.\<close>

fun mh_headers :: "buffer \<Rightarrow> bool \<Rightarrow> nat \<Rightarrow> buffer list \<Rightarrow> (nat \<times> buffer) option option" where
  "mh_headers name want_value i [] = Some None"
| "mh_headers name want_value i (h # hs) =
     (if length name > length h then mh_headers name want_value (i + 1) hs
      else case mh_value name want_value h of
             Mh_fault \<Rightarrow> None
           | Mh_found v \<Rightarrow> Some (Some (i, v))
           | Mh_not_found \<Rightarrow> mh_headers name want_value (i + 1) hs)"

definition ngx_http_parse_multi_header_lines ::
  "buffer list \<Rightarrow> buffer \<Rightarrow> bool \<Rightarrow> (nat \<times> buffer) option option"
where
  "ngx_http_parse_multi_header_lines headers name want_value = mh_headers name want_value 0 headers"

section \<open>Query arguments\<close>

text \<open>
  \<^verbatim>\<open>ngx_http_arg\<close>: \<open>p\<close> is an index into the arguments.  The result is the start and the length of the
  value, \<^const>\<open>None\<close> for \<^verbatim>\<open>NGX_DECLINED\<close>, under an outer option for reads outside the arguments.
\<close>

function arg_loop :: "buffer \<Rightarrow> buffer \<Rightarrow> nat \<Rightarrow> (nat \<times> nat) option option" where
  "arg_loop args name p =
     (if p < length args then
        (case ngx_strlcasestrn (drop p args) (length args - 1 - p) name (length name - 1) of
           None \<Rightarrow> None
         | Some None \<Rightarrow> Some None
         | Some (Some j) \<Rightarrow>
             (let q = p + j in
              if length args \<le> q + length name then None
              else if (q = 0 \<or> args ! (q - 1) = ch_amp) \<and> args ! (q + length name) = ch_eq then
                (let start = q + length name + 1;
                     e = (case ngx_strlchr (drop q args) ch_amp q of None \<Rightarrow> length args | Some e \<Rightarrow> e)
                 in Some (Some (start, e - start)))
              else arg_loop args name (q + 1)))
      else Some None)"
  by pat_completeness auto
termination
  by (relation "measure (\<lambda>(args, name, p). length args - p)") auto

declare arg_loop.simps [simp del]

definition ngx_http_arg :: "buffer \<Rightarrow> buffer \<Rightarrow> (nat \<times> nat) option option" where
  "ngx_http_arg args name = (if length args = 0 then Some None else arg_loop args name 0)"

text \<open>\<^verbatim>\<open>ngx_http_split_args\<close>: the path and the arguments.\<close>

definition ngx_http_split_args :: "buffer \<Rightarrow> buffer \<times> buffer" where
  "ngx_http_split_args u =
     (case ngx_strlchr u ch_qmark 0 of
        Some p \<Rightarrow> (take p u, drop (p + 1) u)
      | None \<Rightarrow> (u, []))"

section \<open>What the URI check accepts\<close>

definition uri_clean :: "buffer \<Rightarrow> bool" where
  "uri_clean s \<longleftrightarrow> NUL \<notin> set s \<and> ch_qmark \<notin> set s \<and> \<not> sublist (bytes ''/../'') s"

definition mem_slice :: "buffer \<Rightarrow> nat \<Rightarrow> nat \<Rightarrow> buffer" where
  "mem_slice mem i k = take (k - i) (drop i mem)"

text \<open>What holds of the result when the loop is at index \<open>i\<close>.\<close>

fun unsafe_ok :: "buffer \<Rightarrow> nat \<Rightarrow> nat \<Rightarrow> unsafe_result \<Rightarrow> bool" where
  "unsafe_ok mem ulen i Unsafe \<longleftrightarrow> True"
| "unsafe_ok mem ulen i (Safe k None) \<longleftrightarrow> k = ulen \<and> i \<le> k \<and> uri_clean (mem_slice mem i k)"
| "unsafe_ok mem ulen i (Safe k (Some (s, l))) \<longleftrightarrow>
     i \<le> k \<and> k < ulen \<and> mem ! k = ch_qmark \<and> s = k + 1 \<and> l = ulen - s \<and> uri_clean (mem_slice mem i k)"

lemma mem_slice_Cons: "i < k \<Longrightarrow> i < length mem \<Longrightarrow> mem_slice mem i k = mem ! i # mem_slice mem (i + 1) k"
  unfolding mem_slice_def by (simp add: Suc_diff_Suc [symmetric] Cons_nth_drop_Suc [symmetric])

lemma mem_slice_same [simp]: "mem_slice mem i i = []"
  by (simp add: mem_slice_def)

lemma uri_clean_Nil [simp]: "uri_clean []"
  by (simp add: uri_clean_def)

definition updir_at :: "buffer \<Rightarrow> nat \<Rightarrow> nat \<Rightarrow> bool" where
  "updir_at mem i k \<longleftrightarrow> i + 4 \<le> k \<and> mem ! i = ch_slash \<and> mem ! (i + 1) = ch_dot \<and>
     mem ! (i + 2) = ch_dot \<and> mem ! (i + 3) = ch_slash"

lemma prefix_updir:
  assumes "prefix (bytes ''/../'') (mem_slice mem i k)" and "k \<le> length mem"
  shows "updir_at mem i k"
proof -
  from assms(1) have len: "4 \<le> length (mem_slice mem i k)" using prefix_length_le by fastforce
  then have k: "i + 4 \<le> k" by (simp add: mem_slice_def) linarith
  have "mem_slice mem i k ! j = bytes ''/../'' ! j" if "j < 4" for j
    using assms(1) that by (auto simp: prefix_def less_Suc_eq eval_nat_numeral)
  moreover have "mem_slice mem i k ! j = mem ! (i + j)" if "j < 4" for j
    using that k assms(2) by (simp add: mem_slice_def)
  ultimately have "mem ! (i + j) = bytes ''/../'' ! j" if "j < 4" for j using that by metis
  from this [of 0] this [of 1] this [of 2] this [of 3] k show ?thesis
    by (simp add: updir_at_def numeral_2_eq_2 numeral_3_eq_3)
qed

lemma uri_clean_slice:
  assumes "i < k" "k \<le> length mem" and "uri_clean (mem_slice mem (i + 1) k)"
    and "mem ! i \<noteq> NUL" "mem ! i \<noteq> ch_qmark" "\<not> updir_at mem i k"
  shows "uri_clean (mem_slice mem i k)"
proof -
  have eq: "mem_slice mem i k = mem ! i # mem_slice mem (i + 1) k" using assms by (intro mem_slice_Cons) auto
  have "\<not> prefix (bytes ''/../'') (mem_slice mem i k)" using prefix_updir assms by blast
  with assms(3-5) show ?thesis unfolding eq uri_clean_def by (auto simp: sublist_Cons_right)
qed

lemma unsafe_ok_step:
  assumes "unsafe_ok mem ulen (i + 1) res" and "i < ulen" "ulen \<le> length mem"
    and "mem ! i \<noteq> NUL" "mem ! i \<noteq> ch_qmark" "\<not> updir_at mem i ulen"
  shows "unsafe_ok mem ulen i res"
proof -
  have "\<not> updir_at mem i k" if "k \<le> ulen" for k using assms(6) that by (auto simp: updir_at_def)
  then have clean: "uri_clean (mem_slice mem i k)"
    if "uri_clean (mem_slice mem (i + 1) k)" "i + 1 \<le> k" "k \<le> ulen" for k
    using that assms uri_clean_slice [of i k mem] by simp
  show ?thesis
  proof (cases "(mem, ulen, i + 1, res)" rule: unsafe_ok.cases)
    case (2 mem' ulen' i' k)
    with assms(1) clean [of k] show ?thesis by auto
  next
    case (3 mem' ulen' i' k s l)
    with assms(1) clean [of k] show ?thesis by auto
  qed simp
qed

lemma unsafe_loop_spec:
  "ulen = i + n \<Longrightarrow> ulen < length mem \<Longrightarrow>
   \<exists>res. unsafe_loop mem ulen i n = Some res \<and> unsafe_ok mem ulen i res"
proof (induction n arbitrary: i)
  case 0
  then show ?case by simp
next
  case (Suc n)
  have i: "i < length mem" "i < ulen" "ulen \<le> length mem" using Suc.prems by simp_all
  obtain res where res: "unsafe_loop mem ulen (i + 1) n = Some res" "unsafe_ok mem ulen (i + 1) res"
    using Suc.IH [of "i + 1"] Suc.prems by auto
  note go_on = unsafe_ok_step [OF res(2) i(2,3)]
  consider "in_table usual (mem ! i)" | "mem ! i = ch_qmark" | "mem ! i = NUL"
    | "mem ! i = ch_slash" "mem ! (i + 1) = ch_dot" "mem ! (i + 2) = ch_dot" "mem ! (i + 3) = ch_slash" "2 \<le> n"
    | "\<not> in_table usual (mem ! i)" "mem ! i \<noteq> ch_qmark" "mem ! i \<noteq> NUL"
      "mem ! i = ch_slash \<Longrightarrow> n < 2 \<or> \<not> (mem ! (i + 1) = ch_dot \<and> mem ! (i + 2) = ch_dot \<and> mem ! (i + 3) = ch_slash)"
    by linarith
  then show ?case
  proof cases
    case 1
    then have "mem ! i \<noteq> NUL" "mem ! i \<noteq> ch_qmark" "mem ! i \<noteq> ch_slash" by (auto simp: usual_iff)
    with 1 go_on res(1) i show ?thesis by (simp add: updir_at_def)
  next
    case 2
    with i Suc.prems show ?thesis by (simp add: usual_iff)
  next
    case 3
    with i show ?thesis by (simp add: usual_iff)
  next
    case 4
    with i Suc.prems show ?thesis by (simp add: usual_iff numeral_3_eq_3 numeral_2_eq_2)
  next
    case 5
    have "\<not> updir_at mem i ulen" using 5(4) Suc.prems(1) by (auto simp: updir_at_def)
    moreover have "unsafe_loop mem ulen i (Suc n) = unsafe_loop mem ulen (i + 1) n"
      using 5 i Suc.prems by (auto simp: Let_def numeral_3_eq_3 numeral_2_eq_2)
    ultimately show ?thesis using go_on 5 res(1) by simp
  qed
qed

text \<open>
  With one readable byte behind the string (the code looks at \<^verbatim>\<open>p[2]\<close> when only two bytes are
  left), the check returns, and a URI it accepts is cut at the first question mark, what follows it
  being the arguments, and contains no NUL byte and no \<open>/../\<close> before it.
\<close>

theorem unsafe_uri_accepts_clean:
  assumes "len < length mem"
  shows "\<exists>res. ngx_http_parse_unsafe_uri mem len = Some res \<and>
    (\<forall>k. res = Safe k None \<longrightarrow> k = len \<and> uri_clean (take len mem)) \<and>
    (\<forall>k s l. res = Safe k (Some (s, l)) \<longrightarrow> k < len \<and> uri_clean (take k mem) \<and> mem ! k = ch_qmark \<and>
       s = k + 1 \<and> l = len - s)"
proof -
  obtain res where "unsafe_loop mem len 0 len = Some res" "unsafe_ok mem len 0 res"
    using unsafe_loop_spec [of len 0 len mem] assms by auto
  moreover have "mem_slice mem 0 k = take k mem" for k by (simp add: mem_slice_def)
  ultimately show ?thesis using assms by (auto simp: ngx_http_parse_unsafe_uri_def)
qed

theorem unsafe_uri_accepts_clean_witness:
  "\<exists>res. ngx_http_parse_unsafe_uri (bytes ''/a?b '') 4 = Some res \<and>
    (\<forall>k s l. res = Safe k (Some (s, l)) \<longrightarrow> k < 4 \<and> uri_clean (take k (bytes ''/a?b '')))"
  using unsafe_uri_accepts_clean [of 4 "bytes ''/a?b ''"] by fastforce

text \<open>
  The check of a leading parent directory compares the length with three instead of asking for at
  least three: \<^verbatim>\<open>../\<close> is refused but every longer URI that starts with it is accepted; and \<^verbatim>\<open>/..\<close> at
  the very end of the memory is a read one byte past it.
\<close>

theorem unsafe_uri_leading_updir:
  "ngx_http_parse_unsafe_uri (bytes ''../'' @ [NUL]) 3 = Some Unsafe \<and>
   ngx_http_parse_unsafe_uri (bytes ''../etc'' @ [NUL]) 6 = Some (Safe 6 None) \<and>
   ngx_http_parse_unsafe_uri (bytes ''/..'') 3 = None"
  by code_simp

section \<open>What the argument lookup finds\<close>

text \<open>The name of an argument at \<open>q\<close>: at the start or after an ampersand, and before an equals sign.\<close>

definition arg_at :: "buffer \<Rightarrow> buffer \<Rightarrow> nat \<Rightarrow> bool" where
  "arg_at args name q \<longleftrightarrow> q + length name < length args \<and> occurs ngx_tolower name args q \<and>
     (q = 0 \<or> args ! (q - 1) = ch_amp) \<and> args ! (q + length name) = ch_eq"

definition arg_value :: "buffer \<Rightarrow> buffer \<Rightarrow> nat \<Rightarrow> nat \<times> nat" where
  "arg_value args name q =
     (let start = q + length name + 1;
          e = (case ngx_strlchr (drop q args) ch_amp q of None \<Rightarrow> length args | Some e \<Rightarrow> e)
      in (start, e - start))"

lemma arg_search:
  assumes "name \<noteq> []" and "NUL \<notin> set name" and "p < length args"
  shows "\<exists>r. ngx_strlcasestrn (drop p args) (length args - 1 - p) name (length name - 1) = Some r \<and>
    finds (\<lambda>j. p + j + length name < length args \<and> occurs ngx_tolower name args (p + j)) r"
proof -
  obtain c t where name: "name = c # t" using assms(1) by (cases name) auto
  let ?len = "length args - 1 - p"
  have occ: "occurs ngx_tolower name (drop p args) j = occurs ngx_tolower name args (p + j)" for j
    by (simp add: occurs_def add.commute)
  show ?thesis
  proof (cases "length t \<le> ?len")
    case True
    then have len: "(?len - length t) + length t \<le> length (drop p args)" using assms(3) by simp
    have iff: "j < ?len - length t \<longleftrightarrow> p + j + length name < length args" for j
      using True assms(3) by (auto simp: name)
    from strlcasestrn_finds [OF len, of c "[]" 0] assms(2) obtain r where
      "strlcasestrn_loop (ngx_tolower c) t (length t) (drop p args) (?len - length t) 0 = Some r"
      "finds (\<lambda>j. j < ?len - length t \<and> occurs ngx_tolower (c # t) (drop p args) j) r"
      by (auto simp: name option.map_ident)
    then show ?thesis unfolding iff name [symmetric] occ
      by (intro exI [of _ r]) (simp add: ngx_strlcasestrn_def name)
  next
    case False
    then have "\<not> p + j + length name < length args" for j by (auto simp: name)
    moreover have "?len - length t = 0" using False by simp
    ultimately show ?thesis by (intro exI [of _ None]) (simp add: ngx_strlcasestrn_def name finds_def)
  qed
qed

lemma finds_from:
  assumes "finds (\<lambda>x. Suc q \<le> x \<and> P x) r" and "p \<le> q" and "\<And>x. p \<le> x \<Longrightarrow> x \<le> q \<Longrightarrow> \<not> P x"
  shows "finds (\<lambda>x. p \<le> x \<and> P x) r"
  using assms by (fastforce simp: finds_def not_less_eq_eq split: option.splits)

lemma arg_loop_finds:
  assumes "name \<noteq> []" and "NUL \<notin> set name"
  shows "\<exists>r. arg_loop args name p = Some (map_option (arg_value args name) r) \<and>
    finds (\<lambda>q. p \<le> q \<and> arg_at args name q) r"
proof (induction "length args - p" arbitrary: p rule: less_induct)
  case less
  show ?case
  proof (cases "p < length args")
    case False
    then show ?thesis by (intro exI [of _ None]) (auto simp: arg_loop.simps finds_def arg_at_def)
  next
    case True
    obtain j where j: "ngx_strlcasestrn (drop p args) (length args - 1 - p) name (length name - 1) = Some j"
      "finds (\<lambda>j. p + j + length name < length args \<and> occurs ngx_tolower name args (p + j)) j"
      using arg_search [OF assms True] by blast
    show ?thesis
    proof (cases j)
      case None
      have "\<not> arg_at args name q" if "p \<le> q" for q
        using j(2) None that by (auto simp: finds_def arg_at_def dest!: le_Suc_ex)
      with True j(1) None show ?thesis
        by (intro exI [of _ None]) (auto simp: arg_loop.simps [of args name p] finds_def)
    next
      case (Some i)
      let ?q = "p + i"
      have q: "?q + length name < length args" "occurs ngx_tolower name args ?q"
        using j(2) Some by (auto simp: finds_def)
      have before: "\<not> arg_at args name x" if "p \<le> x" "x < ?q" for x
        using j(2) Some that by (auto simp: finds_def arg_at_def dest!: le_Suc_ex)
      show ?thesis
      proof (cases "arg_at args name ?q")
        case hit: True
        then have "arg_loop args name p = Some (Some (arg_value args name ?q))"
          using True j(1) Some q by (auto simp: arg_loop.simps [of args name p] arg_at_def arg_value_def Let_def)
        with hit before show ?thesis by (intro exI [of _ "Some ?q"]) (auto simp: finds_def)
      next
        case miss: False
        then have step: "arg_loop args name p = arg_loop args name (Suc ?q)"
          using True j(1) Some q by (auto simp: arg_loop.simps [of args name p] arg_at_def Let_def)
        have "length args - Suc ?q < length args - p" using q True by linarith
        from less [OF this] obtain r where
          "arg_loop args name (Suc ?q) = Some (map_option (arg_value args name) r)"
          "finds (\<lambda>q. Suc ?q \<le> q \<and> arg_at args name q) r" by blast
        moreover have "finds (\<lambda>q. p \<le> q \<and> arg_at args name q) r"
          by (rule finds_from [OF calculation(2)]) (use before miss in \<open>auto simp: le_less\<close>)
        ultimately show ?thesis using step by auto
      qed
    qed
  qed
qed

lemma ngx_strlchr_eq:
  "ngx_strlchr s c i = (if c \<in> set s then Some (i + length (takeWhile (\<lambda>x. x \<noteq> c) s)) else None)"
  by (induction s arbitrary: i) auto

lemma arg_value_takeWhile:
  assumes "arg_at args name q" and "ch_amp \<notin> set name"
  shows "arg_value args name q =
    (q + length name + 1, length (takeWhile (\<lambda>x. x \<noteq> ch_amp) (drop (q + length name + 1) args)))"
proof -
  let ?n = "length name + 1"
  define A where "A = take ?n (drop q args)"
  define B where "B = drop (q + length name + 1) args"
  have split: "drop q args = A @ B"
    unfolding A_def B_def by (metis add.assoc add.commute append_take_drop_id drop_drop)
  have len: "length A = ?n" "q + ?n \<le> length args" using assms(1) by (auto simp: arg_at_def A_def)
  have ci: "map ngx_tolower (take (length name) (drop q args)) = map ngx_tolower name"
    using assms(1) by (simp add: arg_at_def occurs_def)
  have "take (length name) (drop q args) ! k \<noteq> ch_amp" if "k < length name" for k
  proof
    assume "take (length name) (drop q args) ! k = ch_amp"
    moreover have "ngx_tolower (take (length name) (drop q args) ! k) = ngx_tolower (name ! k)"
      using arg_cong [OF ci, of "\<lambda>l. l ! k"] that len by simp
    moreover have "ngx_tolower (name ! k) = ngx_tolower ch_amp \<longleftrightarrow> name ! k = ch_amp"
      by (auto simp: word_unat_eq_iff unat_tolower)
    ultimately show False using assms(2) that nth_mem by metis
  qed
  moreover have "length (take (length name) (drop q args)) = length name" using assms(1) by (auto simp: arg_at_def)
  ultimately have "ch_amp \<notin> set (take (length name) (drop q args))" by (metis in_set_conv_nth)
  moreover have "A = take (length name) (drop q args) @ [args ! (q + length name)]"
    using len take_Suc_conv_app_nth [of "length name" "drop q args"] by (simp add: A_def)
  ultimately have A: "ch_amp \<notin> set A" using assms(1) by (simp add: arg_at_def)
  show ?thesis
  proof (cases "ch_amp \<in> set B")
    case True
    have "takeWhile (\<lambda>x. x \<noteq> ch_amp) (drop q args) = A @ takeWhile (\<lambda>x. x \<noteq> ch_amp) B"
      unfolding split by (rule takeWhile_append2) (use A in auto)
    moreover have "ch_amp \<in> set (drop q args)" unfolding split using True by simp
    ultimately have "ngx_strlchr (drop q args) ch_amp q = Some (q + (?n + length (takeWhile (\<lambda>x. x \<noteq> ch_amp) B)))"
      using len by (simp add: ngx_strlchr_eq)
    then show ?thesis by (simp add: arg_value_def Let_def B_def)
  next
    case False
    then have "ch_amp \<notin> set (drop q args)" unfolding split using A by simp
    then have "arg_value args name q = (q + length name + 1, length B)"
      by (simp add: arg_value_def Let_def ngx_strlchr_eq B_def)
    moreover have "takeWhile (\<lambda>x. x \<noteq> ch_amp) B = B" using False by (auto simp: takeWhile_eq_all_conv)
    ultimately show ?thesis by (simp only: B_def)
  qed
qed

text \<open>
  C33.  \<^verbatim>\<open>ngx_http_arg\<close> stays inside the arguments and finds the first argument of that name, with case
  ignored: its name starts the string or follows an ampersand and an equals sign follows it.  The value
  is everything up to the next ampersand or the end.  It declines when there is no such argument.
\<close>

theorem http_arg_finds_first:
  assumes "name \<noteq> []" and "NUL \<notin> set name" and "ch_amp \<notin> set name"
  shows "\<exists>r. ngx_http_arg args name =
      Some (map_option (\<lambda>q. (q + length name + 1,
        length (takeWhile (\<lambda>x. x \<noteq> ch_amp) (drop (q + length name + 1) args)))) r) \<and>
    finds (arg_at args name) r"
proof (cases "args = []")
  case True
  then show ?thesis by (intro exI [of _ None]) (simp add: ngx_http_arg_def finds_def arg_at_def)
next
  case False
  obtain r where "arg_loop args name 0 = Some (map_option (arg_value args name) r)" "finds (arg_at args name) r"
    using arg_loop_finds [OF assms(1,2), of args 0] by auto
  then show ?thesis using False arg_value_takeWhile [OF _ assms(3)]
    by (intro exI [of _ r]) (auto simp: ngx_http_arg_def finds_def split: option.splits)
qed

theorem http_arg_finds_first_witness:
  "\<exists>r. ngx_http_arg (bytes ''xid=1&ID=25&q'') (bytes ''id'') =
      Some (map_option (\<lambda>q. (q + length (bytes ''id'') + 1,
        length (takeWhile (\<lambda>x. x \<noteq> ch_amp) (drop (q + length (bytes ''id'') + 1) (bytes ''xid=1&ID=25&q''))))) r) \<and>
    finds (arg_at (bytes ''xid=1&ID=25&q'') (bytes ''id'')) r"
  by (rule http_arg_finds_first) simp_all

text \<open>
   \<^verbatim>\<open>ngx_http_split_args\<close> cuts the URI at its first question mark, so that the parts give it back.
\<close>

theorem split_args_join:
  "case ngx_http_split_args u of (path, args) \<Rightarrow>
     ch_qmark \<notin> set path \<and> (if ch_qmark \<in> set u then u = path @ [ch_qmark] @ args else path = u \<and> args = [])"
proof (cases "ch_qmark \<in> set u")
  case False
  then show ?thesis by (simp add: ngx_http_split_args_def ngx_strlchr_eq)
next
  case True
  then obtain ys zs where u: "u = ys @ ch_qmark # zs" "ch_qmark \<notin> set ys" by (meson split_list_first)
  then have "takeWhile (\<lambda>x. x \<noteq> ch_qmark) u = ys"
    using takeWhile_append2 [of ys "\<lambda>x. x \<noteq> ch_qmark" "ch_qmark # zs"] by fastforce
  with u show ?thesis by (simp add: ngx_http_split_args_def ngx_strlchr_eq)
qed

section \<open>What the header lookup finds\<close>

text \<open>A list-valued header such as \<^verbatim>\<open>Cookie\<close>: items \<open>key=value\<close> joined by a semicolon and a space.\<close>

fun print_items :: "(buffer \<times> buffer) list \<Rightarrow> buffer" where
  "print_items [] = []"
| "print_items [(k, v)] = k @ ch_eq # v"
| "print_items ((k, v) # kvs) = k @ ch_eq # v @ ch_semi # ch_space # print_items kvs"

definition item_key :: "buffer \<Rightarrow> bool" where
  "item_key k \<longleftrightarrow> k \<noteq> [] \<and> set k \<inter> {NUL, ch_space, ch_eq, ch_semi, ch_comma} = {}"

definition item_value :: "buffer \<Rightarrow> bool" where
  "item_value v \<longleftrightarrow> set v \<inter> {NUL, ch_semi, ch_comma} = {} \<and> (v \<noteq> [] \<longrightarrow> hd v \<noteq> ch_space)"

lemma strncasecmp_terminated:
  "NUL \<notin> set s \<Longrightarrow> NUL \<notin> set t \<Longrightarrow>
   \<exists>d. ngx_strncasecmp (s @ NUL # x) t (length t) = Some d \<and>
     (d = 0 \<longleftrightarrow> map ngx_tolower (take (length t) s) = map ngx_tolower t)"
proof (induction t arbitrary: s)
  case Nil
  then show ?case by simp
next
  case (Cons b t)
  show ?case
  proof (cases s)
    case Nil
    then show ?thesis using Cons.prems byte_diff_zero [of NUL "ngx_tolower b"]
      by (auto simp: Let_def)
  next
    case (Cons a s')
    then show ?thesis using Cons.prems Cons.IH [of s'] byte_diff_zero [of "ngx_tolower a" "ngx_tolower b"]
      by (cases "ngx_tolower a = ngx_tolower b") (auto simp: Let_def)
  qed
qed

lemma mh_skip_item_plain:
  "ch_semi \<notin> set x \<Longrightarrow> ch_comma \<notin> set x \<Longrightarrow> mh_skip_item (x @ r) = mh_skip_item r"
  by (induction x) auto

text \<open>The items behind the first one.\<close>

definition more_items :: "(buffer \<times> buffer) list \<Rightarrow> buffer" where
  "more_items kvs = (if kvs = [] then [] else ch_semi # ch_space # print_items kvs)"

lemma print_items_Cons: "print_items ((k, v) # kvs) = k @ ch_eq # v @ more_items kvs"
  by (cases kvs) (auto simp: more_items_def)

lemma print_items_start:
  "list_all (\<lambda>(k, v). item_key k) kvs \<Longrightarrow> skip_spaces (print_items kvs) = print_items kvs"
proof (cases kvs)
  case (Cons kv rest)
  assume "list_all (\<lambda>(k, v). item_key k) kvs"
  with Cons obtain k v c k' where "kv = (k, v)" "k = c # k'" "c \<noteq> ch_space"
    by (cases kv; cases "fst kv") (auto simp: item_key_def)
  with Cons show ?thesis by (simp add: print_items_Cons skip_spaces_def)
qed (simp add: skip_spaces_def)

lemma mh_skip_items:
  assumes "ch_semi \<notin> set x" and "ch_comma \<notin> set x" and "list_all (\<lambda>(k, v). item_key k) kvs"
  shows "mh_skip (x @ more_items kvs) = print_items kvs"
proof (cases kvs)
  case Nil
  with mh_skip_item_plain [OF assms(1,2), of "[]"] show ?thesis
    by (simp add: mh_skip_def more_items_def skip_spaces_def)
next
  case (Cons kv rest)
  then have "mh_skip (x @ more_items kvs) = skip_spaces (ch_space # print_items kvs)"
    using assms by (simp add: mh_skip_def more_items_def mh_skip_item_plain)
  also have "\<dots> = skip_spaces (print_items kvs)" by (simp add: skip_spaces_def)
  finally show ?thesis using print_items_start [OF assms(3)] by simp
qed

definition same_key :: "buffer \<Rightarrow> buffer \<Rightarrow> bool" where
  "same_key name k \<longleftrightarrow> map ngx_tolower k = map ngx_tolower name"

lemma tolower_eq_iff: "ngx_tolower c = ch_eq \<longleftrightarrow> c = ch_eq"
  by (auto simp: word_unat_eq_iff unat_tolower)

lemma name_prefix:
  assumes "item_key name"
  shows "map ngx_tolower (take (length name) (k @ ch_eq # r)) = map ngx_tolower name \<longleftrightarrow>
    length name \<le> length k \<and> map ngx_tolower (take (length name) k) = map ngx_tolower name"
proof (cases "length name \<le> length k")
  case True
  then show ?thesis by simp
next
  case False
  have "map ngx_tolower (take (length name) (k @ ch_eq # r)) \<noteq> map ngx_tolower name"
  proof
    assume eq: "map ngx_tolower (take (length name) (k @ ch_eq # r)) = map ngx_tolower name"
    have "map ngx_tolower (take (length name) (k @ ch_eq # r)) ! length k = ngx_tolower ch_eq"
      using False by (simp add: nth_append)
    then have "ngx_tolower (name ! length k) = ngx_tolower ch_eq" using False eq by simp
    then have "name ! length k = ch_eq" using tolower_eq_iff by metis
    then show False using False assms nth_mem [of "length k" name] by (auto simp: item_key_def)
  qed
  with False show ?thesis by simp
qed

lemma print_items_nul:
  "list_all (\<lambda>(k, v). item_key k \<and> item_value v) kvs \<Longrightarrow> NUL \<notin> set (print_items kvs)"
  by (induction kvs rule: print_items.induct) (auto simp: item_key_def item_value_def)

lemma mh_value_items:
  assumes "item_key name" and "list_all (\<lambda>(k, v). item_key k \<and> item_value v) kvs"
  shows "mh_value name True (print_items kvs) =
    (case find (\<lambda>(k, v). same_key name k) kvs of None \<Rightarrow> Mh_not_found | Some (k, v) \<Rightarrow> Mh_found v)"
  using assms(2)
proof (induction kvs)
  case Nil
  then show ?case by (simp add: mh_value.simps)
next
  case (Cons kv kvs)
  obtain k v where kv: "kv = (k, v)" by (cases kv)
  let ?m = "more_items kvs"
  define S where "S = print_items (kv # kvs)"
  have s: "S = k @ ch_eq # v @ ?m" by (simp add: S_def kv print_items_Cons)
  have ok: "item_key k" "item_value v" "list_all (\<lambda>(k, v). item_key k) kvs"
    using Cons.prems by (auto simp: kv list_all_iff)
  have ne: "S \<noteq> []" by (simp add: s)
  obtain d where d: "ngx_strncasecmp (S @ [NUL]) name (length name) = Some d"
    "d = 0 \<longleftrightarrow> length name \<le> length k \<and> map ngx_tolower (take (length name) k) = map ngx_tolower name"
    using strncasecmp_terminated [of S name "[]"] print_items_nul [OF Cons.prems, folded S_def] assms(1)
      name_prefix [OF assms(1), of k "v @ ?m"]
    by (auto simp: s item_key_def)
  have plain: "ch_semi \<notin> set (k @ ch_eq # v)" "ch_comma \<notin> set (k @ ch_eq # v)"
    using ok by (auto simp: item_key_def item_value_def)
  have skip: "mh_skip (drop n (k @ ch_eq # v) @ ?m) = print_items kvs" for n
    by (rule mh_skip_items [OF _ _ ok(3)]) (use plain in \<open>auto dest: in_set_dropD\<close>)
  have IH: "mh_value name True (print_items kvs) =
      (case find (\<lambda>(k, v). same_key name k) kvs of None \<Rightarrow> Mh_not_found | Some (k, v) \<Rightarrow> Mh_found v)"
    using Cons by simp
  consider "d \<noteq> 0" | "d = 0" "length name < length k" | "d = 0" "length name = length k"
    using d(2) by linarith
  then show ?case
  proof cases
    case 1
    have "\<not> same_key name k"
    proof
      assume same: "same_key name k"
      then have "length k = length name" unfolding same_key_def by (rule map_eq_imp_length_eq)
      with same 1 d(2) show False by (simp add: same_key_def)
    qed
    moreover have "mh_value name True S = mh_value name True (print_items kvs)"
      using 1 d(1) ne skip [of 0] by (simp add: mh_value.simps [of name True S] flip: s)
    ultimately show ?thesis using IH unfolding S_def [symmetric] by (simp add: kv)
  next
    case 2
    then have no: "\<not> same_key name k" by (auto simp: same_key_def dest: map_eq_imp_length_eq)
    obtain c k' where k: "drop (length name) k = c # k'" using 2 by (cases "drop (length name) k") auto
    have "c \<in> set k" using k by (metis in_set_dropD list.set_intros(1))
    then have c: "c \<noteq> ch_space" "c \<noteq> ch_eq" using ok(1) by (auto simp: item_key_def)
    have "drop (length name) S = c # k' @ ch_eq # v @ ?m" using 2 by (simp add: s k)
    then have s': "skip_spaces (drop (length name) S) = c # k' @ ch_eq # v @ ?m"
      using c by (simp add: skip_spaces_def)
    have "drop (Suc (length name)) k = k'" using k by (metis drop_Suc list.sel(3) tl_drop)
    then have "mh_skip (k' @ ch_eq # v @ ?m) = print_items kvs"
      using skip [of "Suc (length name)"] 2 by simp
    then have "mh_value name True S = mh_value name True (print_items kvs)"
      using 2 d(1) s' c ne by (simp add: mh_value.simps [of name True S])
    then show ?thesis using IH no unfolding S_def [symmetric] by (simp add: kv)
  next
    case 3
    then have yes: "same_key name k" using d(2) by (simp add: same_key_def)
    have "drop (length name) S = ch_eq # v @ ?m" using 3 by (simp add: s)
    then have s': "skip_spaces (drop (length name) S) = ch_eq # v @ ?m" by (simp add: skip_spaces_def)
    have "skip_spaces (v @ ?m) = v @ ?m"
      using ok(2) by (cases v) (auto simp: skip_spaces_def more_items_def item_value_def)
    moreover have "takeWhile (\<lambda>c. c \<noteq> ch_semi) (v @ ?m) = v @ takeWhile (\<lambda>c. c \<noteq> ch_semi) ?m"
      by (rule takeWhile_append2) (use ok(2) in \<open>auto simp: item_value_def\<close>)
    moreover have "takeWhile (\<lambda>c. c \<noteq> ch_semi) ?m = []" by (simp add: more_items_def)
    ultimately have "mh_value name True S = Mh_found v"
      using 3 d(1) s' ne by (simp add: mh_value.simps [of name True S])
    then show ?thesis using yes unfolding S_def [symmetric] by (simp add: kv)
  qed
qed

text \<open>
  The lookup of a name in a header that lists \<open>key=value\<close> items returns the value of the first
  item whose key is that name, ignoring case, exactly as printed; and declines when there is none.
\<close>

theorem multi_header_lookup:
  assumes "item_key name" and "list_all (\<lambda>(k, v). item_key k \<and> item_value v) kvs"
  shows "ngx_http_parse_multi_header_lines [print_items kvs] name True =
    Some (case find (\<lambda>(k, v). same_key name k) kvs of None \<Rightarrow> None | Some (k, v) \<Rightarrow> Some (0, v))"
proof (cases "length name > length (print_items kvs)")
  case True
  have "find (\<lambda>(k, v). same_key name k) kvs = None"
  proof -
    have "length k < length (print_items kvs)" if "(k, v) \<in> set kvs" for k v
      using that by (induction kvs rule: print_items.induct) auto
    then have "\<not> same_key name k" if "(k, v) \<in> set kvs" for k v
      using True that by (fastforce simp: same_key_def dest: map_eq_imp_length_eq)
    then show ?thesis by (auto simp: find_None_iff)
  qed
  with True show ?thesis by (simp add: ngx_http_parse_multi_header_lines_def)
next
  case False
  then show ?thesis
    using mh_value_items [OF assms]
    by (auto simp: ngx_http_parse_multi_header_lines_def split: option.splits)
qed

theorem multi_header_lookup_witness:
  "ngx_http_parse_multi_header_lines [bytes ''ab=1; Sid=x y; b=2''] (bytes ''sid'') True =
   Some (Some (0, bytes ''x y''))"
proof -
  let ?kvs = "[(bytes ''ab'', bytes ''1''), (bytes ''Sid'', bytes ''x y''), (bytes ''b'', bytes ''2'')]"
  have "item_key (bytes ''sid'')" "list_all (\<lambda>(k, v). item_key k \<and> item_value v) ?kvs"
    by (simp_all add: item_key_def item_value_def)
  from multi_header_lookup [OF this] show ?thesis
    by (simp add: same_key_def ngx_tolower_def)
qed

end
