(* ===== verification/Ngx_Base64.thy ===== *)
theory Ngx_Base64
  imports Xhome_Prelude
begin

unbundle bit_operations_syntax

text \<open>
  \<^verbatim>\<open>ngx_encode_base64\<close>, \<^verbatim>\<open>ngx_decode_base64\<close> and \<^verbatim>\<open>ngx_decode_base64url\<close> of
  \<^verbatim>\<open>src/core/ngx_string.c\<close>.  The reference is the bit string: an encoder regroups the bits of the
  bytes into sextets, a decoder regroups the bits of the sextets into bytes and drops what is left.
  What an alphabet and its decoding table promise each other is the locale \<^verbatim>\<open>base64_tables\<close>, which
  both decoding tables of the source fulfil.
\<close>

section \<open>The code\<close>

definition basis64 :: buffer where
  "basis64 = bytes ''ABCDEFGHIJKLMNOPQRSTUVWXYZabcdefghijklmnopqrstuvwxyz0123456789+/''"

definition ngx_base64_encoded_length :: "nat \<Rightarrow> nat" where
  "ngx_base64_encoded_length len = ((len + 2) div 3) * 4"

definition ngx_base64_decoded_length :: "nat \<Rightarrow> nat" where
  "ngx_base64_decoded_length len = ((len + 3) div 4) * 3"

text \<open>
  The loop over groups of three bytes and the two shapes of the rest; the argument is the alphabet
  (a static table of the function) and the bytes left to encode.
\<close>

fun encode_loop :: "buffer \<Rightarrow> buffer \<Rightarrow> buffer" where
  "encode_loop b (s0 # s1 # s2 # s) =
     b ! unat ((drop_bit 2 s0) AND 0x3f) #
     b ! unat ((push_bit 4 (s0 AND 3)) OR (drop_bit 4 s1)) #
     b ! unat ((push_bit 2 (s1 AND 0x0f)) OR (drop_bit 6 s2)) #
     b ! unat (s2 AND 0x3f) # encode_loop b s"
| "encode_loop b [s0, s1] =
     [b ! unat ((drop_bit 2 s0) AND 0x3f),
      b ! unat ((push_bit 4 (s0 AND 3)) OR (drop_bit 4 s1)),
      b ! unat (push_bit 2 (s1 AND 0x0f)),
      ch_eq]"
| "encode_loop b [s0] =
     [b ! unat ((drop_bit 2 s0) AND 0x3f),
      b ! unat (push_bit 4 (s0 AND 3)),
      ch_eq,
      ch_eq]"
| "encode_loop b [] = []"

definition ngx_encode_base64 :: "buffer \<Rightarrow> buffer" where
  "ngx_encode_base64 src = encode_loop basis64 src"

text \<open>The first loop of the decoder: the length up to the first \<open>=\<close>, or an error.\<close>

fun decode_len :: "buffer \<Rightarrow> buffer \<Rightarrow> nat \<Rightarrow> nat option" where
  "decode_len basis (c # s) len =
     (if c = ch_eq then Some len
      else if basis ! unat c = 77 then None
      else decode_len basis s (Suc len))"
| "decode_len basis [] len = Some len"

text \<open>
  The second loop and the two conditional stores after it.  \<open>s\<close> is the pointer \<^verbatim>\<open>s\<close> as the bytes
  from it on, of which the first \<open>len\<close> are read.
\<close>

function decode_loop :: "buffer \<Rightarrow> buffer \<Rightarrow> nat \<Rightarrow> buffer" where
  "decode_loop basis s len =
     (if 3 < len then
        ((push_bit 2 (basis ! unat (s ! 0))) OR (drop_bit 4 (basis ! unat (s ! 1)))) #
        ((push_bit 4 (basis ! unat (s ! 1))) OR (drop_bit 2 (basis ! unat (s ! 2)))) #
        ((push_bit 6 (basis ! unat (s ! 2))) OR (basis ! unat (s ! 3))) #
        decode_loop basis (drop 4 s) (len - 4)
      else
        (if 1 < len
         then [(push_bit 2 (basis ! unat (s ! 0))) OR (drop_bit 4 (basis ! unat (s ! 1)))]
         else []) @
        (if 2 < len
         then [(push_bit 4 (basis ! unat (s ! 1))) OR (drop_bit 2 (basis ! unat (s ! 2)))]
         else []))"
  by pat_completeness auto
termination
  by (relation "measure (\<lambda>(basis, s, len). len)") auto

declare decode_loop.simps [simp del]

definition ngx_decode_base64_internal :: "buffer \<Rightarrow> buffer \<Rightarrow> buffer option" where
  "ngx_decode_base64_internal src basis =
     (case decode_len basis src 0 of
        None \<Rightarrow> None
      | Some len \<Rightarrow> if len mod 4 = 1 then None else Some (decode_loop basis src len))"

definition decode_table :: buffer where
  "decode_table =
    [77, 77, 77, 77, 77, 77, 77, 77, 77, 77, 77, 77, 77, 77, 77, 77,
     77, 77, 77, 77, 77, 77, 77, 77, 77, 77, 77, 77, 77, 77, 77, 77,
     77, 77, 77, 77, 77, 77, 77, 77, 77, 77, 77, 62, 77, 77, 77, 63,
     52, 53, 54, 55, 56, 57, 58, 59, 60, 61, 77, 77, 77, 77, 77, 77,
     77,  0,  1,  2,  3,  4,  5,  6,  7,  8,  9, 10, 11, 12, 13, 14,
     15, 16, 17, 18, 19, 20, 21, 22, 23, 24, 25, 77, 77, 77, 77, 77,
     77, 26, 27, 28, 29, 30, 31, 32, 33, 34, 35, 36, 37, 38, 39, 40,
     41, 42, 43, 44, 45, 46, 47, 48, 49, 50, 51, 77, 77, 77, 77, 77] @ replicate 128 77"

definition decode_url_table :: buffer where
  "decode_url_table =
    [77, 77, 77, 77, 77, 77, 77, 77, 77, 77, 77, 77, 77, 77, 77, 77,
     77, 77, 77, 77, 77, 77, 77, 77, 77, 77, 77, 77, 77, 77, 77, 77,
     77, 77, 77, 77, 77, 77, 77, 77, 77, 77, 77, 77, 77, 62, 77, 77,
     52, 53, 54, 55, 56, 57, 58, 59, 60, 61, 77, 77, 77, 77, 77, 77,
     77,  0,  1,  2,  3,  4,  5,  6,  7,  8,  9, 10, 11, 12, 13, 14,
     15, 16, 17, 18, 19, 20, 21, 22, 23, 24, 25, 77, 77, 77, 77, 63,
     77, 26, 27, 28, 29, 30, 31, 32, 33, 34, 35, 36, 37, 38, 39, 40,
     41, 42, 43, 44, 45, 46, 47, 48, 49, 50, 51, 77, 77, 77, 77, 77] @ replicate 128 77"

definition ngx_decode_base64 :: "buffer \<Rightarrow> buffer option" where
  "ngx_decode_base64 src = ngx_decode_base64_internal src decode_table"

definition ngx_decode_base64url :: "buffer \<Rightarrow> buffer option" where
  "ngx_decode_base64url src = ngx_decode_base64_internal src decode_url_table"

section \<open>Bit strings\<close>

lemma unat_of_nat_8: "n < 256 \<Longrightarrow> unat (of_nat n :: u_char) = n"
  by (simp add: unsigned_of_nat take_bit_nat_eq_self)

text \<open>The bits of a byte and of a sextet, the most significant first.\<close>

definition bits8 :: "u_char \<Rightarrow> bool list" where
  "bits8 c = [bit c 7, bit c 6, bit c 5, bit c 4, bit c 3, bit c 2, bit c 1, bit c 0]"

definition bits6 :: "u_char \<Rightarrow> bool list" where
  "bits6 c = [bit c 5, bit c 4, bit c 3, bit c 2, bit c 1, bit c 0]"

lemma length_bits [simp]: "length (bits8 c) = 8" "length (bits6 c) = 6"
  by (simp_all add: bits8_def bits6_def)

lemma bits8_inject: "bits8 c = bits8 d \<Longrightarrow> c = d"
proof (rule bit_word_eqI)
  fix n
  assume "bits8 c = bits8 d" and n: "n < LENGTH(8)"
  then have "bit c n = bit d n" if "n = 0 \<or> n = 1 \<or> n = 2 \<or> n = 3 \<or> n = 4 \<or> n = 5 \<or> n = 6 \<or> n = 7"
    using that by (auto simp: bits8_def)
  with n show "bit c n = bit d n" by force
qed

lemma length_concat_bits [simp]:
  "length (concat (map bits8 cs)) = 8 * length cs"
  "length (concat (map bits6 cs)) = 6 * length cs"
  by (induction cs) simp_all

lemma concat_bits8_inject:
  "concat (map bits8 cs) = concat (map bits8 ds) \<Longrightarrow> cs = ds"
proof (induction cs arbitrary: ds)
  case Nil
  then show ?case by (cases ds) (simp_all add: bits8_def)
next
  case (Cons c cs)
  then obtain d ds' where "ds = d # ds'" by (cases ds) (auto simp: bits8_def)
  with Cons show ?case by (auto dest: bits8_inject)
qed

text \<open>The sextets that a group of bytes is cut into, and the bytes that sextets make up.\<close>

lemma small_masks: "(3 :: u_char) = mask 2" "(0x0f :: u_char) = mask 4" "(0x3f :: u_char) = mask 6"
  by (simp_all add: mask_eq_exp_minus_1)

lemma no_bit_8: "8 \<le> n \<Longrightarrow> \<not> bit (c :: u_char) n"
  using bit_imp_le_length [of c n] by auto

lemma encode_group:
  "bits6 ((drop_bit 2 a) AND 0x3f) @ bits6 ((push_bit 4 (a AND 3)) OR (drop_bit 4 b)) @
   bits6 ((push_bit 2 (b AND 0x0f)) OR (drop_bit 6 c)) @ bits6 (c AND 0x3f) =
   bits8 a @ bits8 b @ bits8 c"
  "bits6 ((drop_bit 2 a) AND 0x3f) @ bits6 ((push_bit 4 (a AND 3)) OR (drop_bit 4 b)) @
   bits6 (push_bit 2 (b AND 0x0f)) = bits8 a @ bits8 b @ [False, False]"
  "bits6 ((drop_bit 2 a) AND 0x3f) @ bits6 (push_bit 4 (a AND 3)) = bits8 a @ [False, False, False, False]"
  unfolding small_masks bits6_def bits8_def
  by (simp_all add: bit_simps no_bit_8)

text \<open>A sextet has its two high bits clear.\<close>

lemma sextet_bits:
  fixes c :: u_char
  assumes "unat c < 64"
  shows "\<not> bit c 6" "\<not> bit c 7"
proof -
  have "take_bit 6 (unat c) = unat c" using assms by (simp add: take_bit_nat_eq_self)
  then have "\<not> bit (unat c) n" if "6 \<le> n" for n
    using that by (metis bit_take_bit_iff not_less)
  then show "\<not> bit c 6" "\<not> bit c 7"
    using bit_unsigned_iff [of c, where ?'a = nat] by (simp_all add: bit_unsigned_iff)
qed

lemma decode_group:
  assumes "unat a < 64" "unat b < 64"
  shows "bits8 ((push_bit 2 a) OR (drop_bit 4 b)) = bits6 a @ take 2 (bits6 b)"
    and "bits8 ((push_bit 4 a) OR (drop_bit 2 b)) = drop 2 (bits6 a) @ take 4 (bits6 b)"
    and "bits8 ((push_bit 6 a) OR b) = drop 4 (bits6 a) @ bits6 b"
  using sextet_bits [OF assms(1)] sextet_bits [OF assms(2)]
  by (simp_all add: bits6_def bits8_def bit_simps no_bit_8)

section \<open>The reference decoder\<close>

text \<open>
  The value of a character is its position in the alphabet; the bits of the values are regrouped
  into bytes, and fewer than eight left-over bits are dropped.
\<close>

definition sextet :: "buffer \<Rightarrow> u_char \<Rightarrow> u_char" where
  "sextet alphabet c = of_nat (length (takeWhile (\<lambda>x. x \<noteq> c) alphabet))"

function bytes_of_bits :: "bool list \<Rightarrow> buffer" where
  "bytes_of_bits bs =
     (if length bs < 8 then []
      else horner_sum of_bool 2 (rev (take 8 bs)) # bytes_of_bits (drop 8 bs))"
  by pat_completeness auto
termination
  by (relation "measure length") auto

declare bytes_of_bits.simps [simp del]

definition base64_spec :: "buffer \<Rightarrow> buffer \<Rightarrow> buffer option" where
  "base64_spec alphabet src =
     (let text = takeWhile (\<lambda>c. c \<noteq> ch_eq) src in
      if list_all (\<lambda>c. c \<in> set alphabet) text \<and> length text mod 4 \<noteq> 1
      then Some (bytes_of_bits (concat (map (\<lambda>c. bits6 (sextet alphabet c)) text)))
      else None)"

lemma byte_of_bits8: "horner_sum of_bool 2 (rev (bits8 c)) = c"
proof -
  have "rev (bits8 c) = map (bit c) [0..<8]" by (simp add: bits8_def upt_rec numeral_eq_Suc)
  then show ?thesis by (simp add: horner_sum_bit_eq_take_bit take_bit_word_eq_self)
qed

lemma bytes_of_bits_inverse:
  "length rest < 8 \<Longrightarrow> bytes_of_bits (concat (map bits8 cs) @ rest) = cs"
  by (induction cs) (subst bytes_of_bits.simps, simp add: byte_of_bits8)+

section \<open>Alphabets and their decoding tables\<close>

definition val64 :: "buffer \<Rightarrow> u_char \<Rightarrow> u_char" where
  "val64 dec c = dec ! unat c"

text \<open>The decoding loop as a function of the values of the characters.\<close>

fun groups :: "buffer \<Rightarrow> buffer" where
  "groups (a # b # c # d # t) =
     ((push_bit 2 a) OR (drop_bit 4 b)) # ((push_bit 4 b) OR (drop_bit 2 c)) # ((push_bit 6 c) OR d) # groups t"
| "groups [a, b, c] = [(push_bit 2 a) OR (drop_bit 4 b), (push_bit 4 b) OR (drop_bit 2 c)]"
| "groups [a, b] = [(push_bit 2 a) OR (drop_bit 4 b)]"
| "groups [a] = []"
| "groups [] = []"

lemma decode_loop_append: "decode_loop dec (t @ e) (length t) = groups (map (val64 dec) t)"
  by (induction t rule: groups.induct) (subst decode_loop.simps, simp add: val64_def [symmetric])+

lemma decode_loop_groups:
  "len \<le> length s \<Longrightarrow> decode_loop dec s len = groups (map (val64 dec) (take len s))"
  using decode_loop_append [of dec "take len s" "drop len s"] by simp

lemma length_groups: "length (groups t) \<le> (length t + 3) div 4 * 3"
proof (induction t rule: groups.induct)
  case (1 a b c d t)
  have "(length (a # b # c # d # t) + 3) div 4 = Suc ((length t + 3) div 4)" by simp
  with 1 show ?case by simp
qed simp_all

lemma groups_bits:
  "list_all (\<lambda>v. unat v < 64) t \<Longrightarrow> length t mod 4 \<noteq> 1 \<Longrightarrow>
   \<exists>rest. length rest < 8 \<and> concat (map bits6 t) = concat (map bits8 (groups t)) @ rest"
proof (induction t rule: groups.induct)
  case (1 a b c d t)
  then obtain rest where "length rest < 8" "concat (map bits6 t) = concat (map bits8 (groups t)) @ rest"
    by auto
  with 1 show ?case by (intro exI [of _ rest]) (simp add: decode_group)
next
  case (2 a b c)
  then show ?case by (intro exI [of _ "drop 4 (bits6 c)"]) (simp add: decode_group)
next
  case (3 a b)
  then show ?case by (intro exI [of _ "drop 2 (bits6 b)"]) (simp add: decode_group)
qed simp_all

text \<open>The sextets an encoder chooses its characters by.\<close>

definition sextets_of :: "buffer \<Rightarrow> buffer \<Rightarrow> bool" where
  "sextets_of ws src \<longleftrightarrow> list_all (\<lambda>w. unat w < 64) ws \<and> length ws mod 4 \<noteq> 1 \<and>
     (\<exists>rest. length rest < 8 \<and> concat (map bits6 ws) = concat (map bits8 src) @ rest)"

lemma sextet_boundI:
  fixes w :: u_char
  assumes "\<not> bit w 6" "\<not> bit w 7"
  shows "unat w < 64"
proof -
  have "take_bit 6 w = w"
  proof (rule bit_word_eqI)
    fix n
    assume "n < LENGTH(8)"
    then have "n < 6 \<or> n = 6 \<or> n = 7" by auto
    then show "bit (take_bit 6 w) n = bit w n" using assms by (auto simp: bit_take_bit_iff)
  qed
  then have "unat w = take_bit 6 (unat w)" by (metis unsigned_take_bit_eq)
  then show ?thesis using take_bit_nat_less_exp [of 6 "unat w"] by simp
qed

lemma sextets_bounds:
  "unat ((drop_bit 2 a) AND (0x3f :: u_char)) < 64"
  "unat ((push_bit 4 (a AND (3 :: u_char))) OR (drop_bit 4 b)) < 64"
  "unat ((push_bit 2 (b AND (0x0f :: u_char))) OR (drop_bit 6 c)) < 64"
  "unat (push_bit 4 (a AND (3 :: u_char))) < 64"
  "unat (push_bit 2 (b AND (0x0f :: u_char))) < 64"
  "unat (c AND (0x3f :: u_char)) < 64"
  unfolding small_masks by (rule sextet_boundI; simp add: bit_simps no_bit_8)+

lemma encode_sextets:
  "\<exists>ws pad. encode_loop b src = map (\<lambda>w. b ! unat w) ws @ replicate pad ch_eq \<and> sextets_of ws src"
proof (induction b src rule: encode_loop.induct)
  case (1 b a b' c s)
  then obtain ws pad where ws: "encode_loop b s = map (\<lambda>w. b ! unat w) ws @ replicate pad ch_eq" "sextets_of ws s"
    by blast
  let ?g = "[(drop_bit 2 a) AND 0x3f, (push_bit 4 (a AND 3)) OR (drop_bit 4 b'),
      (push_bit 2 (b' AND 0x0f)) OR (drop_bit 6 c), c AND 0x3f]"
  have "sextets_of (?g @ ws) (a # b' # c # s)"
    using ws(2) encode_group(1) [of a b' c] by (auto simp: sextets_of_def sextets_bounds [simplified])
  with ws(1) show ?case by (intro exI [of _ "?g @ ws"] exI [of _ pad]) simp
next
  case (2 b a b')
  have "sextets_of [(drop_bit 2 a) AND 0x3f, (push_bit 4 (a AND 3)) OR (drop_bit 4 b'), push_bit 2 (b' AND 0x0f)] [a, b']"
    using encode_group(2) [of a b'] by (auto simp: sextets_of_def sextets_bounds [simplified])
  then show ?case
    by (intro exI [of _ "[(drop_bit 2 a) AND 0x3f, (push_bit 4 (a AND 3)) OR (drop_bit 4 b'), push_bit 2 (b' AND 0x0f)]"] exI [of _ 1]) simp
next
  case (3 b a)
  have "sextets_of [(drop_bit 2 a) AND 0x3f, push_bit 4 (a AND 3)] [a]"
    using encode_group(3) [of a] by (auto simp: sextets_of_def sextets_bounds [simplified])
  then show ?case
    by (intro exI [of _ "[(drop_bit 2 a) AND 0x3f, push_bit 4 (a AND 3)]"] exI [of _ 2]) (simp add: numeral_eq_Suc)
qed (simp add: sextets_of_def)

locale base64_tables =
  fixes enc dec :: buffer
  assumes enc_size: "length enc = 64"
    and dec_enc: "i < 64 \<Longrightarrow> dec ! unat (enc ! i) = of_nat i"
    and dec_member: "dec ! unat c \<noteq> 77 \<Longrightarrow> c \<in> set enc"
    and enc_pad: "ch_eq \<notin> set enc"
begin

lemma member_position: "c \<in> set enc \<Longrightarrow> \<exists>i<64. enc ! i = c \<and> val64 dec c = of_nat i"
  using enc_size dec_enc unfolding in_set_conv_nth val64_def by auto

lemma val_bound: "c \<in> set enc \<Longrightarrow> unat (val64 dec c) < 64"
  using member_position [of c] by (auto simp: unsigned_of_nat take_bit_nat_eq_self)

lemma valid_iff: "dec ! unat c \<noteq> 77 \<longleftrightarrow> c \<in> set enc"
proof
  assume "c \<in> set enc"
  then have "unat (dec ! unat c) < 64" using val_bound by (simp add: val64_def)
  then show "dec ! unat c \<noteq> 77" by auto
qed (rule dec_member)

lemma enc_distinct: "distinct enc"
proof (subst distinct_conv_nth, intro allI impI notI)
  fix i j
  assume ij: "i < length enc" "j < length enc" "i \<noteq> j" and "enc ! i = enc ! j"
  then have "(of_nat i :: u_char) = of_nat j" using dec_enc [of i] dec_enc [of j] enc_size by simp
  moreover have "unat (of_nat i :: u_char) = i" "unat (of_nat j :: u_char) = j"
    using ij enc_size by (simp_all add: unsigned_of_nat take_bit_nat_eq_self)
  ultimately show False using \<open>i \<noteq> j\<close> by metis
qed

lemma val_sextet: "c \<in> set enc \<Longrightarrow> val64 dec c = sextet enc c"
proof -
  assume "c \<in> set enc"
  then obtain i where i: "i < 64" "enc ! i = c" "val64 dec c = of_nat i" using member_position by blast
  then have "takeWhile (\<lambda>x. x \<noteq> c) enc = take i enc"
    using enc_distinct enc_size by (intro takeWhile_eq_take_P_nth) (auto simp: distinct_conv_nth)
  then show ?thesis using i enc_size by (simp add: sextet_def)
qed

text \<open>The scan for the padding stops at the first byte that is \<open>=\<close> or not in the alphabet.\<close>

lemma decode_len_text:
  "decode_len dec src n =
     (let text = takeWhile (\<lambda>c. c \<noteq> ch_eq) src in
      if list_all (\<lambda>c. c \<in> set enc) text then Some (n + length text) else None)"
  by (induction src arbitrary: n) (auto simp: valid_iff [symmetric] Let_def)

lemma groups_bits_enc:
  assumes t: "list_all (\<lambda>c. c \<in> set enc) t" and "length t mod 4 \<noteq> 1"
  shows "bytes_of_bits (concat (map (\<lambda>c. bits6 (sextet enc c)) t)) = groups (map (val64 dec) t)"
proof -
  have "list_all (\<lambda>v. unat v < 64) (map (val64 dec) t)"
    using t val_bound by (auto simp: list_all_iff)
  then obtain rest where "length rest < 8"
      "concat (map bits6 (map (val64 dec) t)) = concat (map bits8 (groups (map (val64 dec) t))) @ rest"
    using groups_bits [of "map (val64 dec) t"] assms(2) by auto
  moreover have "map bits6 (map (val64 dec) t) = map (\<lambda>c. bits6 (sextet enc c)) t"
    using t val_sextet by (auto simp: list_all_iff)
  ultimately show ?thesis using bytes_of_bits_inverse by metis
qed

lemma decode_exact: "ngx_decode_base64_internal src dec = base64_spec enc src"
proof -
  define t where "t = takeWhile (\<lambda>c. c \<noteq> ch_eq) src"
  have t: "take (length t) src = t" unfolding t_def by (rule takeWhile_eq_take [symmetric])
  have "decode_loop dec src (length t) = groups (map (val64 dec) t)"
    using decode_loop_groups [of "length t" src dec] t by (simp add: t_def length_takeWhile_le)
  moreover have "bytes_of_bits (concat (map (\<lambda>c. bits6 (sextet enc c)) t)) = groups (map (val64 dec) t)"
    if "list_all (\<lambda>c. c \<in> set enc) t" "length t mod 4 \<noteq> 1"
    using that by (rule groups_bits_enc)
  ultimately show ?thesis
    by (simp add: ngx_decode_base64_internal_def base64_spec_def decode_len_text Let_def t_def [symmetric])
qed

lemma decode_length:
  "case ngx_decode_base64_internal src dec of
     None \<Rightarrow> True
   | Some out \<Rightarrow> length out \<le> ngx_base64_decoded_length (length src)"
proof -
  have "length (decode_loop dec src n) \<le> ngx_base64_decoded_length (length src)" if "n \<le> length src" for n
    using order_trans [OF length_groups [of "map (val64 dec) (take n src)"]] that
    by (simp add: decode_loop_groups ngx_base64_decoded_length_def div_le_mono)
  then show ?thesis
    by (auto simp: ngx_decode_base64_internal_def decode_len_text Let_def length_takeWhile_le split: option.split)
qed

text \<open>An encoder over the same alphabet.\<close>

lemma enc_nth: "unat (w :: u_char) < 64 \<Longrightarrow> enc ! unat w \<in> set enc \<and> val64 dec (enc ! unat w) = w"
  using enc_size dec_enc [of "unat w"] by (simp add: val64_def)

lemma encode_decodes: "ngx_decode_base64_internal (encode_loop enc src) dec = Some src"
proof -
  obtain ws pad where e: "encode_loop enc src = map (\<lambda>w. enc ! unat w) ws @ replicate pad ch_eq"
      and "sextets_of ws src"
    using encode_sextets by blast
  then have small: "list_all (\<lambda>w. unat w < 64) ws" and ws: "length ws mod 4 \<noteq> 1"
      "\<exists>rest. length rest < 8 \<and> concat (map bits6 ws) = concat (map bits8 src) @ rest"
    by (simp_all add: sextets_of_def)
  define t where "t = map (\<lambda>w. enc ! unat w) ws"
  have t: "list_all (\<lambda>c. c \<in> set enc) t" "map (val64 dec) t = ws"
    using small enc_nth by (auto simp: t_def list_all_iff intro: map_idI)
  have "takeWhile (\<lambda>c. c \<noteq> ch_eq) (t @ replicate pad ch_eq) = t"
    using t(1) enc_pad by (subst takeWhile_append2) (auto simp: list_all_iff takeWhile_replicate)
  moreover have "map (\<lambda>c. bits6 (sextet enc c)) t = map bits6 ws"
    using t by (auto simp: list_all_iff val_sextet [symmetric])
  moreover have "length t mod 4 \<noteq> 1" using ws(1) by (simp add: t_def)
  moreover have "bytes_of_bits (concat (map bits6 ws)) = src"
    using ws(2) bytes_of_bits_inverse by auto
  ultimately show ?thesis
    using t(1) by (simp add: decode_exact base64_spec_def e t_def [symmetric] Let_def)
qed

end

section \<open>The tables of the source\<close>

text \<open>The alphabet of RFC 4648, section 5, that \<^verbatim>\<open>ngx_decode_base64url\<close> decodes.\<close>

definition url_alphabet :: buffer where
  "url_alphabet = bytes ''ABCDEFGHIJKLMNOPQRSTUVWXYZabcdefghijklmnopqrstuvwxyz0123456789-_''"

lemma tables_agree:
  "map (\<lambda>c. decode_table ! unat c) basis64 = map of_nat [0..<64]"
  "map (\<lambda>c. decode_url_table ! unat c) url_alphabet = map of_nat [0..<64]"
  by (simp_all add: decode_table_def decode_url_table_def basis64_def url_alphabet_def upt_rec)

lemma tables_size:
  "length (filter (\<lambda>v. v \<noteq> 77) decode_table) = 64" "length decode_table = 256"
  "length (filter (\<lambda>v. v \<noteq> 77) decode_url_table) = 64" "length decode_url_table = 256"
  by (simp_all add: decode_table_def decode_url_table_def)

lemma table_encode:
  assumes "map (\<lambda>c. t ! unat c) b = map of_nat [0..<64]" and "i < 64"
  shows "t ! unat (b ! i) = (of_nat i :: u_char)"
proof -
  have "length b = 64" using arg_cong [OF assms(1), of length] by simp
  then show ?thesis using arg_cong [OF assms(1), of "\<lambda>l. l ! i"] assms(2) by simp
qed

text \<open>
  A table with 64 entries that are not 77, of which an alphabet of 64 characters uses every one,
  refuses the characters outside the alphabet.
\<close>

lemma table_reject:
  fixes c :: u_char
  assumes b: "map (\<lambda>c. t ! unat c) b = map of_nat [0..<64]"
    and size: "length (filter (\<lambda>v. v \<noteq> 77) t) = 64" "length t = 256"
    and c: "t ! unat c \<noteq> (77 :: u_char)"
  shows "c \<in> set b"
proof -
  define S where "S = {i. i < length t \<and> t ! i \<noteq> 77}"
  have S: "card S = 64" "finite S" using size by (simp_all add: S_def length_filter_conv_card)
  have "inj_on (of_nat :: nat \<Rightarrow> u_char) (set [0..<64])"
    by (rule inj_on_inverseI [where g = unat]) (simp add: unat_of_nat_8)
  then have "distinct b" using b by (metis distinct_map distinct_upt)
  moreover have "length b = 64" using arg_cong [OF b, of length] by simp
  ultimately have "card (unat ` set b) = 64" by (subst card_image) (auto simp: inj_on_def distinct_card word_unat_eq_iff)
  moreover have "unat ` set b \<subseteq> S"
  proof
    fix j
    assume "j \<in> unat ` set b"
    then obtain i where i: "i < 64" "j = unat (b ! i)" using \<open>length b = 64\<close> by (auto simp: in_set_conv_nth)
    then have "unat (t ! j) = i" using table_encode [OF b] by (simp add: unat_of_nat_8)
    with i size show "j \<in> S" by (auto simp: S_def)
  qed
  ultimately have "unat ` set b = S" using S by (metis card_subset_eq)
  moreover have "unat c \<in> S" using c size by (simp add: S_def)
  ultimately show ?thesis by (metis image_iff word_unat_eq_iff)
qed

lemma length_encode_loop: "length (encode_loop b s) = (length s + 2) div 3 * 4"
proof (induction b s rule: encode_loop.induct)
  case (1 b s0 s1 s2 s)
  have "(length (s0 # s1 # s2 # s) + 2) div 3 = Suc ((length s + 2) div 3)" by simp
  with 1 show ?case by simp
qed simp_all

lemma alphabet_sizes: "length basis64 = 64" "length url_alphabet = 64" "ch_eq \<notin> set basis64" "ch_eq \<notin> set url_alphabet"
  by (simp_all add: basis64_def url_alphabet_def)

interpretation std: base64_tables basis64 decode_table
  by unfold_locales
    (fact alphabet_sizes, erule table_encode [OF tables_agree(1)], erule table_reject [OF tables_agree(1) tables_size(1,2)], fact alphabet_sizes)

interpretation url: base64_tables url_alphabet decode_url_table
  by unfold_locales
    (fact alphabet_sizes, erule table_encode [OF tables_agree(2)], erule table_reject [OF tables_agree(2) tables_size(3,4)], fact alphabet_sizes)

section \<open>Properties\<close>

text \<open>
  C37.  Decoding inverts encoding for every text, empty and unaligned ones included, and the encoder
  fills exactly the \<^verbatim>\<open>ngx_base64_encoded_length\<close> bytes its callers allocate.
\<close>

theorem base64_roundtrip:
  "ngx_decode_base64 (ngx_encode_base64 src) = Some src \<and>
   length (ngx_encode_base64 src) = ngx_base64_encoded_length (length src)"
proof
  show "ngx_decode_base64 (ngx_encode_base64 src) = Some src"
    unfolding ngx_decode_base64_def ngx_encode_base64_def by (rule std.encode_decodes)
  show "length (ngx_encode_base64 src) = ngx_base64_encoded_length (length src)"
    by (simp add: ngx_encode_base64_def ngx_base64_encoded_length_def length_encode_loop)
qed

text \<open>
  C38.  Both decoders compute the reference decoding of their alphabet: they refuse exactly the texts
  that have a character outside the alphabet before the first \<open>=\<close>, or one character left over
  there; otherwise they regroup the bits.  They never write more than the
  \<^verbatim>\<open>ngx_base64_decoded_length\<close> bytes their callers allocate.
\<close>

theorem base64_decoders_exact:
  "ngx_decode_base64 src = base64_spec basis64 src \<and>
   ngx_decode_base64url src = base64_spec url_alphabet src \<and>
   (case ngx_decode_base64 src of
      None \<Rightarrow> True | Some out \<Rightarrow> length out \<le> ngx_base64_decoded_length (length src)) \<and>
   (case ngx_decode_base64url src of
      None \<Rightarrow> True | Some out \<Rightarrow> length out \<le> ngx_base64_decoded_length (length src))"
  unfolding ngx_decode_base64_def ngx_decode_base64url_def
  by (intro conjI std.decode_exact url.decode_exact std.decode_length url.decode_length)

end
