(* ===== verification/Ngx_Utf8.thy ===== *)
theory Ngx_Utf8
  imports Xhome_Prelude
begin

unbundle bit_operations_syntax

text \<open>
  \<^verbatim>\<open>ngx_utf8_decode\<close>, \<^verbatim>\<open>ngx_utf8_length\<close> and \<^verbatim>\<open>ngx_utf8_cpystrn\<close> of \<^verbatim>\<open>src/core/ngx_string.c\<close> over an
  explicit memory: pointers are indices, and a read outside the memory is the value \<open>None\<close>, so that
  every theorem with a \<open>Some\<close> in its conclusion says that the reads stay inside.  The reference is
  the encoding of code points as one to four bytes.
\<close>

section \<open>The code\<close>

text \<open>The loop over the continuation bytes: \<open>Inl\<close> is the error return inside it.\<close>

fun utf8_loop :: "buffer \<Rightarrow> nat \<Rightarrow> nat \<Rightarrow> uint32 \<Rightarrow> (nat + uint32 \<times> nat) option" where
  "utf8_loop mem p 0 u = Some (Inr (u, p))"
| "utf8_loop mem p (Suc len) u =
     (if p < length mem then
        (let i = (ucast (mem ! p) :: uint32) in
         if i < 0x80 then Some (Inl (Suc p))
         else utf8_loop mem (Suc p) len (push_bit 6 u OR (i AND 0x3f)))
      else None)"

definition utf8_tail :: "buffer \<Rightarrow> nat \<Rightarrow> ngx_uint_t \<Rightarrow> uint32 \<Rightarrow> uint32 \<Rightarrow> nat \<Rightarrow> (uint32 \<times> nat) option" where
  "utf8_tail mem p n u valid len =
     (if n - 1 < of_nat len then Some (0xfffffffe, p)
      else (case utf8_loop mem (Suc p) len u of
              None \<Rightarrow> None
            | Some (Inl q) \<Rightarrow> Some (0xffffffff, q)
            | Some (Inr (u', q)) \<Rightarrow> if valid < u' then Some (u', q) else Some (0xffffffff, q)))"

text \<open>The value returned and the position that \<^verbatim>\<open>*p\<close> is moved to.\<close>

definition ngx_utf8_decode :: "buffer \<Rightarrow> nat \<Rightarrow> ngx_uint_t \<Rightarrow> (uint32 \<times> nat) option" where
  "ngx_utf8_decode mem p n =
     (if p < length mem then
        (let u = (ucast (mem ! p) :: uint32) in
         if 0xf0 \<le> u then utf8_tail mem p n (u AND 0x07) 0xffff 3
         else if 0xe0 \<le> u then utf8_tail mem p n (u AND 0x0f) 0x7ff 2
         else if 0xc2 \<le> u then utf8_tail mem p n (u AND 0x1f) 0x7f 1
         else Some (0xffffffff, Suc p))
      else None)"

text \<open>
  \<^verbatim>\<open>ngx_utf8_length\<close> passes the whole length \<open>n\<close>, not the rest of it, to the decoder.  The value
  0xfffffffe, the only one with which the decoder does not advance, ends the loop.
\<close>

lemma utf8_loop_advances:
  "utf8_loop mem p len u = Some (Inl q) \<Longrightarrow> p < q"
  "utf8_loop mem p len u = Some (Inr (u', q)) \<Longrightarrow> q = p + len"
  by (induction mem p len u rule: utf8_loop.induct) (auto simp: Let_def split: if_splits)

lemma utf8_decode_advances:
  "ngx_utf8_decode mem p n = Some (u, q) \<Longrightarrow> u \<le> 0x10ffff \<Longrightarrow> p < q"
  by (auto simp: ngx_utf8_decode_def utf8_tail_def Let_def split: if_splits option.splits sum.splits
      dest: utf8_loop_advances)

function utf8_length_loop :: "buffer \<Rightarrow> nat \<Rightarrow> nat \<Rightarrow> ngx_uint_t \<Rightarrow> ngx_uint_t \<Rightarrow> ngx_uint_t option" where
  "utf8_length_loop mem p limit n len =
     (if p < limit then
        (if p < length mem then
           (if mem ! p < 0x80 then utf8_length_loop mem (Suc p) limit n (len + 1)
            else (case ngx_utf8_decode mem p n of
                    None \<Rightarrow> None
                  | Some (u, q) \<Rightarrow> if 0x10ffff < u then Some n else utf8_length_loop mem q limit n (len + 1)))
         else None)
      else Some len)"
  by pat_completeness auto
termination
proof (relation "measure (\<lambda>(mem, p, limit, n, len). limit - p)", goal_cases)
  case (3 mem p limit n len x u q)
  then show ?case using utf8_decode_advances [of mem p n u q] by (auto simp: not_less)
qed auto

declare utf8_length_loop.simps [simp del]

definition ngx_utf8_length :: "buffer \<Rightarrow> nat \<Rightarrow> ngx_uint_t \<Rightarrow> ngx_uint_t option" where
  "ngx_utf8_length mem p n = utf8_length_loop mem p (p + unat n) n 0"

text \<open>
  \<^verbatim>\<open>ngx_utf8_cpystrn\<close>: the bytes written before the terminating zero, of which the returned pointer
  is the end; \<open>n\<close> counts characters.  With \<open>n = 0\<close> nothing is written, not even the zero.
\<close>

fun utf8_copy_loop :: "buffer \<Rightarrow> nat \<Rightarrow> nat \<Rightarrow> ngx_uint_t \<Rightarrow> buffer \<Rightarrow> buffer option" where
  "utf8_copy_loop mem src 0 len out = Some out"
| "utf8_copy_loop mem src (Suc n) len out =
     (if src < length mem then
        (if mem ! src < 0x80 then
           (if mem ! src \<noteq> NUL then utf8_copy_loop mem (Suc src) n (len - 1) (out @ [mem ! src])
            else Some out)
         else (case ngx_utf8_decode mem src len of
                 None \<Rightarrow> None
               | Some (u, q) \<Rightarrow>
                   if 0x10ffff < u then Some out
                   else utf8_copy_loop mem q n (len - of_nat (q - src)) (out @ take (q - src) (drop src mem))))
      else None)"

definition ngx_utf8_cpystrn :: "buffer \<Rightarrow> nat \<Rightarrow> nat \<Rightarrow> ngx_uint_t \<Rightarrow> buffer option" where
  "ngx_utf8_cpystrn mem src n len = (if n = 0 then Some [] else utf8_copy_loop mem src (n - 1) len [])"

section \<open>The reference encoding\<close>

definition utf8_byte :: "nat \<Rightarrow> u_char" where
  "utf8_byte m = of_nat m"

definition utf8_cont :: "nat \<Rightarrow> u_char" where
  "utf8_cont m = utf8_byte (0x80 + m mod 64)"

definition utf8_encode :: "nat \<Rightarrow> buffer" where
  "utf8_encode u =
     (if u < 0x80 then [utf8_byte u]
      else if u < 0x800 then [utf8_byte (0xc0 + u div 64), utf8_cont u]
      else if u < 0x10000 then [utf8_byte (0xe0 + u div 4096), utf8_cont (u div 64), utf8_cont u]
      else [utf8_byte (0xf0 + u div 262144), utf8_cont (u div 4096), utf8_cont (u div 64), utf8_cont u])"

lemma shift_six:
  fixes u v :: uint32
  assumes "unat u < 2 ^ 26"
  shows "unat (push_bit 6 u OR (v AND 0x3f)) = 64 * unat u + unat v mod 64"
proof -
  have mask: "(0x3f :: uint32) = mask 6" by (simp add: mask_eq_exp_minus_1)
  have "push_bit 6 u OR (v AND 0x3f) = push_bit 6 u + (v AND 0x3f)"
    unfolding mask
    by (rule disjunctive_add_eq_or [symmetric]) (rule bit_eqI, auto simp: bit_simps)
  moreover have "unat (v AND 0x3f) = unat v mod 64" using unat_and_mask_mod [of v 6] by (simp add: mask)
  moreover have "unat (push_bit 6 u) = 64 * unat u"
    using assms by (simp add: push_bit_eq_mult unat_word_ariths)
  ultimately show ?thesis using assms by (simp add: unat_word_ariths)
qed

text \<open>The value of continuation bytes after a lead value.\<close>

fun utf8_value :: "nat \<Rightarrow> buffer \<Rightarrow> nat" where
  "utf8_value a [] = a"
| "utf8_value a (c # cs) = utf8_value (64 * a + unat c mod 64) cs"

lemma utf8_loop_value:
  assumes "list_all (\<lambda>c. 0x80 \<le> unat c) cs" and "Suc (unat u) * 64 ^ length cs \<le> 2 ^ 32"
  shows "\<exists>u'. utf8_loop (pre @ cs @ post) (length pre) (length cs) u = Some (Inr (u', length pre + length cs)) \<and>
    unat u' = utf8_value (unat u) cs"
  using assms
proof (induction cs arbitrary: pre u)
  case Nil
  then show ?case by simp
next
  case (Cons c cs)
  let ?u = "push_bit 6 u OR ((ucast c :: uint32) AND 0x3f)"
  have "Suc (unat u) * 64 \<le> Suc (unat u) * 64 ^ length (c # cs)" by (rule mult_le_mono2) simp
  with Cons.prems(2) have "unat u < 2 ^ 26" by simp
  then have u: "unat ?u = 64 * unat u + unat c mod 64" using shift_six [of u "ucast c"] by simp
  then have "Suc (unat ?u) \<le> Suc (unat u) * 64" by simp
  then have "Suc (unat ?u) * 64 ^ length cs \<le> Suc (unat u) * 64 * 64 ^ length cs" by (rule mult_le_mono1)
  also have "\<dots> = Suc (unat u) * 64 ^ length (c # cs)" by (simp add: algebra_simps)
  finally have "Suc (unat ?u) * 64 ^ length cs \<le> 2 ^ 32" using Cons.prems(2) by linarith
  with Cons.IH [of ?u "pre @ [c]"] Cons.prems(1) u show ?case
    by (simp add: word_less_nat_alt Let_def)
qed

lemma utf8_loop_continuation:
  "utf8_loop mem p len u = Some (Inr r) \<Longrightarrow>
   p + len \<le> length mem \<and> list_all (\<lambda>c. 0x80 \<le> unat c) (take len (drop p mem))"
  if "p \<le> length mem"
  using that
proof (induction mem p len u rule: utf8_loop.induct)
  case (2 mem p len u)
  then have "p < length mem" by (simp split: if_splits)
  with 2 show ?case
    by (auto simp: Let_def word_less_nat_alt Cons_nth_drop_Suc [symmetric] split: if_splits)
qed simp

text \<open>What the lead byte says: its value bits, the largest overlong value, the continuation bytes.\<close>

definition utf8_lead :: "u_char \<Rightarrow> (nat \<times> nat \<times> nat) option" where
  "utf8_lead c =
     (if 0xf0 \<le> unat c then Some (unat c mod 8, 0xffff, 3)
      else if 0xe0 \<le> unat c then Some (unat c mod 16, 0x7ff, 2)
      else if 0xc2 \<le> unat c then Some (unat c mod 32, 0x7f, 1)
      else None)"

lemma lead_masks:
  "unat ((u :: uint32) AND 0x07) = unat u mod 8"
  "unat (u AND 0x0f) = unat u mod 16"
  "unat (u AND 0x1f) = unat u mod 32"
proof -
  have "(0x07 :: uint32) = mask 3" "(0x0f :: uint32) = mask 4" "(0x1f :: uint32) = mask 5"
    by (simp_all add: mask_eq_exp_minus_1)
  then show "unat (u AND 0x07) = unat u mod 8" "unat (u AND 0x0f) = unat u mod 16" "unat (u AND 0x1f) = unat u mod 32"
    using unat_and_mask_mod [of u 3] unat_and_mask_mod [of u 4] unat_and_mask_mod [of u 5] by simp_all
qed

lemma decode_lead:
  assumes "p < length mem" and "utf8_lead (mem ! p) = Some (b, valid, len)"
  shows "\<exists>u v. ngx_utf8_decode mem p n = utf8_tail mem p n u v len \<and> unat u = b \<and> unat v = valid \<and>
    len \<le> 3 \<and> Suc b * 64 ^ len \<le> 2 ^ 21"
proof -
  let ?c = "mem ! p" and ?u = "ucast (mem ! p) :: uint32"
  consider "0xf0 \<le> unat ?c" | "0xe0 \<le> unat ?c" "unat ?c < 0xf0" | "0xc2 \<le> unat ?c" "unat ?c < 0xe0"
    using assms(2) by (fastforce simp: utf8_lead_def split: if_splits)
  then show ?thesis
  proof cases
    case 1
    moreover have "unat ?c mod 8 < 8" by simp
    ultimately show ?thesis
      using assms
      by (intro exI [of _ "?u AND 0x07"] exI [of _ "0xffff"])
        (auto simp: ngx_utf8_decode_def utf8_lead_def word_le_nat_alt lead_masks)
  next
    case 2
    moreover have "unat ?c mod 16 < 16" by simp
    ultimately show ?thesis
      using assms
      by (intro exI [of _ "?u AND 0x0f"] exI [of _ "0x7ff"])
        (auto simp: ngx_utf8_decode_def utf8_lead_def word_le_nat_alt lead_masks)
  next
    case 3
    moreover have "unat ?c mod 32 < 32" by simp
    ultimately show ?thesis
      using assms
      by (intro exI [of _ "?u AND 0x1f"] exI [of _ "0x7f"])
        (auto simp: ngx_utf8_decode_def utf8_lead_def word_le_nat_alt lead_masks)
  qed
qed

text \<open>The comparison \<^verbatim>\<open>n - 1 < len\<close> on \<^verbatim>\<open>size_t\<close>.\<close>

lemma size_guard:
  "n \<noteq> 0 \<Longrightarrow> k \<le> 3 \<Longrightarrow> n - 1 < (of_nat k :: ngx_uint_t) \<longleftrightarrow> unat n \<le> k"
  using unat_gt_0 [of n] by (auto simp: word_less_nat_alt unat_minus_one unat_of_nat_64)

lemma decode_sequence:
  assumes "utf8_lead c = Some (b, valid, length cs)" and cs: "list_all (\<lambda>c. 0x80 \<le> unat c) cs"
    and n: "length cs < unat n"
  shows "ngx_utf8_decode (pre @ c # cs @ post) (length pre) n =
    Some (if valid < utf8_value b cs then of_nat (utf8_value b cs) else 0xffffffff, length pre + Suc (length cs))"
proof -
  let ?mem = "pre @ c # cs @ post"
  obtain u v where d: "ngx_utf8_decode ?mem (length pre) n = utf8_tail ?mem (length pre) n u v (length cs)"
      and u: "unat u = b" and v: "unat v = valid" and len: "length cs \<le> 3" "Suc b * 64 ^ length cs \<le> 2 ^ 21"
    using decode_lead [of "length pre" ?mem b valid "length cs" n] assms(1) by auto
  obtain u' where u': "utf8_loop ((pre @ [c]) @ cs @ post) (length (pre @ [c])) (length cs) u =
      Some (Inr (u', length (pre @ [c]) + length cs))" "unat u' = utf8_value b cs"
    using utf8_loop_value [OF cs, of u "pre @ [c]" post] len u by auto
  have "n \<noteq> 0" using n by auto
  then have "\<not> n - 1 < of_nat (length cs)" using n len by (simp add: size_guard)
  moreover have "v < u' \<longleftrightarrow> valid < utf8_value b cs" using u'(2) v by (simp add: word_less_nat_alt)
  moreover have "u' = of_nat (utf8_value b cs)" using u'(2) [symmetric] by simp
  ultimately show ?thesis using d u'(1) by (auto simp: utf8_tail_def)
qed

lemma unat_byte: "m < 256 \<Longrightarrow> unat (utf8_byte m) = m"
  by (simp add: utf8_byte_def unsigned_of_nat take_bit_nat_eq_self)

lemma unat_continuation: "unat (utf8_cont m) = 0x80 + m mod 64"
  unfolding utf8_cont_def
proof (rule unat_byte)
  have "m mod 64 < 64" by simp
  then show "0x80 + m mod 64 < 256" by linarith
qed

lemma continuation_mod: "(0x80 + m mod 64) mod 64 = m mod (64 :: nat)"
proof -
  have "(0x80 + m mod 64) mod 64 = (0x80 + m) mod 64" by (simp add: mod_add_right_eq)
  also have "\<dots> = (m + 2 * 64) mod 64" by (simp add: add.commute)
  finally show ?thesis by (simp only: mod_mult_self1)
qed

lemma regroup: "64 * (m div 64) + m mod 64 = (m :: nat)"
  by (rule mult_div_mod_eq)

lemma lead_of_bits:
  "unat c = 0xc0 + a \<Longrightarrow> 2 \<le> a \<Longrightarrow> a < 32 \<Longrightarrow> utf8_lead c = Some (a, 0x7f, 1)"
  "unat c = 0xe0 + a \<Longrightarrow> a < 16 \<Longrightarrow> utf8_lead c = Some (a, 0x7ff, 2)"
  "unat c = 0xf0 + a \<Longrightarrow> a < 8 \<Longrightarrow> utf8_lead c = Some (a, 0xffff, 3)"
  using mod_add_left_eq [of "0xc0" 32 a] mod_add_left_eq [of "0xe0" 16 a] mod_add_left_eq [of "0xf0" 8 a]
  by (simp_all add: utf8_lead_def)

lemma encode_shape:
  assumes "0x80 \<le> u" and "u < 0x200000"
  shows "\<exists>c cs b valid. utf8_encode u = c # cs \<and> utf8_lead c = Some (b, valid, length cs) \<and>
    list_all (\<lambda>c. 0x80 \<le> unat c) cs \<and> utf8_value b cs = u \<and> valid < u"
proof -
  have div: "u div 4096 = u div 64 div 64" "u div 262144 = u div 4096 div 64"
    by (simp_all add: div_mult2_eq [symmetric])
  have three: "64 * (64 * (u div 4096) + u div 64 mod 64) + u mod 64 = u"
    by (simp only: div(1) regroup)
  have four: "64 * (64 * (64 * (u div 262144) + u div 4096 mod 64) + u div 64 mod 64) + u mod 64 = u"
    by (simp only: div regroup)
  consider "u < 0x800" | "0x800 \<le> u" "u < 0x10000" | "0x10000 \<le> u" by linarith
  then show ?thesis
  proof cases
    case 1
    then have a: "2 \<le> u div 64" "u div 64 < 32" using assms by auto
    then have "utf8_lead (utf8_byte (0xc0 + u div 64)) = Some (u div 64, 0x7f, 1)"
      by (intro lead_of_bits unat_byte) simp_all
    with 1 assms show ?thesis by (simp add: utf8_encode_def unat_continuation continuation_mod regroup)
  next
    case 2
    then have a: "u div 4096 < 16" by auto
    then have "utf8_lead (utf8_byte (0xe0 + u div 4096)) = Some (u div 4096, 0x7ff, 2)"
      by (intro lead_of_bits unat_byte) simp_all
    with 2 assms show ?thesis
      by (simp add: utf8_encode_def unat_continuation continuation_mod three [simplified])
  next
    case 3
    then have a: "u div 262144 < 8" using assms by auto
    then have "utf8_lead (utf8_byte (0xf0 + u div 262144)) = Some (u div 262144, 0xffff, 3)"
      by (intro lead_of_bits unat_byte) simp_all
    with 3 assms show ?thesis
      by (simp add: utf8_encode_def unat_continuation continuation_mod four [simplified])
  qed
qed

text \<open>Well-formed bytes: what the decoder takes for granted of them.\<close>

lemma mod_128: "0x80 \<le> n \<Longrightarrow> n < 0xc0 \<Longrightarrow> n mod 64 = n - (0x80 :: nat)"
  using mod_mult_self1 [of "n - 0x80" 2 64] by simp

lemma cont_eqI: "m mod 64 = unat d mod 64 \<Longrightarrow> 0x80 \<le> unat d \<Longrightarrow> unat d < 0xc0 \<Longrightarrow> utf8_cont m = d"
  by (simp add: word_unat_eq_iff unat_continuation mod_128)

lemma byte_eqI: "unat c = m \<Longrightarrow> utf8_byte m = c"
  by (auto simp: utf8_byte_def)

lemma lead_cases:
  assumes "utf8_lead c = Some (b, valid, len)"
  shows "len = 1 \<and> valid = 0x7f \<and> b < 32 \<and> unat c = 0xc0 + b \<or>
    len = 2 \<and> valid = 0x7ff \<and> b < 16 \<and> unat c = 0xe0 + b \<or>
    len = 3 \<and> valid = 0xffff \<and> b < 8 \<and> (unat c < 0xf8 \<longrightarrow> unat c = 0xf0 + b)"
proof -
  have *: "n = k * m + n mod m" if "k * m \<le> n" "n < k * m + m" for n k m :: nat
    using that div_nat_eqI [of m k n] mult_div_mod_eq [of m n] by (simp add: mult.commute)
  show ?thesis
    using assms * [of 6 32 "unat c"] * [of 14 16 "unat c"] * [of 30 8 "unat c"]
    by (auto simp: utf8_lead_def split: if_splits)
qed

lemma two_digits: "d < 64 \<Longrightarrow> (64 * m + d) div 64 = m \<and> (64 * m + d) mod 64 = (d :: nat)"
  by simp

lemma utf8_value_less: "utf8_value a cs < Suc a * 64 ^ length cs"
proof (induction cs arbitrary: a)
  case (Cons c cs)
  have "unat c mod 64 < 64" by simp
  then have "Suc (64 * a + unat c mod 64) \<le> Suc a * 64" by simp
  then have "Suc (64 * a + unat c mod 64) * 64 ^ length cs \<le> Suc a * 64 * 64 ^ length cs" by (rule mult_le_mono1)
  moreover have "utf8_value a (c # cs) < Suc (64 * a + unat c mod 64) * 64 ^ length cs" using Cons by simp
  moreover have "Suc a * 64 * 64 ^ length cs = Suc a * 64 ^ length (c # cs)" by (simp add: algebra_simps)
  ultimately show ?case by linarith
qed simp

lemma value_range:
  assumes "utf8_lead c = Some (b, valid, length cs)" and "valid < utf8_value b cs"
  shows "length (utf8_encode (utf8_value b cs)) = Suc (length cs) \<and> 0x80 \<le> utf8_value b cs"
  using lead_cases [OF assms(1)] assms(2) utf8_value_less [of b cs]
  by (elim disjE conjE) (simp_all add: utf8_encode_def)

lemma sequence_unique:
  assumes "utf8_lead c = Some (b, valid, length cs)" and "unat c < 0xf8"
    and cs: "list_all (\<lambda>c. 0x80 \<le> unat c \<and> unat c < 0xc0) cs" and "valid < utf8_value b cs"
  shows "utf8_encode (utf8_value b cs) = c # cs"
proof -
  have m: "unat d mod 64 < 64" for d :: u_char by simp
  note digits = two_digits [OF m]
  from lead_cases [OF assms(1)] assms(2) show ?thesis
  proof (elim disjE conjE)
    assume "length cs = 1" "valid = 0x7f" "b < 32" and c: "unat c = 0xc0 + b"
    then obtain d where d: "cs = [d]" by (auto simp: length_Suc_conv)
    define u where "u = 64 * b + unat d mod 64"
    have "u div 64 = b" "u mod 64 = unat d mod 64" using digits unfolding u_def by blast+
    moreover have "0x80 \<le> u" "u < 0x800"
      using assms(4) \<open>valid = 0x7f\<close> \<open>b < 32\<close> m [of d] by (simp_all add: d u_def)
    ultimately have "utf8_encode u = c # cs"
      using c cs by (auto simp: d utf8_encode_def intro!: cont_eqI byte_eqI)
    moreover have "utf8_value b cs = u" by (simp add: d u_def)
    ultimately show ?thesis by simp
  next
    assume "length cs = 2" "valid = 0x7ff" "b < 16" and c: "unat c = 0xe0 + b"
    then obtain d e where d: "cs = [d, e]" by (auto simp: length_Suc_conv numeral_eq_Suc)
    define u where "u = 64 * (64 * b + unat d mod 64) + unat e mod 64"
    have "u div 64 = 64 * b + unat d mod 64" "u mod 64 = unat e mod 64" using digits unfolding u_def by blast+
    moreover from this have "u div 4096 = b" "u div 64 mod 64 = unat d mod 64"
      using digits [of b d] by (simp_all add: div_mult2_eq [of u 64 64, simplified])
    moreover have "0x800 \<le> u" "u < 0x10000"
      using assms(4) \<open>valid = 0x7ff\<close> \<open>b < 16\<close> m [of d] m [of e] by (simp_all add: d u_def)
    ultimately have "utf8_encode u = c # cs"
      using c cs by (auto simp: d utf8_encode_def intro!: cont_eqI byte_eqI)
    moreover have "utf8_value b cs = u" by (simp add: d u_def)
    ultimately show ?thesis by simp
  next
    assume "length cs = 3" "valid = 0xffff" "b < 8" and "unat c < 0xf8 \<longrightarrow> unat c = 0xf0 + b"
    with assms(2) have c: "unat c = 0xf0 + b" by simp
    obtain d e f where d: "cs = [d, e, f]" using \<open>length cs = 3\<close> by (auto simp: length_Suc_conv numeral_eq_Suc)
    define w where "w = 64 * b + unat d mod 64"
    define u where "u = 64 * (64 * w + unat e mod 64) + unat f mod 64"
    have "u div 64 = 64 * w + unat e mod 64" "u mod 64 = unat f mod 64" using digits unfolding u_def by blast+
    moreover from this have "u div 4096 = w" "u div 64 mod 64 = unat e mod 64"
      using digits [of w e] by (simp_all add: div_mult2_eq [of u 64 64, simplified])
    moreover from this have "u div 262144 = b" "u div 4096 mod 64 = unat d mod 64"
      using digits [of b d] by (simp_all add: div_mult2_eq [of u 4096 64, simplified] w_def)
    moreover have "0x10000 \<le> u"
      using assms(4) \<open>valid = 0xffff\<close> by (simp add: d u_def w_def)
    ultimately have "utf8_encode u = c # cs"
      using c cs by (auto simp: d utf8_encode_def intro!: cont_eqI byte_eqI)
    moreover have "utf8_value b cs = u" by (simp add: d u_def w_def)
    ultimately show ?thesis by simp
  qed
qed

text \<open>A call that returns a code point has read a complete sequence of at most \<open>n\<close> bytes.\<close>

lemma decode_inversion:
  assumes dec: "ngx_utf8_decode mem p n = Some (u, q)" and "u \<le> 0x10ffff" and "n \<noteq> 0"
  obtains pre c cs post b valid where "mem = pre @ c # cs @ post" "length pre = p"
    "q = p + Suc (length cs)" "utf8_lead c = Some (b, valid, length cs)"
    "list_all (\<lambda>c. 0x80 \<le> unat c) cs" "length cs < unat n" "valid < utf8_value b cs" "unat u = utf8_value b cs"
proof -
  have p: "p < length mem" using dec by (auto simp: ngx_utf8_decode_def split: if_splits)
  have "utf8_lead (mem ! p) \<noteq> None"
    using dec \<open>u \<le> 0x10ffff\<close> p
    by (auto simp: ngx_utf8_decode_def utf8_lead_def Let_def word_le_nat_alt split: if_splits)
  then obtain b valid len where lead: "utf8_lead (mem ! p) = Some (b, valid, len)" by auto
  obtain w v where w: "utf8_tail mem p n w v len = Some (u, q)" and len: "len \<le> 3"
    using decode_lead [OF p lead, of n] dec by metis
  then obtain r where "utf8_loop mem (Suc p) len w = Some (Inr r)" and n: "\<not> n - 1 < of_nat len"
    using \<open>u \<le> 0x10ffff\<close> by (auto simp: utf8_tail_def split: if_splits option.splits sum.splits)
  then have cont: "Suc p + len \<le> length mem" "list_all (\<lambda>c. 0x80 \<le> unat c) (take len (drop (Suc p) mem))"
    using utf8_loop_continuation [of "Suc p" mem len w r] p by auto
  define cs where "cs = take len (drop (Suc p) mem)"
  have cs: "length cs = len" using cont by (simp add: cs_def)
  define post where "post = drop len (drop (Suc p) mem)"
  have "drop (Suc p) mem = cs @ post" by (simp only: cs_def post_def append_take_drop_id)
  then have mem: "mem = take p mem @ mem ! p # cs @ post" using id_take_nth_drop [OF p] by simp
  have small: "length cs < unat n" using n cs len \<open>n \<noteq> 0\<close> by (simp add: size_guard)
  let ?v = "utf8_value b cs"
  have "ngx_utf8_decode mem p n = Some (if valid < ?v then of_nat ?v else 0xffffffff, p + Suc (length cs))"
    using decode_sequence [of "mem ! p" b valid cs n "take p mem" post] mem lead cs cont(2) small p
    by (simp add: cs_def [symmetric])
  with dec \<open>u \<le> 0x10ffff\<close> have u: "u = of_nat ?v" "valid < ?v" "q = p + Suc (length cs)"
    by (auto split: if_splits)
  have "Suc b * 64 ^ len \<le> 2 ^ 21" using decode_lead [OF p lead] by blast
  then have "?v < 2 ^ 32" using utf8_value_less [of b cs] cs by simp
  then have "unat u = ?v" using u by (simp add: unsigned_of_nat take_bit_nat_eq_self)
  then show thesis
    using that [OF mem _ u(3) _ _ small u(2)] p lead cs cont(2) by (simp add: cs_def [symmetric])
qed

lemma decode_encode:
  assumes "0x80 \<le> u" and "u < 0x110000" and "length (utf8_encode u) \<le> unat n"
  shows "ngx_utf8_decode (pre @ utf8_encode u @ post) (length pre) n =
    Some (of_nat u, length pre + length (utf8_encode u))"
proof -
  obtain c cs b valid where e: "utf8_encode u = c # cs" "utf8_lead c = Some (b, valid, length cs)"
      "list_all (\<lambda>c. 0x80 \<le> unat c) cs" "utf8_value b cs = u" "valid < u"
    using encode_shape [of u] assms by auto
  then show ?thesis using decode_sequence [OF e(2,3), of n pre post] assms(3) by simp
qed

lemma utf8_loop_total: "p + len \<le> length mem \<Longrightarrow> \<exists>r. utf8_loop mem p len u = Some r"
  by (induction mem p len u rule: utf8_loop.induct) (auto simp: Let_def)

lemma decode_total:
  assumes "p + unat n \<le> length mem" and "n \<noteq> 0"
  shows "\<exists>u q. ngx_utf8_decode mem p n = Some (u, q)"
proof -
  have p: "p < length mem" using assms unat_gt_0 [of n] by linarith
  show ?thesis
  proof (cases "utf8_lead (mem ! p)")
    case None
    with p show ?thesis
      by (auto simp: ngx_utf8_decode_def utf8_lead_def Let_def word_le_nat_alt split: if_splits)
  next
    case (Some r)
    then obtain b valid len where lead: "utf8_lead (mem ! p) = Some (b, valid, len)" by (cases r) auto
    obtain w v where w: "ngx_utf8_decode mem p n = utf8_tail mem p n w v len" and len: "len \<le> 3"
      using decode_lead [OF p lead, of n] by blast
    show ?thesis
    proof (cases "n - 1 < of_nat len")
      case False
      then have "len \<le> unat n - 1"
        using \<open>n \<noteq> 0\<close> len by (simp add: size_guard)
      then obtain r where "utf8_loop mem (Suc p) len w = Some r"
        using utf8_loop_total [of "Suc p" len mem w] assms unat_gt_0 [of n] by fastforce
      with w False show ?thesis by (auto simp: utf8_tail_def split: sum.splits)
    qed (simp add: w utf8_tail_def)
  qed
qed

section \<open>Texts\<close>

definition utf8_text :: "nat list \<Rightarrow> buffer" where
  "utf8_text us = concat (map utf8_encode us)"

lemma utf8_text_simps [simp]:
  "utf8_text [] = []"
  "utf8_text (u # us) = utf8_encode u @ utf8_text us"
  by (simp_all add: utf8_text_def)

lemma encode_ascii: "u < 0x80 \<Longrightarrow> utf8_encode u = [utf8_byte u] \<and> utf8_byte u < 0x80 \<and> (utf8_byte u = NUL \<longleftrightarrow> u = 0)"
  using unat_byte [of u] by (auto simp: utf8_encode_def word_less_nat_alt word_unat_eq_iff)

lemma encode_lead_high:
  assumes "0x80 \<le> u" and "u < 0x110000"
  shows "\<exists>c cs. utf8_encode u = c # cs \<and> \<not> c < 0x80"
proof -
  obtain c cs b valid where e: "utf8_encode u = c # cs" "utf8_lead c = Some (b, valid, length cs)"
    using encode_shape [of u] assms by auto
  then have "0x80 \<le> unat c" by (auto simp: utf8_lead_def split: if_splits)
  with e show ?thesis by (auto simp: word_less_nat_alt)
qed

lemma code_point_word: "u < 0x110000 \<Longrightarrow> \<not> (0x10ffff :: uint32) < of_nat u"
  by (simp add: word_less_nat_alt unsigned_of_nat take_bit_nat_eq_self)

lemma length_loop_text:
  assumes "list_all (\<lambda>u. u < 0x110000) us" and "length (utf8_text us) \<le> unat n"
    and "length pre + length (utf8_text us) \<le> limit"
  shows "utf8_length_loop (pre @ utf8_text us @ post) (length pre) limit n len =
    utf8_length_loop (pre @ utf8_text us @ post) (length pre + length (utf8_text us)) limit n (len + of_nat (length us))"
  using assms
proof (induction us arbitrary: pre len)
  case (Cons u us)
  let ?mem = "pre @ utf8_text (u # us) @ post"
  have step: "utf8_length_loop ?mem (length pre) limit n len =
      utf8_length_loop ?mem (length (pre @ utf8_encode u)) limit n (len + 1)"
  proof (cases "u < 0x80")
    case True
    then show ?thesis
      using Cons.prems(3) encode_ascii [OF True] by (subst utf8_length_loop.simps) simp
  next
    case False
    then obtain c cs where "utf8_encode u = c # cs" "\<not> c < 0x80"
      using encode_lead_high [of u] Cons.prems(1) by auto
    moreover have "ngx_utf8_decode ?mem (length pre) n = Some (of_nat u, length (pre @ utf8_encode u))"
      using decode_encode [of u n pre "utf8_text us @ post"] False Cons.prems by simp
    ultimately show ?thesis
      using Cons.prems(1,3) code_point_word [of u] by (subst utf8_length_loop.simps) simp
  qed
  with Cons.IH [of "pre @ utf8_encode u" "len + 1"] Cons.prems show ?case by (simp add: algebra_simps)
qed simp

lemma copy_loop_text:
  assumes "list_all (\<lambda>u. 0 < u \<and> u < 0x110000) us" and "length (utf8_text us) \<le> unat len"
  shows "utf8_copy_loop (pre @ utf8_text us @ NUL # post) (length pre) n len out = Some (out @ utf8_text (take n us))"
  using assms
proof (induction us arbitrary: pre n len out)
  case Nil
  then show ?case by (cases n) (simp_all add: nth_append)
next
  case (Cons u us)
  let ?mem = "pre @ utf8_text (u # us) @ NUL # post"
  show ?case
  proof (cases n)
    case (Suc m)
    have "utf8_copy_loop ?mem (length pre) (Suc m) len out =
        utf8_copy_loop ?mem (length (pre @ utf8_encode u)) m (len - of_nat (length (utf8_encode u))) (out @ utf8_encode u)"
    proof (cases "u < 0x80")
      case True
      then show ?thesis using Cons.prems(1) encode_ascii [OF True] by simp
    next
      case False
      then obtain c cs where "utf8_encode u = c # cs" "\<not> c < 0x80"
        using encode_lead_high [of u] Cons.prems(1) by auto
      moreover have "ngx_utf8_decode ?mem (length pre) len = Some (of_nat u, length (pre @ utf8_encode u))"
        using decode_encode [of u len pre "utf8_text us @ NUL # post"] False Cons.prems by simp
      ultimately show ?thesis using Cons.prems(1) code_point_word [of u] by simp
    qed
    moreover have "length (utf8_text us) \<le> unat (len - of_nat (length (utf8_encode u)))"
    proof -
      have l: "length (utf8_encode u) \<le> 4" by (simp add: utf8_encode_def)
      then have "unat (of_nat (length (utf8_encode u)) :: ngx_uint_t) = length (utf8_encode u)"
        by (intro unat_of_nat_64) simp
      with Cons.prems(2) show ?thesis by (simp add: unat_sub word_le_nat_alt)
    qed
    ultimately show ?thesis
      using Cons.IH [of "len - of_nat (length (utf8_encode u))" "pre @ utf8_encode u" m "out @ utf8_encode u"] Cons.prems(1)
      by (simp add: Suc)
  qed simp
qed

lemma utf8_loop_overread:
  "list_all (\<lambda>c. 0x80 \<le> unat c) cs \<Longrightarrow> length cs < k \<Longrightarrow> utf8_loop (pre @ cs) (length pre) k u = None"
proof (induction cs arbitrary: pre k u)
  case Nil
  then show ?case by (cases k) simp_all
next
  case (Cons c cs)
  then obtain m where "k = Suc m" by (cases k) auto
  with Cons.prems Cons.IH [of m "pre @ [c]"] show ?case by (simp add: word_less_nat_alt Let_def)
qed

section \<open>Properties\<close>

text \<open>
  C39.  Given \<open>n\<close> readable bytes the decoder reads only those and returns.  A code point it returns
  is beyond ASCII, and the decoder has moved over exactly as many bytes as the shortest encoding of
  the code point has (overlong sequences are refused); if those bytes are well formed (a lead byte
  below 0xf8, continuation bytes below 0xc0, which the code does not check) they are that encoding.
\<close>

theorem utf8_decode_sound:
  assumes "p + unat n \<le> length mem" and "n \<noteq> 0"
  shows "\<exists>u q. ngx_utf8_decode mem p n = Some (u, q) \<and>
    (u \<le> 0x10ffff \<longrightarrow>
       0x80 \<le> unat u \<and> q = p + length (utf8_encode (unat u)) \<and> q \<le> p + unat n \<and>
       (unat (mem ! p) < 0xf8 \<and> list_all (\<lambda>c. unat c < 0xc0) (take (q - Suc p) (drop (Suc p) mem)) \<longrightarrow>
          take (q - p) (drop p mem) = utf8_encode (unat u)))"
proof -
  obtain u q where d: "ngx_utf8_decode mem p n = Some (u, q)" using decode_total [OF assms] by blast
  have "0x80 \<le> unat u \<and> q = p + length (utf8_encode (unat u)) \<and> q \<le> p + unat n \<and>
       (unat (mem ! p) < 0xf8 \<and> list_all (\<lambda>c. unat c < 0xc0) (take (q - Suc p) (drop (Suc p) mem)) \<longrightarrow>
          take (q - p) (drop p mem) = utf8_encode (unat u))" if u: "u \<le> 0x10ffff"
  proof -
    obtain pre c cs post b valid where m: "mem = pre @ c # cs @ post" "length pre = p" "q = p + Suc (length cs)"
        and lead: "utf8_lead c = Some (b, valid, length cs)" "list_all (\<lambda>c. 0x80 \<le> unat c) cs"
        and n: "length cs < unat n" and v: "valid < utf8_value b cs" "unat u = utf8_value b cs"
      using decode_inversion [OF d u assms(2)] by blast
    have "mem ! p = c" "take (q - Suc p) (drop (Suc p) mem) = cs" "take (q - p) (drop p mem) = c # cs"
      using m by (auto simp: nth_append)
    then show ?thesis
      using value_range [OF lead(1) v(1)] sequence_unique [OF lead(1) _ _ v(1)] lead(2) v(2) n m(3)
      by (auto simp: list_all_iff)
  qed
  with d show ?thesis by blast
qed

theorem utf8_decode_sound_witness:
  "\<exists>u q. ngx_utf8_decode [0x41, 0xe2, 0x82, 0xac] 1 3 = Some (u, q)"
  using utf8_decode_sound [of 1 3 "[0x41, 0xe2, 0x82, 0xac]"] by auto

text \<open>
  On the encoding of a sequence of code points the length is their number, and the copy keeps
  exactly the first \<open>n - 1\<close> of them, never cutting one: wherever the text lies in memory, with the
  reads inside it.
\<close>

theorem utf8_texts:
  assumes "list_all (\<lambda>u. 0 < u \<and> u < 0x110000) us" and "length (utf8_text us) < unat len"
  shows "ngx_utf8_length (pre @ utf8_text us @ post) (length pre) (of_nat (length (utf8_text us))) =
      Some (of_nat (length us)) \<and>
    ngx_utf8_cpystrn (pre @ utf8_text us @ NUL # post) (length pre) n len = Some (utf8_text (take (n - 1) us))"
proof
  let ?n = "of_nat (length (utf8_text us)) :: ngx_uint_t"
  have "unat len < 2 ^ 64" using unsigned_less [of len, where ?'a = nat] by simp
  then have n: "unat ?n = length (utf8_text us)" using assms(2) by (intro unat_of_nat_64) simp
  have "list_all (\<lambda>u. u < 0x110000) us" using assms(1) by (simp add: list_all_iff)
  then show "ngx_utf8_length (pre @ utf8_text us @ post) (length pre) ?n = Some (of_nat (length us))"
    using n by (simp add: ngx_utf8_length_def length_loop_text utf8_length_loop.simps [of _ "length pre + length (utf8_text us)"])
  show "ngx_utf8_cpystrn (pre @ utf8_text us @ NUL # post) (length pre) n len = Some (utf8_text (take (n - 1) us))"
    using copy_loop_text [OF assms(1), of len pre post "n - 1" "[]"] assms(2) by (simp add: ngx_utf8_cpystrn_def)
qed

theorem utf8_texts_witness:
  "ngx_utf8_cpystrn ([] @ utf8_text [0x20ac, 0x41] @ NUL # []) 0 2 5 = Some (utf8_text [0x20ac])"
  using utf8_texts [of "[0x20ac, 0x41]" 5 "[]" "[]" 2] by (simp add: utf8_encode_def)

text \<open>
  \<^verbatim>\<open>ngx_utf8_length\<close> hands the decoder the length of the whole text instead of what is left
  of it: whenever a text ends inside a sequence and is long enough before it, bytes past its end are
  read.
\<close>

theorem utf8_length_reads_past_end:
  assumes "list_all (\<lambda>u. u < 0x110000) us" and "utf8_lead c = Some (b, valid, k)"
    and "list_all (\<lambda>c. 0x80 \<le> unat c) cs" and "length cs < k" and "k \<le> length (utf8_text us) + length cs"
    and "length (utf8_text us @ c # cs) < 2 ^ 64"
  shows "ngx_utf8_length (utf8_text us @ c # cs) 0 (of_nat (length (utf8_text us @ c # cs))) = None"
proof -
  let ?mem = "utf8_text us @ c # cs" and ?p = "length (utf8_text us)"
  let ?n = "of_nat (length ?mem) :: ngx_uint_t"
  have n: "unat ?n = length ?mem" using assms(6) by (rule unat_of_nat_64)
  have high: "\<not> c < 0x80" using assms(2) by (auto simp: utf8_lead_def word_less_nat_alt split: if_splits)
  have "ngx_utf8_decode ?mem ?p ?n = None"
  proof -
    obtain u v where d: "ngx_utf8_decode ?mem ?p ?n = utf8_tail ?mem ?p ?n u v k" and k: "k \<le> 3"
      using decode_lead [of ?p ?mem b valid k ?n] assms(2) by auto
    have "?n \<noteq> 0" using n by (metis append_is_Nil_conv length_0_conv list.distinct(1) unat_0)
    from size_guard [OF this k] have "\<not> ?n - 1 < of_nat k" using n assms(5) by simp
    with d show ?thesis
      using utf8_loop_overread [OF assms(3,4), of "utf8_text us @ [c]" u] by (simp add: utf8_tail_def)
  qed
  then have "utf8_length_loop ?mem ?p (unat ?n) ?n len = None" for len
    using n high by (subst utf8_length_loop.simps) simp
  then show ?thesis
    using length_loop_text [OF assms(1), of ?n "[]" "unat ?n" "c # cs" 0] n by (simp add: ngx_utf8_length_def)
qed

theorem utf8_length_reads_past_end_witness:
  "ngx_utf8_length (utf8_text [0x61] @ 0xe2 # [0x82]) 0 (of_nat (length (utf8_text [0x61] @ 0xe2 # [0x82]))) = None"
  using utf8_length_reads_past_end [of "[0x61]" "0xe2" 2 "0x7ff" 2 "[0x82]"] by (simp add: utf8_lead_def utf8_encode_def)

end
