(* ===== verification/Ngx_Escape.thy ===== *)
theory Ngx_Escape
  imports Xhome_Prelude
begin

unbundle bit_operations_syntax

text \<open>
  \<^verbatim>\<open>ngx_escape_uri\<close>, \<^verbatim>\<open>ngx_unescape_uri\<close> and \<^verbatim>\<open>ngx_escape_html\<close> of \<^verbatim>\<open>src/core/ngx_string.c\<close>.
  Each escape function has two modes: with no destination it counts the bytes that the escapes add,
  with a destination it writes; the callers allocate by the first and fill by the second.
\<close>

section \<open>ngx_escape_uri\<close>

definition esc_hex :: buffer where
  "esc_hex = bytes ''0123456789abcdef''"

definition esc_uri :: "uint32 list" where
  "esc_uri = [0xffffffff, 0x80000029, 0x00000000, 0x80000000,
              0xffffffff, 0xffffffff, 0xffffffff, 0xffffffff]"

definition esc_args :: "uint32 list" where
  "esc_args = [0xffffffff, 0x88000869, 0x00000000, 0x80000000,
               0xffffffff, 0xffffffff, 0xffffffff, 0xffffffff]"

definition esc_uri_component :: "uint32 list" where
  "esc_uri_component = [0xffffffff, 0xfc009fff, 0x78000001, 0xb8000001,
                        0xffffffff, 0xffffffff, 0xffffffff, 0xffffffff]"

definition esc_html :: "uint32 list" where
  "esc_html = [0xffffffff, 0x000000ad, 0x00000000, 0x80000000,
               0xffffffff, 0xffffffff, 0xffffffff, 0xffffffff]"

definition esc_refresh :: "uint32 list" where
  "esc_refresh = [0xffffffff, 0x00000085, 0x00000000, 0x80000000,
                  0xffffffff, 0xffffffff, 0xffffffff, 0xffffffff]"

definition esc_memcached :: "uint32 list" where
  "esc_memcached = [0xffffffff, 0x00000021, 0x00000000, 0x00000000,
                    0x00000000, 0x00000000, 0x00000000, 0x00000000]"

definition esc_map :: "uint32 list list" where
  "esc_map = [esc_uri, esc_args, esc_uri_component, esc_html, esc_refresh, esc_memcached, esc_memcached]"

text \<open>The types of \<^verbatim>\<open>src/core/ngx_string.h\<close>, indices into the list of tables.\<close>

abbreviation NGX_ESCAPE_URI :: nat where "NGX_ESCAPE_URI \<equiv> 0"
abbreviation NGX_ESCAPE_ARGS :: nat where "NGX_ESCAPE_ARGS \<equiv> 1"
abbreviation NGX_ESCAPE_URI_COMPONENT :: nat where "NGX_ESCAPE_URI_COMPONENT \<equiv> 2"
abbreviation NGX_ESCAPE_HTML :: nat where "NGX_ESCAPE_HTML \<equiv> 3"
abbreviation NGX_ESCAPE_REFRESH :: nat where "NGX_ESCAPE_REFRESH \<equiv> 4"
abbreviation NGX_ESCAPE_MEMCACHED :: nat where "NGX_ESCAPE_MEMCACHED \<equiv> 5"
abbreviation NGX_ESCAPE_MAIL_AUTH :: nat where "NGX_ESCAPE_MAIL_AUTH \<equiv> 6"

fun esc_count_loop :: "uint32 list \<Rightarrow> buffer \<Rightarrow> ngx_uint_t \<Rightarrow> ngx_uint_t" where
  "esc_count_loop escape (c # src) n = esc_count_loop escape src (if in_table escape c then n + 1 else n)"
| "esc_count_loop escape [] n = n"

fun esc_write_loop :: "uint32 list \<Rightarrow> buffer \<Rightarrow> buffer" where
  "esc_write_loop escape (c # src) =
     (if in_table escape c
      then ch_percent # esc_hex ! unat (drop_bit 4 c) # esc_hex ! unat (c AND 0xf) # esc_write_loop escape src
      else c # esc_write_loop escape src)"
| "esc_write_loop escape [] = []"

text \<open>The two modes: \<^verbatim>\<open>dst == NULL\<close> and the bytes written from \<^verbatim>\<open>dst\<close> on.\<close>

definition ngx_escape_uri_count :: "buffer \<Rightarrow> nat \<Rightarrow> ngx_uint_t" where
  "ngx_escape_uri_count src type = esc_count_loop (esc_map ! type) src 0"

definition ngx_escape_uri :: "buffer \<Rightarrow> nat \<Rightarrow> buffer" where
  "ngx_escape_uri src type = esc_write_loop (esc_map ! type) src"

section \<open>ngx_unescape_uri\<close>

abbreviation NGX_UNESCAPE_URI :: ngx_uint_t where "NGX_UNESCAPE_URI \<equiv> 1"
abbreviation NGX_UNESCAPE_REDIRECT :: ngx_uint_t where "NGX_UNESCAPE_REDIRECT \<equiv> 2"

datatype un_sw = un_sw_usual | un_sw_quoted | un_sw_quoted_second

record unescape_state =
  un_state :: un_sw
  un_decoded :: u_char
  un_out :: buffer

definition un_put :: "unescape_state \<Rightarrow> buffer \<Rightarrow> unescape_state" where
  "un_put v cs = v\<lparr>un_out := un_out v @ cs\<rparr>"

text \<open>\<open>goto done\<close> leaves the loop with the bytes written and the position after the current byte.\<close>

definition un_done :: "nat \<Rightarrow> unescape_state \<Rightarrow> buffer \<Rightarrow> (unescape_state, buffer \<times> nat) outcome" where
  "un_done p v cs = Stop (un_out v @ cs, Suc p)"

definition un_usual :: "ngx_uint_t \<Rightarrow> buffer \<Rightarrow> nat \<Rightarrow> unescape_state \<Rightarrow> (unescape_state, buffer \<times> nat) outcome" where
  [step_defs]: "un_usual type s p v =
     (let ch = s ! p in
      if ch = ch_qmark \<and> (type AND (NGX_UNESCAPE_URI OR NGX_UNESCAPE_REDIRECT)) \<noteq> 0 then un_done p v [ch]
      else if ch = ch_percent then Continue (v\<lparr>un_state := un_sw_quoted\<rparr>)
      else Continue (un_put v [ch]))"

definition un_quoted :: "buffer \<Rightarrow> nat \<Rightarrow> unescape_state \<Rightarrow> (unescape_state, buffer \<times> nat) outcome" where
  [step_defs]: "un_quoted s p v =
     (let ch = s ! p; c = ch OR 0x20 in
      if ch_0 \<le> ch \<and> ch \<le> ch_9
      then Continue (v\<lparr>un_decoded := ch - ch_0, un_state := un_sw_quoted_second\<rparr>)
      else if ch_a \<le> c \<and> c \<le> ch_f
      then Continue (v\<lparr>un_decoded := c - ch_a + 10, un_state := un_sw_quoted_second\<rparr>)
      else Continue (un_put (v\<lparr>un_state := un_sw_usual\<rparr>) [ch]))"

definition un_quoted_second :: "ngx_uint_t \<Rightarrow> buffer \<Rightarrow> nat \<Rightarrow> unescape_state \<Rightarrow> (unescape_state, buffer \<times> nat) outcome" where
  [step_defs]: "un_quoted_second type s p v0 =
     (let v = v0\<lparr>un_state := un_sw_usual\<rparr>; ch = s ! p; c = ch OR 0x20;
          kept = [ch_percent, s ! (p - 1), s ! p] in
      if ch_0 \<le> ch \<and> ch \<le> ch_9 then
        (let ch = push_bit 4 (un_decoded v) + ch - ch_0 in
         if type AND NGX_UNESCAPE_REDIRECT \<noteq> 0 then
           (if ch_percent < ch \<and> ch < 0x7f then Continue (un_put v [ch]) else Continue (un_put v kept))
         else Continue (un_put v [ch]))
      else if ch_a \<le> c \<and> c \<le> ch_f then
        (let ch = push_bit 4 (un_decoded v) + c - ch_a + 10 in
         if type AND NGX_UNESCAPE_URI \<noteq> 0 then
           (if ch = ch_qmark then un_done p v [ch] else Continue (un_put v [ch]))
         else if type AND NGX_UNESCAPE_REDIRECT \<noteq> 0 then
           (if ch = ch_qmark then un_done p v [ch]
            else if ch_percent < ch \<and> ch < 0x7f then Continue (un_put v [ch])
            else Continue (un_put v kept))
         else Continue (un_put v [ch]))
      else Continue v)"

definition un_step :: "ngx_uint_t \<Rightarrow> buffer \<Rightarrow> nat \<Rightarrow> unescape_state \<Rightarrow> (unescape_state, buffer \<times> nat) outcome" where
  "un_step type s p v =
     (case un_state v of
        un_sw_usual \<Rightarrow> un_usual type s p v
      | un_sw_quoted \<Rightarrow> un_quoted s p v
      | un_sw_quoted_second \<Rightarrow> un_quoted_second type s p v)"

text \<open>The bytes written and how far \<^verbatim>\<open>*src\<close> moved.\<close>

definition ngx_unescape_uri :: "buffer \<Rightarrow> ngx_uint_t \<Rightarrow> buffer \<times> nat" where
  "ngx_unescape_uri s type =
     (case scan (un_step type) s 0 \<lparr>un_state = un_sw_usual, un_decoded = 0, un_out = []\<rparr> of
        Inl (p, v) \<Rightarrow> (un_out v, p)
      | Inr r \<Rightarrow> r)"

section \<open>ngx_escape_html\<close>

fun html_count_loop :: "buffer \<Rightarrow> ngx_uint_t \<Rightarrow> ngx_uint_t" where
  "html_count_loop (c # src) len =
     html_count_loop src
       (if c = ch_lt then len + 3
        else if c = ch_gt then len + 3
        else if c = ch_amp then len + 4
        else if c = ch_dquote then len + 5
        else len)"
| "html_count_loop [] len = len"

fun html_write_loop :: "buffer \<Rightarrow> buffer" where
  "html_write_loop (ch # src) =
     (if ch = ch_lt then ch_amp # ch_l # ch_t # ch_semi # html_write_loop src
      else if ch = ch_gt then ch_amp # ch_g # ch_t # ch_semi # html_write_loop src
      else if ch = ch_amp then ch_amp # ch_a # ch_m # ch_p # ch_semi # html_write_loop src
      else if ch = ch_dquote then ch_amp # ch_q # ch_u # ch_o # ch_t # ch_semi # html_write_loop src
      else ch # html_write_loop src)"
| "html_write_loop [] = []"

definition ngx_escape_html_count :: "buffer \<Rightarrow> ngx_uint_t" where
  "ngx_escape_html_count src = html_count_loop src 0"

definition ngx_escape_html :: "buffer \<Rightarrow> buffer" where
  "ngx_escape_html src = html_write_loop src"

section \<open>Counting and writing agree\<close>

lemma esc_count_filter: "esc_count_loop e src n = n + of_nat (length (filter (in_table e) src))"
  by (induction src arbitrary: n) simp_all

lemma esc_write_length: "length (esc_write_loop e src) = length src + 2 * length (filter (in_table e) src)"
  by (induction src) simp_all

lemma esc_lengths:
  "length src < 2 ^ 64 \<Longrightarrow>
   length (esc_write_loop e src) = length src + 2 * unat (esc_count_loop e src 0)"
  using unat_of_nat_64 [OF order_le_less_trans [OF length_filter_le [of "in_table e" src]]]
  by (simp add: esc_count_filter esc_write_length)

fun html_extra :: "u_char \<Rightarrow> nat" where
  "html_extra c = (if c = ch_lt \<or> c = ch_gt then 3 else if c = ch_amp then 4 else if c = ch_dquote then 5 else 0)"

lemma html_count_sum: "html_count_loop src n = n + of_nat (sum_list (map html_extra src))"
  by (induction src arbitrary: n) simp_all

lemma html_write_length: "length (html_write_loop src) = length src + sum_list (map html_extra src)"
  by (induction src) simp_all

lemma html_extra_bound: "sum_list (map html_extra src) \<le> 5 * length src"
  by (induction src) simp_all

lemma html_lengths:
  "5 * length src < 2 ^ 64 \<Longrightarrow>
   length (html_write_loop src) = length src + unat (html_count_loop src 0)"
  using html_extra_bound [of src]
  by (simp add: html_count_sum html_write_length unat_of_nat_64)

section \<open>Unescaping what was escaped\<close>

definition unhex :: "u_char \<Rightarrow> u_char option" where
  "unhex ch =
     (if ch_0 \<le> ch \<and> ch \<le> ch_9 then Some (ch - ch_0)
      else if ch_a \<le> ch OR 0x20 \<and> ch OR 0x20 \<le> ch_f then Some ((ch OR 0x20) - ch_a + 10)
      else None)"

lemma unhex_table: "map unhex esc_hex = map (\<lambda>n. Some (of_nat n)) [0..<16]"
  by (simp add: esc_hex_def unhex_def upt_rec)

lemma unhex_esc_hex: "unat (d :: u_char) < 16 \<Longrightarrow> unhex (esc_hex ! unat d) = Some d"
proof -
  assume "unat d < 16"
  moreover have "length esc_hex = 16" by (simp add: esc_hex_def)
  ultimately show ?thesis using arg_cong [OF unhex_table, of "\<lambda>l. l ! unat d"] by simp
qed

lemma nibbles:
  fixes c :: u_char
  shows "unat (drop_bit 4 c) < 16" "unat (c AND 0xf) < 16"
    "push_bit 4 (drop_bit 4 c) + (c AND 0xf) = c"
proof -
  have "(0xf :: u_char) = mask 4" by (simp add: mask_eq_exp_minus_1)
  then have low: "unat (c AND 0xf) = unat c mod 16" using unat_and_mask_mod [of c 4] by simp
  have high: "unat (drop_bit 4 c) = unat c div 16" using unat_drop_bit_div [of 4 c] by simp
  show "unat (drop_bit 4 c) < 16" "unat (c AND 0xf) < 16"
    using unat_u_char_less [of c] by (simp_all add: low high less_mult_imp_div_less)
  have "unat (push_bit 4 (drop_bit 4 c) + (c AND 0xf)) = unat c div 16 * 16 + unat c mod 16"
    using unat_u_char_less [of c]
    by (simp add: push_bit_eq_mult unat_word_ariths low high del: unat_u_char_less)
  then show "push_bit 4 (drop_bit 4 c) + (c AND 0xf) = c"
    by (simp add: word_unat_eq_iff)
qed

lemma un_quoted_hex:
  "un_state v = un_sw_quoted \<Longrightarrow> unhex (s ! p) = Some d \<Longrightarrow>
   un_step type s p v = Continue (v\<lparr>un_decoded := d, un_state := un_sw_quoted_second\<rparr>)"
  by (auto simp: un_step_def un_quoted_def unhex_def Let_def split: if_splits)

lemma un_second_hex:
  assumes "un_state v = un_sw_quoted_second" and "unhex (s ! p) = Some d"
    and "type = 0 \<or> type = NGX_UNESCAPE_URI \<and> push_bit 4 (un_decoded v) + d \<noteq> ch_qmark"
  shows "un_step type s p v = Continue (un_put (v\<lparr>un_state := un_sw_usual\<rparr>) [push_bit 4 (un_decoded v) + d])"
  using assms
  by (auto simp: un_step_def un_quoted_second_def unhex_def Let_def algebra_simps split: if_splits)

lemma un_usual_percent:
  "un_state v = un_sw_usual \<Longrightarrow> s ! p = ch_percent \<Longrightarrow>
   un_step type s p v = Continue (v\<lparr>un_state := un_sw_quoted\<rparr>)"
  by (simp add: un_step_def un_usual_def)

lemma un_usual_plain:
  "un_state v = un_sw_usual \<Longrightarrow> s ! p \<noteq> ch_percent \<Longrightarrow> type = 0 \<or> s ! p \<noteq> ch_qmark \<Longrightarrow>
   un_step type s p v = Continue (un_put v [s ! p])"
  by (auto simp: un_step_def un_usual_def Let_def)

text \<open>One escape, then a whole escaped text, from any position of the source.\<close>

lemma un_escape:
  assumes "un_state v = un_sw_usual" and "type = 0 \<or> type = NGX_UNESCAPE_URI \<and> c \<noteq> ch_qmark"
    and "s = pre @ ch_percent # esc_hex ! unat (drop_bit 4 c) # esc_hex ! unat (c AND 0xf) # rest"
  shows "scan (un_step type) s (length pre) v =
    scan (un_step type) s (Suc (Suc (Suc (length pre)))) (v\<lparr>un_decoded := drop_bit 4 c, un_out := un_out v @ [c]\<rparr>)"
proof -
  let ?n = "length pre"
  have h: "unhex (s ! Suc ?n) = Some (drop_bit 4 c)"
    and l: "unhex (s ! Suc (Suc ?n)) = Some (c AND 0xf)"
    using assms(3) by (simp_all add: nth_append unhex_esc_hex nibbles)
  let ?v = "v\<lparr>un_state := un_sw_quoted\<rparr>"
  let ?w = "?v\<lparr>un_decoded := drop_bit 4 c, un_state := un_sw_quoted_second\<rparr>"
  have "scan (un_step type) s ?n v = scan (un_step type) s (Suc ?n) ?v"
    using assms by (intro scan_Continue un_usual_percent) (simp_all add: nth_append)
  also have "\<dots> = scan (un_step type) s (Suc (Suc ?n)) ?w"
    using assms(3) by (intro scan_Continue un_quoted_hex h) simp_all
  also have "\<dots> = scan (un_step type) s (Suc (Suc (Suc ?n))) (un_put (?w\<lparr>un_state := un_sw_usual\<rparr>) [push_bit 4 (un_decoded ?w) + (c AND 0xf)])"
    using assms nibbles(3) [of c] by (intro scan_Continue un_second_hex l) auto
  also have "un_put (?w\<lparr>un_state := un_sw_usual\<rparr>) [push_bit 4 (un_decoded ?w) + (c AND 0xf)] =
      v\<lparr>un_decoded := drop_bit 4 c, un_out := un_out v @ [c]\<rparr>"
    using assms(1) nibbles(3) [of c] by (simp add: un_put_def)
  finally show ?thesis .
qed

lemma unescape_escaped:
  assumes "un_state v = un_sw_usual" and "in_table e ch_percent"
    and "type = 0 \<or> type = NGX_UNESCAPE_URI \<and> ch_qmark \<notin> set src"
  shows "\<exists>v'. scan (un_step type) (pre @ esc_write_loop e src) (length pre) v =
      Inl (length pre + length (esc_write_loop e src), v') \<and> un_out v' = un_out v @ src"
  using assms
proof (induction src arbitrary: pre v)
  case Nil
  then show ?case by (simp add: scan_end)
next
  case (Cons c src)
  let ?w = "if in_table e c then [ch_percent, esc_hex ! unat (drop_bit 4 c), esc_hex ! unat (c AND 0xf)] else [c]"
  let ?s = "pre @ esc_write_loop e (c # src)"
  have s: "?s = (pre @ ?w) @ esc_write_loop e src" by simp
  obtain v' where v': "un_state v' = un_sw_usual" "un_out v' = un_out v @ [c]"
    and "scan (un_step type) ?s (length pre) v = scan (un_step type) ?s (length (pre @ ?w)) v'"
  proof (cases "in_table e c")
    case True
    with Cons.prems have "scan (un_step type) ?s (length pre) v = scan (un_step type) ?s (Suc (Suc (Suc (length pre))))
        (v\<lparr>un_decoded := drop_bit 4 c, un_out := un_out v @ [c]\<rparr>)"
      by (intro un_escape) auto
    with True Cons.prems(1) show thesis
      by (intro that [of "v\<lparr>un_decoded := drop_bit 4 c, un_out := un_out v @ [c]\<rparr>"]) simp_all
  next
    case False
    then have "?s ! length pre = c" by (simp add: nth_append)
    moreover from False Cons.prems have "c \<noteq> ch_percent" "type = 0 \<or> c \<noteq> ch_qmark" by auto
    ultimately have "un_step type ?s (length pre) v = Continue (un_put v [c])"
      using Cons.prems(1) un_usual_plain [of v ?s "length pre" type] by simp
    then have "scan (un_step type) ?s (length pre) v = scan (un_step type) ?s (Suc (length pre)) (un_put v [c])"
      by (intro scan_Continue) (simp_all add: False)
    with False Cons.prems(1) show thesis by (intro that [of "un_put v [c]"]) (simp_all add: un_put_def)
  qed
  with Cons.IH [of v' "pre @ ?w"] Cons.prems show ?case unfolding s by auto
qed

lemma less_7_cases: "n < 7 \<Longrightarrow> n = 0 \<or> n = 1 \<or> n = 2 \<or> n = 3 \<or> n = 4 \<or> n = 5 \<or> n = (6 :: nat)"
  by auto

lemmas escape_table_defs = esc_map_def esc_uri_def esc_args_def esc_uri_component_def esc_html_def
  esc_refresh_def esc_memcached_def

lemma escape_tables:
  "type < 7 \<Longrightarrow> type \<noteq> NGX_ESCAPE_REFRESH \<Longrightarrow> in_table (esc_map ! type) ch_percent"
  by (drule less_7_cases) (auto simp: escape_table_defs in_table_bit)

text \<open>No table contains a hexadecimal digit, so what is written needs no further escape but for \<open>%\<close>.\<close>

lemma hex_not_escaped:
  assumes "type < 7" and "n < 16"
  shows "\<not> in_table (esc_map ! type) (esc_hex ! n)"
proof -
  have "length esc_hex = 16" by (simp add: esc_hex_def)
  moreover have "list_all (\<lambda>e. list_all (\<lambda>c. \<not> in_table e c) esc_hex) esc_map"
    by (simp add: escape_table_defs in_table_bit esc_hex_def)
  ultimately show ?thesis using assms by (simp add: list_all_length esc_map_def)
qed

lemma esc_write_clean:
  assumes "\<And>n. n < 16 \<Longrightarrow> \<not> in_table e (esc_hex ! n)"
  shows "list_all (\<lambda>c. c = ch_percent \<or> \<not> in_table e c) (esc_write_loop e src)"
  by (induction src) (simp_all add: assms nibbles)

section \<open>What unescaping keeps in bounds\<close>

text \<open>Bytes consumed but not yet accounted for in the output: the start of an escape.\<close>

fun un_pending :: "un_sw \<Rightarrow> nat" where
  "un_pending un_sw_usual = 0"
| "un_pending un_sw_quoted = 1"
| "un_pending un_sw_quoted_second = 2"

definition un_bound :: "nat \<Rightarrow> unescape_state \<Rightarrow> bool" where
  "un_bound p v \<longleftrightarrow> length (un_out v) + un_pending (un_state v) \<le> p"

lemma un_step_bound:
  assumes "un_bound p v"
  shows "un_step type s p v = Continue v' \<Longrightarrow> un_bound (Suc p) v'"
    and "un_step type s p v = Stop (out, q) \<Longrightarrow> length out \<le> q \<and> q = Suc p"
  using assms
  by (cases "un_state v"; auto simp: un_bound_def un_step_def step_defs un_put_def un_done_def Let_def split: if_splits)+

section \<open>Stopping at the query\<close>

lemma decimal_not_qmark:
  fixes h d :: u_char
  assumes "unat d < 10"
  shows "push_bit 4 h + d \<noteq> ch_qmark"
proof
  assume "push_bit 4 h + d = ch_qmark"
  then have "unat (push_bit 4 h + d) = 63" by simp
  then have "(16 * unat h + unat d) mod 256 = 63"
    by (simp add: push_bit_eq_mult unat_word_ariths mod_add_left_eq mult.commute)
  then have "(16 * unat h + unat d) mod 256 mod 16 = 15" by simp
  then have "(16 * unat h + unat d) mod 16 = 15" by (simp add: mod_mod_cancel)
  with assms show False by simp
qed

lemma un_second_qmark:
  assumes "un_state v = un_sw_quoted_second" and "unhex (s ! p) = Some d"
    and "push_bit 4 (un_decoded v) + d = ch_qmark"
  shows "un_step NGX_UNESCAPE_URI s p v = Stop (un_out v @ [ch_qmark], Suc p)"
proof -
  have "\<not> (ch_0 \<le> s ! p \<and> s ! p \<le> ch_9)"
  proof
    assume digit: "ch_0 \<le> s ! p \<and> s ! p \<le> ch_9"
    then have "unat d < 10" using assms(2) by (auto simp: unhex_def word_le_nat_alt unat_sub)
    with assms(3) show False using decimal_not_qmark by blast
  qed
  with assms show ?thesis
    by (auto simp: un_step_def un_quoted_second_def unhex_def un_done_def Let_def algebra_simps split: if_splits)
qed

lemma un_invalid:
  "un_state v = un_sw_quoted \<Longrightarrow> unhex (s ! p) = None \<Longrightarrow>
   un_step type s p v = Continue (un_put (v\<lparr>un_state := un_sw_usual\<rparr>) [s ! p])"
  "un_state v = un_sw_quoted_second \<Longrightarrow> unhex (s ! p) = None \<Longrightarrow>
   un_step type s p v = Continue (v\<lparr>un_state := un_sw_usual\<rparr>)"
  by (auto simp: un_step_def un_quoted_def un_quoted_second_def unhex_def Let_def split: if_splits)

lemma un_usual_qmark:
  "un_state v = un_sw_usual \<Longrightarrow> s ! p = ch_qmark \<Longrightarrow>
   un_step NGX_UNESCAPE_URI s p v = Stop (un_out v @ [ch_qmark], Suc p)"
  by (simp add: un_step_def un_usual_def un_done_def)

text \<open>
  Where no \<open>%\<close> is directly followed by a question mark, decoding with \<^verbatim>\<open>NGX_UNESCAPE_URI\<close> differs
  from plain decoding only in stopping at the first question mark it writes.
\<close>

lemma un_cut_step:
  assumes "s ! p = ch_qmark \<Longrightarrow> un_state v \<noteq> un_sw_quoted"
  shows "\<exists>v' r. un_step 0 s p v = Continue v' \<and> un_out v' = un_out v @ r \<and> length r \<le> 1 \<and>
    (un_state v' = un_sw_quoted \<longrightarrow> s ! p = ch_percent) \<and>
    un_step NGX_UNESCAPE_URI s p v =
      (if r = [ch_qmark] then Stop (un_out v @ [ch_qmark], Suc p) else Continue v')"
proof (cases "un_state v")
  case un_sw_usual
  then show ?thesis
    using un_usual_percent [of v s p] un_usual_plain [of v s p] un_usual_qmark [of v s p]
    by (cases "s ! p = ch_percent"; cases "s ! p = ch_qmark") (auto simp: un_put_def)
next
  case un_sw_quoted
  then show ?thesis
    using assms un_quoted_hex [of v s p] un_invalid(1) [of v s p]
    by (cases "unhex (s ! p)") (auto simp: un_put_def)
next
  case un_sw_quoted_second
  show ?thesis
  proof (cases "unhex (s ! p)")
    case None
    with un_sw_quoted_second show ?thesis using un_invalid(2) [of v s p] by (auto simp: un_put_def)
  next
    case (Some d)
    with un_sw_quoted_second show ?thesis
      using un_second_hex [of v s p d] un_second_qmark [of v s p d]
      by (cases "push_bit 4 (un_decoded v) + d = ch_qmark") (auto simp: un_put_def)
  qed
qed

fun no_percent_qmark :: "buffer \<Rightarrow> bool" where
  "no_percent_qmark (a # b # s) \<longleftrightarrow> \<not> (a = ch_percent \<and> b = ch_qmark) \<and> no_percent_qmark (b # s)"
| "no_percent_qmark _ \<longleftrightarrow> True"

lemma no_percent_qmark_nth:
  "no_percent_qmark s \<Longrightarrow> Suc i < length s \<Longrightarrow> s ! i = ch_percent \<Longrightarrow> s ! Suc i \<noteq> ch_qmark"
  by (induction s arbitrary: i rule: no_percent_qmark.induct) (auto simp: nth_Cons split: nat.splits)

definition cut_at_qmark :: "buffer \<Rightarrow> buffer" where
  "cut_at_qmark cs = takeWhile (\<lambda>c. c \<noteq> ch_qmark) cs @ (if List.member cs ch_qmark then [ch_qmark] else [])"

lemma cut_at_qmark_simps [simp]:
  "cut_at_qmark [] = []"
  "cut_at_qmark (c # cs) = (if c = ch_qmark then [c] else c # cut_at_qmark cs)"
  by (auto simp: cut_at_qmark_def)

definition un_result :: "(nat \<times> unescape_state) + (buffer \<times> nat) \<Rightarrow> buffer" where
  "un_result x = (case x of Inl (p, v) \<Rightarrow> un_out v | Inr (out, q) \<Rightarrow> out)"

lemma un_cut_scan:
  assumes "p \<le> length s"
    and "\<And>i. Suc i < length s \<Longrightarrow> s ! i = ch_percent \<Longrightarrow> s ! Suc i \<noteq> ch_qmark"
    and "p < length s \<Longrightarrow> s ! p = ch_qmark \<Longrightarrow> un_state v \<noteq> un_sw_quoted"
  shows "\<exists>r. un_result (scan (un_step 0) s p v) = un_out v @ r \<and>
    un_result (scan (un_step NGX_UNESCAPE_URI) s p v) = un_out v @ cut_at_qmark r"
  using assms
proof (induction "length s - p" arbitrary: p v)
  case 0
  then show ?case by (simp add: un_result_def)
next
  case (Suc n)
  then have p: "p < length s" by simp
  then obtain v' r where step: "un_step 0 s p v = Continue v'" "un_out v' = un_out v @ r" "length r \<le> 1"
      "un_state v' = un_sw_quoted \<Longrightarrow> s ! p = ch_percent"
      "un_step NGX_UNESCAPE_URI s p v =
         (if r = [ch_qmark] then Stop (un_out v @ [ch_qmark], Suc p) else Continue v')"
    using un_cut_step [of s p v] Suc.prems(3) by blast
  have "\<exists>r'. un_result (scan (un_step 0) s (Suc p) v') = un_out v' @ r' \<and>
      un_result (scan (un_step NGX_UNESCAPE_URI) s (Suc p) v') = un_out v' @ cut_at_qmark r'"
    using Suc.hyps(2) Suc.prems(2) step(4) p by (intro Suc.hyps(1)) auto
  then obtain r' where r': "un_result (scan (un_step 0) s (Suc p) v') = un_out v @ r @ r'"
      "un_result (scan (un_step NGX_UNESCAPE_URI) s (Suc p) v') = un_out v @ r @ cut_at_qmark r'"
    using step(2) by auto
  have r: "r = [] \<or> (\<exists>c. r = [c])" using step(3) by (cases r) auto
  show ?case
  proof (cases "r = [ch_qmark]")
    case True
    with step r' p show ?thesis
      by (intro exI [of _ "r @ r'"]) (auto simp: scan_Continue scan_Stop un_result_def)
  next
    case False
    with r have "cut_at_qmark (r @ r') = r @ cut_at_qmark r'" by (auto split: if_splits)
    with False step r' p show ?thesis
      by (intro exI [of _ "r @ r'"]) (auto simp: scan_Continue)
  qed
qed

section \<open>Markup\<close>

text \<open>The reference for the writer: the four entities read back.\<close>

fun html_unescape :: "buffer \<Rightarrow> buffer" where
  "html_unescape (c # s) =
     (if c = ch_amp then
        (if take 3 s = [ch_l, ch_t, ch_semi] then ch_lt # html_unescape (drop 3 s)
         else if take 3 s = [ch_g, ch_t, ch_semi] then ch_gt # html_unescape (drop 3 s)
         else if take 4 s = [ch_a, ch_m, ch_p, ch_semi] then ch_amp # html_unescape (drop 4 s)
         else if take 5 s = [ch_q, ch_u, ch_o, ch_t, ch_semi] then ch_dquote # html_unescape (drop 5 s)
         else c # html_unescape s)
      else c # html_unescape s)"
| "html_unescape [] = []"

lemma html_write_inverse: "html_unescape (html_write_loop src) = src"
  by (induction src) simp_all

lemma html_write_clean: "list_all (\<lambda>c. c \<noteq> ch_lt \<and> c \<noteq> ch_gt \<and> c \<noteq> ch_dquote) (html_write_loop src)"
  by (induction src) simp_all

section \<open>Properties\<close>

text \<open>
  C36.  Escaping with any type but \<^verbatim>\<open>NGX_ESCAPE_REFRESH\<close> is undone by unescaping, the counting mode
  announces exactly the room that the writing mode fills (two bytes more for every escape), and what
  is written holds no byte of the table but the \<open>%\<close> of the escapes.
\<close>

theorem escape_uri_roundtrip:
  assumes "type < 7" and "type \<noteq> NGX_ESCAPE_REFRESH" and "length src < 2 ^ 64"
  shows "ngx_unescape_uri (ngx_escape_uri src type) 0 = (src, length (ngx_escape_uri src type)) \<and>
    length (ngx_escape_uri src type) = length src + 2 * unat (ngx_escape_uri_count src type) \<and>
    list_all (\<lambda>c. c = ch_percent \<or> \<not> in_table (esc_map ! type) c) (ngx_escape_uri src type)"
proof (intro conjI)
  show "ngx_unescape_uri (ngx_escape_uri src type) 0 = (src, length (ngx_escape_uri src type))"
    using unescape_escaped [of "\<lparr>un_state = un_sw_usual, un_decoded = 0, un_out = []\<rparr>" "esc_map ! type" 0 src "[]"]
      escape_tables [OF assms(1,2)]
    by (auto simp: ngx_unescape_uri_def ngx_escape_uri_def)
  show "length (ngx_escape_uri src type) = length src + 2 * unat (ngx_escape_uri_count src type)"
    using assms(3) unfolding ngx_escape_uri_def ngx_escape_uri_count_def by (rule esc_lengths)
  show "list_all (\<lambda>c. c = ch_percent \<or> \<not> in_table (esc_map ! type) c) (ngx_escape_uri src type)"
    unfolding ngx_escape_uri_def by (rule esc_write_clean) (rule hex_not_escaped [OF assms(1)])
qed

theorem escape_uri_roundtrip_witness:
  "ngx_unescape_uri (ngx_escape_uri (bytes ''/a b%c'') NGX_ESCAPE_ARGS) 0 = (bytes ''/a b%c'', 10)"
  using escape_uri_roundtrip [of NGX_ESCAPE_ARGS "bytes ''/a b%c''"]
  by (simp add: ngx_escape_uri_def escape_table_defs in_table_bit)

text \<open>
  In every mode the unescaper writes no more bytes than it has read and reads no more than it is
  given; as this holds for every prefix of the input too, it may write over its own input.
\<close>

theorem unescape_uri_in_place:
  "length (fst (ngx_unescape_uri s type)) \<le> snd (ngx_unescape_uri s type) \<and>
   snd (ngx_unescape_uri s type) \<le> length s"
proof -
  let ?v = "\<lparr>un_state = un_sw_usual, un_decoded = 0, un_out = []\<rparr>"
  have "case scan (un_step type) s 0 ?v of
      Inl (q, t) \<Rightarrow> q = length s \<and> un_bound q t
    | Inr r \<Rightarrow> \<exists>q t. 0 \<le> q \<and> q < length s \<and> un_bound q t \<and> un_step type s q t = Stop r"
    by (rule scan_invariant) (auto simp: un_bound_def [of 0] intro: un_step_bound(1))
  then show ?thesis
    unfolding ngx_unescape_uri_def
    by (auto simp: un_bound_def split: sum.splits dest!: un_step_bound(2) [rotated])
qed

text \<open>
   With \<^verbatim>\<open>NGX_UNESCAPE_URI\<close> the unescaper decodes the same bytes and stops after the first
  question mark, raw or escaped, provided that no \<open>%\<close> is directly followed by a question mark (which
  would be copied as the invalid rest of an escape).
\<close>

theorem unescape_uri_cuts_query:
  assumes "no_percent_qmark s"
  shows "fst (ngx_unescape_uri s NGX_UNESCAPE_URI) = cut_at_qmark (fst (ngx_unescape_uri s 0))"
  using un_cut_scan [of 0 s "\<lparr>un_state = un_sw_usual, un_decoded = 0, un_out = []\<rparr>"] no_percent_qmark_nth [OF assms]
  by (auto simp: ngx_unescape_uri_def un_result_def split: sum.splits prod.splits)

theorem unescape_uri_cuts_query_witness:
  "fst (ngx_unescape_uri (bytes ''/%41%3fx'') NGX_UNESCAPE_URI) = bytes ''/A?''"
proof -
  have "fst (ngx_unescape_uri (bytes ''/%41%3fx'') NGX_UNESCAPE_URI) =
      cut_at_qmark (fst (ngx_unescape_uri (bytes ''/%41%3fx'') 0))"
    by (rule unescape_uri_cuts_query) simp
  then show ?thesis
    by (simp add: ngx_unescape_uri_def scan.simps un_step_def step_defs un_put_def Let_def)
qed

text \<open>
  Text written by \<^verbatim>\<open>ngx_escape_html\<close> holds no markup delimiter and no double quote, its
  entities read back to the text, and it fills exactly the room that the counting mode announces.
\<close>

theorem escape_html_faithful:
  assumes "5 * length src < 2 ^ 64"
  shows "html_unescape (ngx_escape_html src) = src \<and>
    list_all (\<lambda>c. c \<noteq> ch_lt \<and> c \<noteq> ch_gt \<and> c \<noteq> ch_dquote) (ngx_escape_html src) \<and>
    length (ngx_escape_html src) = length src + unat (ngx_escape_html_count src)"
  unfolding ngx_escape_html_def ngx_escape_html_count_def
  by (intro conjI html_write_inverse html_write_clean html_lengths assms)

theorem escape_html_faithful_witness:
  "length (ngx_escape_html (bytes ''<a href=\"x\">'')) = 12 + unat (ngx_escape_html_count (bytes ''<a href=\"x\">''))"
  using escape_html_faithful [of "bytes ''<a href=\"x\">''"] by simp

end
