(* ===== verification/Ngx_Parse.thy ===== *)
theory Ngx_Parse
  imports Ngx_Number
begin

text \<open>
  The readers of configuration values, \<^verbatim>\<open>src/core/ngx_parse.c\<close>: sizes and offsets with a unit, and
  times as a sum of units.  The outer option is \<open>None\<close> where the code reads outside the text, the inner
  one where it returns \<^verbatim>\<open>NGX_ERROR\<close>.  What a number with a scaling suffix means is the locale
  \<^verbatim>\<open>scaled_reader\<close>, an extension of the contract of the plain number readers.
\<close>

section \<open>Sizes and offsets\<close>

definition ngx_parse_size :: "buffer \<Rightarrow> ngx_int_t option option" where
  "ngx_parse_size line =
     (if line = [] then None
      else
        (let unit = last line;
             (len, scale) =
               (if unit = ch_K \<or> unit = ch_k then (length line - 1, 1024)
                else if unit = ch_M \<or> unit = ch_m then (length line - 1, 1024 * 1024)
                else (length line, 1)) in
         Some (case ngx_atosz (take len line) of None \<Rightarrow> None | Some sz \<Rightarrow> Some (sz * scale))))"

definition ngx_parse_offset :: "buffer \<Rightarrow> ngx_int_t option option" where
  "ngx_parse_offset line =
     (if line = [] then None
      else
        (let unit = last line;
             (len, scale) =
               (if unit = ch_K \<or> unit = ch_k then (length line - 1, 1024)
                else if unit = ch_M \<or> unit = ch_m then (length line - 1, 1024 * 1024)
                else if unit = ch_G \<or> unit = ch_g then (length line - 1, 1024 * 1024 * 1024)
                else (length line, 1)) in
         Some (case ngx_atoof (take len line) of None \<Rightarrow> None | Some offset \<Rightarrow> Some (offset * scale))))"

section \<open>Times\<close>

datatype time_step =
  st_start | st_year | st_month | st_week | st_day | st_hour | st_min | st_sec | st_msec | st_last

text \<open>The enumeration is ordered by its numbers.\<close>

fun time_index :: "time_step \<Rightarrow> nat" where
  "time_index st_start = 0"
| "time_index st_year = 1"
| "time_index st_month = 2"
| "time_index st_week = 3"
| "time_index st_day = 4"
| "time_index st_hour = 5"
| "time_index st_min = 6"
| "time_index st_sec = 7"
| "time_index st_msec = 8"
| "time_index st_last = 9"

lemma time_index_inject: "time_index a = time_index b \<Longrightarrow> a = b"
  by (cases a; cases b) simp_all

instantiation time_step :: linorder
begin

definition less_eq_time_step :: "time_step \<Rightarrow> time_step \<Rightarrow> bool" where
  "less_eq_time_step a b \<longleftrightarrow> time_index a \<le> time_index b"

definition less_time_step :: "time_step \<Rightarrow> time_step \<Rightarrow> bool" where
  "less_time_step a b \<longleftrightarrow> time_index a < time_index b"

instance
  by standard (auto simp: less_eq_time_step_def less_time_step_def dest: time_index_inject)

end

definition NGX_MAX_INT32_VALUE :: ngx_uint_t where
  "NGX_MAX_INT32_VALUE = 0x7fffffff"

text \<open>
  The switch over the unit: the new step, the largest value, the scale and the position after the
  unit.  \<open>p\<close> is the position after the first byte of the unit; \<open>m\<close> looks at the byte there.
\<close>

definition time_unit ::
  "buffer \<Rightarrow> nat \<Rightarrow> bool \<Rightarrow> time_step \<Rightarrow> u_char \<Rightarrow> (time_step \<times> ngx_uint_t \<times> ngx_int_t \<times> nat) option option"
where
  "time_unit mem p is_sec step ch =
     (if ch = ch_y then
        Some (if step > st_start then None
              else Some (st_year, NGX_MAX_INT32_VALUE div (60 * 60 * 24 * 365), 60 * 60 * 24 * 365, p))
      else if ch = ch_M then
        Some (if step \<ge> st_month then None
              else Some (st_month, NGX_MAX_INT32_VALUE div (60 * 60 * 24 * 30), 60 * 60 * 24 * 30, p))
      else if ch = ch_w then
        Some (if step \<ge> st_week then None
              else Some (st_week, NGX_MAX_INT32_VALUE div (60 * 60 * 24 * 7), 60 * 60 * 24 * 7, p))
      else if ch = ch_d then
        Some (if step \<ge> st_day then None
              else Some (st_day, NGX_MAX_INT32_VALUE div (60 * 60 * 24), 60 * 60 * 24, p))
      else if ch = ch_h then
        Some (if step \<ge> st_hour then None
              else Some (st_hour, NGX_MAX_INT32_VALUE div (60 * 60), 60 * 60, p))
      else if ch = ch_m then
        (if p < length mem then
           (if mem ! p = ch_s then
              Some (if is_sec \<or> step \<ge> st_msec then None
                    else Some (st_msec, NGX_MAX_INT32_VALUE, 1, Suc p))
            else
              Some (if step \<ge> st_min then None
                    else Some (st_min, NGX_MAX_INT32_VALUE div 60, 60, p)))
         else None)
      else if ch = ch_s then
        Some (if step \<ge> st_sec then None else Some (st_sec, NGX_MAX_INT32_VALUE, 1, p))
      else if ch = ch_space then
        Some (if step \<ge> st_sec then None else Some (st_last, NGX_MAX_INT32_VALUE, 1, p))
      else Some None)"

function time_spaces :: "buffer \<Rightarrow> nat \<Rightarrow> nat \<Rightarrow> nat" where
  "time_spaces mem limit p =
     (if p < limit \<and> mem ! p = ch_space then time_spaces mem limit (Suc p) else p)"
  by pat_completeness auto
termination
  by (relation "measure (\<lambda>(mem, limit, p). limit - p)") auto

declare time_spaces.simps [simp del]

lemma time_spaces_le: "p \<le> time_spaces mem limit p"
  by (induction mem limit p rule: time_spaces.induct) (subst time_spaces.simps, auto)

lemma time_unit_forward: "time_unit mem p is_sec step ch = Some (Some (step', most, scale, q)) \<Longrightarrow> p \<le> q"
  by (auto simp: time_unit_def split: if_splits)

definition time_digit :: "u_char \<Rightarrow> bool" where
  "time_digit c \<longleftrightarrow> ch_0 \<le> c \<and> c \<le> ch_9"

function time_loop ::
  "buffer \<Rightarrow> nat \<Rightarrow> bool \<Rightarrow> nat \<Rightarrow> ngx_int_t \<Rightarrow> ngx_int_t \<Rightarrow> time_step \<Rightarrow> bool \<Rightarrow> ngx_int_t option option"
where
  "time_loop mem limit is_sec p val acc step valid =
     (if p < limit then
        (if p < length mem then
           (if time_digit (mem ! p)
            then time_loop mem limit is_sec (Suc p) (val * 10 + (ucast (mem ! p) - ucast ch_0)) acc step True
            else
              (case time_unit mem (Suc p) is_sec step (mem ! p) of
                 None \<Rightarrow> None
               | Some None \<Rightarrow> Some None
               | Some (Some (step, most, scale, q)) \<Rightarrow>
                   (let scale = (if step \<noteq> st_msec \<and> \<not> is_sec then scale * 1000 else scale);
                        most = (if step \<noteq> st_msec \<and> \<not> is_sec then most div 1000 else most);
                        acc' = acc + val * scale in
                    if val > most then Some None
                    else if acc' > NGX_MAX_INT32_VALUE then Some None
                    else time_loop mem limit is_sec (time_spaces mem limit q) 0 acc' step valid)))
         else None)
      else Some (if valid then Some (acc + val * (if is_sec then 1 else 1000)) else None))"
  by pat_completeness auto
termination
proof (relation "measure (\<lambda>(mem, limit, is_sec, p, val, acc, step, valid). limit - p)", goal_cases)
  case (3 mem limit is_sec p val acc step valid x1 x2 step' y most z scale q)
  then show ?case
    using time_unit_forward [of mem "Suc p" is_sec step "mem ! p" step' most scale q] time_spaces_le [of q mem limit] by simp
qed auto

declare time_loop.simps [simp del]

definition ngx_parse_time :: "buffer \<Rightarrow> nat \<Rightarrow> bool \<Rightarrow> ngx_int_t option option" where
  "ngx_parse_time mem len is_sec =
     time_loop mem len is_sec 0 0 0 (if is_sec then st_start else st_month) False"

section \<open>Numbers with a scaling suffix\<close>

definition dec_digits :: "buffer \<Rightarrow> bool" where
  "dec_digits ds \<longleftrightarrow> ds \<noteq> [] \<and> list_all (\<lambda>c. dec_digit_value c \<noteq> None) ds"

definition dec_value :: "buffer \<Rightarrow> nat" where
  "dec_value ds = number 10 dec_digit_value 0 ds"

locale scaled_reader = number_reader reader 10 dec_digit_value
  for reader :: "buffer \<Rightarrow> ngx_int_t option" +
  fixes parse :: "buffer \<Rightarrow> ngx_int_t option option" and scale :: "u_char \<Rightarrow> nat option"
  assumes parse_unit: "scale u = Some k \<Longrightarrow> parse (ds @ [u]) = Some (map_option (\<lambda>v. v * of_nat k) (reader ds))"
    and parse_plain: "line \<noteq> [] \<Longrightarrow> scale (last line) = None \<Longrightarrow> parse line = Some (reader line)"
    and unit_not_digit: "scale u = Some k \<Longrightarrow> dec_digit_value u = None"
begin

lemma parse_suffix:
  "dec_digits ds \<Longrightarrow> dec_value ds < 2 ^ 63 \<Longrightarrow> scale u = Some k \<Longrightarrow>
   parse (ds @ [u]) = Some (Some (of_nat (dec_value ds * k)))"
  using reader_exact [of ds] by (simp add: parse_unit dec_digits_def dec_value_def list_all_iff)

lemma parse_digits:
  assumes "dec_digits ds" and "dec_value ds < 2 ^ 63"
  shows "parse ds = Some (Some (of_nat (dec_value ds)))"
proof -
  have "dec_digit_value (last ds) \<noteq> None" using assms(1) by (auto simp: dec_digits_def list_all_iff)
  then have "scale (last ds) = None" using unit_not_digit [of "last ds"] by (cases "scale (last ds)") auto
  then show ?thesis
    using assms parse_plain [of ds] reader_exact [of ds] by (simp add: dec_digits_def dec_value_def list_all_iff)
qed

lemma parse_refuses:
  "\<not> dec_digits ds \<Longrightarrow> scale u = Some k \<Longrightarrow> parse (ds @ [u]) = Some None"
  using reader_other [of ds] by (auto simp: parse_unit dec_digits_def list_all_iff)

lemma parse_contract:
  "(dec_digits ds \<and> dec_value ds < 2 ^ 63 \<longrightarrow>
      parse ds = Some (Some (of_nat (dec_value ds))) \<and>
      (\<forall>u k. scale u = Some k \<longrightarrow> parse (ds @ [u]) = Some (Some (of_nat (dec_value ds * k))))) \<and>
   (\<not> dec_digits ds \<longrightarrow> (\<forall>u k. scale u = Some k \<longrightarrow> parse (ds @ [u]) = Some None))"
  using parse_suffix parse_digits parse_refuses by blast

end

definition size_scale :: "u_char \<Rightarrow> nat option" where
  "size_scale u = (if u = ch_K \<or> u = ch_k then Some 1024 else if u = ch_M \<or> u = ch_m then Some (1024 * 1024) else None)"

definition offset_scale :: "u_char \<Rightarrow> nat option" where
  "offset_scale u =
     (if u = ch_G \<or> u = ch_g then Some (1024 * 1024 * 1024) else size_scale u)"

interpretation size_reader: scaled_reader ngx_atosz ngx_parse_size size_scale
  by unfold_locales
    (auto simp: size_scale_def ngx_parse_size_def dec_digit_value_def Let_def split: if_splits option.split)

interpretation offset_reader: scaled_reader ngx_atoof ngx_parse_offset offset_scale
  by unfold_locales
    (auto simp: offset_scale_def size_scale_def ngx_parse_offset_def dec_digit_value_def Let_def split: if_splits option.split)

section \<open>Sums of times\<close>

definition unit_text :: "time_step \<Rightarrow> buffer" where
  "unit_text u =
     (case u of st_year \<Rightarrow> [ch_y] | st_month \<Rightarrow> [ch_M] | st_week \<Rightarrow> [ch_w] | st_day \<Rightarrow> [ch_d] | st_hour \<Rightarrow> [ch_h]
      | st_min \<Rightarrow> [ch_m] | st_sec \<Rightarrow> [ch_s] | st_msec \<Rightarrow> [ch_m, ch_s] | _ \<Rightarrow> [])"

definition unit_seconds :: "time_step \<Rightarrow> nat" where
  "unit_seconds u =
     (case u of st_year \<Rightarrow> 31536000 | st_month \<Rightarrow> 2592000 | st_week \<Rightarrow> 604800 | st_day \<Rightarrow> 86400 | st_hour \<Rightarrow> 3600
      | st_min \<Rightarrow> 60 | _ \<Rightarrow> 1)"

definition unit_scale :: "bool \<Rightarrow> time_step \<Rightarrow> nat" where
  "unit_scale is_sec u = (if u \<noteq> st_msec \<and> \<not> is_sec then unit_seconds u * 1000 else unit_seconds u)"

definition unit_allowed :: "bool \<Rightarrow> time_step \<Rightarrow> bool" where
  "unit_allowed is_sec u \<longleftrightarrow> st_start < u \<and> u < st_last \<and> (if is_sec then u \<noteq> st_msec else st_month < u)"

lemmas time_order = less_eq_time_step_def less_time_step_def

lemma time_unit_step:
  assumes "unit_allowed is_sec u" and "step < u" and "p < length mem" and "mem ! p = ch_s \<longleftrightarrow> u = st_msec"
  shows "time_unit mem p is_sec step (hd (unit_text u)) =
    Some (Some (u, NGX_MAX_INT32_VALUE div of_nat (unit_seconds u), of_nat (unit_seconds u), p + length (unit_text u) - 1))"
proof -
  have less: "\<not> u \<le> step" "step < u" using assms(2) by auto
  have start: "st_start < step \<longleftrightarrow> \<not> step < st_year" by (cases step) (simp_all add: time_order)
  show ?thesis
  proof (cases u)
    case st_year
    with less start show ?thesis by (simp add: time_unit_def unit_text_def unit_seconds_def)
  next
    case st_month
    with less show ?thesis by (simp add: time_unit_def unit_text_def unit_seconds_def)
  next
    case st_week
    with less show ?thesis by (simp add: time_unit_def unit_text_def unit_seconds_def)
  next
    case st_day
    with less show ?thesis by (simp add: time_unit_def unit_text_def unit_seconds_def)
  next
    case st_hour
    with less show ?thesis by (simp add: time_unit_def unit_text_def unit_seconds_def)
  next
    case st_min
    with less assms(3,4) show ?thesis by (simp add: time_unit_def unit_text_def unit_seconds_def)
  next
    case st_sec
    with less show ?thesis by (simp add: time_unit_def unit_text_def unit_seconds_def)
  next
    case st_msec
    with less assms(1,3,4) show ?thesis
      by (simp add: time_unit_def unit_text_def unit_seconds_def unit_allowed_def split: if_splits)
  qed (use assms(1) in \<open>simp_all add: unit_allowed_def time_order\<close>)
qed

lemma time_loop_digits:
  assumes "list_all (\<lambda>c. dec_digit_value c \<noteq> None) ds" and "length pre + length ds \<le> limit"
  shows "time_loop (pre @ ds @ rest) limit is_sec (length pre) (of_nat n) acc step valid =
    time_loop (pre @ ds @ rest) limit is_sec (length pre + length ds) (of_nat (number 10 dec_digit_value n ds))
      acc step (valid \<or> ds \<noteq> [])"
  using assms
proof (induction ds arbitrary: pre n valid)
  case (Cons c ds)
  let ?mem = "pre @ (c # ds) @ rest"
  have d: "time_digit c" "ucast c - ucast ch_0 = (of_nat (the (dec_digit_value c)) :: ngx_int_t)"
    using dec_digit_char [of c] Cons.prems(1) by (auto simp: time_digit_def not_less)
  have "time_loop ?mem limit is_sec (length pre) (of_nat n) acc step valid =
      time_loop ?mem limit is_sec (length (pre @ [c])) (of_nat (n * 10 + the (dec_digit_value c))) acc step True"
    using Cons.prems(2) d by (subst time_loop.simps) simp
  also have "\<dots> = time_loop ((pre @ [c]) @ ds @ rest) limit is_sec (length (pre @ [c]))
      (of_nat (n * 10 + the (dec_digit_value c))) acc step True"
    by simp
  also have "\<dots> = time_loop ?mem limit is_sec (length pre + length (c # ds))
      (of_nat (number 10 dec_digit_value n (c # ds))) acc step (valid \<or> c # ds \<noteq> [])"
    using Cons.prems by (subst Cons.IH) (simp_all add: number_def)
  finally show ?case .
qed (simp add: number_def)

text \<open>The checks against the largest value and the largest sum, on numbers.\<close>

lemma time_item_arith:
  fixes v t :: nat
  assumes "t + v * unit_scale is_sec u \<le> 0x7fffffff"
  defines "most \<equiv> NGX_MAX_INT32_VALUE div of_nat (unit_seconds u)"
  defines "scale \<equiv> (if u \<noteq> st_msec \<and> \<not> is_sec then of_nat (unit_seconds u) * 1000 else of_nat (unit_seconds u)) :: ngx_int_t"
  shows "\<not> of_nat v > (if u \<noteq> st_msec \<and> \<not> is_sec then most div 1000 else most)"
    and "of_nat t + of_nat v * scale = (of_nat (t + v * unit_scale is_sec u) :: ngx_int_t)"
    and "\<not> (of_nat (t + v * unit_scale is_sec u) :: ngx_int_t) > NGX_MAX_INT32_VALUE"
proof -
  have pos: "0 < unit_seconds u" "unit_seconds u \<le> 31536000" by (cases u; simp add: unit_seconds_def)+
  then have spos: "0 < unit_scale is_sec u" by (simp add: unit_scale_def)
  have "v \<le> v * unit_scale is_sec u" using spos by simp
  then have v: "v \<le> 0x7fffffff" using assms(1) by linarith
  have "unat (of_nat v :: ngx_uint_t) = v" using v by (intro unat_of_nat_64) simp
  moreover have "unat (of_nat (unit_seconds u) :: ngx_uint_t) = unit_seconds u" using pos by (intro unat_of_nat_64) simp
  moreover have "v \<le> 0x7fffffff div unit_scale is_sec u"
    using assms(1) spos by (simp add: less_eq_div_iff_mult_less_eq)
  ultimately show "\<not> of_nat v > (if u \<noteq> st_msec \<and> \<not> is_sec then most div 1000 else most)"
    by (auto simp: most_def word_less_nat_alt unat_div NGX_MAX_INT32_VALUE_def unit_scale_def div_mult2_eq split: if_splits)
  show "of_nat t + of_nat v * scale = (of_nat (t + v * unit_scale is_sec u) :: ngx_int_t)"
    by (simp add: scale_def unit_scale_def)
  have "unat (of_nat (t + v * unit_scale is_sec u) :: ngx_uint_t) = t + v * unit_scale is_sec u"
    using assms(1) by (intro unat_of_nat_64) simp
  then show "\<not> (of_nat (t + v * unit_scale is_sec u) :: ngx_int_t) > NGX_MAX_INT32_VALUE"
    using assms(1) by (simp add: word_less_nat_alt NGX_MAX_INT32_VALUE_def del: of_nat_add of_nat_mult)
qed

definition time_text :: "(buffer \<times> time_step) list \<Rightarrow> buffer" where
  "time_text items = concat (map (\<lambda>(ds, u). ds @ unit_text u) items)"

definition time_total :: "bool \<Rightarrow> (buffer \<times> time_step) list \<Rightarrow> nat" where
  "time_total is_sec items = (\<Sum>(ds, u) \<leftarrow> items. dec_value ds * unit_scale is_sec u)"

fun time_items :: "bool \<Rightarrow> time_step \<Rightarrow> (buffer \<times> time_step) list \<Rightarrow> bool" where
  "time_items is_sec step [] \<longleftrightarrow> True"
| "time_items is_sec step ((ds, u) # items) \<longleftrightarrow>
     dec_digits ds \<and> unit_allowed is_sec u \<and> step < u \<and> time_items is_sec u items"

lemma unit_text_shape:
  "unit_allowed is_sec u \<Longrightarrow> \<exists>c cs. unit_text u = c # cs \<and> \<not> time_digit c \<and> cs = (if u = st_msec then [ch_s] else [])"
  by (cases u) (simp_all add: unit_allowed_def unit_text_def time_order time_digit_def)

text \<open>What follows an item is a digit or the end of the text.\<close>

lemma time_text_head:
  assumes "time_items is_sec step items" and "c \<noteq> ch_s" and "c \<noteq> ch_space"
  shows "\<exists>d r. time_text items @ c # post = d # r \<and> d \<noteq> ch_s \<and> d \<noteq> ch_space"
proof (cases items)
  case (Cons item items')
  then obtain ds u where "items = (ds, u) # items'" "dec_digits ds" using assms(1) by (cases item) auto
  moreover from this obtain d ds' where "ds = d # ds'" "dec_digit_value d \<noteq> None"
    by (cases ds) (auto simp: dec_digits_def)
  ultimately show ?thesis using dec_digit_char [of d] by (auto simp: time_text_def)
qed (use assms in \<open>simp add: time_text_def\<close>)

lemma time_loop_unit:
  assumes allowed: "unit_allowed is_sec u" "step < u" and "t + v * unit_scale is_sec u \<le> 0x7fffffff"
    and d: "d \<noteq> ch_s" "d \<noteq> ch_space" and limit: "length pre + length (unit_text u) \<le> limit"
  shows "time_loop (pre @ unit_text u @ d # post) limit is_sec (length pre) (of_nat v) (of_nat t) step valid =
    time_loop (pre @ unit_text u @ d # post) limit is_sec (length pre + length (unit_text u)) 0
      (of_nat (t + v * unit_scale is_sec u)) u valid"
proof -
  let ?mem = "pre @ unit_text u @ d # post" and ?p = "length pre"
  obtain c cs where ut: "unit_text u = c # cs" "\<not> time_digit c" "cs = (if u = st_msec then [ch_s] else [])"
    using unit_text_shape [OF allowed(1)] by blast
  then have mem: "?p < length ?mem" "?mem ! ?p = c" "Suc ?p < length ?mem" "?mem ! Suc ?p = ch_s \<longleftrightarrow> u = st_msec"
    using d by (auto simp: nth_append)
  have unit: "time_unit ?mem (Suc ?p) is_sec step c = Some (Some (u, NGX_MAX_INT32_VALUE div of_nat (unit_seconds u),
      of_nat (unit_seconds u), ?p + length (unit_text u)))"
    using time_unit_step [OF allowed mem(3,4)] ut by simp
  have "?mem ! (?p + length (unit_text u)) = d" by (simp add: nth_append)
  then have "time_spaces ?mem limit (?p + length (unit_text u)) = ?p + length (unit_text u)"
    using d(2) by (subst time_spaces.simps) simp
  moreover have "?p < limit" using limit ut by simp
  ultimately show ?thesis
    using mem unit ut(2) time_item_arith [OF assms(3)]
    by (subst time_loop.simps) (simp add: Let_def del: of_nat_add of_nat_mult)
qed

lemma time_loop_items:
  assumes "time_items is_sec step items" and "t + time_total is_sec items \<le> 0x7fffffff"
    and c: "c \<noteq> ch_s" "c \<noteq> ch_space"
  shows "time_loop (pre @ time_text items @ c # post) (length pre + length (time_text items)) is_sec (length pre) 0 (of_nat t) step valid =
    Some (if valid \<or> items \<noteq> [] then Some (of_nat (t + time_total is_sec items)) else None)"
  using assms(1,2)
proof (induction items arbitrary: pre t step valid)
  case Nil
  then show ?case by (simp add: time_text_def time_total_def time_loop.simps)
next
  case (Cons item items)
  obtain ds u where item: "item = (ds, u)" by (cases item)
  let ?mem = "pre @ time_text (item # items) @ c # post"
  let ?limit = "length pre + length (time_text (item # items))"
  let ?v = "dec_value ds"
  have digits: "dec_digits ds" "unit_allowed is_sec u" "step < u" "time_items is_sec u items"
    using Cons.prems(1) by (simp_all add: item)
  have sum: "t + ?v * unit_scale is_sec u + time_total is_sec items = t + time_total is_sec (item # items)"
    by (simp add: time_total_def item)
  obtain d r where d: "time_text items @ c # post = d # r" "d \<noteq> ch_s" "d \<noteq> ch_space"
    using time_text_head [OF digits(4) c] by blast
  have mem: "?mem = pre @ ds @ unit_text u @ d # r" "?mem = (pre @ ds) @ unit_text u @ d # r"
      "?mem = (pre @ ds @ unit_text u) @ time_text items @ c # post"
    using d(1) by (simp_all add: time_text_def item)
  have limit: "?limit = length (pre @ ds @ unit_text u) + length (time_text items)"
    by (simp add: time_text_def item)
  have "time_loop ?mem ?limit is_sec (length pre) 0 (of_nat t) step valid =
      time_loop ?mem ?limit is_sec (length (pre @ ds)) (of_nat ?v) (of_nat t) step True"
    using time_loop_digits [of ds pre ?limit "unit_text u @ d # r" is_sec 0 "of_nat t" step valid] digits(1)
    by (simp add: mem(1) limit dec_digits_def dec_value_def)
  also have "\<dots> = time_loop ?mem ?limit is_sec (length (pre @ ds) + length (unit_text u)) 0
      (of_nat (t + ?v * unit_scale is_sec u)) u True"
    unfolding mem(2) using Cons.prems(2) sum limit d digits by (intro time_loop_unit) auto
  also have "\<dots> = Some (Some (of_nat (t + time_total is_sec (item # items))))"
    using Cons.IH [of u "t + ?v * unit_scale is_sec u" "pre @ ds @ unit_text u" True] Cons.prems(2) digits(4) sum
    by (simp add: mem(3) limit add.assoc del: of_nat_add of_nat_mult append_assoc)
  finally show ?case by simp
qed

section \<open>Properties\<close>

text \<open>
  \<^verbatim>\<open>ngx_parse_size\<close> and \<^verbatim>\<open>ngx_parse_offset\<close> read a number without suffix as itself and one with
  \<open>k\<close>, \<open>m\<close> (and \<open>g\<close> for offsets), in either case, as the multiple of its scale, reduced modulo the
  word size as the multiplication is not checked; a text that is not a number before its suffix is an
  error.
\<close>

theorem parse_sizes:
  "(dec_digits ds \<and> dec_value ds < 2 ^ 63 \<longrightarrow>
      ngx_parse_size ds = Some (Some (of_nat (dec_value ds))) \<and>
      ngx_parse_offset ds = Some (Some (of_nat (dec_value ds))) \<and>
      (\<forall>u k. size_scale u = Some k \<longrightarrow> ngx_parse_size (ds @ [u]) = Some (Some (of_nat (dec_value ds * k)))) \<and>
      (\<forall>u k. offset_scale u = Some k \<longrightarrow> ngx_parse_offset (ds @ [u]) = Some (Some (of_nat (dec_value ds * k))))) \<and>
   (\<not> dec_digits ds \<longrightarrow>
      (\<forall>u k. size_scale u = Some k \<longrightarrow> ngx_parse_size (ds @ [u]) = Some None) \<and>
      (\<forall>u k. offset_scale u = Some k \<longrightarrow> ngx_parse_offset (ds @ [u]) = Some None))"
  using size_reader.parse_contract [of ds] offset_reader.parse_contract [of ds] by blast

theorem parse_sizes_witness:
  "ngx_parse_size (bytes ''17592186044417'' @ [ch_m]) = Some (Some 1048576) \<and>
   ngx_parse_offset (bytes ''2'' @ [ch_G]) = Some (Some 2147483648)"
proof
  have "size_scale ch_m = Some 1048576" "offset_scale ch_G = Some 1073741824"
    by (simp_all add: size_scale_def offset_scale_def)
  then show "ngx_parse_size (bytes ''17592186044417'' @ [ch_m]) = Some (Some 1048576)"
      "ngx_parse_offset (bytes ''2'' @ [ch_G]) = Some (Some 2147483648)"
    using parse_sizes [of "bytes ''17592186044417''"] parse_sizes [of "bytes ''2''"]
    by (simp_all add: dec_digits_def dec_value_def number_def dec_digit_value_def)
qed

text \<open>
  A time written as numbers with units, from the largest unit to the smallest, is read as the sum
  of its parts in seconds or in milliseconds, provided that the sum fits in 31 bits; the byte after
  the text is read and must not be an \<open>s\<close>.
\<close>

theorem parse_time_sums:
  assumes "time_items is_sec (if is_sec then st_start else st_month) items" and "items \<noteq> []"
    and "time_total is_sec items \<le> 0x7fffffff" and "c \<noteq> ch_s" and "c \<noteq> ch_space"
  shows "ngx_parse_time (time_text items @ c # post) (length (time_text items)) is_sec =
    Some (Some (of_nat (time_total is_sec items)))"
  using time_loop_items [OF assms(1) _ assms(4,5), of 0 "[]" post False] assms(2,3)
  by (simp add: ngx_parse_time_def)

theorem parse_time_sums_witness:
  "ngx_parse_time (bytes ''1h30m'' @ NUL # []) (length (bytes ''1h30m'')) True = Some (Some 5400)"
proof -
  have "time_items True st_start [(bytes ''1'', st_hour), (bytes ''30'', st_min)]"
    by (simp add: dec_digits_def dec_digit_value_def unit_allowed_def time_order)
  from parse_time_sums [where items = "[(bytes ''1'', st_hour), (bytes ''30'', st_min)]" and is_sec = True and c = NUL and post = "[]"] this
  show ?thesis
    by (simp add: time_text_def time_total_def unit_text_def unit_scale_def unit_seconds_def dec_value_def number_def dec_digit_value_def)
qed

end
