(* ===== verification/Camera_Ring.thy ===== *)
theory Camera_Ring
  imports Xhome_Prelude "HOL-Library.Monad_Syntax"
begin

unbundle bit_operations_syntax

text \<open>
  The frame buffer of the camera service, \<^verbatim>\<open>src/camera/interface.c\<close>: \<^verbatim>\<open>pushFrame\<close> copies a frame into a
  ring of two megabytes, \<^verbatim>\<open>popFrame\<close> copies the oldest one out of it, and \<^verbatim>\<open>myallocate\<close> discards old
  frames when the new one does not fit.  The memory is a map from offsets of \<^verbatim>\<open>buffer\<close> to bytes and the
  three pointers are offsets.  \<open>None\<close> stands for everything that is not a normal return: an access
  outside the buffer, or a loop that does not end.

  The abstract side is a queue of byte blocks; the locale \<^verbatim>\<open>frame_queue\<close> states what a client of such a
  queue may rely on, and the ring is shown to fulfil it as long as a push finds room.
\<close>

section \<open>The code\<close>

definition MAX_MEMORY :: nat where
  "MAX_MEMORY = 1024 * 2 * 1024"

text \<open>
  \<^verbatim>\<open>FrameInfo_t\<close> is packed: eight 32-bit fields and the size of the data, an \<^verbatim>\<open>unsigned long\<close> of 64 bits,
  at offset 32.  The target is little-endian.
\<close>

record FrameInfo =
  serial_no :: uint32
  width :: uint32
  height :: uint32
  format :: uint32
  frameType :: uint32
  timestamp :: uint32
  frameRate_samplingRate :: uint32
  video_cap :: uint32
  frame_size :: ngx_uint_t

definition sizeof_FrameInfo :: nat where
  [simp]: "sizeof_FrameInfo = 40"

fun le_bytes :: "nat \<Rightarrow> nat \<Rightarrow> buffer" where
  "le_bytes 0 n = []"
| "le_bytes (Suc k) n = of_nat (n mod 256) # le_bytes k (n div 256)"

fun le_value :: "buffer \<Rightarrow> nat" where
  "le_value [] = 0"
| "le_value (c # cs) = unat c + 256 * le_value cs"

definition FrameInfo_bytes :: "FrameInfo \<Rightarrow> buffer" where
  "FrameInfo_bytes f =
     le_bytes 4 (unat (serial_no f)) @ le_bytes 4 (unat (width f)) @ le_bytes 4 (unat (height f)) @
     le_bytes 4 (unat (format f)) @ le_bytes 4 (unat (frameType f)) @ le_bytes 4 (unat (timestamp f)) @
     le_bytes 4 (unat (frameRate_samplingRate f)) @ le_bytes 4 (unat (video_cap f)) @
     le_bytes 8 (unat (frame_size f))"

record ring =
  mem :: "nat \<Rightarrow> u_char"
  read_pos :: nat
  write_pos :: nat
  buffer_end_pos :: nat

definition ring_init :: ring where
  "ring_init = \<lparr>mem = (\<lambda>_. 0), read_pos = 0, write_pos = 0, buffer_end_pos = MAX_MEMORY\<rparr>"

definition mem_read :: "(nat \<Rightarrow> u_char) \<Rightarrow> nat \<Rightarrow> nat \<Rightarrow> buffer" where
  "mem_read m a n = map m [a..<a + n]"

definition mem_write :: "(nat \<Rightarrow> u_char) \<Rightarrow> nat \<Rightarrow> buffer \<Rightarrow> nat \<Rightarrow> u_char" where
  "mem_write m a xs = (\<lambda>i. if a \<le> i \<and> i < a + length xs then xs ! (i - a) else m i)"

definition memcpy_from :: "ring \<Rightarrow> nat \<Rightarrow> nat \<Rightarrow> buffer option" where
  "memcpy_from r a n = (if a + n \<le> MAX_MEMORY then Some (mem_read (mem r) a n) else None)"

definition memcpy_to :: "ring \<Rightarrow> nat \<Rightarrow> buffer \<Rightarrow> ring option" where
  "memcpy_to r a xs = (if a + length xs \<le> MAX_MEMORY then Some (r\<lparr>mem := mem_write (mem r) a xs\<rparr>) else None)"

text \<open>\<^verbatim>\<open>((FrameInfo_t*)read_pos)->size\<close>\<close>

definition top_size :: "ring \<Rightarrow> nat option" where
  "top_size r = map_option le_value (memcpy_from r (read_pos r + 32) 8)"

text \<open>
  Sums of sizes are of type \<^verbatim>\<open>unsigned long\<close> and wrap at \<open>2 ^ 64\<close>.  A pointer that is moved by \<open>2 ^ 63\<close> bytes or more
  overflows, which is undefined.
\<close>

definition ulong :: "nat \<Rightarrow> nat" where
  "ulong n = n mod 2 ^ 64"

lemma ulong_small [simp]: "n < 2 ^ 64 \<Longrightarrow> ulong n = n"
  by (simp add: ulong_def)

definition myfree :: "ring \<Rightarrow> ring option" where
  "myfree r =
     do { sz \<leftarrow> top_size r;
          let read = read_pos r + ulong (sizeof_FrameInfo + sz + 1);
          if read \<ge> 2 ^ 63 then None
          else Some (if read \<ge> buffer_end_pos r then r\<lparr>read_pos := 0, buffer_end_pos := MAX_MEMORY\<rparr>
                else r\<lparr>read_pos := read\<rparr>) }"

definition discardFrame :: "ring \<Rightarrow> ring option" where
  "discardFrame r = myfree r"

partial_function (option) discard_loop :: "ring \<Rightarrow> nat \<Rightarrow> ring option" where
  "discard_loop r sz =
     (if write_pos r + sz + 1 \<ge> read_pos r
      then Option.bind (discardFrame r) (\<lambda>r. discard_loop r sz)
      else Some r)"

text \<open>\<^verbatim>\<open>myallocate\<close> returns the address of the new block, the write position it started from.\<close>

definition make_room :: "ring \<Rightarrow> nat \<Rightarrow> ring option" where
  "make_room r sz =
     (if write_pos r < read_pos r \<and> write_pos r + sz + 1 \<ge> read_pos r then discard_loop r sz else Some r)"

definition wrap :: "ring \<Rightarrow> ring option" where
  "wrap r =
     (let r = r\<lparr>buffer_end_pos := write_pos r, write_pos := 0\<rparr> in
      if write_pos r = read_pos r then discardFrame r else Some r)"

partial_function (option) myallocate :: "ring \<Rightarrow> nat \<Rightarrow> (nat \<times> ring) option" where
  "myallocate r sz =
     Option.bind (make_room r sz)
       (\<lambda>r. if write_pos r + sz > MAX_MEMORY
             then Option.bind (wrap r) (\<lambda>r. myallocate r sz)
             else Some (write_pos r, r\<lparr>write_pos := write_pos r + (sz + 1)\<rparr>))"

text \<open>
  The argument of \<^verbatim>\<open>myallocate\<close> is an \<^verbatim>\<open>unsigned int\<close>: the sum is cut to 32 bits.  \<open>data\<close> is what the caller's
  pointer points to; reading past its end is an access outside.
\<close>

definition pushFrame_body :: "ring \<Rightarrow> FrameInfo \<Rightarrow> buffer \<Rightarrow> ring option" where
  "pushFrame_body r frame data =
     do { (waddress, r) \<leftarrow> myallocate r (unat (ucast (of_nat sizeof_FrameInfo + frame_size frame) :: uint32));
          r \<leftarrow> memcpy_to r waddress (FrameInfo_bytes frame);
          if unat (frame_size frame) \<le> length data
          then memcpy_to r (waddress + sizeof_FrameInfo) (take (unat (frame_size frame)) data)
          else None }"

definition popFrame_body :: "ring \<Rightarrow> (buffer \<times> ring) option" where
  "popFrame_body r =
     do { sz \<leftarrow> top_size r;
          topFrame \<leftarrow> memcpy_from r (read_pos r) (ulong (sizeof_FrameInfo + sz));
          r \<leftarrow> myfree r;
          Some (topFrame, r) }"

section \<open>Bytes of numbers and memory\<close>

lemma le_bytes_length [simp]: "length (le_bytes k n) = k"
  by (induction k n rule: le_bytes.induct) simp_all

lemma le_value_bytes: "le_value (le_bytes k n) = n mod 256 ^ k"
proof (induction k n rule: le_bytes.induct)
  case (2 k n)
  have "unat (of_nat (n mod 256) :: u_char) = n mod 256"
    by (simp add: unsigned_of_nat take_bit_eq_mod)
  with 2 show ?case by (simp add: mod_mult2_eq mult.commute)
qed simp

lemma FrameInfo_bytes_length [simp]: "length (FrameInfo_bytes f) = 40"
  by (simp add: FrameInfo_bytes_def)

lemma FrameInfo_bytes_size: "le_value (take 8 (drop 32 (FrameInfo_bytes f @ data))) = unat (frame_size f)"
proof -
  have "take 8 (drop 32 (FrameInfo_bytes f @ data)) = le_bytes 8 (unat (frame_size f))"
    by (simp add: FrameInfo_bytes_def)
  moreover have "unat (frame_size f) < 2 ^ 64" using unsigned_less [of "frame_size f", where ?'a = nat] by simp
  ultimately show ?thesis by (simp add: le_value_bytes)
qed

lemma length_mem_read [simp]: "length (mem_read m a n) = n"
  by (simp add: mem_read_def)

lemma nth_mem_read [simp]: "i < n \<Longrightarrow> mem_read m a n ! i = m (a + i)"
  by (simp add: mem_read_def)

lemma mem_read_sub: "a' = a + k \<Longrightarrow> k + n' \<le> n \<Longrightarrow> mem_read m a' n' = take n' (drop k (mem_read m a n))"
  by (rule nth_equalityI) (simp_all add: add.assoc)

lemma mem_read_written: "mem_read (mem_write m a xs) a (length xs) = xs"
  by (rule nth_equalityI) (simp_all add: mem_write_def)

lemma mem_read_other:
  "b + n \<le> a \<or> a + length xs \<le> b \<Longrightarrow> mem_read (mem_write m a xs) b n = mem_read m b n"
  by (rule nth_equalityI) (auto simp: mem_write_def)

lemma mem_write_append: "mem_write (mem_write m a xs) (a + length xs) ys = mem_write m a (xs @ ys)"
  by (rule ext) (auto simp: mem_write_def nth_append)

section \<open>The queue in the ring\<close>

text \<open>
  A block is the image of a frame: a header whose size field says how many bytes follow.  A chain is
  a run of blocks, each followed by one unused byte.
\<close>

definition block :: "buffer \<Rightarrow> bool" where
  "block x \<longleftrightarrow> 40 \<le> length x \<and> le_value (take 8 (drop 32 x)) = length x - 40"

fun chain :: "(nat \<Rightarrow> u_char) \<Rightarrow> nat \<Rightarrow> buffer list \<Rightarrow> nat \<Rightarrow> bool" where
  "chain m a [] b \<longleftrightarrow> a = b"
| "chain m a (x # q) b \<longleftrightarrow> mem_read m a (length x) = x \<and> chain m (a + length x + 1) q b"

definition straight :: "ring \<Rightarrow> buffer list \<Rightarrow> bool" where
  "straight r q \<longleftrightarrow> list_all block q \<and> buffer_end_pos r = MAX_MEMORY \<and>
     chain (mem r) (read_pos r) q (write_pos r) \<and> write_pos r < MAX_MEMORY"

definition wrapped :: "ring \<Rightarrow> buffer list \<Rightarrow> buffer list \<Rightarrow> bool" where
  "wrapped r q1 q2 \<longleftrightarrow> list_all block q1 \<and> list_all block q2 \<and> q1 \<noteq> [] \<and>
     chain (mem r) (read_pos r) q1 (buffer_end_pos r) \<and> chain (mem r) 0 q2 (write_pos r) \<and>
     write_pos r < read_pos r \<and> buffer_end_pos r < MAX_MEMORY"

definition ring_repr :: "ring \<Rightarrow> buffer list \<Rightarrow> bool" where
  "ring_repr r q \<longleftrightarrow> straight r q \<or> (\<exists>q1 q2. q = q1 @ q2 \<and> wrapped r q1 q2)"

text \<open>Where a push finds room without discarding a frame.\<close>

definition room :: "ring \<Rightarrow> nat \<Rightarrow> bool" where
  "room r n \<longleftrightarrow>
     (if write_pos r < read_pos r then write_pos r + n + 1 < read_pos r
      else write_pos r + n + 1 < MAX_MEMORY \<or>
        read_pos r < write_pos r \<and> MAX_MEMORY < write_pos r + n \<and> n + 1 < read_pos r)"

lemma chain_le: "chain m a q b \<Longrightarrow> a \<le> b"
  by (induction q arbitrary: a) fastforce+

lemma chain_append: "chain m a (q @ q') b \<longleftrightarrow> (\<exists>c. chain m a q c \<and> chain m c q' b)"
  by (induction q arbitrary: a) auto

lemma chain_write_other:
  "chain m a q b \<Longrightarrow> b \<le> c \<or> c + length xs \<le> a \<Longrightarrow> chain (mem_write m c xs) a q b"
proof (induction q arbitrary: a)
  case (Cons x q)
  then have rest: "chain m (a + length x + 1) q b" by simp
  with Cons.prems have "a + length x \<le> c \<or> c + length xs \<le> a" using chain_le [OF rest] by linarith
  then have "mem_read (mem_write m c xs) a (length x) = x" using Cons.prems by (simp add: mem_read_other)
  moreover have "chain (mem_write m c xs) (a + length x + 1) q b"
    using Cons.IH [OF rest] Cons.prems(2) by linarith
  ultimately show ?case by simp
qed simp

lemma chain_snoc: "chain m a q b \<Longrightarrow> chain (mem_write m b x) a (q @ [x]) (b + length x + 1)"
  by (auto simp: chain_append mem_read_written intro: chain_write_other)

lemma chain_head:
  "chain m a (x # q) b \<Longrightarrow> a + length x + 1 \<le> b"
  using chain_le [of m "a + length x + 1" q b] by simp

lemma chain_tail_less:
  "chain m a q b \<Longrightarrow> q \<noteq> [] \<Longrightarrow> a < b"
  by (cases q) (auto dest: chain_le)

text \<open>The front of the queue, whichever lap it is in.\<close>

lemma top_block:
  assumes "block x" and "mem_read (mem r) (read_pos r) (length x) = x" and "read_pos r + length x \<le> MAX_MEMORY"
  shows "top_size r = Some (length x - 40)"
    and "memcpy_from r (read_pos r) (length x) = Some x"
proof -
  have len: "40 \<le> length x" "le_value (take 8 (drop 32 x)) = length x - 40" using assms(1) by (simp_all add: block_def)
  have "mem_read (mem r) (read_pos r + 32) 8 = take 8 (drop 32 (mem_read (mem r) (read_pos r) (length x)))"
    using len(1) by (intro mem_read_sub) simp_all
  with assms(2,3) len show "top_size r = Some (length x - 40)"
    by (simp add: top_size_def memcpy_from_def)
  show "memcpy_from r (read_pos r) (length x) = Some x" using assms(2,3) by (simp add: memcpy_from_def)
qed

lemma myfree_block:
  assumes "block x" and "mem_read (mem r) (read_pos r) (length x) = x" and "read_pos r + length x \<le> MAX_MEMORY"
  shows "myfree r = Some (if buffer_end_pos r \<le> read_pos r + length x + 1
      then r\<lparr>read_pos := 0, buffer_end_pos := MAX_MEMORY\<rparr> else r\<lparr>read_pos := read_pos r + length x + 1\<rparr>)"
proof -
  have len: "40 \<le> length x" using assms(1) by (simp add: block_def)
  with assms(3) have "read_pos r + (length x + 1) < 2 ^ 63" by (simp add: MAX_MEMORY_def)
  with len show ?thesis using top_block(1) [OF assms] by (simp add: myfree_def Let_def)
qed

lemma popFrame_block:
  assumes "block x" and "mem_read (mem r) (read_pos r) (length x) = x" and "read_pos r + length x \<le> MAX_MEMORY"
  shows "popFrame_body r = Some (x, if buffer_end_pos r \<le> read_pos r + length x + 1
      then r\<lparr>read_pos := 0, buffer_end_pos := MAX_MEMORY\<rparr> else r\<lparr>read_pos := read_pos r + length x + 1\<rparr>)"
proof -
  have "40 \<le> length x" "length x < 2 ^ 64" using assms(1,3) by (simp_all add: block_def MAX_MEMORY_def)
  then show ?thesis
    using top_block [OF assms] myfree_block [OF assms] by (simp add: popFrame_body_def)
qed

text \<open>Taking the oldest frame off a run that goes up to \<open>buffer_end_pos\<close>.\<close>

lemma wrapped_front:
  assumes "wrapped r (x # q1) q2"
  shows "block x" "mem_read (mem r) (read_pos r) (length x) = x" "read_pos r + length x + 1 \<le> buffer_end_pos r"
    "read_pos r + length x \<le> MAX_MEMORY"
  using assms chain_head [of "mem r" "read_pos r" x q1 "buffer_end_pos r"] by (auto simp: wrapped_def)

lemma wrapped_pop:
  assumes w: "wrapped r (x # q1) q2"
  shows "q1 = [] \<Longrightarrow> straight (r\<lparr>read_pos := 0, buffer_end_pos := MAX_MEMORY\<rparr>) q2 \<and> buffer_end_pos r = read_pos r + length x + 1"
    and "q1 \<noteq> [] \<Longrightarrow> wrapped (r\<lparr>read_pos := read_pos r + length x + 1\<rparr>) q1 q2 \<and> read_pos r + length x + 1 < buffer_end_pos r"
  using w chain_tail_less [of "mem r" "read_pos r + length x + 1" q1 "buffer_end_pos r"]
    chain_head [of "mem r" "read_pos r" x q1 "buffer_end_pos r"]
  by (auto simp: wrapped_def straight_def)

lemma pop_correct:
  assumes "ring_repr r (x # q)"
  shows "\<exists>r'. popFrame_body r = Some (x, r') \<and> ring_repr r' q"
  using assms unfolding ring_repr_def
proof (elim disjE exE conjE)
  assume s: "straight r (x # q)"
  then have "block x" "mem_read (mem r) (read_pos r) (length x) = x" "read_pos r + length x + 1 \<le> write_pos r"
      "write_pos r < MAX_MEMORY" "buffer_end_pos r = MAX_MEMORY"
    using chain_head [of "mem r" "read_pos r" x q "write_pos r"] by (auto simp: straight_def)
  moreover have "straight (r\<lparr>read_pos := read_pos r + length x + 1\<rparr>) q" using s by (simp add: straight_def)
  ultimately show "\<exists>r'. popFrame_body r = Some (x, r') \<and> (straight r' q \<or> (\<exists>q1 q2. q = q1 @ q2 \<and> wrapped r' q1 q2))"
    using popFrame_block [of x r] by simp
next
  fix q1 q2
  assume q: "x # q = q1 @ q2" and w: "wrapped r q1 q2"
  then obtain q1' where q1: "q1 = x # q1'" "q = q1' @ q2" by (cases q1) (auto simp: wrapped_def)
  have pop: "popFrame_body r = Some (x, if buffer_end_pos r \<le> read_pos r + length x + 1
      then r\<lparr>read_pos := 0, buffer_end_pos := MAX_MEMORY\<rparr> else r\<lparr>read_pos := read_pos r + length x + 1\<rparr>)"
    using w wrapped_front [of r x q1' q2] unfolding q1(1) by (intro popFrame_block) auto
  show "\<exists>r'. popFrame_body r = Some (x, r') \<and> (straight r' q \<or> (\<exists>q1 q2. q = q1 @ q2 \<and> wrapped r' q1 q2))"
  proof (cases "q1' = []")
    case True
    then show ?thesis using pop wrapped_pop(1) [of r x q1' q2] w q1 by auto
  next
    case False
    then show ?thesis using pop wrapped_pop(2) [of r x q1' q2] w q1 by auto
  qed
qed

section \<open>Pushing\<close>

text \<open>The image of a frame with its data.\<close>

definition frame_block :: "FrameInfo \<Rightarrow> buffer \<Rightarrow> buffer" where
  "frame_block f data = FrameInfo_bytes f @ take (unat (frame_size f)) data"

definition frame_ok :: "FrameInfo \<Rightarrow> buffer \<Rightarrow> bool" where
  "frame_ok f data \<longleftrightarrow> unat (frame_size f) \<le> length data"

lemma length_frame_block: "frame_ok f data \<Longrightarrow> length (frame_block f data) = 40 + unat (frame_size f)"
  by (simp add: frame_block_def frame_ok_def)

lemma block_frame: "frame_ok f data \<Longrightarrow> block (frame_block f data)"
  using FrameInfo_bytes_size [of f "take (unat (frame_size f)) data"]
  by (simp add: block_def frame_block_def frame_ok_def)

lemma allocation_size:
  assumes "frame_ok f data" and "length (frame_block f data) < MAX_MEMORY"
  shows "unat (ucast (of_nat sizeof_FrameInfo + frame_size f) :: uint32) = length (frame_block f data)"
proof -
  have n: "40 + unat (frame_size f) < 2097152" using assms by (simp add: length_frame_block MAX_MEMORY_def)
  then have "unat (40 + frame_size f) = 40 + unat (frame_size f)" by (simp add: unat_word_ariths)
  with n have "unat (ucast (40 + frame_size f) :: uint32) = 40 + unat (frame_size f)"
    by (simp add: unsigned_ucast_eq take_bit_nat_eq_self)
  then show ?thesis using assms(1) by (simp add: length_frame_block)
qed

lemma push_allocated:
  assumes "frame_ok f data" and "length (frame_block f data) < MAX_MEMORY"
    and "myallocate r (length (frame_block f data)) = Some (a, r')"
    and "a + length (frame_block f data) \<le> MAX_MEMORY"
  shows "pushFrame_body r f data = Some (r'\<lparr>mem := mem_write (mem r') a (frame_block f data)\<rparr>)"
  using assms allocation_size [OF assms(1,2)] mem_write_append [of "mem r'" a "FrameInfo_bytes f"]
  by (simp add: pushFrame_body_def memcpy_to_def frame_block_def frame_ok_def)

lemma make_room_none:
  "\<not> (write_pos r < read_pos r \<and> read_pos r \<le> write_pos r + n + 1) \<Longrightarrow> make_room r n = Some r"
  by (auto simp: make_room_def)

lemma allocate_direct:
  assumes "make_room r n = Some r'" and "write_pos r' + n \<le> MAX_MEMORY"
  shows "myallocate r n = Some (write_pos r', r'\<lparr>write_pos := write_pos r' + (n + 1)\<rparr>)"
  by (subst myallocate.simps) (use assms in simp)

lemma allocate_wrap:
  assumes "make_room r n = Some r'" and "MAX_MEMORY < write_pos r' + n" and "wrap r' = Some r''"
  shows "myallocate r n = myallocate r'' n"
  by (subst myallocate.simps) (use assms in simp)

lemma straight_snoc:
  assumes "straight r q" and "block x" and "write_pos r + length x + 1 < MAX_MEMORY"
  shows "straight (r\<lparr>write_pos := write_pos r + (length x + 1), mem := mem_write (mem r) (write_pos r) x\<rparr>) (q @ [x])"
  using assms chain_snoc [of "mem r" "read_pos r" q "write_pos r" x]
  by (simp add: straight_def add.assoc)

lemma wrapped_snoc:
  assumes "wrapped r q1 q2" and "block x" and "write_pos r + length x + 1 < read_pos r"
  shows "wrapped (r\<lparr>write_pos := write_pos r + (length x + 1), mem := mem_write (mem r) (write_pos r) x\<rparr>) q1 (q2 @ [x])"
  using assms chain_snoc [of "mem r" 0 q2 "write_pos r" x]
    chain_write_other [of "mem r" "read_pos r" q1 "buffer_end_pos r" "write_pos r" x]
  by (simp add: wrapped_def add.assoc)

text \<open>Ending the lap: what is in the ring becomes the old lap.\<close>

lemma straight_wraps:
  "straight r q \<Longrightarrow> q \<noteq> [] \<Longrightarrow> 0 < read_pos r \<Longrightarrow> wrapped (r\<lparr>buffer_end_pos := write_pos r, write_pos := 0\<rparr>) q []"
  by (simp add: straight_def wrapped_def)

lemma wrapped_read_bound: "wrapped r q1 q2 \<Longrightarrow> read_pos r < MAX_MEMORY"
  using chain_le [of "mem r" "read_pos r" q1 "buffer_end_pos r"] by (auto simp: wrapped_def)

lemma straight_order: "straight r q \<Longrightarrow> read_pos r \<le> write_pos r"
  using chain_le by (auto simp: straight_def)

lemma push_wrapped:
  assumes w: "wrapped r q1 q2" and "frame_ok f data" and gap: "write_pos r + length (frame_block f data) + 1 < read_pos r"
  shows "\<exists>r'. pushFrame_body r f data = Some r' \<and> wrapped r' q1 (q2 @ [frame_block f data])"
proof -
  let ?x = "frame_block f data"
  have "read_pos r < MAX_MEMORY" using w by (rule wrapped_read_bound)
  then have small: "length ?x < MAX_MEMORY" "write_pos r + length ?x \<le> MAX_MEMORY" using gap by auto
  have "myallocate r (length ?x) = Some (write_pos r, r\<lparr>write_pos := write_pos r + (length ?x + 1)\<rparr>)"
    using gap small by (intro allocate_direct make_room_none) auto
  from push_allocated [OF assms(2) small(1) this small(2)] show ?thesis
    using wrapped_snoc [OF w block_frame [OF assms(2)] gap] by auto
qed

lemma push_correct:
  assumes "ring_repr r q" and ok: "frame_ok f data" and room: "room r (length (frame_block f data))"
  shows "\<exists>r'. pushFrame_body r f data = Some r' \<and> ring_repr r' (q @ [frame_block f data])"
  using assms(1) unfolding ring_repr_def
proof (elim disjE exE conjE)
  let ?x = "frame_block f data"
  assume s: "straight r q"
  then have order: "read_pos r \<le> write_pos r" "write_pos r < MAX_MEMORY"
    using straight_order by (auto simp: straight_def)
  show "\<exists>r'. pushFrame_body r f data = Some r' \<and>
      (straight r' (q @ [?x]) \<or> (\<exists>q1 q2. q @ [?x] = q1 @ q2 \<and> wrapped r' q1 q2))"
  proof (cases "write_pos r + length ?x + 1 < MAX_MEMORY")
    case True
    then have "myallocate r (length ?x) = Some (write_pos r, r\<lparr>write_pos := write_pos r + (length ?x + 1)\<rparr>)"
      using order by (intro allocate_direct make_room_none) auto
    from push_allocated [OF ok _ this] True show ?thesis
      using straight_snoc [OF s block_frame [OF ok] True] by auto
  next
    case False
    then have gap: "read_pos r < write_pos r" "MAX_MEMORY < write_pos r + length ?x" "length ?x + 1 < read_pos r"
      using room order by (auto simp: room_def)
    let ?r = "r\<lparr>buffer_end_pos := write_pos r, write_pos := 0\<rparr>"
    have "q \<noteq> []" using s gap(1) by (auto simp: straight_def)
    then have w: "wrapped ?r q []" using s gap by (intro straight_wraps) auto
    have "make_room r (length ?x) = Some r" using order by (intro make_room_none) simp
    then have "myallocate r (length ?x) = myallocate ?r (length ?x)"
      using gap by (intro allocate_wrap) (auto simp: wrap_def)
    then have "pushFrame_body r f data = pushFrame_body ?r f data"
      using allocation_size [OF ok] gap order by (simp add: pushFrame_body_def)
    then show ?thesis using push_wrapped [OF w ok] gap by auto
  qed
next
  fix q1 q2
  assume "q = q1 @ q2" and w: "wrapped r q1 q2"
  moreover from w room have "write_pos r + length (frame_block f data) + 1 < read_pos r"
    by (auto simp: room_def wrapped_def)
  ultimately show "\<exists>r'. pushFrame_body r f data = Some r' \<and>
      (straight r' (q @ [frame_block f data]) \<or> (\<exists>q1 q2. q @ [frame_block f data] = q1 @ q2 \<and> wrapped r' q1 q2))"
    using push_wrapped [OF w ok] by auto
qed

section \<open>Overwriting the oldest frames\<close>

text \<open>
  Discarding frames of the old lap until the first one that starts beyond the new frame; that there
  is such a frame is what the code does not check.
\<close>

lemma wrapped_discard:
  assumes "wrapped r (d @ y # e) q2"
    and "chain (mem r) (read_pos r) d a" and "write_pos r + n + 1 < a"
  shows "\<exists>d1 d2. d = d1 @ d2 \<and> (read_pos r \<le> write_pos r + n + 1 \<longrightarrow> d1 \<noteq> []) \<and>
    (\<exists>r'. discard_loop r n = Some r' \<and> wrapped r' (d2 @ y # e) q2 \<and> write_pos r' = write_pos r \<and> write_pos r' + n + 1 < read_pos r')"
  using assms
proof (induction d arbitrary: r)
  case Nil
  then show ?case
    by (intro exI [of _ "[]"]) (auto simp: discard_loop.simps)
next
  case (Cons x d)
  show ?case
  proof (cases "write_pos r + n + 1 < read_pos r")
    case True
    with Cons.prems show ?thesis
      by (intro exI [of _ "[]"] exI [of _ "x # d"]) (auto simp: discard_loop.simps)
  next
    case False
    let ?r = "r\<lparr>read_pos := read_pos r + length x + 1\<rparr>"
    have w: "wrapped ?r (d @ y # e) q2" "read_pos r + length x + 1 < buffer_end_pos r"
      using wrapped_pop(2) [of r x "d @ y # e" q2] Cons.prems(1) by auto
    have "discardFrame r = Some ?r"
      using wrapped_front [of r x "d @ y # e" q2] Cons.prems(1) w(2) unfolding discardFrame_def
      by (subst myfree_block [of x]) auto
    with False have "discard_loop r n = discard_loop ?r n" by (subst discard_loop.simps) simp
    moreover have "chain (mem ?r) (read_pos ?r) d a" "write_pos ?r + n + 1 < a" using Cons.prems by simp_all
    ultimately obtain d1 d2 r' where "d = d1 @ d2" "discard_loop r n = Some r'" "wrapped r' (d2 @ y # e) q2"
        "write_pos r' = write_pos r" "write_pos r' + n + 1 < read_pos r'"
      using Cons.IH [OF w(1)] by auto
    then show ?thesis by (intro exI [of _ "x # d1"] exI [of _ d2]) auto
  qed
qed

lemma push_overwrite:
  assumes w: "wrapped r (d @ y # e) q2" and d: "chain (mem r) (read_pos r) d a"
    and gap: "write_pos r + length (frame_block f data) + 1 < a" and ok: "frame_ok f data"
  shows "\<exists>d1 d2 r'. d = d1 @ d2 \<and> (read_pos r \<le> write_pos r + length (frame_block f data) + 1 \<longrightarrow> d1 \<noteq> []) \<and>
    pushFrame_body r f data = Some r' \<and> wrapped r' (d2 @ y # e) (q2 @ [frame_block f data])"
proof -
  let ?x = "frame_block f data"
  have r1: "\<exists>d1 d2 r1. d = d1 @ d2 \<and> (read_pos r \<le> write_pos r + length ?x + 1 \<longrightarrow> d1 \<noteq> []) \<and> make_room r (length ?x) = Some r1 \<and> wrapped r1 (d2 @ y # e) q2 \<and>
      write_pos r1 + length ?x + 1 < read_pos r1"
  proof (cases "write_pos r + length ?x + 1 < read_pos r")
    case True
    with w show ?thesis by (intro exI [of _ "[]"] exI [of _ d] exI [of _ r]) (simp add: make_room_none)
  next
    case False
    with w have "make_room r (length ?x) = discard_loop r (length ?x)" by (simp add: make_room_def wrapped_def)
    with wrapped_discard [OF w d gap] show ?thesis by auto
  qed
  then obtain d1 d2 r1 where d12: "d = d1 @ d2" "read_pos r \<le> write_pos r + length ?x + 1 \<longrightarrow> d1 \<noteq> []"
      and r1: "make_room r (length ?x) = Some r1"
      and w1: "wrapped r1 (d2 @ y # e) q2" and gap1: "write_pos r1 + length ?x + 1 < read_pos r1"
    by blast
  have small: "length ?x < MAX_MEMORY" "write_pos r1 + length ?x \<le> MAX_MEMORY"
    using gap1 wrapped_read_bound [OF w1] by auto
  have "myallocate r (length ?x) = Some (write_pos r1, r1\<lparr>write_pos := write_pos r1 + (length ?x + 1)\<rparr>)"
    using r1 small(2) by (rule allocate_direct)
  from push_allocated [OF ok small(1) this small(2)]
  have "pushFrame_body r f data =
      Some (r1\<lparr>write_pos := write_pos r1 + (length ?x + 1), mem := mem_write (mem r1) (write_pos r1) ?x\<rparr>)"
    by simp
  with wrapped_snoc [OF w1 block_frame [OF ok] gap1] d12 show ?thesis by blast
qed

section \<open>Where the ring is wrong\<close>


text \<open>A frame that is larger than the buffer is never placed: \<^verbatim>\<open>myallocate\<close> does not return.\<close>

lemma allocate_bound:
  assumes "myallocate r n = Some res"
  shows "n \<le> MAX_MEMORY"
  using _ assms
proof (rule myallocate.raw_induct)
  fix alloc :: "ring \<Rightarrow> nat \<Rightarrow> (nat \<times> ring) option" and r n res
  assume "\<And>r n res. alloc r n = Some res \<Longrightarrow> n \<le> MAX_MEMORY"
    and "Option.bind (make_room r n) (\<lambda>r. if MAX_MEMORY < write_pos r + n
           then Option.bind (wrap r) (\<lambda>r. alloc r n)
           else Some (write_pos r, r\<lparr>write_pos := write_pos r + (n + 1)\<rparr>)) = Some res"
  then show "n \<le> MAX_MEMORY" by (auto split: if_splits Option.bind_splits)
qed

section \<open>The interface of a frame queue\<close>

text \<open>
  What the threads rely on: a push that fits appends, a pop of a queue that is not empty returns and
  removes its front.
\<close>

locale frame_queue =
  fixes repr :: "'s \<Rightarrow> 'x list \<Rightarrow> bool"
    and image :: "'f \<Rightarrow> 'x"
    and fits :: "'s \<Rightarrow> 'f \<Rightarrow> bool"
    and push :: "'s \<Rightarrow> 'f \<Rightarrow> 's option"
    and pop :: "'s \<Rightarrow> ('x \<times> 's) option"
  assumes push_law: "repr s q \<Longrightarrow> fits s f \<Longrightarrow> \<exists>s'. push s f = Some s' \<and> repr s' (q @ [image f])"
    and pop_law: "repr s (x # q) \<Longrightarrow> \<exists>s'. pop s = Some (x, s') \<and> repr s' q"
begin

lemma push_repr: "repr s q \<Longrightarrow> fits s f \<Longrightarrow> push s f = Some s' \<Longrightarrow> repr s' (q @ [image f])"
  using push_law by fastforce

lemma pop_repr: "repr s q \<Longrightarrow> q \<noteq> [] \<Longrightarrow> pop s = Some (x, s') \<Longrightarrow> q = x # tl q \<and> repr s' (tl q)"
  using pop_law [of s "hd q" "tl q"] by auto

lemma pop_returns: "repr s q \<Longrightarrow> q \<noteq> [] \<Longrightarrow> \<exists>s'. pop s = Some (hd q, s') \<and> repr s' (tl q)"
  using pop_law [of s "hd q" "tl q"] by auto

end

interpretation camera: frame_queue ring_repr "\<lambda>(f, data). frame_block f data"
    "\<lambda>r (f, data). frame_ok f data \<and> room r (length (frame_block f data))"
    "\<lambda>r (f, data). pushFrame_body r f data" popFrame_body
proof
  show "\<exists>s'. (case f of (f, data) \<Rightarrow> pushFrame_body s f data) = Some s' \<and>
      ring_repr s' (q @ [case f of (f, data) \<Rightarrow> frame_block f data])"
    if "ring_repr s q" "case f of (f, data) \<Rightarrow> frame_ok f data \<and> room s (length (frame_block f data))" for s q f
    using that push_correct by (cases f) simp
  show "\<exists>s'. popFrame_body s = Some (x, s') \<and> ring_repr s' q" if "ring_repr s (x # q)" for s x q
    using that by (rule pop_correct)
qed

section \<open>Properties\<close>

text \<open>
  C5.  The ring implements the queue of frames: from a state that represents a queue, pushing a frame
  that finds room appends exactly its bytes, and popping a queue that is not empty returns its oldest
  frame, byte for byte, and removes it; neither touches memory outside the buffer.
\<close>

theorem ring_refines_queue:
  assumes "ring_repr r q" and "frame_ok f data" and "room r (length (frame_block f data))"
  shows "\<exists>r'. pushFrame_body r f data = Some r' \<and> ring_repr r' (q @ [frame_block f data]) \<and>
    (\<exists>r''. popFrame_body r' = Some (hd (q @ [frame_block f data]), r'') \<and> ring_repr r'' (tl (q @ [frame_block f data])))"
proof -
  obtain r' where r': "pushFrame_body r f data = Some r'" "ring_repr r' (q @ [frame_block f data])"
    using camera.push_law [of r q "(f, data)"] assms by auto
  then show ?thesis using camera.pop_returns [OF r'(2)] by simp
qed

definition demo_frame :: FrameInfo where
  "demo_frame = \<lparr>serial_no = 1, width = 352, height = 288, format = 2, frameType = 1, timestamp = 0,
     frameRate_samplingRate = 25, video_cap = 0, frame_size = 3\<rparr>"

theorem ring_refines_queue_witness:
  "\<exists>r'. pushFrame_body ring_init demo_frame [1, 2, 3] = Some r' \<and> ring_repr r' [frame_block demo_frame [1, 2, 3]]"
proof -
  have "ring_repr ring_init []" by (simp add: ring_repr_def straight_def ring_init_def MAX_MEMORY_def)
  moreover have "frame_ok demo_frame [1, 2, 3]" by (simp add: frame_ok_def demo_frame_def)
  moreover from this have "room ring_init (length (frame_block demo_frame [1, 2, 3]))"
    by (simp add: length_frame_block room_def ring_init_def MAX_MEMORY_def demo_frame_def)
  ultimately show ?thesis using ring_refines_queue [of ring_init "[]" demo_frame "[1, 2, 3]"] by auto
qed

text \<open>
  When an old lap is left over from the last wrap and the new frame does not fit before it, frames are discarded from
  the front of the queue only, up to the first that starts beyond the new frame; if there is one, the
  new frame is appended and everything behind the discarded frames is kept.
\<close>

theorem ring_overwrites_oldest:
  assumes "wrapped r (d @ y # e) q2" and "chain (mem r) (read_pos r) d a"
    and "write_pos r + length (frame_block f data) + 1 < a" and "frame_ok f data"
  shows "\<exists>d1 d2 r'. d = d1 @ d2 \<and> pushFrame_body r f data = Some r' \<and>
    ring_repr r' (d2 @ y # e @ q2 @ [frame_block f data])"
proof -
  obtain d1 d2 r' where r': "d = d1 @ d2" "pushFrame_body r f data = Some r'" "wrapped r' (d2 @ y # e) (q2 @ [frame_block f data])"
    using push_overwrite [OF assms] by blast
  then have "ring_repr r' ((d2 @ y # e) @ q2 @ [frame_block f data])" unfolding ring_repr_def by blast
  with r' show ?thesis by (intro exI [of _ d1] exI [of _ d2] exI [of _ r']) simp
qed

definition demo_wrapped :: ring where
  "demo_wrapped =
     (let x = frame_block demo_frame [1, 2, 3] in
      \<lparr>mem = mem_write (mem_write (\<lambda>_. 0) 100 x) 144 x, read_pos = 100, write_pos = 0, buffer_end_pos = 188\<rparr>)"

lemma demo_block:
  "block (frame_block demo_frame [1, 2, 3])" "length (frame_block demo_frame [1, 2, 3]) = 43"
proof -
  have ok: "frame_ok demo_frame [1, 2, 3]" by (simp add: frame_ok_def demo_frame_def)
  then show "block (frame_block demo_frame [1, 2, 3])" by (rule block_frame)
  from ok show "length (frame_block demo_frame [1, 2, 3]) = 43"
    by (simp add: length_frame_block) (simp add: demo_frame_def)
qed

lemma demo_wrapped_repr:
  "wrapped demo_wrapped ([frame_block demo_frame [1, 2, 3]] @ frame_block demo_frame [1, 2, 3] # []) []"
  "chain (mem demo_wrapped) (read_pos demo_wrapped) [frame_block demo_frame [1, 2, 3]] 144"
  using demo_block mem_read_written [of _ 144 "frame_block demo_frame [1, 2, 3]"]
    mem_read_written [of _ 100 "frame_block demo_frame [1, 2, 3]"]
  by (simp_all add: wrapped_def demo_wrapped_def Let_def mem_read_other MAX_MEMORY_def)

theorem ring_overwrites_oldest_witness:
  "\<exists>r' d2. pushFrame_body demo_wrapped (demo_frame\<lparr>frame_size := 70\<rparr>) (replicate 70 9) = Some r' \<and>
     ring_repr r' (d2 @ [frame_block demo_frame [1, 2, 3], frame_block (demo_frame\<lparr>frame_size := 70\<rparr>) (replicate 70 9)])"
proof -
  let ?f = "demo_frame\<lparr>frame_size := 70\<rparr>" and ?data = "replicate 70 9"
  have ok: "frame_ok ?f ?data" by (simp add: frame_ok_def)
  then have "write_pos demo_wrapped + length (frame_block ?f ?data) + 1 < 144"
    by (simp add: length_frame_block demo_wrapped_def Let_def)
  from ring_overwrites_oldest [OF demo_wrapped_repr this ok] show ?thesis by auto
qed



text \<open>
  A frame larger than the buffer is not refused.  As long as its size fits in 32 bits,
  \<^verbatim>\<open>myallocate\<close> does not return; beyond, the allocation is cut to 32 bits and the copy leaves the
  buffer.  In no case does \<^verbatim>\<open>pushFrame\<close> return normally.
\<close>

theorem ring_oversized_frame:
  assumes "MAX_MEMORY < 40 + unat (frame_size f)"
  shows "pushFrame_body r f data = None \<and>
    (40 + unat (frame_size f) < 2 ^ 32 \<longrightarrow>
       myallocate r (unat (ucast (of_nat sizeof_FrameInfo + frame_size f) :: uint32)) = None)"
proof
  show "pushFrame_body r f data = None"
    using assms by (auto simp: pushFrame_body_def memcpy_to_def split: Option.bind_split if_splits prod.splits)
  show "40 + unat (frame_size f) < 2 ^ 32 \<longrightarrow>
      myallocate r (unat (ucast (of_nat sizeof_FrameInfo + frame_size f) :: uint32)) = None"
  proof
    assume small: "40 + unat (frame_size f) < 2 ^ 32"
    then have "unat (40 + frame_size f) = 40 + unat (frame_size f)" by (simp add: unat_word_ariths)
    with small have "unat (ucast (of_nat sizeof_FrameInfo + frame_size f) :: uint32) = 40 + unat (frame_size f)"
      by (simp add: unsigned_ucast_eq take_bit_nat_eq_self)
    with assms show "myallocate r (unat (ucast (of_nat sizeof_FrameInfo + frame_size f) :: uint32)) = None"
      using allocate_bound [of r "40 + unat (frame_size f)"] by (cases "myallocate r (40 + unat (frame_size f))") auto
  qed
qed

theorem ring_oversized_frame_witness:
  "pushFrame_body ring_init (demo_frame\<lparr>frame_size := 3000000\<rparr>) [] = None"
  using ring_oversized_frame [of "demo_frame\<lparr>frame_size := 3000000\<rparr>" ring_init "[]"] by (simp add: MAX_MEMORY_def)

end
