(* ===== verification/Camera_Threads.thy ===== *)
theory Camera_Threads
  imports Camera_Ring "HOL-Library.Sublist"
begin

text \<open>
  The threads around the ring, \<^verbatim>\<open>src/camera/interface.c\<close>: a producer calls \<^verbatim>\<open>pushFrame\<close>, the transfer
  thread calls \<^verbatim>\<open>popFrame\<close>.  The bodies run under \<^verbatim>\<open>w_mutex\<close>, so each is one step; the semaphore
  \<^verbatim>\<open>full\<close> is posted after the lock of a push is released and waited for before the lock of a pop is
  taken, so these are steps of their own, in any interleaving with those of the other threads.
\<close>

section \<open>States and steps\<close>

record cam =
  cam_ring :: ring
  full :: nat
  to_post :: nat
  tokens :: nat

text \<open>
  \<open>to_post\<close> counts the pushes between \<^verbatim>\<open>pthread_mutex_unlock\<close> and \<^verbatim>\<open>sem_post\<close>, \<open>tokens\<close> the pops between
  \<^verbatim>\<open>sem_wait\<close> and \<^verbatim>\<open>pthread_mutex_lock\<close>.
\<close>

definition cam_init :: cam where
  "cam_init = \<lparr>cam_ring = ring_init, full = 0, to_post = 0, tokens = 0\<rparr>"

datatype cam_event = Push FrameInfo buffer | Post | Wait | Pop buffer

inductive cam_step :: "cam \<Rightarrow> cam_event \<Rightarrow> cam \<Rightarrow> bool" where
  push: "pushFrame_body (cam_ring c) f data = Some r \<Longrightarrow>
    cam_step c (Push f data) (c\<lparr>cam_ring := r, to_post := Suc (to_post c)\<rparr>)"
| post: "to_post c = Suc n \<Longrightarrow> cam_step c Post (c\<lparr>to_post := n, full := Suc (full c)\<rparr>)"
| wait: "full c = Suc n \<Longrightarrow> cam_step c Wait (c\<lparr>full := n, tokens := Suc (tokens c)\<rparr>)"
| pop: "tokens c = Suc n \<Longrightarrow> popFrame_body (cam_ring c) = Some (x, r) \<Longrightarrow>
    cam_step c (Pop x) (c\<lparr>cam_ring := r, tokens := n\<rparr>)"

inductive_cases cam_stepE: "cam_step c e c'"
inductive_simps cam_step_simps:
  "cam_step c (Push f data) c'" "cam_step c Post c'" "cam_step c Wait c'" "cam_step c (Pop x) c'"

text \<open>Executions in which every push finds room, with the frames pushed and popped so far.\<close>

definition cam_fits :: "cam \<Rightarrow> cam_event \<Rightarrow> bool" where
  "cam_fits c e =
     (case e of Push f data \<Rightarrow> frame_ok f data \<and> room (cam_ring c) (length (frame_block f data)) | _ \<Rightarrow> True)"

definition pushed_by :: "cam_event \<Rightarrow> buffer list" where
  "pushed_by e = (case e of Push f data \<Rightarrow> [frame_block f data] | _ \<Rightarrow> [])"

definition popped_by :: "cam_event \<Rightarrow> buffer list" where
  "popped_by e = (case e of Pop x \<Rightarrow> [x] | _ \<Rightarrow> [])"

inductive cam_reach :: "cam \<Rightarrow> buffer list \<Rightarrow> buffer list \<Rightarrow> bool" where
  start: "cam_reach cam_init [] []"
| step: "cam_reach c ins outs \<Longrightarrow> cam_fits c e \<Longrightarrow> cam_step c e c' \<Longrightarrow>
    cam_reach c' (ins @ pushed_by e) (outs @ popped_by e)"

section \<open>The invariant\<close>

definition cam_inv :: "cam \<Rightarrow> buffer list \<Rightarrow> buffer list \<Rightarrow> bool" where
  "cam_inv c ins outs \<longleftrightarrow>
     (\<exists>q. ring_repr (cam_ring c) q \<and> ins = outs @ q \<and> length q = full c + to_post c + tokens c)"

lemma cam_inv_init: "cam_inv cam_init [] []"
  by (simp add: cam_inv_def cam_init_def ring_repr_def straight_def ring_init_def MAX_MEMORY_def)

lemma cam_inv_step:
  assumes "cam_inv c ins outs" and "cam_fits c e" and "cam_step c e c'"
  shows "cam_inv c' (ins @ pushed_by e) (outs @ popped_by e)"
proof -
  obtain q where q: "ring_repr (cam_ring c) q" "ins = outs @ q" "length q = full c + to_post c + tokens c"
    using assms(1) by (auto simp: cam_inv_def)
  from assms(3) show ?thesis
  proof cases
    case (push f data r)
    then have "ring_repr r (q @ [frame_block f data])"
      using camera.push_repr [OF q(1), of "(f, data)" r] assms(2) by (simp add: cam_fits_def)
    with push q show ?thesis by (auto simp: cam_inv_def pushed_by_def popped_by_def)
  next
    case (pop n x r)
    then have "q \<noteq> []" using q(3) by auto
    then have "q = x # tl q \<and> ring_repr r (tl q)" using camera.pop_repr [OF q(1)] pop by blast
    with pop q show ?thesis
      by (auto simp: cam_inv_def pushed_by_def popped_by_def intro!: exI [of _ "tl q"])
  qed (use q in \<open>auto simp: cam_inv_def pushed_by_def popped_by_def\<close>)
qed

lemma cam_reach_inv: "cam_reach c ins outs \<Longrightarrow> cam_inv c ins outs"
  by (induction rule: cam_reach.induct) (auto intro: cam_inv_init cam_inv_step)

section \<open>Draining\<close>

text \<open>The steps that move the frames of the ring towards the consumer, none of which pushes.\<close>

definition drain_step :: "cam \<times> buffer list \<Rightarrow> cam \<times> buffer list \<Rightarrow> bool" where
  "drain_step s s' \<longleftrightarrow> (\<exists>e. pushed_by e = [] \<and> cam_step (fst s) e (fst s') \<and> snd s' = snd s @ popped_by e)"

definition cam_work :: "cam \<Rightarrow> nat" where
  "cam_work c = 3 * to_post c + 2 * full c + tokens c"

lemma drain_progress:
  assumes inv: "cam_inv c ins outs" and "ins \<noteq> outs"
  shows "\<exists>c' outs'. drain_step (c, outs) (c', outs') \<and> cam_inv c' ins outs' \<and> cam_work c' < cam_work c"
proof -
  obtain q where q: "ring_repr (cam_ring c) q" "ins = outs @ q" "length q = full c + to_post c + tokens c"
    using inv by (auto simp: cam_inv_def)
  have "\<exists>e c'. cam_step c e c' \<and> pushed_by e = [] \<and> cam_work c' < cam_work c"
  proof -
    consider n where "to_post c = Suc n" | n where "full c = Suc n" | n where "tokens c = Suc n"
      using q assms(2) by (metis add_is_0 append_Nil2 length_0_conv not0_implies_Suc)
    then show ?thesis
    proof cases
      case (1 n)
      then show ?thesis
        by (intro exI [of _ Post] exI) (auto simp: pushed_by_def cam_work_def intro: cam_step.post)
    next
      case (2 n)
      then show ?thesis
        by (intro exI [of _ Wait] exI) (auto simp: pushed_by_def cam_work_def intro: cam_step.wait)
    next
      case (3 n)
      then have "q \<noteq> []" using q(3) by auto
      then obtain r where "popFrame_body (cam_ring c) = Some (hd q, r)" using camera.pop_returns [OF q(1)] by blast
      with 3 show ?thesis
        by (intro exI [of _ "Pop (hd q)"] exI) (auto simp: pushed_by_def cam_work_def intro: cam_step.pop)
    qed
  qed
  then obtain e c' where e: "cam_step c e c'" "pushed_by e = []" "cam_work c' < cam_work c" by blast
  moreover have "cam_fits c e" using e(2) by (cases e) (simp_all add: cam_fits_def pushed_by_def)
  ultimately have "cam_inv c' ins (outs @ popped_by e)" using cam_inv_step [OF inv, of e c'] by simp
  with e show ?thesis by (auto simp: drain_step_def)
qed

lemma drain_inv:
  assumes "cam_inv c ins outs" "drain_step (c, outs) (c', outs')"
  shows "cam_inv c' ins outs' \<and> cam_work c' < cam_work c"
proof -
  from assms(2) obtain e where e: "pushed_by e = []" "cam_step c e c'" "outs' = outs @ popped_by e"
    by (auto simp: drain_step_def)
  have "cam_fits c e" using e(1) by (cases e) (simp_all add: cam_fits_def pushed_by_def)
  with cam_inv_step [OF assms(1) this e(2)] e have "cam_inv c' ins outs'" by simp
  moreover have "cam_work c' < cam_work c" using e(2,1) by cases (auto simp: cam_work_def pushed_by_def)
  ultimately show ?thesis by blast
qed

lemma drain_run:
  "(drain_step ^^ n) (c, outs) (c', outs') \<Longrightarrow> cam_inv c ins outs \<Longrightarrow> cam_inv c' ins outs' \<and> n + cam_work c' \<le> cam_work c"
proof (induction n arbitrary: c' outs')
  case (Suc n)
  then obtain c1 outs1 where s: "(drain_step ^^ n) (c, outs) (c1, outs1)" "drain_step (c1, outs1) (c', outs')" by auto
  with Suc.IH [OF s(1) Suc.prems(2)] drain_inv [OF _ s(2)] show ?case by fastforce
qed simp

lemma drain_stuck:
  assumes "cam_inv c ins ins"
  shows "\<not> drain_step (c, ins) s"
proof
  assume "drain_step (c, ins) s"
  then obtain e where "pushed_by e = []" "cam_step c e (fst s)" by (auto simp: drain_step_def)
  moreover have "full c + to_post c + tokens c = 0" using assms by (auto simp: cam_inv_def)
  ultimately show False by (auto simp: pushed_by_def elim!: cam_stepE)
qed

lemma pop_succeeds:
  assumes "cam_inv c ins outs" "0 < tokens c"
  shows "\<exists>x r. popFrame_body (cam_ring c) = Some (x, r) \<and> prefix (outs @ [x]) ins"
proof -
  obtain q where q: "ring_repr (cam_ring c) q" "ins = outs @ q" "length q = full c + to_post c + tokens c"
    using assms(1) by (auto simp: cam_inv_def)
  then have "q \<noteq> []" using assms(2) by auto
  moreover from this obtain r where "popFrame_body (cam_ring c) = Some (hd q, r)" using camera.pop_returns [OF q(1)] by blast
  ultimately show ?thesis using q(2) by (cases q) auto
qed

section \<open>Properties\<close>

lemma demo_reach: "\<exists>r. cam_reach (cam_init\<lparr>cam_ring := r, to_post := 1\<rparr>) [frame_block demo_frame [1, 2, 3]] []"
proof -
  have fit: "cam_fits cam_init (Push demo_frame [1, 2, 3])"
    using demo_block by (simp add: cam_fits_def frame_ok_def room_def cam_init_def ring_init_def MAX_MEMORY_def demo_frame_def)
  then obtain r where "pushFrame_body ring_init demo_frame [1, 2, 3] = Some r"
    using camera.push_law [of ring_init "[]" "(demo_frame, [1, 2, 3])"]
    by (auto simp: cam_fits_def cam_init_def ring_repr_def straight_def ring_init_def MAX_MEMORY_def)
  then have "cam_step cam_init (Push demo_frame [1, 2, 3]) (cam_init\<lparr>cam_ring := r, to_post := 1\<rparr>)"
    using cam_step.push [of cam_init demo_frame "[1, 2, 3]" r] by (simp add: cam_init_def)
  from cam_reach.step [OF cam_reach.start fit this] show ?thesis by (auto simp: pushed_by_def popped_by_def)
qed

text \<open>
  C4.  In every interleaving in which each push finds room, what has been popped is a prefix of what
  has been pushed, byte for byte and in order; the rest is what the ring holds, and the semaphore
  together with the calls in flight counts it exactly.
\<close>

theorem camera_delivers_in_order:
  assumes "cam_reach c ins outs"
  shows "\<exists>q. ring_repr (cam_ring c) q \<and> ins = outs @ q \<and> length q = full c + to_post c + tokens c"
  using cam_reach_inv [OF assms] by (simp add: cam_inv_def)

theorem camera_delivers_in_order_witness:
  "\<exists>c q. cam_reach c [frame_block demo_frame [1, 2, 3]] [] \<and> ring_repr (cam_ring c) q \<and>
     q = [frame_block demo_frame [1, 2, 3]]"
proof -
  obtain r where reach: "cam_reach (cam_init\<lparr>cam_ring := r, to_post := 1\<rparr>) [frame_block demo_frame [1, 2, 3]] []"
    using demo_reach by blast
  from camera_delivers_in_order [OF this] reach show ?thesis by auto
qed

text \<open>
  C6.  From every such state, when nothing more is pushed, the threads deliver all frames whatever the order of their steps: a run has at most as many steps as
  there are posts, waits and pops outstanding, it can go on exactly as long as a pushed frame has not been popped, and a pop that
  has passed the semaphore never fails but returns the next frame.
\<close>

theorem camera_can_drain:
  assumes "cam_reach c ins outs" and "(drain_step ^^ n) (c, outs) (c', outs')"
  shows "n \<le> 3 * to_post c + 2 * full c + tokens c \<and>
    (outs' \<noteq> ins \<longleftrightarrow> (\<exists>s. drain_step (c', outs') s)) \<and>
    (0 < tokens c' \<longrightarrow> (\<exists>x r. popFrame_body (cam_ring c') = Some (x, r) \<and> prefix (outs' @ [x]) ins))"
proof -
  have inv: "cam_inv c' ins outs'" "n \<le> cam_work c" using drain_run [OF assms(2) cam_reach_inv [OF assms(1)]] by simp_all
  have "outs' \<noteq> ins \<longleftrightarrow> (\<exists>s. drain_step (c', outs') s)"
  proof
    assume "outs' \<noteq> ins"
    then show "\<exists>s. drain_step (c', outs') s" using drain_progress [OF inv(1)] by blast
  next
    assume "\<exists>s. drain_step (c', outs') s"
    then show "outs' \<noteq> ins" using drain_stuck inv(1) by blast
  qed
  then show ?thesis using inv(2) pop_succeeds [OF inv(1)] by (simp add: cam_work_def)
qed

text \<open>One frame has been pushed: after three steps it is delivered, and no run is longer.\<close>

theorem camera_can_drain_witness:
  "\<exists>c. cam_reach c [frame_block demo_frame [1, 2, 3]] [] \<and>
     (\<exists>c'. (drain_step ^^ 3) (c, []) (c', [frame_block demo_frame [1, 2, 3]])) \<and>
     (\<forall>n s. (drain_step ^^ n) (c, []) s \<longrightarrow> n \<le> 3)"
proof -
  let ?x = "frame_block demo_frame [1, 2, 3]"
  obtain r where r: "cam_reach (cam_init\<lparr>cam_ring := r, to_post := 1\<rparr>) [?x] []" using demo_reach by blast
  define c where "c = cam_init\<lparr>cam_ring := r, to_post := 1\<rparr>"
  have reach: "cam_reach c [?x] []" using r by (simp add: c_def)
  have le: "n \<le> 3" if "(drain_step ^^ n) (c, []) s" for n s
    using camera_can_drain [OF reach, of n "fst s" "snd s"] that by (simp add: c_def cam_init_def)
  have s1: "cam_step c Post (c\<lparr>to_post := 0, full := 1\<rparr>)"
    using cam_step.post [of c 0] by (simp add: c_def cam_init_def)
  have s2: "cam_step (c\<lparr>to_post := 0, full := 1\<rparr>) Wait (c\<lparr>to_post := 0, full := 0, tokens := 1\<rparr>)"
    using cam_step.wait [of "c\<lparr>to_post := 0, full := 1\<rparr>" 0] by (simp add: c_def cam_init_def)
  let ?c2 = "c\<lparr>to_post := 0, full := 0, tokens := 1\<rparr>"
  have d: "drain_step (c, []) (c\<lparr>to_post := 0, full := 1\<rparr>, [])" "drain_step (c\<lparr>to_post := 0, full := 1\<rparr>, []) (?c2, [])"
    using s1 s2 by (force simp: drain_step_def pushed_by_def popped_by_def)+
  then have two: "(drain_step ^^ 2) (c, []) (?c2, [])" by (auto simp: numeral_2_eq_2)
  from camera_can_drain [OF reach two] obtain x r' where x: "popFrame_body (cam_ring ?c2) = Some (x, r')" "prefix [x] [?x]" by auto
  then have "cam_step ?c2 (Pop ?x) (?c2\<lparr>cam_ring := r', tokens := 0\<rparr>)"
    using cam_step.pop [of ?c2 0 ?x r'] by simp
  then have "drain_step (?c2, []) (?c2\<lparr>cam_ring := r', tokens := 0\<rparr>, [?x])"
    by (force simp: drain_step_def pushed_by_def popped_by_def)
  with two have "(drain_step ^^ 3) (c, []) (?c2\<lparr>cam_ring := r', tokens := 0\<rparr>, [?x])" by (auto simp: numeral_3_eq_3 numeral_2_eq_2)
  with reach le show ?thesis by blast
qed

text \<open>
  Discarding frames does not take the semaphore down: after a push that discards, the semaphore
  and the calls in flight count more frames than the ring holds, so a later pop finds none.
\<close>

theorem camera_discard_overcounts:
  assumes "wrapped (cam_ring c) (d @ y # e) q2" and "chain (mem (cam_ring c)) (read_pos (cam_ring c)) d a"
    and "length (d @ y # e @ q2) = full c + to_post c + tokens c"
    and "read_pos (cam_ring c) \<le> write_pos (cam_ring c) + length (frame_block f data) + 1"
    and "write_pos (cam_ring c) + length (frame_block f data) + 1 < a" and "frame_ok f data"
    and "cam_step c (Push f data) c'"
  shows "\<exists>q. ring_repr (cam_ring c') q \<and> length q < full c' + to_post c' + tokens c'"
proof -
  obtain d1 d2 r' where r': "d = d1 @ d2" "d1 \<noteq> []" "pushFrame_body (cam_ring c) f data = Some r'"
      "wrapped r' (d2 @ y # e) (q2 @ [frame_block f data])"
    using push_overwrite [OF assms(1,2,5,6)] assms(4) by blast
  then have "ring_repr r' ((d2 @ y # e) @ q2 @ [frame_block f data])" unfolding ring_repr_def by blast
  moreover have "length ((d2 @ y # e) @ q2 @ [frame_block f data]) < Suc (length (d @ y # e @ q2))"
    using r'(1,2) by simp
  ultimately show ?thesis
    using assms(3,7) r'(3) by (auto simp: cam_step_simps)
qed

theorem camera_discard_overcounts_witness:
  "\<exists>c' q. cam_step \<lparr>cam_ring = demo_wrapped, full = 2, to_post = 0, tokens = 0\<rparr>
       (Push (demo_frame\<lparr>frame_size := 70\<rparr>) (replicate 70 9)) c' \<and>
     ring_repr (cam_ring c') q \<and> length q < full c' + to_post c' + tokens c'"
proof -
  let ?f = "demo_frame\<lparr>frame_size := 70\<rparr>" and ?data = "replicate 70 9"
  let ?c = "\<lparr>cam_ring = demo_wrapped, full = 2, to_post = 0, tokens = 0\<rparr>"
  have ok: "frame_ok ?f ?data" by (simp add: frame_ok_def)
  then have len: "length (frame_block ?f ?data) = 110" by (simp add: length_frame_block)
  have pos: "read_pos demo_wrapped = 100" "write_pos demo_wrapped = 0" by (simp_all add: demo_wrapped_def Let_def)
  obtain r' where "pushFrame_body demo_wrapped ?f ?data = Some r'"
    using push_overwrite [OF demo_wrapped_repr _ ok] len pos by auto
  then obtain c' where "cam_step ?c (Push ?f ?data) c'" using cam_step.push [of ?c ?f ?data r'] by auto
  moreover from this have "\<exists>q. ring_repr (cam_ring c') q \<and> length q < full c' + to_post c' + tokens c'"
    using demo_wrapped_repr len pos ok demo_block
    by (intro camera_discard_overcounts
        [of ?c "[frame_block demo_frame [1, 2, 3]]" "frame_block demo_frame [1, 2, 3]" "[]" "[]" 144 ?f ?data c']) simp_all
  ultimately show ?thesis by blast
qed

end
