(* ===== verification/Camera_Message.thy ===== *)
theory Camera_Message
  imports Camera_Ring
begin

text \<open>
  The control connection of the camera, \<^verbatim>\<open>src/camera/MessageHandler.c\<close>, and the recording thread,
  \<^verbatim>\<open>src/camera/AVdataTransfer.c\<close>.  The operating system is part of the state: the bytes that will arrive
  with the number that each \<^verbatim>\<open>recv\<close> delivers, whether each \<^verbatim>\<open>send\<close> and \<^verbatim>\<open>malloc\<close> succeeds, what has been
  sent, and how many blocks of the heap are in use.
\<close>

section \<open>Messages\<close>

record MsgHeader =
  ID :: uint16
  msg_size :: uint16
  lrc :: uint16
  reserved :: uint16
  referid :: uint32

definition sizeof_MsgHeader :: nat where
  [simp]: "sizeof_MsgHeader = 12"

definition MsgHeader_bytes :: "MsgHeader \<Rightarrow> buffer" where
  "MsgHeader_bytes h =
     le_bytes 2 (unat (ID h)) @ le_bytes 2 (unat (msg_size h)) @ le_bytes 2 (unat (lrc h)) @
     le_bytes 2 (unat (reserved h)) @ le_bytes 4 (unat (referid h))"

definition MsgHeader_of :: "buffer \<Rightarrow> MsgHeader" where
  "MsgHeader_of b =
     \<lparr>ID = of_nat (le_value (take 2 b)), msg_size = of_nat (le_value (take 2 (drop 2 b))),
      lrc = of_nat (le_value (take 2 (drop 4 b))), reserved = of_nat (le_value (take 2 (drop 6 b))),
      referid = of_nat (le_value (take 4 (drop 8 b)))\<rparr>"

abbreviation HANDSHAKE :: uint16 where "HANDSHAKE \<equiv> 1"
abbreviation GET_CAMERA_INFO :: uint16 where "GET_CAMERA_INFO \<equiv> 2"
abbreviation ROTATE_CAMERA :: uint16 where "ROTATE_CAMERA \<equiv> 3"
abbreviation GET_DATA_SERVER_INFO :: uint16 where "GET_DATA_SERVER_INFO \<equiv> 1001"

definition MSG_VERSION :: nat where
  "MSG_VERSION = 1"

section \<open>The operating system\<close>

record os =
  arriving :: buffer
  deliveries :: "nat list"
  send_results :: "bool list"
  malloc_results :: "bool list"
  outgoing :: buffer
  live_blocks :: nat

text \<open>A stream socket delivers what it has, up to what is asked for; a failed call delivers nothing.\<close>

definition os_recv :: "os \<Rightarrow> nat \<Rightarrow> buffer \<times> os" where
  "os_recv s n =
     (case deliveries s of
        [] \<Rightarrow> ([], s)
      | k # ks \<Rightarrow> (take (min k n) (arriving s), s\<lparr>arriving := drop (min k n) (arriving s), deliveries := ks\<rparr>))"

definition os_send :: "os \<Rightarrow> buffer \<Rightarrow> bool \<times> os" where
  "os_send s b =
     (case send_results s of
        [] \<Rightarrow> (False, s)
      | ok # oks \<Rightarrow> (ok, s\<lparr>send_results := oks, outgoing := (if ok then outgoing s @ b else outgoing s)\<rparr>))"

definition os_malloc :: "os \<Rightarrow> bool \<times> os" where
  "os_malloc s =
     (case malloc_results s of
        [] \<Rightarrow> (False, s)
      | ok # oks \<Rightarrow> (ok, s\<lparr>malloc_results := oks, live_blocks := (if ok then Suc (live_blocks s) else live_blocks s)\<rparr>))"

definition os_free :: "os \<Rightarrow> os" where
  "os_free s = s\<lparr>live_blocks := live_blocks s - 1\<rparr>"

section \<open>The message loop\<close>

text \<open>A message is its header and its data; \<open>None\<close> is the null pointer.\<close>

definition getMsg :: "os \<Rightarrow> (MsgHeader \<times> buffer) option \<times> os" where
  "getMsg s =
     (let (b, s) = os_recv s sizeof_MsgHeader in
      if length b \<noteq> sizeof_MsgHeader then (None, s)
      else
        (let header = MsgHeader_of b; (ok, s) = os_malloc s in
         if \<not> ok then (None, s)
         else if msg_size header \<noteq> 0 then
           (let (data, s) = os_recv s (unat (msg_size header)) in
            if length data \<noteq> unat (msg_size header) then (None, s) else (Some (header, data), s))
         else (Some (header, []), s)))"

text \<open>The size is stored in 16 bits; an error of \<^verbatim>\<open>send\<close> ends the call with -1.\<close>

definition sendMsg :: "os \<Rightarrow> MsgHeader \<Rightarrow> buffer \<Rightarrow> bool \<times> os" where
  "sendMsg s header data =
     (let header = header\<lparr>msg_size := of_nat (length data)\<rparr>; (ok, s) = os_send s (MsgHeader_bytes header) in
      if \<not> ok then (False, s)
      else if 0 < length data then os_send s data
      else (True, s))"

text \<open>
  \<open>junk\<close> is what the stack holds in the fields of \<^verbatim>\<open>request\<close> that are never assigned.  The result is
  always 0; the two messages that are only printed leave no trace in the state.
\<close>

definition pollMsg :: "MsgHeader \<Rightarrow> os \<Rightarrow> nat \<times> os" where
  "pollMsg junk s =
     (let (msg, s) = getMsg s in
      case msg of
        None \<Rightarrow> (0, s)
      | Some (header, data) \<Rightarrow>
          if ID header = HANDSHAKE then
            (let s = snd (sendMsg s header (le_bytes 4 MSG_VERSION));
                 s = os_free s;
                 s = snd (sendMsg s (junk\<lparr>ID := GET_DATA_SERVER_INFO, msg_size := 0\<rparr>) []) in
             (0, s))
          else if ID header = GET_DATA_SERVER_INFO then (0, os_free s)
          else if ID header = GET_CAMERA_INFO then
            (let s = snd (sendMsg s header (bytes ''C111111'' @ [NUL])) in (0, os_free s))
          else if ID header = ROTATE_CAMERA then (0, os_free s)
          else (0, s))"

section \<open>Receiving\<close>

lemma le_bytes_append_value:
  "take k (le_bytes k n @ r) = le_bytes k n" "drop k (le_bytes k n @ r) = r"
  by simp_all

lemma MsgHeader_roundtrip: "MsgHeader_of (MsgHeader_bytes h) = h"
proof -
  have bound: "unat (w :: uint16) < 65536" "unat (v :: uint32) < 4294967296" for w v
    using unsigned_less [of w, where ?'a = nat] unsigned_less [of v, where ?'a = nat] by simp_all
  show ?thesis
    using bound
    by (cases h) (simp add: MsgHeader_of_def MsgHeader_bytes_def le_value_bytes)
qed

lemma MsgHeader_bytes_length [simp]: "length (MsgHeader_bytes h) = 12"
  by (simp add: MsgHeader_bytes_def)

text \<open>A complete message arrives: its header and its data each in one delivery.\<close>

definition complete :: "os \<Rightarrow> MsgHeader \<Rightarrow> buffer \<Rightarrow> os \<Rightarrow> bool" where
  "complete s h data s' \<longleftrightarrow>
     length data = unat (msg_size h) \<and>
     (\<exists>rest ks oks k1. arriving s = MsgHeader_bytes h @ data @ rest \<and> 12 \<le> k1 \<and>
        deliveries s = k1 # ks \<and> malloc_results s = True # oks \<and>
        s' = s\<lparr>arriving := rest, malloc_results := oks, live_blocks := Suc (live_blocks s),
               deliveries := (if data = [] then ks else tl ks)\<rparr> \<and>
        (data \<noteq> [] \<longrightarrow> (\<exists>k2 ks'. ks = k2 # ks' \<and> length data \<le> k2)))"

lemma getMsg_complete:
  assumes "complete s h data s'"
  shows "getMsg s = (Some (h, data), s')"
proof -
  obtain rest ks oks k1 where s: "arriving s = MsgHeader_bytes h @ data @ rest" "12 \<le> k1"
      "deliveries s = k1 # ks" "malloc_results s = True # oks" "length data = unat (msg_size h)"
      "s' = s\<lparr>arriving := rest, malloc_results := oks, live_blocks := Suc (live_blocks s),
              deliveries := (if data = [] then ks else tl ks)\<rparr>"
      "data \<noteq> [] \<longrightarrow> (\<exists>k2 ks'. ks = k2 # ks' \<and> length data \<le> k2)"
    using assms by (auto simp: complete_def)
  have head: "os_recv s 12 = (MsgHeader_bytes h, s\<lparr>arriving := data @ rest, deliveries := ks\<rparr>)"
    using s by (simp add: os_recv_def min_def)
  have "data = [] \<longleftrightarrow> msg_size h = 0" using s(5) by (auto simp: unat_eq_zero)
  moreover have "(let (d, t) = os_recv (s\<lparr>arriving := data @ rest, deliveries := ks, malloc_results := oks,
        live_blocks := Suc (live_blocks s)\<rparr>) (length data) in (d, t)) = (data, s')" if "data \<noteq> []"
    using that s by (auto simp: os_recv_def min_def)
  ultimately show ?thesis
    using s head by (auto simp: getMsg_def os_malloc_def MsgHeader_roundtrip Let_def split: prod.splits)
qed

section \<open>Recording\<close>

text \<open>
  One round of \<^verbatim>\<open>StartDataTransfer\<close> after \<^verbatim>\<open>popFrame\<close>: \<open>frame\<close> is the block that \<^verbatim>\<open>popFrame\<close> allocated.
  \<^verbatim>\<open>fwrite\<close> takes \<open>n\<close> items of \<open>sz\<close> bytes from it; more than it holds is an access outside (\<open>None\<close>).
\<close>

record transfer =
  offset :: uint32
  record_file :: buffer

definition sizeof_pointer :: nat where
  [simp]: "sizeof_pointer = 8"

definition os_fwrite :: "buffer \<Rightarrow> nat \<Rightarrow> nat \<Rightarrow> transfer \<Rightarrow> transfer option" where
  "os_fwrite blk sz n t =
     (if sz * n \<le> length blk then Some (t\<lparr>record_file := record_file t @ take (sz * n) blk\<rparr>) else None)"

definition transfer_frame :: "transfer \<Rightarrow> buffer \<Rightarrow> transfer option" where
  "transfer_frame t topframe =
     (let sz = le_value (take 8 (drop 32 topframe)) in
      if offset t < 5 * 1024 * 1024 then
        map_option (\<lambda>t. t\<lparr>offset := offset t + of_nat (sizeof_FrameInfo + sz)\<rparr>)
          (os_fwrite topframe sizeof_pointer (sizeof_FrameInfo + sz) t)
      else Some (t\<lparr>record_file := []\<rparr>))"

section \<open>Properties\<close>

text \<open>What the camera answers to a message.\<close>

definition reply :: "MsgHeader \<Rightarrow> MsgHeader \<Rightarrow> buffer" where
  "reply junk h =
     (if ID h = HANDSHAKE then
        MsgHeader_bytes (h\<lparr>msg_size := 4\<rparr>) @ le_bytes 4 MSG_VERSION @
        MsgHeader_bytes (junk\<lparr>ID := GET_DATA_SERVER_INFO, msg_size := 0\<rparr>)
      else if ID h = GET_CAMERA_INFO then
        MsgHeader_bytes (h\<lparr>msg_size := 8\<rparr>) @ bytes ''C111111'' @ [NUL]
      else [])"

definition known_message :: "MsgHeader \<Rightarrow> bool" where
  "known_message h \<longleftrightarrow>
     ID h = HANDSHAKE \<or> ID h = GET_CAMERA_INFO \<or> ID h = ROTATE_CAMERA \<or> ID h = GET_DATA_SERVER_INFO"

lemma sendMsg_ok:
  assumes "send_results s = True # True # oks"
  shows "sendMsg s h data = (True, s\<lparr>send_results := (if data = [] then True # oks else oks),
      outgoing := outgoing s @ MsgHeader_bytes (h\<lparr>msg_size := of_nat (length data)\<rparr>) @ data\<rparr>)"
  using assms by (auto simp: sendMsg_def os_send_def Let_def)

text \<open>
  A message that arrives complete is answered by the bytes of the protocol: a handshake by the
  version and a request for the data server, a question for the camera by its name, the others by
  nothing; the block of the message is released if its type is known, and leaked otherwise.
\<close>

theorem poll_answers:
  assumes "complete s h data s'" and "send_results s = True # True # True # True # oks"
  shows "\<exists>t. pollMsg junk s = (0, t) \<and> outgoing t = outgoing s @ reply junk h \<and>
    live_blocks t = (if known_message h then live_blocks s else Suc (live_blocks s))"
proof -
  have s': "send_results s' = True # True # True # True # oks" "outgoing s' = outgoing s" "live_blocks s' = Suc (live_blocks s)"
    using assms by (auto simp: complete_def)
  consider "ID h = HANDSHAKE" | "ID h = GET_CAMERA_INFO" | "ID h = ROTATE_CAMERA \<or> ID h = GET_DATA_SERVER_INFO"
    | "\<not> known_message h" by (auto simp: known_message_def)
  then show ?thesis
  proof cases
    case 1
    then show ?thesis
      using s' getMsg_complete [OF assms(1)]
      by (simp add: pollMsg_def sendMsg_ok os_free_def reply_def known_message_def Let_def)
  next
    case 2
    then show ?thesis
      using s' getMsg_complete [OF assms(1)]
      by (simp add: pollMsg_def sendMsg_ok os_free_def reply_def known_message_def Let_def)
  next
    case 3
    then show ?thesis
      using s' getMsg_complete [OF assms(1)]
      by (auto simp: pollMsg_def os_free_def reply_def known_message_def Let_def)
  next
    case 4
    then show ?thesis
      using s' getMsg_complete [OF assms(1)]
      by (auto simp: pollMsg_def reply_def known_message_def Let_def)
  qed
qed

definition demo_header :: MsgHeader where
  "demo_header = \<lparr>ID = HANDSHAKE, msg_size = 0, lrc = 0, reserved = 0, referid = 7\<rparr>"

definition demo_os :: os where
  "demo_os = \<lparr>arriving = MsgHeader_bytes demo_header, deliveries = [12], send_results = [True, True, True, True],
     malloc_results = [True], outgoing = [], live_blocks = 0\<rparr>"

theorem poll_answers_witness:
  "\<exists>t. pollMsg demo_header demo_os = (0, t) \<and> outgoing t = reply demo_header demo_header \<and> live_blocks t = 0"
proof -
  have "complete demo_os demo_header [] (demo_os\<lparr>arriving := [], malloc_results := [], live_blocks := 1, deliveries := []\<rparr>)"
    by (simp add: complete_def demo_os_def demo_header_def)
  from poll_answers [OF this, of "[]"] show ?thesis by (simp add: demo_os_def known_message_def demo_header_def)
qed

text \<open>
  The recording thread hands \<^verbatim>\<open>fwrite\<close> the size of a pointer as the size of an item: every frame it
  records is read past the end of its block.  Once five megabytes are counted it truncates the file at
  every frame and, as the count is never reset, records nothing any more.
\<close>

theorem transfer_overreads:
  assumes "block x"
  shows "(offset t < 5 * 1024 * 1024 \<longrightarrow> transfer_frame t x = None) \<and>
    (5 * 1024 * 1024 \<le> offset t \<longrightarrow> transfer_frame t x = Some (t\<lparr>record_file := []\<rparr>))"
proof -
  have "40 + le_value (take 8 (drop 32 x)) = length x" "40 \<le> length x" using assms by (simp_all add: block_def)
  then have "\<not> 8 * (40 + le_value (take 8 (drop 32 x))) \<le> length x" by auto
  then show ?thesis by (auto simp: transfer_frame_def os_fwrite_def Let_def)
qed

theorem transfer_overreads_witness:
  "transfer_frame \<lparr>offset = 0, record_file = []\<rparr> (frame_block demo_frame [1, 2, 3]) = None"
  using transfer_overreads [OF demo_block(1), of "\<lparr>offset = 0, record_file = []\<rparr>"] by simp

end
