(* ===== verification/Ngx_Sprintf.thy ===== *)
theory Ngx_Sprintf
  imports Ngx_Number
begin

unbundle bit_operations_syntax

text \<open>
  \<^verbatim>\<open>ngx_vslprintf\<close> of \<^verbatim>\<open>src/core/ngx_string.c\<close> and its front ends: the interpreter of format strings.  The
  format is the list of its bytes before the terminating zero, the variable arguments are a list, and
  \<open>room\<close> is \<^verbatim>\<open>last - buf\<close>.  \<open>None\<close> stands for what C leaves undefined: an argument of another type than
  the directive reads, too few arguments, a string shorter than the length given for it, or a format
  that ends inside a directive (the code then steps over the terminating zero).
\<close>

section \<open>Arguments and directives\<close>

text \<open>
  Integers come in two widths.  A string is an \<^verbatim>\<open>ngx_str_t\<close> or an \<^verbatim>\<open>ngx_variable_value_t\<close> with a length, or
  the bytes from a pointer on, up to a zero.  A \<^verbatim>\<open>double\<close> is given by what the code computes of it with
  floating-point arithmetic for a number of places: its sign, its integer part and its rounded fraction.
\<close>

datatype va =
    Va_int uint32
  | Va_long ngx_uint_t
  | Va_str buffer
  | Va_cstr buffer
  | Va_double "nat \<Rightarrow> bool \<times> ngx_uint_t \<times> ngx_uint_t"

record vsl_spec =
  vs_zero :: u_char
  vs_width :: ngx_uint_t
  vs_sign :: bool
  vs_hex :: nat
  vs_max_width :: bool
  vs_frac_width :: ngx_uint_t
  vs_slen :: ngx_uint_t

fun vsl_digits :: "ngx_uint_t \<Rightarrow> buffer \<Rightarrow> ngx_uint_t \<times> buffer" where
  "vsl_digits w (c # fmt) =
     (if ch_0 \<le> c \<and> c \<le> ch_9 then vsl_digits (w * 10 + ucast c - ucast ch_0) fmt else (w, c # fmt))"
| "vsl_digits w [] = (w, [])"

text \<open>The loop over the flags; a dot with its digits ends it.\<close>

fun vsl_flags :: "buffer \<Rightarrow> va list \<Rightarrow> vsl_spec \<Rightarrow> (buffer \<times> va list \<times> vsl_spec) option" where
  "vsl_flags (c # fmt) args s =
     (if c = ch_u then vsl_flags fmt args (s\<lparr>vs_sign := False\<rparr>)
      else if c = ch_m then vsl_flags fmt args (s\<lparr>vs_max_width := True\<rparr>)
      else if c = ch_X then vsl_flags fmt args (s\<lparr>vs_hex := 2, vs_sign := False\<rparr>)
      else if c = ch_x then vsl_flags fmt args (s\<lparr>vs_hex := 1, vs_sign := False\<rparr>)
      else if c = ch_dot then
        (let (w, fmt) = vsl_digits 0 fmt in Some (fmt, args, s\<lparr>vs_frac_width := w\<rparr>))
      else if c = ch_star then
        (case args of
           Va_long n # args \<Rightarrow> vsl_flags fmt args (s\<lparr>vs_slen := n\<rparr>)
         | _ \<Rightarrow> None)
      else Some (c # fmt, args, s))"
| "vsl_flags [] args s = Some ([], args, s)"

section \<open>Conversions\<close>

definition arg_int :: "bool \<Rightarrow> va list \<Rightarrow> (ngx_uint_t \<times> va list) option" where
  "arg_int sign args =
     (case args of Va_int v # args \<Rightarrow> Some (if sign then scast v else ucast v, args) | _ \<Rightarrow> None)"

definition arg_long :: "va list \<Rightarrow> (ngx_uint_t \<times> va list) option" where
  "arg_long args = (case args of Va_long v # args \<Rightarrow> Some (v, args) | _ \<Rightarrow> None)"

text \<open>What follows the switch for the integer conversions.\<close>

definition vsl_number :: "vsl_spec \<Rightarrow> nat \<Rightarrow> ngx_uint_t \<Rightarrow> buffer" where
  "vsl_number s room v =
     (if vs_sign s \<and> sint v < 0
      then ch_minus # ngx_sprintf_num (room - 1) (- v) (vs_zero s) (vs_hex s) (unat (vs_width s))
      else ngx_sprintf_num room v (vs_zero s) (vs_hex s) (unat (vs_width s)))"

definition vsl_float :: "vsl_spec \<Rightarrow> nat \<Rightarrow> bool \<times> ngx_uint_t \<times> ngx_uint_t \<Rightarrow> buffer" where
  "vsl_float s room d =
     (let (neg, ui64, frac) = d;
          out = (if neg then [ch_minus] else []);
          out = out @ ngx_sprintf_num (room - length out) ui64 (vs_zero s) 0 (unat (vs_width s)) in
      if vs_frac_width s \<noteq> 0 then
        (let out = (if length out < room then out @ [ch_dot] else out) in
         out @ ngx_sprintf_num (room - length out) frac ch_0 0 (unat (vs_frac_width s)))
      else out)"

text \<open>The string conversions: \<open>%V\<close>, \<open>%v\<close> and \<open>%s\<close>.\<close>

definition vsl_string :: "vsl_spec \<Rightarrow> u_char \<Rightarrow> va list \<Rightarrow> nat \<Rightarrow> (buffer \<times> va list) option" where
  "vsl_string s c args room =
     (case args of
        Va_str v # args \<Rightarrow> if c = ch_V \<or> c = ch_v then Some (take room v, args) else None
      | Va_cstr p # args \<Rightarrow>
          if c = ch_s then
            if vs_slen s = - 1 then Some (take room (takeWhile (\<lambda>x. x \<noteq> NUL) p), args)
            else (let len = min room (unat (vs_slen s)) in
                  if len \<le> length p then Some (take len p, args) else None)
          else None
      | _ \<Rightarrow> None)"

text \<open>The integer conversions: the value as 64 bits and the settings that the conversion changes.\<close>

definition vsl_integer :: "vsl_spec \<Rightarrow> u_char \<Rightarrow> va list \<Rightarrow> (vsl_spec \<times> ngx_uint_t \<times> va list) option" where
  "vsl_integer s c args =
     (if c = ch_O \<or> c = ch_T \<or> c = ch_r then
        map_option (\<lambda>(v, args). (s\<lparr>vs_sign := True\<rparr>, v, args)) (arg_long args)
      else if c = ch_P then
        map_option (\<lambda>(v, args). (s\<lparr>vs_sign := True\<rparr>, v, args)) (arg_int True args)
      else if c = ch_M then
        map_option (\<lambda>(v, args). (s\<lparr>vs_sign := (v = - 1)\<rparr>, v, args)) (arg_long args)
      else if c = ch_z \<or> c = ch_l \<or> c = ch_L then
        map_option (\<lambda>(v, args). (s, v, args)) (arg_long args)
      else if c = ch_i \<or> c = ch_A then
        map_option
          (\<lambda>(v, args). (if vs_max_width s then s\<lparr>vs_width := of_nat NGX_INT64_LEN\<rparr> else s, v, args))
          (arg_long args)
      else if c = ch_d \<or> c = ch_D then
        map_option (\<lambda>(v, args). (s, v, args)) (arg_int (vs_sign s) args)
      else if c = ch_p then
        map_option
          (\<lambda>(v, args). (s\<lparr>vs_hex := 2, vs_sign := False, vs_zero := ch_0, vs_width := 16\<rparr>, v, args))
          (arg_long args)
      else None)"

definition is_integer_conv :: "u_char \<Rightarrow> bool" where
  "is_integer_conv c \<longleftrightarrow>
     List.member [ch_O, ch_T, ch_r, ch_P, ch_M, ch_z, ch_l, ch_L, ch_i, ch_A, ch_d, ch_D, ch_p] c"

definition vsl_conv :: "vsl_spec \<Rightarrow> u_char \<Rightarrow> va list \<Rightarrow> nat \<Rightarrow> (buffer \<times> va list) option" where
  "vsl_conv s c args room =
     (if c = ch_V \<or> c = ch_v \<or> c = ch_s then vsl_string s c args room
      else if is_integer_conv c then
        map_option (\<lambda>(s, v, args). (vsl_number s room v, args)) (vsl_integer s c args)
      else if c = ch_f then
        (case args of
           Va_double d # args \<Rightarrow> Some (vsl_float s room (d (unat (vs_frac_width s))), args)
         | _ \<Rightarrow> None)
      else if c = ch_c then
        (case args of Va_int d # args \<Rightarrow> Some ([ucast (d AND 0xff)], args) | _ \<Rightarrow> None)
      else if c = ch_Z then Some ([NUL], args)
      else if c = ch_N then Some ([LF], args)
      else Some ([c], args))"

section \<open>The interpreter\<close>

definition vsl_directive :: "buffer \<Rightarrow> va list \<Rightarrow> nat \<Rightarrow> (buffer \<times> buffer \<times> va list) option" where
  "vsl_directive fmt args room =
     (let zero = (if fmt \<noteq> [] \<and> hd fmt = ch_0 then ch_0 else ch_space);
          (width, fmt) = vsl_digits 0 fmt in
      case vsl_flags fmt args \<lparr>vs_zero = zero, vs_width = width, vs_sign = True, vs_hex = 0,
             vs_max_width = False, vs_frac_width = 0, vs_slen = - 1\<rparr> of
        Some (c # fmt, args, s) \<Rightarrow> map_option (\<lambda>(out, args). (out, fmt, args)) (vsl_conv s c args room)
      | _ \<Rightarrow> None)"

lemma vsl_digits_length: "length (snd (vsl_digits w fmt)) \<le> length fmt"
  by (induction w fmt rule: vsl_digits.induct) auto

lemma vsl_flags_length: "vsl_flags fmt args s = Some (fmt', args', s') \<Longrightarrow> length fmt' \<le> length fmt"
proof (induction fmt args s rule: vsl_flags.induct)
  case (1 c fmt args s)
  then show ?case
    using vsl_digits_length [of 0 fmt]
    by (auto split: if_splits list.splits va.splits prod.splits intro: le_SucI)
qed simp

lemma vsl_directive_length:
  assumes "vsl_directive fmt args room = Some (out, fmt', args')"
  shows "length fmt' < length fmt"
proof -
  obtain c s args2 where "vsl_flags (snd (vsl_digits 0 fmt)) args \<lparr>vs_zero = if fmt \<noteq> [] \<and> hd fmt = ch_0 then ch_0 else ch_space,
      vs_width = fst (vsl_digits 0 fmt), vs_sign = True, vs_hex = 0, vs_max_width = False, vs_frac_width = 0, vs_slen = - 1\<rparr> =
      Some (c # fmt', args2, s)"
    using assms by (auto simp: vsl_directive_def split: prod.splits option.splits list.splits)
  then have "length (c # fmt') \<le> length (snd (vsl_digits 0 fmt))" by (rule vsl_flags_length)
  then show ?thesis using vsl_digits_length [of 0 fmt] by simp
qed

function ngx_vslprintf :: "buffer \<Rightarrow> va list \<Rightarrow> nat \<Rightarrow> buffer option" where
  "ngx_vslprintf fmt args room =
     (case fmt of
        [] \<Rightarrow> Some []
      | c # fmt \<Rightarrow>
          if room = 0 then Some []
          else if c = ch_percent then
            (case vsl_directive fmt args room of
               None \<Rightarrow> None
             | Some (out, fmt, args) \<Rightarrow> map_option ((@) out) (ngx_vslprintf fmt args (room - length out)))
          else map_option ((#) c) (ngx_vslprintf fmt args (room - 1)))"
  by pat_completeness auto
termination
  by (relation "measure (\<lambda>(fmt, args, room). length fmt)") (auto dest: vsl_directive_length)

declare ngx_vslprintf.simps [simp del]

text \<open>\<^verbatim>\<open>ngx_sprintf\<close> sets no limit but the end of the address space; \<open>addr\<close> is the address of the buffer.\<close>

definition ngx_sprintf :: "nat \<Rightarrow> buffer \<Rightarrow> va list \<Rightarrow> buffer option" where
  "ngx_sprintf addr fmt args = ngx_vslprintf fmt args (2 ^ 64 - 1 - addr)"

definition ngx_snprintf :: "nat \<Rightarrow> buffer \<Rightarrow> va list \<Rightarrow> buffer option" where
  "ngx_snprintf size_max fmt args = ngx_vslprintf fmt args size_max"

definition ngx_slprintf :: "nat \<Rightarrow> nat \<Rightarrow> buffer \<Rightarrow> va list \<Rightarrow> buffer option" where
  "ngx_slprintf buf limit fmt args = ngx_vslprintf fmt args (limit - buf)"

section \<open>Bounds\<close>

lemma vsl_number_bound: "0 < room \<Longrightarrow> length (vsl_number s room v) \<le> room"
  using sprintf_num_bound [of "room - 1" "- v" "vs_zero s" "vs_hex s" "unat (vs_width s)"]
    sprintf_num_bound [of room v "vs_zero s" "vs_hex s" "unat (vs_width s)"]
  by (auto simp: vsl_number_def)

lemma vsl_float_bound:
  assumes "0 < room"
  shows "length (vsl_float s room d) \<le> room"
proof -
  obtain neg ui64 frac where d: "d = (neg, ui64, frac)" by (cases d)
  define a where "a = (if neg then [ch_minus] else [])"
  define b where "b = a @ ngx_sprintf_num (room - length a) ui64 (vs_zero s) 0 (unat (vs_width s))"
  define e where "e = (if length b < room then b @ [ch_dot] else b)"
  have "length a \<le> room" using assms by (simp add: a_def)
  then have b: "length b \<le> room"
    using sprintf_num_bound [of "room - length a" ui64 "vs_zero s" 0 "unat (vs_width s)"] by (simp add: b_def)
  then have e: "length e \<le> room" by (simp add: e_def)
  have "vsl_float s room d =
      (if vs_frac_width s \<noteq> 0 then e @ ngx_sprintf_num (room - length e) frac ch_0 0 (unat (vs_frac_width s)) else b)"
    by (simp add: vsl_float_def d a_def b_def e_def Let_def)
  then show ?thesis
    using b e sprintf_num_bound [of "room - length e" frac ch_0 0 "unat (vs_frac_width s)"] by auto
qed

lemma vsl_conv_bound:
  assumes "vsl_conv s c args room = Some (out, args')" and "0 < room"
  shows "length out \<le> room"
  using assms
  by (auto simp: vsl_conv_def vsl_string_def Let_def intro: vsl_number_bound vsl_float_bound
      split: if_splits list.splits va.splits)

lemma vsl_directive_bound:
  assumes "vsl_directive fmt args room = Some (out, fmt', args')" and "0 < room"
  shows "length out \<le> room"
  using assms
  by (auto simp: vsl_directive_def split: prod.splits option.splits list.splits dest!: vsl_conv_bound)

lemma vslprintf_bound: "ngx_vslprintf fmt args room = Some out \<Longrightarrow> length out \<le> room"
proof (induction fmt args room arbitrary: out rule: ngx_vslprintf.induct)
  case (1 fmt args room)
  show ?case
  proof (cases fmt)
    case Nil
    with "1.prems" show ?thesis by (simp add: ngx_vslprintf.simps)
  next
    case (Cons c rest)
    consider "room = 0" | "0 < room" "c = ch_percent" | "0 < room" "c \<noteq> ch_percent" by auto
    then show ?thesis
    proof cases
      case 1
      with "1.prems" Cons show ?thesis by (simp add: ngx_vslprintf.simps)
    next
      case 2
      with "1.prems" Cons obtain o1 f1 a1 o2 where d: "vsl_directive rest args room = Some (o1, f1, a1)"
          "ngx_vslprintf f1 a1 (room - length o1) = Some o2" "out = o1 @ o2"
        by (subst (asm) ngx_vslprintf.simps) (auto split: option.splits)
      then have "length o2 \<le> room - length o1" using "1.IH"(1) [OF Cons] 2 by simp
      with vsl_directive_bound [OF d(1)] 2 d(3) show ?thesis by simp
    next
      case 3
      with "1.prems" Cons obtain o2 where d: "ngx_vslprintf rest args (room - 1) = Some o2" "out = c # o2"
        by (subst (asm) ngx_vslprintf.simps) auto
      then have "length o2 \<le> room - 1" using "1.IH"(2) [OF Cons] 3 by simp
      with 3 d show ?thesis by simp
    qed
  qed
qed

section \<open>What the directives print\<close>

lemma vslprintf_Nil: "ngx_vslprintf [] args room = Some []"
  by (simp add: ngx_vslprintf.simps)

lemma vslprintf_char:
  "c \<noteq> ch_percent \<Longrightarrow> 0 < room \<Longrightarrow>
   ngx_vslprintf (c # fmt) args room = map_option ((#) c) (ngx_vslprintf fmt args (room - 1))"
  by (simp add: ngx_vslprintf.simps [of "c # fmt"])

lemma vslprintf_directive:
  "0 < room \<Longrightarrow> vsl_directive fmt args room = Some (out, fmt', args') \<Longrightarrow>
   ngx_vslprintf (ch_percent # fmt) args room = map_option ((@) out) (ngx_vslprintf fmt' args' (room - length out))"
  by (simp add: ngx_vslprintf.simps [of "ch_percent # fmt"])

lemma directive_s:
  "length (takeWhile (\<lambda>x. x \<noteq> NUL) p) \<le> room \<Longrightarrow>
   vsl_directive (ch_s # fmt) (Va_cstr p # args) room = Some (takeWhile (\<lambda>x. x \<noteq> NUL) p, fmt, args)"
  by (simp add: vsl_directive_def vsl_conv_def vsl_string_def)

text \<open>A non-negative \<^verbatim>\<open>int\<close>, with a width of one digit.\<close>

lemma sint_small:
  fixes n :: nat
  shows "n < 2 ^ 31 \<Longrightarrow> sint (of_nat n :: uint32) = int n"
    and "n < 2 ^ 63 \<Longrightarrow> sint (of_nat n :: ngx_uint_t) = int n"
  by (simp_all add: signed_of_nat signed_take_bit_int_eq_self)

lemma small_int_word: "unat (v :: uint32) < 2 ^ 31 \<Longrightarrow> \<exists>n. v = of_nat n \<and> n < 2 ^ 31"
  by (intro exI [of _ "unat v"]) simp

lemma ucast_of_small: "n < 2 ^ 31 \<Longrightarrow> (ucast (of_nat n :: uint32) :: ngx_uint_t) = of_nat n"
  by (simp add: word_unat_eq_iff unsigned_ucast_eq unsigned_of_nat take_bit_nat_eq_self)

lemma scast_positive: "unat (v :: uint32) < 2 ^ 31 \<Longrightarrow> (scast v :: ngx_uint_t) = ucast v"
proof -
  assume "unat v < 2 ^ 31"
  then obtain n where n: "v = of_nat n" "n < 2 ^ 31" using small_int_word by blast
  have "(scast v :: ngx_uint_t) = of_int (sint v)" by simp
  with n show ?thesis by (simp add: sint_small ucast_of_small)
qed

lemma sint_of_small: "unat (v :: uint32) < 2 ^ 31 \<Longrightarrow> 0 \<le> sint (ucast v :: ngx_uint_t)"
  using small_int_word [of v] sint_small(2) by (fastforce simp: ucast_of_small)

lemma directive_d:
  assumes "unat v < 2 ^ 31" and "max width NGX_INT64_LEN \<le> room"
    and "vsl_digits 0 fmt = (of_nat width, ch_d # rest)" and "width < 100" and "fmt \<noteq> []"
  shows "vsl_directive fmt (Va_int v # args) room =
    Some (replicate (width - length (num_digits (ucast v) 0)) (if hd fmt = ch_0 then ch_0 else ch_space) @ num_digits (ucast v) 0,
      rest, args)"
proof -
  have "0 \<le> sint (ucast v :: ngx_uint_t)"
    using assms(1) by (rule sint_of_small)
  then show ?thesis
    using assms sprintf_num_room [OF assms(2), of "ucast v"]
    by (simp add: vsl_directive_def vsl_conv_def is_integer_conv_def vsl_integer_def arg_int_def scast_positive
        vsl_number_def unsigned_of_nat take_bit_nat_eq_self)
qed

text \<open>A format prints a text wherever there is room for it and for the longest number.\<close>

definition prints :: "buffer \<Rightarrow> va list \<Rightarrow> buffer \<Rightarrow> bool" where
  "prints fmt args out \<longleftrightarrow> (\<forall>room\<ge>length out + 2 ^ 6. ngx_vslprintf fmt args room = Some out)"

lemma printsD: "prints fmt args out \<Longrightarrow> length out + 2 ^ 6 \<le> room \<Longrightarrow> ngx_vslprintf fmt args room = Some out"
  by (simp add: prints_def)

lemma prints_Nil: "prints [] [] []"
  by (simp add: prints_def vslprintf_Nil)

lemma prints_char: "c \<noteq> ch_percent \<Longrightarrow> prints fmt args out \<Longrightarrow> prints (c # fmt) args (c # out)"
  by (simp add: prints_def vslprintf_char)

lemma prints_directive:
  assumes "\<And>room. 2 ^ 6 + length out1 \<le> room \<Longrightarrow> vsl_directive fmt args room = Some (out1, fmt', args')"
    and "prints fmt' args' out"
  shows "prints (ch_percent # fmt) args (out1 @ out)"
  unfolding prints_def
proof (intro allI impI)
  fix room assume room: "length (out1 @ out) + 2 ^ 6 \<le> room"
  then have "vsl_directive fmt args room = Some (out1, fmt', args')" by (intro assms(1)) simp
  moreover have "ngx_vslprintf fmt' args' (room - length out1) = Some out"
    using room by (intro printsD [OF assms(2)]) simp
  ultimately show "ngx_vslprintf (ch_percent # fmt) args room = Some (out1 @ out)"
    using room by (simp add: vslprintf_directive)
qed

lemma prints_s:
  "NUL \<notin> set p \<Longrightarrow> prints fmt args out \<Longrightarrow> prints (ch_percent # ch_s # fmt) (Va_cstr p # args) (p @ out)"
  by (rule prints_directive) (subst directive_s, auto simp: takeWhile_eq_all_conv intro!: le_trans [OF length_takeWhile_le])

section \<open>Properties\<close>

text \<open>
  C31.  Whatever the format and the arguments, the interpreter writes no byte at or past \<^verbatim>\<open>last\<close>: not for
  the sign and the point that it writes without looking, nor for padding, numbers and strings.
\<close>

theorem vslprintf_in_bounds:
  "case ngx_vslprintf fmt args room of None \<Rightarrow> True | Some out \<Rightarrow> length out \<le> room"
  using vslprintf_bound [of fmt args room] by (auto split: option.split)

end
