(* ===== verification/Ngx_Calendar.thy ===== *)
theory Ngx_Calendar
  imports Xhome_Prelude
begin

text \<open>
  The Gregorian calendar, counted day by day, and the closed formulas that \<^verbatim>\<open>src/core/ngx_times.c\<close> and
  \<^verbatim>\<open>src/http/ngx_http_parse_time.c\<close> use instead: Gauss' formula for the number of a day, and its inverse.
  The numbers are natural ones here; \<open>Ngx_Times\<close> shows that the code's machine words compute them.
\<close>

section \<open>The calendar\<close>

type_synonym date = "nat \<times> nat \<times> nat"

definition leap_year :: "nat \<Rightarrow> bool" where
  "leap_year y \<longleftrightarrow> y mod 4 = 0 \<and> (y mod 100 \<noteq> 0 \<or> y mod 400 = 0)"

definition month_days :: "nat \<Rightarrow> nat \<Rightarrow> nat" where
  "month_days y m =
     (if m = 2 then (if leap_year y then 29 else 28) else if m = 4 \<or> m = 6 \<or> m = 9 \<or> m = 11 then 30 else 31)"

fun next_day :: "date \<Rightarrow> date" where
  "next_day (y, m, d) =
     (if d < month_days y m then (y, m, d + 1) else if m < 12 then (y, m + 1, 1) else (y + 1, 1, 1))"

fun valid_date :: "date \<Rightarrow> bool" where
  "valid_date (y, m, d) \<longleftrightarrow> 1 \<le> y \<and> 1 \<le> m \<and> m \<le> 12 \<and> 1 \<le> d \<and> d \<le> month_days y m"

text \<open>The date that is \<open>n\<close> days after January 1, 1970.\<close>

definition calendar :: "nat \<Rightarrow> date" where
  "calendar n = (next_day ^^ n) (1970, 1, 1)"

section \<open>Gauss' formula\<close>

text \<open>Years and months that begin with March; days count from March 1, 1 BC.\<close>

definition year_start :: "nat \<Rightarrow> nat" where
  "year_start y = 365 * y + y div 4 - y div 100 + y div 400"

definition month_start :: "nat \<Rightarrow> nat" where
  "month_start m = 367 * m div 12 - 30"

fun from_march :: "nat \<times> nat \<Rightarrow> nat \<times> nat" where
  "from_march (y, m) = (if m \<le> 2 then (y - 1, m + 10) else (y, m - 2))"

fun gauss :: "date \<Rightarrow> nat" where
  "gauss (y, m, d) = (case from_march (y, m) of (y, m) \<Rightarrow> year_start y + month_start m + d - 1)"

text \<open>The way back: the year from March 1, with the correction of \<^verbatim>\<open>ngx_gmtime\<close>, and the date.\<close>

definition year_day :: "nat \<Rightarrow> nat \<times> nat" where
  "year_day n =
     (let y = (n + 2) * 400 div 146097 in
      if n < year_start y then (y - 1, 365 + of_bool (leap_year y) + n - year_start y)
      else (y, n - year_start y))"

definition civil :: "nat \<Rightarrow> date" where
  "civil n =
     (let (y, yday) = year_day n;
          m = (yday + 31) * 10 div 306;
          d = yday - month_start m + 1 in
      if 306 \<le> yday then (y + 1, m - 10, d) else (y, m + 2, d))"

section \<open>Years\<close>

lemma div_Suc_dvd: "Suc y div k = y div k + of_bool (k dvd Suc y)"
  by (cases "k dvd Suc y") (simp_all add: div_Suc mod_eq_0_iff_dvd)

lemma leap_year_dvd: "leap_year y \<longleftrightarrow> 4 dvd y \<and> (\<not> 100 dvd y \<or> 400 dvd y)"
  by (simp only: leap_year_def mod_eq_0_iff_dvd)

lemma leap_quotients:
  "of_bool (4 dvd y) + of_bool (400 dvd y) = of_bool (100 dvd y) + (of_bool (leap_year y) :: nat)"
proof -
  have "4 dvd y" if "100 dvd y" using that by (rule dvd_trans [rotated]) simp
  moreover have "100 dvd y" if "400 dvd y" using that by (rule dvd_trans [rotated]) simp
  ultimately show ?thesis unfolding leap_year_dvd
    by (cases "4 dvd y"; cases "100 dvd y"; cases "400 dvd y"; simp only: of_bool_eq)
       (simp_all only: simp_thms of_bool_eq)
qed

lemma year_start_Suc: "year_start (Suc y) = year_start y + 365 + of_bool (leap_year (Suc y))"
proof -
  define a b c where "a = y div 4" and "b = y div 100" and "c = y div 400"
  define p q r l :: nat where "p = of_bool (4 dvd Suc y)" and "q = of_bool (100 dvd Suc y)"
    and "r = of_bool (400 dvd Suc y)" and "l = of_bool (leap_year (Suc y))"
  have "b \<le> y" "q \<le> 1" by (simp_all add: b_def q_def)
  moreover have "p + r = q + l" unfolding p_def q_def r_def l_def by (rule leap_quotients)
  ultimately have "365 * Suc y + (a + p) - (b + q) + (c + r) = 365 * y + a - b + c + 365 + l" by simp
  then show ?thesis unfolding year_start_def div_Suc_dvd a_def b_def c_def p_def q_def r_def l_def .
qed

text \<open>The error of the linear approximation of the start of a year.\<close>

lemma year_start_linear:
  "400 * year_start y + 100 * (y mod 4) + y mod 400 = 146097 * y + 4 * (y mod 100)"
proof -
  have "y div 100 \<le> y" by (rule div_le_dividend)
  then have "400 * year_start y + 400 * (y div 100) = 146000 * y + 400 * (y div 4) + 400 * (y div 400)"
    unfolding year_start_def by (simp add: algebra_simps)
  moreover have "y = 4 * (y div 4) + y mod 4" "y = 100 * (y div 100) + y mod 100" "y = 400 * (y div 400) + y mod 400"
    by simp_all
  ultimately show ?thesis by linarith
qed

lemma year_start_error:
  "400 * year_start y \<le> 146097 * y + 288" "146097 * y \<le> 400 * year_start y + 591"
proof -
  define c r where "c = y mod 400 div 100" and "r = y mod 100"
  define k s where "k = r div 4" and "s = y mod 4"
  have "y mod 400 mod 100 = r" unfolding r_def by (rule mod_mod_cancel) simp
  then have a: "y mod 400 = 100 * c + r" unfolding c_def by (metis mult_div_mod_eq)
  have "r mod 4 = s" unfolding r_def s_def by (rule mod_mod_cancel) simp
  then have b: "r = 4 * k + s" unfolding k_def by (metis mult_div_mod_eq)
  have "y mod 400 < 400" "r < 100" "s < 4" unfolding r_def s_def by simp_all
  with a b have bounds: "c \<le> 3" "k \<le> 24" "s \<le> 3" by linarith+
  have "400 * year_start y + 100 * s + (100 * c + r) = 146097 * y + 4 * r"
    using year_start_linear [of y] a unfolding r_def s_def by simp
  with b bounds show "400 * year_start y \<le> 146097 * y + 288" "146097 * y \<le> 400 * year_start y + 591"
    by linarith+
qed

lemma year_estimate:
  assumes "yday < 365 + of_bool (leap_year (Suc y))"
  shows "(year_start y + yday + 2) * 400 div 146097 = y \<or> (year_start y + yday + 2) * 400 div 146097 = Suc y"
proof -
  define n where "n = year_start y + yday"
  have yday: "yday \<le> 365" using assms by (cases "leap_year (Suc y)") simp_all
  have lower: "146097 * y \<le> (n + 2) * 400" and upper: "(n + 2) * 400 < 146097 * (y + 2)"
    using year_start_error [of y] yday unfolding n_def by simp_all
  have "y \<le> (n + 2) * 400 div 146097" using lower by (simp add: less_eq_div_iff_mult_less_eq mult.commute)
  moreover have "(n + 2) * 400 div 146097 < y + 2" using upper by (simp add: div_less_iff_less_mult mult.commute)
  ultimately show ?thesis unfolding n_def by linarith
qed

lemma year_day_eq:
  assumes "yday < 365 + of_bool (leap_year (Suc y))"
  shows "year_day (year_start y + yday) = (y, yday)"
  using year_estimate [OF assms] assms by (auto simp: year_day_def year_start_Suc)

section \<open>Months and days\<close>

lemma month_start_simps:
  "month_start 1 = 0" "month_start 2 = 31" "month_start 3 = 61" "month_start 4 = 92" "month_start 5 = 122"
  "month_start 6 = 153" "month_start 7 = 184" "month_start 8 = 214" "month_start 9 = 245" "month_start 10 = 275"
  "month_start 11 = 306" "month_start 12 = 337" "month_start (Suc 0) = 0"
  by (simp_all add: month_start_def)

lemma month_cases:
  assumes "1 \<le> m" and "m \<le> (12 :: nat)"
  obtains "m = 1" | "m = 2" | "m = 3" | "m = 4" | "m = 5" | "m = 6" | "m = 7" | "m = 8" | "m = 9" | "m = 10"
    | "m = 11" | "m = 12"
proof -
  have "m \<in> set [1..<13]" using assms by simp
  then show thesis using that by (auto simp: upt_rec)
qed

text \<open>A day and its month, which count from March, from the number of the day.\<close>

lemma month_of_day:
  assumes "1 \<le> m" "m \<le> 12" "1 \<le> d" "d \<le> month_days y m" "1 \<le> y"
    and "from_march (y, m) = (y', m')"
  shows "(month_start m' + d + 30) * 10 div 306 = m'" "306 \<le> month_start m' + d - 1 \<longleftrightarrow> m \<le> 2"
    "month_start m' + d - 1 < 365 + of_bool (leap_year (Suc y'))"
proof -
  have "306 * m' \<le> (month_start m' + d + 30) * 10 \<and> (month_start m' + d + 30) * 10 < 306 * Suc m'"
    by (rule month_cases [OF assms(1,2)]) (insert assms(3-), auto simp: month_start_simps month_days_def split: if_splits)
  then show "(month_start m' + d + 30) * 10 div 306 = m'" by (intro div_nat_eqI) simp_all
  show "306 \<le> month_start m' + d - 1 \<longleftrightarrow> m \<le> 2"
    by (rule month_cases [OF assms(1,2)]) (insert assms(3-), auto simp: month_start_simps month_days_def split: if_splits)
  show "month_start m' + d - 1 < 365 + of_bool (leap_year (Suc y'))"
    by (rule month_cases [OF assms(1,2)]) (insert assms(3-), auto simp: month_start_simps month_days_def split: if_splits)
qed

section \<open>Dates and numbers\<close>

lemma civil_gauss:
  assumes "valid_date dt"
  shows "civil (gauss dt) = dt"
proof -
  obtain y m d where dt: "dt = (y, m, d)" by (cases dt) auto
  obtain y' m' where f: "from_march (y, m) = (y', m')" by fastforce
  from assms have v: "1 \<le> m" "m \<le> 12" "1 \<le> d" "d \<le> month_days y m" "1 \<le> y" by (simp_all add: dt)
  note facts = month_of_day [OF v f]
  define yday where "yday = month_start m' + d - 1"
  have day: "(yday + 31) * 10 div 306 = m'" "306 \<le> yday \<longleftrightarrow> m \<le> 2" "yday - month_start m' + 1 = d"
    using facts(1,2) v(3) by (simp_all add: yday_def)
  have "gauss dt = year_start y' + yday" using f v(3) by (simp add: dt yday_def)
  moreover have "year_day (year_start y' + yday) = (y', yday)"
    using facts(3) unfolding yday_def by (rule year_day_eq)
  moreover have "if m \<le> 2 then y = y' + 1 \<and> m = m' - 10 else y = y' \<and> m = m' + 2"
    using f v by (auto split: if_splits)
  ultimately show ?thesis using day by (auto simp: civil_def dt split: if_splits)
qed

lemma next_day_valid: "valid_date dt \<Longrightarrow> valid_date (next_day dt)"
  by (cases dt) (auto simp: month_days_def)

lemma gauss_next_day:
  assumes "valid_date dt"
  shows "gauss (next_day dt) = Suc (gauss dt)"
proof -
  obtain y m d where dt: "dt = (y, m, d)" by (cases dt) auto
  from assms have v: "1 \<le> m" "m \<le> 12" "1 \<le> d" "d \<le> month_days y m" "1 \<le> y" by (simp_all add: dt)
  show ?thesis
  proof (cases "d < month_days y m")
    case True
    then show ?thesis using v by (auto simp: dt split: prod.split)
  next
    case False
    then have d: "d = month_days y m" using v by simp
    obtain k where y: "y = Suc k" using v(5) by (cases y) auto
    show ?thesis unfolding dt d
      by (rule month_cases [OF v(1,2)])
         (auto simp: month_start_simps month_days_def y year_start_Suc)
  qed
qed

lemma calendar_valid: "valid_date (calendar n)" and calendar_gauss: "gauss (calendar n) = n + 719468"
proof (induction n)
  case 0
  show "valid_date (calendar 0)" "gauss (calendar 0) = 0 + 719468"
    by (simp_all add: calendar_def month_days_def year_start_def month_start_def)
next
  case (Suc n)
  then show "valid_date (calendar (Suc n))" "gauss (calendar (Suc n)) = Suc n + 719468"
    using next_day_valid [OF Suc(1)] gauss_next_day [OF Suc(1)] by (simp_all add: calendar_def)
qed

text \<open>The closed formula gives the date that counting days gives.\<close>

lemma civil_calendar: "civil (n + 719468) = calendar n"
  using civil_gauss [OF calendar_valid [of n]] by (simp add: calendar_gauss)

text \<open>Every day lies in a year that begins with March, and dates grow with their numbers.\<close>

lemma calendar_year:
  obtains y yday where "n + 719468 = year_start y + yday" and "yday < 365 + of_bool (leap_year (Suc y))"
proof -
  obtain y m d where c: "calendar n = (y, m, d)" by (cases "calendar n") auto
  obtain y' m' where f: "from_march (y, m) = (y', m')" by fastforce
  have v: "1 \<le> m" "m \<le> 12" "1 \<le> d" "d \<le> month_days y m" "1 \<le> y"
    using calendar_valid [of n] by (simp_all add: c)
  have "n + 719468 = year_start y' + (month_start m' + d - 1)"
    using calendar_gauss [of n] f v(3) by (simp add: c)
  then show thesis using that month_of_day(3) [OF v f] by blast
qed

lemma year_start_lower: "365 * y \<le> year_start y"
proof -
  have "y div 100 \<le> y div 4" by (rule div_le_mono2) simp_all
  then show ?thesis unfolding year_start_def by linarith
qed

lemma year_start_mono: "y \<le> z \<Longrightarrow> year_start y \<le> year_start z"
  by (rule lift_Suc_mono_le [of year_start]) (simp_all add: year_start_Suc)

lemma calendar_9999:
  assumes "calendar n = (y, m, d)" and "n < 2932897"
  shows "y < 10000"
proof (rule ccontr)
  assume "\<not> y < 10000"
  obtain y' m' where f: "from_march (y, m) = (y', m')" by fastforce
  have v: "valid_date (y, m, d)" using calendar_valid [of n] assms(1) by simp
  have g: "gauss (y, m, d) < 3652365" using calendar_gauss [of n] assms by simp
  have start: "year_start 9999 = 3652059" "year_start 10000 = 3652425" by (simp_all add: year_start_def)
  show False
  proof (cases "10000 \<le> y'")
    case True
    then show False using year_start_mono [of 10000 y'] g f v by (simp add: start)
  next
    case False
    then have "y = 10000" "m = 1 \<or> m = 2" using f v \<open>\<not> y < 10000\<close> by (auto split: if_splits)
    then show False using g v by (auto simp: month_start_simps start)
  qed
qed

lemma calendar_1970: "1970 \<le> fst (calendar n)"
proof -
  have step: "fst dt \<le> fst (next_day dt)" for dt by (cases dt) simp
  show ?thesis
  proof (induction n)
    case 0
    show ?case by (simp add: calendar_def)
  next
    case (Suc n)
    then show ?case using step [of "calendar n"] by (simp add: calendar_def)
  qed
qed

end
