(* ===== verification/Ngx_Times.thy ===== *)
theory Ngx_Times
  imports Ngx_Sprintf Ngx_Calendar
begin

text \<open>
  Dates: \<^verbatim>\<open>ngx_gmtime\<close>, \<^verbatim>\<open>ngx_http_time\<close> and \<^verbatim>\<open>ngx_http_cookie_time\<close> of \<^verbatim>\<open>src/core/ngx_times.c\<close>, and
  \<^verbatim>\<open>ngx_http_parse_time\<close> of \<^verbatim>\<open>src/http/ngx_http_parse_time.c\<close>, which reads the three date formats of HTTP.
  Both sides rest on Gauss' formula for the days since March 1, 1 BC; the calendar theory behind them is
  proved here on numbers.
\<close>

section \<open>Breaking a time down\<close>

text \<open>\<^verbatim>\<open>struct tm\<close> with the full year and months from 1; its fields are \<^verbatim>\<open>int\<close>.\<close>

record ngx_tm =
  tm_sec :: uint32
  tm_min :: uint32
  tm_hour :: uint32
  tm_mday :: uint32
  tm_mon :: uint32
  tm_year :: uint32
  tm_wday :: uint32

text \<open>C's division of signed numbers, which cuts off towards zero.\<close>

definition sdiv_64 :: "ngx_int_t \<Rightarrow> int \<Rightarrow> ngx_int_t" where
  "sdiv_64 a k = (if 0 \<le> sint a then of_int (sint a div k) else of_int (- (- sint a div k)))"

text \<open>The day of the year, from March 1, and the year for the days since March 1, 1 BC.\<close>

definition gm_year_day :: "ngx_uint_t \<Rightarrow> ngx_int_t \<times> ngx_uint_t" where
  "gm_year_day days =
     (let year = (days + 2) * 400 div (365 * 400 + 100 - 4 + 1);
          yday = days - (365 * year + year div 4 - year div 100 + year div 400) in
      if sint yday < 0 then
        (let leap = (if year mod 4 = 0 \<and> (year mod 100 \<noteq> 0 \<or> year mod 400 = 0) then 1 else 0) in
         (365 + leap + yday, year - 1))
      else (yday, year))"

text \<open>The day of the month, the month and the year.\<close>

definition gm_month :: "ngx_int_t \<Rightarrow> ngx_uint_t \<Rightarrow> ngx_uint_t \<times> ngx_uint_t \<times> ngx_uint_t" where
  "gm_month yday year =
     (let mon = sdiv_64 ((yday + 31) * 10) 306;
          mday = yday - (367 * mon div 12 - 30) + 1 in
      if sint yday \<ge> 306 then (mday, mon - 10, year + 1) else (mday, mon + 2, year))"

definition ngx_gmtime :: "ngx_uint_t \<Rightarrow> ngx_tm" where
  "ngx_gmtime t =
     (let n = t;
          days = n div 86400;
          wday = (4 + days) mod 7;
          n = n mod 86400;
          hour = n div 3600;
          n = n mod 3600;
          minute = n div 60;
          sec = n mod 60;
          days = days - (31 + 28) + 719527;
          (yday, year) = gm_year_day days;
          (mday, mon, year) = gm_month yday year in
      \<lparr>tm_sec = ucast sec, tm_min = ucast minute, tm_hour = ucast hour, tm_mday = ucast mday,
       tm_mon = ucast mon, tm_year = ucast year, tm_wday = ucast wday\<rparr>)"

section \<open>Printing dates\<close>

definition week_names :: "buffer list" where
  "week_names = map bytes [''Sun'', ''Mon'', ''Tue'', ''Wed'', ''Thu'', ''Fri'', ''Sat'']"

definition month_names :: "buffer list" where
  "month_names = map bytes [''Jan'', ''Feb'', ''Mar'', ''Apr'', ''May'', ''Jun'',
                            ''Jul'', ''Aug'', ''Sep'', ''Oct'', ''Nov'', ''Dec'']"

definition ngx_http_time :: "nat \<Rightarrow> ngx_uint_t \<Rightarrow> buffer option" where
  "ngx_http_time addr t =
     (let tm = ngx_gmtime t in
      ngx_sprintf addr (bytes ''%s, %02d %s %4d %02d:%02d:%02d GMT'')
        [Va_cstr (week_names ! unat (tm_wday tm)),
         Va_int (tm_mday tm),
         Va_cstr (month_names ! unat (tm_mon tm - 1)),
         Va_int (tm_year tm),
         Va_int (tm_hour tm),
         Va_int (tm_min tm),
         Va_int (tm_sec tm)])"

definition ngx_http_cookie_time :: "nat \<Rightarrow> ngx_uint_t \<Rightarrow> buffer option" where
  "ngx_http_cookie_time addr t =
     (let tm = ngx_gmtime t in
      ngx_sprintf addr
        (if sint (tm_year tm) > 2037 then bytes ''%s, %02d-%s-%d %02d:%02d:%02d GMT''
         else bytes ''%s, %02d-%s-%02d %02d:%02d:%02d GMT'')
        [Va_cstr (week_names ! unat (tm_wday tm)),
         Va_int (tm_mday tm),
         Va_cstr (month_names ! unat (tm_mon tm - 1)),
         Va_int (if sint (tm_year tm) > 2037 then tm_year tm else of_int (sint (tm_year tm) mod 100)),
         Va_int (tm_hour tm),
         Va_int (tm_min tm),
         Va_int (tm_sec tm)])"

section \<open>Reading dates\<close>

text \<open>A failure is \<^verbatim>\<open>NGX_ERROR\<close> or a read outside the text, which theorems exclude.\<close>

datatype time_failure = Time_error | Time_outside

datatype time_format = fmt_no | fmt_rfc822 | fmt_rfc850 | fmt_isoc

definition mday :: "nat list" where
  "mday = [31, 28, 31, 30, 31, 30, 31, 31, 30, 31, 30, 31]"

definition then_do :: "time_failure + 'a \<Rightarrow> ('a \<Rightarrow> time_failure + 'b) \<Rightarrow> time_failure + 'b" where
  "then_do x f = (case x of Inl e \<Rightarrow> Inl e | Inr a \<Rightarrow> f a)"

definition rd :: "buffer \<Rightarrow> nat \<Rightarrow> time_failure + u_char" where
  "rd v p = (if p < length v then Inr (v ! p) else Inl Time_outside)"

definition expect :: "buffer \<Rightarrow> nat \<Rightarrow> u_char \<Rightarrow> time_failure + unit" where
  "expect v p c = then_do (rd v p) (\<lambda>x. if x = c then Inr () else Inl Time_error)"

definition rd_digit :: "buffer \<Rightarrow> nat \<Rightarrow> time_failure + nat" where
  "rd_digit v p =
     then_do (rd v p) (\<lambda>x. if x < ch_0 \<or> x > ch_9 then Inl Time_error else Inr (unat x - 48))"

definition rd_two :: "buffer \<Rightarrow> nat \<Rightarrow> time_failure + nat" where
  "rd_two v p = then_do (rd_digit v p) (\<lambda>a. then_do (rd_digit v (p + 1)) (\<lambda>b. Inr (a * 10 + b)))"

definition rd_four :: "buffer \<Rightarrow> nat \<Rightarrow> time_failure + nat" where
  "rd_four v p =
     then_do (rd_digit v p) (\<lambda>a. then_do (rd_digit v (p + 1)) (\<lambda>b.
     then_do (rd_digit v (p + 2)) (\<lambda>c. then_do (rd_digit v (p + 3)) (\<lambda>d.
       Inr (a * 1000 + b * 100 + c * 10 + d)))))"

text \<open>The loop for the comma or the space behind the day of the week, and the one over the spaces.\<close>

fun find_sep :: "buffer \<Rightarrow> nat \<Rightarrow> time_format \<times> nat" where
  "find_sep (c # v) p =
     (if c = ch_comma then (fmt_no, p) else if c = ch_space then (fmt_isoc, p) else find_sep v (Suc p))"
| "find_sep [] p = (fmt_no, p)"

fun skip_blank :: "buffer \<Rightarrow> nat \<Rightarrow> nat" where
  "skip_blank (c # v) p = (if c \<noteq> ch_space then p else skip_blank v (Suc p))"
| "skip_blank [] p = p"

definition rd_month :: "buffer \<Rightarrow> nat \<Rightarrow> time_failure + int" where
  "rd_month v p =
     then_do (rd v p) (\<lambda>c.
       if c = ch_J then
         then_do (rd v (p + 1)) (\<lambda>d. if d = ch_a then Inr 0
           else then_do (rd v (p + 2)) (\<lambda>e. Inr (if e = ch_n then 5 else 6)))
       else if c = ch_F then Inr 1
       else if c = ch_M then then_do (rd v (p + 2)) (\<lambda>e. Inr (if e = ch_r then 2 else 4))
       else if c = ch_A then then_do (rd v (p + 1)) (\<lambda>d. Inr (if d = ch_p then 3 else 7))
       else if c = ch_S then Inr 8
       else if c = ch_O then Inr 9
       else if c = ch_N then Inr 10
       else if c = ch_D then Inr 11
       else Inl Time_error)"

text \<open>The day in front of the month: the format, the day and the position of the month.\<close>

definition rd_day_first :: "buffer \<Rightarrow> nat \<Rightarrow> time_failure + time_format \<times> nat \<times> nat" where
  "rd_day_first v p =
     then_do (rd_two v p) (\<lambda>day. then_do (rd v (p + 2)) (\<lambda>c.
       if c = ch_space then
         if int (length v) - int (p + 2) < 18 then Inl Time_error else Inr (fmt_rfc822, day, p + 3)
       else if c = ch_minus then Inr (fmt_rfc850, day, p + 3)
       else Inl Time_error))"

text \<open>The day behind the month, of one or two digits, possibly after a second space.\<close>

definition rd_day_last :: "buffer \<Rightarrow> nat \<Rightarrow> time_failure + nat \<times> nat" where
  "rd_day_last v p0 =
     then_do (rd v p0) (\<lambda>c.
     let p = (if c = ch_space then p0 + 1 else p0) in
     then_do (rd_digit v p) (\<lambda>a. then_do (rd v (p + 1)) (\<lambda>x.
     then_do (if x \<noteq> ch_space then then_do (rd_digit v (p + 1)) (\<lambda>b. Inr (a * 10 + b, p + 2)) else Inr (a, p + 1))
       (\<lambda>(day, p). if int (length v) - int p < 14 then Inl Time_error else Inr (day, p)))))"

text \<open>A space, the hour, the minute and the second, each with two digits and colons between them.\<close>

definition rd_clock :: "buffer \<Rightarrow> nat \<Rightarrow> time_failure + nat \<times> nat \<times> nat" where
  "rd_clock v p =
     then_do (expect v p ch_space) (\<lambda>_. then_do (rd_two v (p + 1)) (\<lambda>hour.
     then_do (expect v (p + 3) ch_colon) (\<lambda>_. then_do (rd_two v (p + 4)) (\<lambda>min.
     then_do (expect v (p + 6) ch_colon) (\<lambda>_. then_do (rd_two v (p + 7)) (\<lambda>sec.
       Inr (hour, min, sec)))))))"

text \<open>The checks and Gauss' formula; \<open>month\<close> counts from 0.\<close>

definition gauss_time :: "nat \<Rightarrow> int \<Rightarrow> nat \<Rightarrow> nat \<Rightarrow> nat \<Rightarrow> nat \<Rightarrow> time_failure + ngx_uint_t" where
  "gauss_time day month year0 hour minute sec =
     (if hour > 23 \<or> minute > 59 \<or> sec > 59 then Inl Time_error
      else if (if day = 29 \<and> month = 1 then year0 mod 4 \<noteq> 0 \<or> year0 mod 100 = 0 \<and> year0 mod 400 \<noteq> 0
               else day > mday ! nat month) then Inl Time_error
      else
        (let month = month - 1;
             (month, year) = (if month \<le> 0 then (month + 12, of_nat year0 - 1) else (month, of_nat year0 :: ngx_uint_t)) in
         Inr ((365 * year + year div 4 - year div 100 + year div 400
               + of_int (367 * month div 12) - 30
               + of_nat day - 1
               - 719527 + 31 + 28) * 86400 + of_nat hour * 3600 + of_nat minute * 60 + of_nat sec)))"

definition ngx_http_parse_time :: "buffer \<Rightarrow> time_failure + ngx_uint_t" where
  "ngx_http_parse_time v =
     (let (fmt, p) = find_sep v 0;
          p = skip_blank (drop (Suc p) v) (Suc p) in
      if int (length v) - int p < 18 then Inl Time_error
      else
        then_do (if fmt \<noteq> fmt_isoc then rd_day_first v p else Inr (fmt, 0, p)) (\<lambda>(fmt, day, p).
        then_do (rd_month v p) (\<lambda>month.
        then_do (if fmt = fmt_rfc822 then expect v (p + 3) ch_space
                 else if fmt = fmt_rfc850 then expect v (p + 3) ch_minus else Inr ()) (\<lambda>_.
        then_do (if fmt = fmt_rfc822 then then_do (rd_four v (p + 4)) (\<lambda>year. Inr (year, p + 8))
                 else if fmt = fmt_rfc850 then
                   then_do (rd_two v (p + 4)) (\<lambda>year. Inr (if year < 70 then year + 2000 else year + 1900, p + 6))
                 else Inr (0, p + 4)) (\<lambda>(year, p).
        then_do (if fmt = fmt_isoc then rd_day_last v p else Inr (day, p)) (\<lambda>(day, p).
        then_do (rd_clock v p) (\<lambda>(hour, min, sec).
        then_do (if fmt = fmt_isoc
                 then then_do (expect v (p + 9) ch_space) (\<lambda>_. rd_four v (p + 10)) else Inr year) (\<lambda>year.
          gauss_time day month year hour min sec))))))))"

section \<open>Words and numbers\<close>

lemma of_nat_div_64:
  "n < 2 ^ 64 \<Longrightarrow> (of_nat n :: ngx_uint_t) div of_nat k = of_nat (n div k)" if "k < 2 ^ 64" for k
proof (rule word_unat_eq_iff [THEN iffD2])
  assume "n < 2 ^ 64"
  moreover have "n div k \<le> n" by (rule div_le_dividend)
  ultimately show "unat ((of_nat n :: ngx_uint_t) div of_nat k) = unat (of_nat (n div k) :: ngx_uint_t)"
    using that unat_of_nat_64 [of n] unat_of_nat_64 [of k] unat_of_nat_64 [of "n div k"] by (simp only: unat_div)
qed

lemma of_nat_mod_64:
  "n < 2 ^ 64 \<Longrightarrow> (of_nat n :: ngx_uint_t) mod of_nat k = of_nat (n mod k)" if "k < 2 ^ 64" for k
proof (rule word_unat_eq_iff [THEN iffD2])
  assume "n < 2 ^ 64"
  moreover have "n mod k \<le> n" by (rule mod_less_eq_dividend)
  ultimately show "unat ((of_nat n :: ngx_uint_t) mod of_nat k) = unat (of_nat (n mod k) :: ngx_uint_t)"
    using that unat_of_nat_64 [of n] unat_of_nat_64 [of k] unat_of_nat_64 [of "n mod k"] by (simp only: unat_mod)
qed

lemma small_div:
  "n < 2 ^ 64 \<Longrightarrow> (of_nat n :: ngx_uint_t) div numeral k = of_nat (n div numeral k)"
  "n < 2 ^ 64 \<Longrightarrow> (of_nat n :: ngx_uint_t) mod numeral k = of_nat (n mod numeral k)"
  if "numeral k < (2 :: nat) ^ 64"
  using of_nat_div_64 [OF that] of_nat_mod_64 [OF that] by simp_all

lemma of_nat_zero_64: "n < 2 ^ 64 \<Longrightarrow> (of_nat n :: ngx_uint_t) = 0 \<longleftrightarrow> n = 0"
  using unat_of_nat_64 [of n] by (cases "n = 0") (simp_all add: unat_eq_0 [symmetric] del: unat_eq_0)

lemma ucast_of_nat: "(ucast (of_nat n :: ngx_uint_t) :: uint32) = of_nat n"
  by (rule word_unat_eq_iff [THEN iffD2]) (simp add: unsigned_ucast_eq unsigned_of_nat take_bit_take_bit)

lemma sint_minus_small: "k < 2 ^ 62 \<Longrightarrow> sint (- of_nat k :: ngx_uint_t) = - int k"
proof -
  assume "k < 2 ^ 62"
  then have "int k < 2 ^ 62" by (metis of_nat_less_numeral_power_cancel_iff of_nat_numeral)
  moreover have "(- of_nat k :: ngx_uint_t) = word_of_int (- int k)" by simp
  ultimately show ?thesis by (simp only: signed_of_int of_int_eq_id id_apply) (simp add: signed_take_bit_int_eq_self)
qed

lemma year_start_word:
  assumes "y < 2 ^ 41"
  shows "365 * of_nat y + of_nat y div 4 - of_nat y div 100 + of_nat y div 400 = (of_nat (year_start y) :: ngx_uint_t)"
proof -
  have "y div 100 \<le> 365 * y + y div 4" by linarith
  with assms show ?thesis by (simp add: small_div year_start_def of_nat_diff)
qed

lemma leap_word:
  assumes "y < 2 ^ 41"
  shows "((of_nat y :: ngx_uint_t) mod 4 = 0 \<and> ((of_nat y :: ngx_uint_t) mod 100 \<noteq> 0 \<or> (of_nat y :: ngx_uint_t) mod 400 = 0)) \<longleftrightarrow> leap_year y"
  using assms by (simp add: small_div leap_year_def of_nat_zero_64)

section \<open>The date of a time\<close>

lemma gm_year_day_eq:
  assumes n: "n = year_start y + yday" and yday: "yday < 365 + of_bool (leap_year (Suc y))" and "n < 2 ^ 40"
  shows "gm_year_day (of_nat n) = (of_nat yday, of_nat y)"
proof -
  define Y where "Y = (n + 2) * 400 div 146097"
  have Y: "Y = y \<or> Y = Suc y" unfolding Y_def n by (rule year_estimate [OF yday])
  have small: "(n + 2) * 400 < 2 ^ 50" "n < 2 ^ 40" using \<open>n < 2 ^ 40\<close> by simp_all
  have "Y \<le> (n + 2) * 400 div 400" unfolding Y_def by (rule div_le_mono2) simp_all
  then have Y40: "Y < 2 ^ 41" using small by simp
  have "((of_nat n :: ngx_uint_t) + 2) * 400 = of_nat ((n + 2) * 400)" by simp
  then have est: "((of_nat n :: ngx_uint_t) + 2) * 400 div (365 * 400 + 100 - 4 + 1) = of_nat Y"
    using small by (simp add: small_div Y_def del: of_nat_mult of_nat_add)
  have yd: "yday \<le> 365" using yday by (cases "leap_year (Suc y)") simp_all
  show ?thesis
  proof (cases "Y = y")
    case True
    have "(of_nat n :: ngx_uint_t) - of_nat (year_start y) = of_nat yday" by (simp add: n)
    moreover have "sint (of_nat yday :: ngx_uint_t) = int yday" using yd by (simp add: sint_small)
    ultimately show ?thesis
      using Y40 unfolding gm_year_day_def est Let_def year_start_word [OF Y40] by (simp add: True)
  next
    case False
    define k where "k = 365 + of_bool (leap_year Y) - yday"
    have Y: "Y = Suc y" using Y False by simp
    have k: "0 < k" "k + yday = 365 + of_bool (leap_year Y)" using yday by (simp_all add: k_def Y)
    have k62: "k < 2 ^ 62" by (cases "leap_year Y") (simp_all add: k_def less_imp_diff_less)
    have "n + k = year_start Y" using k(2) by (simp add: n Y year_start_Suc)
    then have "of_nat (year_start Y) = (of_nat n + of_nat k :: ngx_uint_t)" by (simp only: of_nat_add [symmetric])
    then have "(of_nat n :: ngx_uint_t) - of_nat (year_start Y) = - of_nat k" by simp
    moreover have "365 + (if leap_year Y then 1 else 0) - of_nat k = (of_nat yday :: ngx_uint_t)"
      using arg_cong [OF k(2), of "of_nat :: nat \<Rightarrow> ngx_uint_t"] by (simp add: algebra_simps split: if_splits)
    ultimately show ?thesis
      using k(1) sint_minus_small [OF k62]
      unfolding gm_year_day_def est Let_def year_start_word [OF Y40] leap_word [OF Y40] by (simp add: Y)
  qed
qed

lemma gm_month_eq:
  assumes "yday \<le> 365" and "m = (yday + 31) * 10 div 306"
  shows "gm_month (of_nat yday) (of_nat y) =
    (of_nat (yday - month_start m + 1), of_nat (if 306 \<le> yday then m - 10 else m + 2),
     of_nat (if 306 \<le> yday then y + 1 else y))"
proof -
  have "(yday + 31) * 10 div 306 < 13" using assms(1) by (simp add: div_less_iff_less_mult)
  then have m: "1 \<le> m" "m \<le> 12" "306 \<le> yday \<Longrightarrow> 10 \<le> m"
    using assms by (simp_all add: less_eq_div_iff_mult_less_eq)
  have le: "306 * m \<le> (yday + 31) * 10" unfolding assms(2) by (rule times_div_less_eq_dividend)
  have start: "month_start m \<le> yday"
    by (rule month_cases [OF m(1,2)]) (insert le, simp_all add: month_start_simps)
  have "sint ((of_nat yday + 31) * 10 :: ngx_uint_t) = int ((yday + 31) * 10)"
    using sint_small(2) [of "(yday + 31) * 10"] assms(1) by simp
  moreover have "int ((yday + 31) * 10) div 306 = int m" by (simp only: assms(2) zdiv_int of_nat_numeral)
  ultimately have mon: "sdiv_64 ((of_nat yday + 31) * 10) 306 = of_nat m"
    by (simp only: sdiv_64_def of_nat_0_le_iff if_True of_int_of_nat_eq)
  have "(367 * of_nat m div 12 - 30 :: ngx_uint_t) = of_nat (month_start m)"
    by (rule month_cases [OF m(1,2)]) (simp_all add: month_start_simps)
  moreover have "sint (of_nat yday :: ngx_uint_t) = int yday" using assms(1) by (simp add: sint_small)
  ultimately show ?thesis
    using start m(3) unfolding gm_month_def mon Let_def by (auto simp: of_nat_diff)
qed

text \<open>The date of a time, as the calendar counts it.\<close>

definition tm_of :: "nat \<Rightarrow> ngx_tm" where
  "tm_of n =
     (let (y, m, d) = calendar (n div 86400) in
      \<lparr>tm_sec = of_nat (n mod 60), tm_min = of_nat (n div 60 mod 60), tm_hour = of_nat (n div 3600 mod 24),
       tm_mday = of_nat d, tm_mon = of_nat m, tm_year = of_nat y, tm_wday = of_nat ((n div 86400 + 4) mod 7)\<rparr>)"

lemma clock_fields:
  fixes n :: nat
  shows "n mod 86400 div 3600 = n div 3600 mod 24" "n mod 86400 mod 3600 div 60 = n div 60 mod 60"
    "n mod 86400 mod 3600 mod 60 = n mod 60"
proof -
  have "n mod 86400 = 3600 * (n div 3600 mod 24) + n mod 3600" using mod_mult2_eq [of n 3600 24] by simp
  then show "n mod 86400 div 3600 = n div 3600 mod 24" by (simp only: div_mult_self3 div_mult_self4) simp
  have m: "n mod 86400 mod 3600 = n mod 3600" by (rule mod_mod_cancel) simp
  have "n mod 3600 = 60 * (n div 60 mod 60) + n mod 60" using mod_mult2_eq [of n 60 60] by simp
  then show "n mod 86400 mod 3600 div 60 = n div 60 mod 60" unfolding m by simp
  show "n mod 86400 mod 3600 mod 60 = n mod 60" unfolding m by (rule mod_mod_cancel) simp
qed

lemma gmtime_eq:
  assumes "n < 2 ^ 40"
  shows "ngx_gmtime (of_nat n) = tm_of n"
proof -
  define q where "q = n div 86400"
  have q: "q < 2 ^ 39" using assms unfolding q_def by (simp add: div_less_iff_less_mult)
  obtain y yday where y: "q + 719468 = year_start y + yday" "yday < 365 + of_bool (leap_year (Suc y))"
    using calendar_year by blast
  have yd: "yday \<le> 365" using y(2) by (cases "leap_year (Suc y)") simp_all
  define m where "m = (yday + 31) * 10 div 306"
  define d where "d = yday - month_start m + 1"
  have cal: "calendar q = (if 306 \<le> yday then (y + 1, m - 10, d) else (y, m + 2, d))"
    using civil_calendar [of q] year_day_eq [OF y(2)]
    by (auto simp: civil_def y(1) m_def d_def Let_def split: if_splits)
  have "gm_year_day (of_nat q - (31 + 28) + 719527) = (of_nat yday, of_nat y)"
    using gm_year_day_eq [OF y] q by (simp add: add.commute)
  moreover have "(4 + of_nat q) mod 7 = (of_nat ((q + 4) mod 7) :: ngx_uint_t)"
    using small_div(2) [of "num.Bit1 (num.Bit1 num.One)" "q + 4"] q by (simp add: add.commute)
  ultimately show ?thesis
    using assms q gm_month_eq [OF yd m_def, of y, folded d_def] unfolding tm_of_def q_def [symmetric] cal
    by (simp add: ngx_gmtime_def Let_def small_div q_def [symmetric] clock_fields ucast_of_nat)
qed

section \<open>The text of a date\<close>

definition dg :: "nat \<Rightarrow> u_char" where
  "dg k = of_nat (48 + k)"

lemma print_dec_step:
  assumes "n < 2 ^ 31"
  shows "print_dec (of_nat n :: uint32) acc =
    (if n < 10 then dg n # acc else print_dec (of_nat (n div 10) :: uint32) (dg (n mod 10) # acc))"
proof -
  have u: "unat (of_nat n :: uint32) = n" "unat (of_nat (n div 10) :: uint32) = n div 10"
    "unat (of_nat (n mod 10) :: uint32) = n mod 10"
    using assms by (simp_all add: unsigned_of_nat take_bit_nat_eq_self)
  have d: "(of_nat n :: uint32) div 10 = of_nat (n div 10)" "(of_nat n :: uint32) mod 10 = of_nat (n mod 10)"
    by (simp_all add: word_unat_eq_iff unat_div unat_mod u)
  have "(ucast (of_nat (n mod 10) :: uint32) :: u_char) = of_nat (n mod 10)"
    using u(3) by (simp add: word_unat_eq_iff unsigned_ucast_eq unsigned_of_nat take_bit_nat_eq_self)
  moreover have "(of_nat (n div 10) :: uint32) = 0 \<longleftrightarrow> n < 10"
    using u(2) by (metis div_eq_0_iff unat_eq_0 of_nat_0 zero_neq_numeral)
  ultimately show ?thesis
    by (simp add: print_dec.simps [of "of_nat n"] Let_def d dg_def add.commute)
qed

definition two :: "nat \<Rightarrow> buffer" where
  "two n = [dg (n div 10), dg (n mod 10)]"

definition four :: "nat \<Rightarrow> buffer" where
  "four n = [dg (n div 1000), dg (n div 100 mod 10), dg (n div 10 mod 10), dg (n mod 10)]"

lemma num_digits_print: "n < 2 ^ 31 \<Longrightarrow> num_digits (ucast (of_nat n :: uint32)) 0 = print_dec (of_nat n :: uint32) []"
  by (simp add: num_digits_def ucast_of_small ucast_of_nat word_le_nat_alt unsigned_of_nat take_bit_nat_eq_self)

lemma dg_0: "dg 0 = ch_0"
  by (simp add: dg_def)

lemma print_dec_two: "10 \<le> n \<Longrightarrow> n < 100 \<Longrightarrow> print_dec (of_nat n :: uint32) [] = two n"
proof -
  assume n: "10 \<le> n" "n < 100"
  then have "n div 10 < 10" by (simp add: div_less_iff_less_mult)
  with n show ?thesis by (simp add: print_dec_step two_def)
qed

lemma print_dec_four: "1000 \<le> n \<Longrightarrow> n < 10000 \<Longrightarrow> print_dec (of_nat n :: uint32) [] = four n"
proof -
  assume n: "1000 \<le> n" "n < 10000"
  have d: "n div 10 div 10 = n div 100" "n div 100 div 10 = n div 1000"
    by (simp_all only: div_mult2_eq [symmetric]) simp_all
  have "\<not> n < 10" "\<not> n div 10 < 10" "\<not> n div 100 < 10" "n div 1000 < 10"
    using n by (simp_all add: div_less_iff_less_mult)
  moreover have "n < 2 ^ 31" "n div 10 < 2 ^ 31" "n div 100 < 2 ^ 31" "n div 1000 < 2 ^ 31"
    using n by (simp_all add: div_less_iff_less_mult)
  ultimately show ?thesis by (simp only: print_dec_step d if_False if_True four_def)
qed

lemma small_int: "n < 2 ^ 31 \<Longrightarrow> unat (of_nat n :: uint32) < 2 ^ 31"
  by (simp add: unsigned_of_nat take_bit_nat_eq_self)

lemma directive_02d:
  assumes "n < 100" "2 ^ 6 \<le> room"
  shows "vsl_directive (ch_0 # ch_2 # ch_d # fmt) (Va_int (of_nat n) # args) room = Some (two n, fmt, args)"
proof -
  have n: "n < 2 ^ 31" using assms by simp
  have "vsl_directive (ch_0 # ch_2 # ch_d # fmt) (Va_int (of_nat n) # args) room =
      Some (replicate (2 - length (print_dec (of_nat n :: uint32) [])) ch_0 @ print_dec (of_nat n :: uint32) [], fmt, args)"
    using directive_d [OF small_int [OF n], of 2 room "ch_0 # ch_2 # ch_d # fmt" fmt args] assms(2)
    by (simp add: num_digits_print [OF n])
  then show ?thesis
    using n assms(1) by (cases "n < 10") (simp_all add: print_dec_step [of n] print_dec_two, simp_all add: two_def dg_0)
qed

lemma directive_4d:
  assumes "1000 \<le> n" "n < 10000" "2 ^ 6 \<le> room"
  shows "vsl_directive (ch_4 # ch_d # fmt) (Va_int (of_nat n) # args) room = Some (four n, fmt, args)"
proof -
  have n: "n < 2 ^ 31" using assms by simp
  show ?thesis
    using directive_d [OF small_int [OF n], of 4 room "ch_4 # ch_d # fmt" fmt args] assms
    by (simp add: num_digits_print [OF n] print_dec_four) (simp add: four_def)
qed

lemma prints_02d:
  "n < 100 \<Longrightarrow> prints fmt args out \<Longrightarrow>
   prints (ch_percent # ch_0 # ch_2 # ch_d # fmt) (Va_int (of_nat n) # args) (two n @ out)"
  by (rule prints_directive) (simp_all add: directive_02d)

lemma prints_4d:
  "1000 \<le> n \<Longrightarrow> n < 10000 \<Longrightarrow> prints fmt args out \<Longrightarrow>
   prints (ch_percent # ch_4 # ch_d # fmt) (Va_int (of_nat n) # args) (four n @ out)"
  by (rule prints_directive) (simp_all add: directive_4d)

text \<open>The names of days and months have three letters, which the reader of months tells apart.\<close>

lemma three_letters: "(case xs of [a, b, c] \<Rightarrow> P a b c | _ \<Rightarrow> False) \<longleftrightarrow> (\<exists>a b c. xs = [a, b, c] \<and> P a b c)"
  by (auto split: list.splits)

lemma week_name_all:
  "\<forall>w\<in>set [0..<7]. case week_names ! w of [a, b, c] \<Rightarrow> {NUL, ch_comma, ch_space} \<inter> {a, b, c} = {} | _ \<Rightarrow> False"
  by (simp add: upt_rec week_names_def)

lemma week_name:
  assumes "w < 7"
  obtains a b c where "week_names ! w = [a, b, c]" "{NUL, ch_comma, ch_space} \<inter> {a, b, c} = {}"
proof -
  have "w \<in> set [0..<7]" using assms by simp
  from bspec [OF week_name_all this, unfolded three_letters] show thesis
    by (elim exE conjE) (rule that)
qed

lemma month_name_all:
  "\<forall>m\<in>set [1..<13]. case month_names ! (m - 1) of
      [a, b, c] \<Rightarrow> NUL \<notin> {a, b, c} \<and> rd_month [a, b, c] 0 = Inr (int m - 1)
    | _ \<Rightarrow> False"
  by (simp add: upt_rec month_names_def rd_month_def then_do_def rd_def)

lemma rd_month_shift: "p + 2 < length v \<Longrightarrow> rd_month v p = rd_month [v ! p, v ! (p + 1), v ! (p + 2)] 0"
  by (simp add: rd_month_def then_do_def rd_def)

lemma month_name:
  assumes "1 \<le> m" and "m \<le> 12"
  obtains a b c where "month_names ! (m - 1) = [a, b, c]" "NUL \<notin> {a, b, c}" "rd_month [a, b, c] 0 = Inr (int m - 1)"
proof -
  have "m \<in> set [1..<13]" using assms by simp
  from bspec [OF month_name_all this, unfolded three_letters] show thesis
    by (elim exE conjE) (rule that)
qed

definition http_date :: "nat \<Rightarrow> date \<Rightarrow> nat \<Rightarrow> nat \<Rightarrow> nat \<Rightarrow> buffer" where
  "http_date w dt h i s =
     (case dt of (y, m, d) \<Rightarrow>
        week_names ! w @ [ch_comma, ch_space] @ two d @ [ch_space] @ month_names ! (m - 1) @ [ch_space] @ four y @
        [ch_space] @ two h @ [ch_colon] @ two i @ [ch_colon] @ two s @ [ch_space, ch_G, ch_M, ch_T])"

lemma http_date_length:
  assumes "w < 7" "1 \<le> m" "m \<le> 12"
  shows "length (http_date w (y, m, d) h i s) = 29"
proof -
  obtain a b c where "week_names ! w = [a, b, c]" using week_name [OF assms(1)] .
  moreover obtain a b c where "month_names ! (m - 1) = [a, b, c]" using month_name [OF assms(2,3)] .
  ultimately show ?thesis by (simp add: http_date_def two_def four_def)
qed

lemma prints_http_date:
  assumes "w < 7" "1 \<le> m" "m \<le> 12" "d < 100" "1000 \<le> y" "y < 10000" "h < 100" "i < 100" "s < 100"
  shows "prints (bytes ''%s, %02d %s %4d %02d:%02d:%02d GMT'')
      [Va_cstr (week_names ! w), Va_int (of_nat d), Va_cstr (month_names ! (m - 1)), Va_int (of_nat y),
       Va_int (of_nat h), Va_int (of_nat i), Va_int (of_nat s)] (http_date w (y, m, d) h i s)"
proof -
  have "NUL \<notin> set (week_names ! w)" by (rule week_name [OF assms(1)]) simp
  moreover have "NUL \<notin> set (month_names ! (m - 1))" by (rule month_name [OF assms(2,3)]) simp
  ultimately show ?thesis
    using assms(4-) unfolding http_date_def
    by simp (rule prints_s prints_02d prints_4d prints_char prints_Nil | simp)+
qed

lemma http_time_text:
  assumes "n < 253402300800" and "addr < 2 ^ 63"
  shows "ngx_http_time addr (of_nat n) =
    Some (http_date ((n div 86400 + 4) mod 7) (calendar (n div 86400)) (n div 3600 mod 24) (n div 60 mod 60) (n mod 60))"
proof -
  obtain y m d where c: "calendar (n div 86400) = (y, m, d)" by (cases "calendar (n div 86400)") auto
  have v: "valid_date (y, m, d)" using calendar_valid [of "n div 86400"] by (simp add: c)
  have "n div 86400 < 2932897" using assms(1) by (simp add: div_less_iff_less_mult)
  then have y: "y < 10000" using calendar_9999 [OF c] by simp
  have "month_days y m < 100" by (simp add: month_days_def)
  then have d: "d < 100" using v by simp
  have "1970 \<le> y" using calendar_1970 [of "n div 86400"] by (simp add: c)
  then have "prints (bytes ''%s, %02d %s %4d %02d:%02d:%02d GMT'')
      [Va_cstr (week_names ! ((n div 86400 + 4) mod 7)), Va_int (of_nat d), Va_cstr (month_names ! (m - 1)),
       Va_int (of_nat y), Va_int (of_nat (n div 3600 mod 24)), Va_int (of_nat (n div 60 mod 60)),
       Va_int (of_nat (n mod 60))]
      (http_date ((n div 86400 + 4) mod 7) (y, m, d) (n div 3600 mod 24) (n div 60 mod 60) (n mod 60))"
    using v d y by (intro prints_http_date) (simp_all add: less_imp_le)
  then have "ngx_vslprintf (bytes ''%s, %02d %s %4d %02d:%02d:%02d GMT'')
      [Va_cstr (week_names ! ((n div 86400 + 4) mod 7)), Va_int (of_nat d), Va_cstr (month_names ! (m - 1)),
       Va_int (of_nat y), Va_int (of_nat (n div 3600 mod 24)), Va_int (of_nat (n div 60 mod 60)),
       Va_int (of_nat (n mod 60))] (2 ^ 64 - 1 - addr) =
      Some (http_date ((n div 86400 + 4) mod 7) (y, m, d) (n div 3600 mod 24) (n div 60 mod 60) (n mod 60))"
    by (rule printsD) (use assms(2) v in \<open>simp add: http_date_length\<close>)
  moreover have "ngx_gmtime (of_nat n) = tm_of n" by (rule gmtime_eq) (use assms in simp)
  moreover have "(of_nat m - 1 :: uint32) = of_nat (m - 1)" using v by (simp add: of_nat_diff)
  moreover have "m - 1 < 2 ^ 31" "(n div 86400 + 4) mod 7 < 2 ^ 31" using v by (simp_all add: less_imp_diff_less order.strict_trans [OF mod_less_divisor])
  ultimately show ?thesis
    by (simp add: ngx_http_time_def ngx_sprintf_def c tm_of_def unsigned_of_nat take_bit_nat_eq_self)
qed

section \<open>Reading a date back\<close>

lemma unat_dg: "k < 10 \<Longrightarrow> unat (dg k) = 48 + k"
  by (simp only: dg_def unsigned_of_nat) (simp add: take_bit_nat_eq_self)

lemma rd_digit_dg: "p < length v \<Longrightarrow> v ! p = dg k \<Longrightarrow> k < 10 \<Longrightarrow> rd_digit v p = Inr k"
  by (simp add: rd_digit_def then_do_def rd_def word_less_nat_alt unat_dg)

lemma rd_two_two:
  assumes "p + 1 < length v" "v ! p = dg (n div 10)" "v ! (p + 1) = dg (n mod 10)" "n < 100"
  shows "rd_two v p = Inr n"
  using assms rd_digit_dg [of p v "n div 10"] rd_digit_dg [of "p + 1" v "n mod 10"]
  by (simp add: rd_two_def then_do_def div_less_iff_less_mult)

lemma rd_four_four:
  assumes "p + 3 < length v" "v ! p = dg (n div 1000)" "v ! (p + 1) = dg (n div 100 mod 10)"
    "v ! (p + 2) = dg (n div 10 mod 10)" "v ! (p + 3) = dg (n mod 10)" "n < 10000"
  shows "rd_four v p = Inr n"
proof -
  have "n = 1000 * (n div 1000) + n mod 1000" by simp
  moreover have "n mod 1000 = 100 * (n div 100 mod 10) + n mod 100" using mod_mult2_eq [of n 100 10] by simp
  moreover have "n mod 100 = 10 * (n div 10 mod 10) + n mod 10" using mod_mult2_eq [of n 10 10] by simp
  ultimately have "n div 1000 * 1000 + n div 100 mod 10 * 100 + n div 10 mod 10 * 10 + n mod 10 = n" by linarith
  moreover have "n div 1000 < 10" using assms(6) by (simp add: div_less_iff_less_mult)
  ultimately show ?thesis
    using assms rd_digit_dg [of p v "n div 1000"] rd_digit_dg [of "p + 1" v "n div 100 mod 10"]
      rd_digit_dg [of "p + 2" v "n div 10 mod 10"] rd_digit_dg [of "p + 3" v "n mod 10"]
    by (simp add: rd_four_def then_do_def)
qed

lemma parse_http_date:
  assumes "w < 7" "1 \<le> m" "m \<le> 12" "d < 100" "y < 10000" "h < 100" "i < 100" "s < 100"
  shows "ngx_http_parse_time (http_date w (y, m, d) h i s) = gauss_time d (int m - 1) y h i s"
proof -
  obtain a b c where w: "week_names ! w = [a, b, c]" "{NUL, ch_comma, ch_space} \<inter> {a, b, c} = {}"
    using week_name [OF assms(1)] .
  obtain a' b' c' where mn: "month_names ! (m - 1) = [a', b', c']" "rd_month [a', b', c'] 0 = Inr (int m - 1)"
    using month_name [OF assms(2,3)] .
  define v where "v = http_date w (y, m, d) h i s"
  have v: "v = a # b # c # ch_comma # ch_space # two d @ ch_space # a' # b' # c' # ch_space # four y @
      ch_space # two h @ ch_colon # two i @ ch_colon # two s @ [ch_space, ch_G, ch_M, ch_T]"
    using mn(1) by (simp add: v_def http_date_def w(1))
  have len: "length v = 29" unfolding v_def by (rule http_date_length [OF assms(1-3)])
  have "d div 10 < 10" using assms(4) by (simp add: div_less_iff_less_mult)
  then have "dg (d div 10) \<noteq> ch_space" by (simp add: word_unat_eq_iff unat_dg)
  then have sep: "find_sep v 0 = (fmt_no, 3)" "skip_blank (drop 4 v) 4 = 5"
    using w(2) by (auto simp: v two_def)
  have "rd_two v 5 = Inr d" "rd_two v 17 = Inr h" "rd_two v 20 = Inr i" "rd_two v 23 = Inr s"
    by (rule rd_two_two; use assms len in \<open>simp add: v two_def four_def\<close>)+
  moreover have "rd_four v 12 = Inr y"
    by (rule rd_four_four; use assms len in \<open>simp add: v two_def four_def\<close>)
  moreover have "rd_month v 8 = Inr (int m - 1)"
    using mn(2) rd_month_shift [of 8 v] len by (simp add: v two_def)
  moreover have "rd v 7 = Inr ch_space" "expect v 11 ch_space = Inr ()" "expect v 16 ch_space = Inr ()"
     "expect v 19 ch_colon = Inr ()" "expect v 22 ch_colon = Inr ()"
    using len by (simp_all add: rd_def expect_def then_do_def, simp_all add: v two_def four_def)
  ultimately show ?thesis
    unfolding v_def [symmetric] using len
    by (simp add: ngx_http_parse_time_def sep rd_day_first_def rd_clock_def then_do_def Let_def)
qed

lemma day_accepted:
  assumes "valid_date (y, m, d)"
  shows "\<not> (if d = 29 \<and> int m - 1 = 1 then y mod 4 \<noteq> 0 \<or> y mod 100 = 0 \<and> y mod 400 \<noteq> 0 else d > mday ! nat (int m - 1))"
proof -
  from assms have v: "1 \<le> m" "m \<le> 12" "d \<le> month_days y m" by simp_all
  show ?thesis
    by (rule month_cases [OF v(1,2)])
       (insert v(3), auto simp: month_days_def mday_def leap_year_def split: if_splits)
qed

lemma month_word:
  assumes "1 \<le> m" and "m \<le> (12 :: nat)"
  shows "of_int (367 * int m div 12) - 30 = (of_nat (month_start m) :: ngx_uint_t)"
  by (rule month_cases [OF assms]) (simp_all add: month_start_simps)

lemma gauss_time_valid:
  assumes "valid_date (y, m, d)" and "h < 24" "i < 60" "s < 60" "y < 2 ^ 41"
  shows "gauss_time d (int m - 1) y h i s =
    Inr ((of_nat (gauss (y, m, d)) - 719468) * 86400 + of_nat h * 3600 + of_nat i * 60 + of_nat s)"
proof -
  obtain y' m' where f: "from_march (y, m) = (y', m')" by fastforce
  from assms(1) have v: "1 \<le> m" "m \<le> 12" "1 \<le> d" "1 \<le> y" by simp_all
  have y': "y' < 2 ^ 41" and m': "1 \<le> m'" "m' \<le> 12" using f v assms(5) by (auto split: if_splits)
  have shift: "(if int m - 1 - 1 \<le> 0 then (int m - 1 - 1 + 12, of_nat y - 1) else (int m - 1 - 1, of_nat y :: ngx_uint_t)) =
      (int m', of_nat y')"
    using f v by (auto split: if_splits)
  have g: "of_nat (gauss (y, m, d)) = (of_nat (year_start y') + of_nat (month_start m') + of_nat d - 1 :: ngx_uint_t)"
    using f v(3) by (simp add: of_nat_diff)
  show ?thesis
    using assms(2-4) day_accepted [OF assms(1)]
    unfolding gauss_time_def Let_def shift g split year_start_word [OF y'] month_word [OF m', symmetric] by simp
qed

text \<open>The seconds of a day.\<close>

lemma clock_sum: "n div 86400 * 86400 + n div 3600 mod 24 * 3600 + n div 60 mod 60 * 60 + n mod 60 = (n :: nat)"
proof -
  have "n = 86400 * (n div 86400) + n mod 86400" by simp
  moreover have "n mod 86400 = 3600 * (n div 3600 mod 24) + n mod 3600" using mod_mult2_eq [of n 3600 24] by simp
  moreover have "n mod 3600 = 60 * (n div 60 mod 60) + n mod 60" using mod_mult2_eq [of n 60 60] by simp
  ultimately show ?thesis by linarith
qed

lemma gauss_time_calendar:
  assumes "calendar (n div 86400) = (y, m, d)" and "y < 2 ^ 41"
  shows "gauss_time d (int m - 1) y (n div 3600 mod 24) (n div 60 mod 60) (n mod 60) = Inr (of_nat n)"
proof -
  have v: "valid_date (y, m, d)" and g: "gauss (y, m, d) = n div 86400 + 719468"
    using calendar_valid [of "n div 86400"] calendar_gauss [of "n div 86400"] assms(1) by simp_all
  have "(of_nat (gauss (y, m, d)) - 719468 :: ngx_uint_t) = of_nat (n div 86400)" unfolding g by simp
  then show ?thesis
    using gauss_time_valid [OF v, of "n div 3600 mod 24" "n div 60 mod 60" "n mod 60"] assms(2)
      arg_cong [OF clock_sum [of n], of "of_nat :: nat \<Rightarrow> ngx_uint_t"] by simp
qed

section \<open>The reader stays inside its text\<close>

definition inside :: "time_failure + 'a \<Rightarrow> bool" where
  "inside r \<longleftrightarrow> r \<noteq> Inl Time_outside"

lemma inside_then_do: "inside x \<Longrightarrow> (\<And>a. x = Inr a \<Longrightarrow> inside (f a)) \<Longrightarrow> inside (then_do x f)"
  by (auto simp: inside_def then_do_def split: sum.splits)

lemma inside_values: "inside (Inr a)" "inside (Inl Time_error)"
  by (simp_all add: inside_def)

lemma inside_if: "(P \<Longrightarrow> inside x) \<Longrightarrow> (\<not> P \<Longrightarrow> inside y) \<Longrightarrow> inside (if P then x else y)"
  by simp

lemma inside_rd: "p < length v \<Longrightarrow> inside (rd v p)"
  by (simp add: inside_def rd_def)

lemmas inside_intros = inside_then_do inside_values inside_if inside_rd

lemma inside_expect: "p < length v \<Longrightarrow> inside (expect v p c)"
  unfolding expect_def by (intro inside_intros)

lemma inside_digit: "p < length v \<Longrightarrow> inside (rd_digit v p)"
  unfolding rd_digit_def by (intro inside_intros)

lemma inside_two: "p + 1 < length v \<Longrightarrow> inside (rd_two v p)"
  unfolding rd_two_def by (intro inside_intros inside_digit) simp_all

lemma inside_four: "p + 3 < length v \<Longrightarrow> inside (rd_four v p)"
  unfolding rd_four_def by (intro inside_intros inside_digit) simp_all

lemma inside_month: "p + 2 < length v \<Longrightarrow> inside (rd_month v p)"
  unfolding rd_month_def by (intro inside_intros) simp_all

lemma inside_day_first: "p + 2 < length v \<Longrightarrow> inside (rd_day_first v p)"
  unfolding rd_day_first_def by (intro inside_intros inside_two) simp_all

lemma inside_clock: "p + 8 < length v \<Longrightarrow> inside (rd_clock v p)"
  unfolding rd_clock_def by (intro inside_intros inside_two inside_expect) simp_all

lemma inside_day_last: "p + 2 < length v \<Longrightarrow> inside (rd_day_last v p)"
  unfolding rd_day_last_def Let_def case_prod_beta
  by (intro inside_intros inside_digit) simp_all

lemma inside_gauss: "inside (gauss_time d m y h i s)"
  unfolding gauss_time_def Let_def case_prod_beta by (intro inside_intros)

text \<open>Where the day leaves the reader.\<close>

lemma rd_day_first_end:
  "rd_day_first v p = Inr (fmt, day, p') \<Longrightarrow>
   p' = p + 3 \<and> (fmt = fmt_rfc822 \<and> p + 20 \<le> length v \<or> fmt = fmt_rfc850)"
  by (auto simp: rd_day_first_def then_do_def split: sum.splits if_splits)

lemma rd_day_last_end: "rd_day_last v p = Inr (day, p') \<Longrightarrow> p' + 14 \<le> length v"
  by (auto simp: rd_day_last_def then_do_def Let_def split: sum.splits if_splits)

section \<open>Properties\<close>

text \<open>
  C28.  \<^verbatim>\<open>ngx_gmtime\<close> computes the Gregorian date: for a time below \<open>2 ^ 40\<close> seconds its fields are the date
  that is reached from January 1, 1970 by counting days one at a time, the time of day and the day of the week.
\<close>

theorem gmtime_calendar:
  assumes "unat t < 2 ^ 40"
  shows "ngx_gmtime t = tm_of (unat t)"
  using gmtime_eq [OF assms] by simp

theorem gmtime_calendar_witness:
  "ngx_gmtime 951782400 =
     \<lparr>tm_sec = 0, tm_min = 0, tm_hour = 0, tm_mday = 29, tm_mon = 2, tm_year = 2000, tm_wday = 2\<rparr> \<and>
   ngx_gmtime 951782400 = tm_of 951782400"
proof
  show "ngx_gmtime 951782400 = tm_of 951782400" using gmtime_calendar [of 951782400] by simp
qed code_simp

text \<open>
  C29.  Reading back the date that \<^verbatim>\<open>ngx_http_time\<close> prints gives the time it was printed for, for every second
  from the epoch to the end of the year 9999; the text has 29 bytes.
\<close>

theorem http_time_roundtrip:
  assumes "unat t < 253402300800" and "addr < 2 ^ 63"
  shows "\<exists>v. ngx_http_time addr t = Some v \<and> length v = 29 \<and> ngx_http_parse_time v = Inr t"
proof -
  let ?n = "unat t"
  obtain y m d where c: "calendar (?n div 86400) = (y, m, d)" by (cases "calendar (?n div 86400)") auto
  have v: "1 \<le> m" "m \<le> 12" "d \<le> month_days y m" using calendar_valid [of "?n div 86400"] by (simp_all add: c)
  have "?n div 86400 < 2932897" using assms(1) by (simp add: div_less_iff_less_mult)
  then have y: "y < 10000" using calendar_9999 [OF c] by simp
  have d: "d < 100" using v(3) by (simp add: month_days_def split: if_splits)
  let ?w = "(?n div 86400 + 4) mod 7" and ?h = "?n div 3600 mod 24" and ?i = "?n div 60 mod 60" and ?s = "?n mod 60"
  have "?w < 7" "?h < 100" "?i < 100" "?s < 100"
    by (simp_all add: order.strict_trans [OF mod_less_divisor])
  then have "ngx_http_parse_time (http_date ?w (y, m, d) ?h ?i ?s) = Inr t"
    using parse_http_date [of ?w m d y ?h ?i ?s] gauss_time_calendar [OF c] v d y by simp
  moreover have "length (http_date ?w (y, m, d) ?h ?i ?s) = 29" using v by (intro http_date_length) simp_all
  ultimately show ?thesis using http_time_text [OF assms] by (simp add: c)
qed

theorem http_time_roundtrip_witness:
  "\<exists>v. ngx_http_time 4096 784111777 = Some v \<and> length v = 29 \<and> ngx_http_parse_time v = Inr 784111777"
  by (rule http_time_roundtrip) simp_all

text \<open>
  Whatever the text, the reader of dates looks at no byte outside it: the two length tests it makes on the
  way are enough for all three formats.
\<close>

theorem parse_time_in_bounds: "ngx_http_parse_time v \<noteq> Inl Time_outside"
proof -
  obtain fmt p0 where s: "find_sep v 0 = (fmt, p0)" by fastforce
  define p where "p = skip_blank (drop (Suc p0) v) (Suc p0)"
  have "inside (ngx_http_parse_time v)"
    unfolding ngx_http_parse_time_def s Let_def split p_def [symmetric] case_prod_beta
    by (intro inside_intros inside_day_first inside_month inside_expect inside_four inside_two inside_day_last
        inside_clock inside_gauss)
       (auto simp: then_do_def split: if_splits sum.splits dest!: rd_day_first_end rd_day_last_end)
  then show ?thesis by (simp add: inside_def)
qed

end
