(* ===== verification/Http_Date_Formats.thy ===== *)
theory Http_Date_Formats
  imports Ngx_Times
begin

text \<open>
  The three formats of HTTP dates, which \<^verbatim>\<open>ngx_http_parse_time\<close> of \<^verbatim>\<open>src/http/ngx_http_parse_time.c\<close> tells apart:
  what stands in front of the first comma or space is skipped, and all three spellings of a second give
  that second.
\<close>

section \<open>The day of the week is skipped\<close>

text \<open>The readers look at a text relative to their position only.\<close>

lemma rd_shift: "rd (w @ v) (length w + p) = rd v p"
  by (simp add: rd_def)

lemma expect_shift: "expect (w @ v) (length w + p) c = expect v p c"
  by (simp only: expect_def rd_shift)

lemma rd_digit_shift: "rd_digit (w @ v) (length w + p) = rd_digit v p"
  by (simp only: rd_digit_def rd_shift)

lemma rd_two_shift: "rd_two (w @ v) (length w + p) = rd_two v p"
  by (simp only: rd_two_def rd_digit_shift add.assoc)

lemma rd_four_shift: "rd_four (w @ v) (length w + p) = rd_four v p"
  by (simp only: rd_four_def rd_digit_shift add.assoc)

lemma rd_month_shift_left: "rd_month (w @ v) (length w + p) = rd_month v p"
  by (simp only: rd_month_def rd_shift add.assoc)

lemma rd_clock_shift: "rd_clock (w @ v) (length w + p) = rd_clock v p"
  by (simp only: rd_clock_def rd_two_shift expect_shift add.assoc)

lemma then_do_map: "then_do (map_sum id f x) g = then_do x (\<lambda>a. g (f a))"
  by (simp add: then_do_def split: sum.splits)

lemma map_then_do: "map_sum id f (then_do x g) = then_do x (\<lambda>a. map_sum id f (g a))"
  by (simp add: then_do_def split: sum.splits)

lemma rd_day_first_shift:
  "rd_day_first (w @ v) (length w + p) = map_sum id (\<lambda>(fmt, day, p). (fmt, day, length w + p)) (rd_day_first v p)"
proof -
  have "int (length (w @ v)) - int (length w + p + 2) = int (length v) - int (p + 2)" by simp
  then show ?thesis
    by (simp only: rd_day_first_def rd_two_shift rd_shift add.assoc map_then_do if_distrib [of "map_sum id _"])
       (simp add: add.assoc cong: if_cong)
qed

lemma rd_day_last_shift:
  "rd_day_last (w @ v) (length w + p) = map_sum id (\<lambda>(day, p). (day, length w + p)) (rd_day_last v p)"
proof -
  have "int (length (w @ v)) - int (length w + p) = int (length v) - int p" for p by simp
  moreover have "(if c then length w + p + 1 else length w + p) = length w + (if c then p + 1 else p)" for c by simp
  ultimately show ?thesis
    by (simp only: rd_day_last_def rd_digit_shift rd_shift add.assoc map_then_do Let_def if_distrib [of "map_sum id _"])
       (simp add: add.assoc then_do_def cong: if_cong split: sum.splits)
qed

lemma find_sep_shift: "ch_comma \<notin> set w \<Longrightarrow> ch_space \<notin> set w \<Longrightarrow>
   find_sep (w @ v) p = find_sep v (length w + p)"
  by (induction w arbitrary: p) auto

lemma find_sep_start: "find_sep v (k + p) = (case find_sep v p of (fmt, q) \<Rightarrow> (fmt, k + q))"
  by (induction v p rule: find_sep.induct) auto

lemma skip_blank_start: "skip_blank v (k + p) = k + skip_blank v p"
  by (induction v p rule: skip_blank.induct) auto

lemma then_do_shift: "x = map_sum id f y \<Longrightarrow> (\<And>a. g (f a) = h a) \<Longrightarrow> then_do x g = then_do y h"
  by (auto simp: then_do_def split: sum.splits)

lemma then_do_same: "x = y \<Longrightarrow> (\<And>a. g a = h a) \<Longrightarrow> then_do x g = then_do y h"
  by (auto simp: then_do_def split: sum.splits)

lemmas shifts = rd_shift expect_shift rd_two_shift rd_four_shift rd_month_shift_left rd_clock_shift rd_day_first_shift
  rd_day_last_shift add.assoc

lemma parse_time_weekday:
  assumes "ch_comma \<notin> set w" "ch_space \<notin> set w"
  shows "ngx_http_parse_time (w @ v) = ngx_http_parse_time v"
proof -
  obtain fmt p0 where s: "find_sep v 0 = (fmt, p0)" by fastforce
  have s': "find_sep (w @ v) 0 = (fmt, length w + p0)"
    using find_sep_shift [OF assms, of v 0] find_sep_start [of v "length w" 0] by (simp add: s)
  define p where "p = skip_blank (drop (Suc p0) v) (Suc p0)"
  have "skip_blank (drop (Suc (length w + p0)) (w @ v)) (Suc (length w + p0)) = length w + p"
    using skip_blank_start [of "drop (Suc p0) v" "length w" "Suc p0"] by (simp add: p_def)
  moreover have "int (length (w @ v)) - int (length w + p) = int (length v) - int p" by simp
  ultimately show ?thesis
    unfolding ngx_http_parse_time_def s s' Let_def split p_def [symmetric]
    apply (simp only:)
    apply (rule if_cong [OF refl refl])
    apply (rule then_do_shift [where f = "\<lambda>(fmt, day, p). (fmt, day, length w + p)"])
     apply (simp add: shifts cong: if_cong)
    apply (simp only: split_paired_all split shifts)
    apply (rule then_do_same [OF refl])+
    apply (rule then_do_shift [where f = "\<lambda>(day, p). (day, length w + p)"])
     apply (simp add: shifts then_do_def split: sum.splits cong: if_cong)
    apply (simp only: split_paired_all split shifts)
    apply (rule then_do_shift [where f = "\<lambda>(day, p). (day, length w + p)"])
     apply (simp add: shifts then_do_def split: sum.splits cong: if_cong)
    apply (simp only: split_paired_all split shifts)
    done
qed

section \<open>The formats\<close>

text \<open>The three formats of HTTP dates, from the separator behind the day of the week on.\<close>

definition clock_text :: "nat \<Rightarrow> buffer" where
  "clock_text n = two (n div 3600 mod 24) @ [ch_colon] @ two (n div 60 mod 60) @ [ch_colon] @ two (n mod 60)"

definition rfc822_text :: "nat \<Rightarrow> buffer" where
  "rfc822_text n =
     (case calendar (n div 86400) of (y, m, d) \<Rightarrow>
        [ch_comma, ch_space] @ two d @ [ch_space] @ month_names ! (m - 1) @ [ch_space] @ four y @ [ch_space] @ clock_text n)"

definition rfc850_text :: "nat \<Rightarrow> buffer" where
  "rfc850_text n =
     (case calendar (n div 86400) of (y, m, d) \<Rightarrow>
        [ch_comma, ch_space] @ two d @ [ch_minus] @ month_names ! (m - 1) @ [ch_minus] @ two (y mod 100) @ [ch_space] @
        clock_text n)"

definition isoc_text :: "nat \<Rightarrow> buffer" where
  "isoc_text n =
     (case calendar (n div 86400) of (y, m, d) \<Rightarrow>
        [ch_space] @ month_names ! (m - 1) @ [ch_space] @ (if d < 10 then [ch_space, dg d] else two d) @ [ch_space] @
        clock_text n @ [ch_space] @ four y)"

lemma date_facts:
  assumes "n < 253402300800" and c: "calendar (n div 86400) = (y, m, d)"
  shows "1 \<le> m" "m \<le> 12" "d < 100" "1970 \<le> y" "y < 10000"
proof -
  have v: "valid_date (y, m, d)" using calendar_valid [of "n div 86400"] by (simp add: c)
  then show "1 \<le> m" "m \<le> 12" by simp_all
  have "month_days y m < 100" by (simp add: month_days_def)
  with v show "d < 100" by simp
  have "n div 86400 < 2932897" using assms(1) by (simp add: div_less_iff_less_mult)
  then show "y < 10000" using calendar_9999 [OF c] by simp
  show "1970 \<le> y" using calendar_1970 [of "n div 86400"] by (simp add: c)
qed

lemma drop_split:
  assumes "drop p v = x # xs"
  obtains w where "v = w @ x # xs" "p = length w"
proof -
  have "p < length v" using assms by (metis drop_eq_Nil list.distinct(1) not_le)
  then show thesis using that [of "take p v"] assms by (metis append_take_drop_id length_take min.absorb4)
qed

lemma rd_clock_text:
  assumes "drop p v = ch_space # clock_text n @ rest"
  shows "rd_clock v p = Inr (n div 3600 mod 24, n div 60 mod 60, n mod 60)"
proof -
  have small: "n div 3600 mod 24 < 100" "n div 60 mod 60 < 100" "n mod 60 < 100"
    by (simp_all add: order.strict_trans [OF mod_less_divisor])
  let ?t = "ch_space # clock_text n @ rest"
  obtain w where w: "v = w @ ?t" "p = length w" using drop_split [OF assms] .
  have "rd_two ?t 1 = Inr (n div 3600 mod 24)" "rd_two ?t 4 = Inr (n div 60 mod 60)" "rd_two ?t 7 = Inr (n mod 60)"
    by (rule rd_two_two; use small in \<open>simp add: clock_text_def two_def\<close>)+
  moreover have "expect ?t 0 ch_space = Inr ()" "expect ?t 3 ch_colon = Inr ()" "expect ?t 6 ch_colon = Inr ()"
    by (simp_all add: expect_def then_do_def rd_def clock_text_def two_def)
  ultimately have "rd_clock ?t 0 = Inr (n div 3600 mod 24, n div 60 mod 60, n mod 60)"
    by (simp add: rd_clock_def then_do_def)
  then show ?thesis using rd_clock_shift [of w ?t 0] w by simp
qed

lemma first_digit: "n < 100 \<Longrightarrow> dg (n div 10) \<noteq> ch_space" "n < 10 \<Longrightarrow> dg n \<noteq> ch_space"
  by (simp_all add: word_unat_eq_iff unat_dg div_less_iff_less_mult)

lemma clock_text_length: "length (clock_text n) = 8"
  by (simp add: clock_text_def two_def)

lemma parse_rfc822:
  assumes "n < 253402300800"
  shows "ngx_http_parse_time (rfc822_text n @ rest) = Inr (of_nat n)"
proof -
  obtain y m d where c: "calendar (n div 86400) = (y, m, d)" by (cases "calendar (n div 86400)") auto
  note f = date_facts [OF assms c]
  obtain a b e where mn: "month_names ! (m - 1) = [a, b, e]" "rd_month [a, b, e] 0 = Inr (int m - 1)"
    using month_name [OF f(1,2)] .
  define v where "v = rfc822_text n @ rest"
  have v: "v = ch_comma # ch_space # two d @ ch_space # a # b # e # ch_space # four y @ ch_space # clock_text n @ rest"
    using mn(1) by (simp add: v_def rfc822_text_def c)
  have len: "22 \<le> length v" by (simp add: v two_def four_def clock_text_length)
  have sep: "find_sep v 0 = (fmt_no, 0)" "skip_blank (drop (Suc 0) v) (Suc 0) = 2"
    using first_digit(1) [OF f(3)] by (simp_all add: v two_def)
  have "rd_two v 2 = Inr d" by (rule rd_two_two; use f(3) len in \<open>simp add: v two_def\<close>)
  moreover have "rd_four v 9 = Inr y" by (rule rd_four_four; use f(5) len in \<open>simp add: v two_def four_def\<close>)
  moreover have "rd_month v 5 = Inr (int m - 1)"
    using mn(2) rd_month_shift [of 5 v] len by (simp add: v two_def)
  moreover have "rd v 4 = Inr ch_space" "expect v 8 ch_space = Inr ()"
    using len by (simp_all add: rd_def expect_def then_do_def, simp_all add: v two_def)
  moreover have "rd_clock v 13 = Inr (n div 3600 mod 24, n div 60 mod 60, n mod 60)"
    by (rule rd_clock_text) (simp add: v two_def four_def)
  ultimately have "ngx_http_parse_time v = gauss_time d (int m - 1) y (n div 3600 mod 24) (n div 60 mod 60) (n mod 60)"
    using len by (simp add: ngx_http_parse_time_def sep rd_day_first_def then_do_def Let_def)
  then show ?thesis using gauss_time_calendar [OF c] f(5) by (simp add: v_def)
qed

lemma parse_rfc850:
  assumes "n < 253402300800" and "fst (calendar (n div 86400)) < 2070"
  shows "ngx_http_parse_time (rfc850_text n @ rest) = Inr (of_nat n)"
proof -
  obtain y m d where c: "calendar (n div 86400) = (y, m, d)" by (cases "calendar (n div 86400)") auto
  note f = date_facts [OF assms(1) c]
  have y: "(if y mod 100 < 70 then y mod 100 + 2000 else y mod 100 + 1900) = y"
  proof (cases "y < 2000")
    case True
    then have "y mod 100 = y - 1900" using f(4) by (intro mod_nat_eqI) (simp_all add: dvd_diff_nat)
    then show ?thesis using True f(4) by simp
  next
    case False
    then have "y mod 100 = y - 2000" using assms(2) by (intro mod_nat_eqI) (simp_all add: c)
    then show ?thesis using False assms(2) by (simp add: c)
  qed
  obtain a b e where mn: "month_names ! (m - 1) = [a, b, e]" "rd_month [a, b, e] 0 = Inr (int m - 1)"
    using month_name [OF f(1,2)] .
  define v where "v = rfc850_text n @ rest"
  have v: "v = ch_comma # ch_space # two d @ ch_minus # a # b # e # ch_minus # two (y mod 100) @ ch_space # clock_text n @ rest"
    using mn(1) by (simp add: v_def rfc850_text_def c)
  have len: "20 \<le> length v" by (simp add: v two_def four_def clock_text_length)
  have sep: "find_sep v 0 = (fmt_no, 0)" "skip_blank (drop (Suc 0) v) (Suc 0) = 2"
    using first_digit(1) [OF f(3)] by (simp_all add: v two_def)
  have "rd_two v 2 = Inr d" by (rule rd_two_two; use f(3) len in \<open>simp add: v two_def\<close>)
  moreover have "rd_two v 9 = Inr (y mod 100)" by (rule rd_two_two; use f(5) len in \<open>simp add: v two_def four_def\<close>)
  moreover have "rd_month v 5 = Inr (int m - 1)"
    using mn(2) rd_month_shift [of 5 v] len by (simp add: v two_def)
  moreover have "rd v 4 = Inr ch_minus" "expect v 8 ch_minus = Inr ()"
    using len by (simp_all add: rd_def expect_def then_do_def, simp_all add: v two_def)
  moreover have "rd_clock v 11 = Inr (n div 3600 mod 24, n div 60 mod 60, n mod 60)"
    by (rule rd_clock_text) (simp add: v two_def four_def)
  ultimately have "ngx_http_parse_time v = gauss_time d (int m - 1) y (n div 3600 mod 24) (n div 60 mod 60) (n mod 60)"
    using len by (simp add: ngx_http_parse_time_def sep rd_day_first_def then_do_def Let_def y)
  then show ?thesis using gauss_time_calendar [OF c] f(5) by (simp add: v_def)
qed

lemma rd_day_last_text:
  assumes "d < 100" and "drop p v = (if d < 10 then [ch_space, dg d] else two d) @ ch_space # tail" "13 \<le> length tail"
  shows "rd_day_last v p = Inr (d, p + 2)"
proof -
  let ?t = "(if d < 10 then [ch_space, dg d] else two d) @ ch_space # tail"
  obtain w where w: "v = w @ ?t" "p = length w"
    using drop_split [of p v "hd ?t" "tl ?t"] assms(2) by (auto simp: two_def split: if_splits)
  have "rd_day_last ?t 0 = Inr (d, 2)"
  proof (cases "d < 10")
    case True
    then have "rd_digit ?t 1 = Inr d" by (intro rd_digit_dg) simp_all
    then show ?thesis using True assms(3) by (simp add: rd_day_last_def then_do_def rd_def)
  next
    case False
    then have "rd_digit ?t 0 = Inr (d div 10)" "rd_digit ?t 1 = Inr (d mod 10)"
      using assms(1) by (intro rd_digit_dg; simp add: two_def div_less_iff_less_mult)+
    moreover have "dg (d div 10) \<noteq> ch_space" "dg (d mod 10) \<noteq> ch_space"
      using assms(1) first_digit(1) first_digit(2) [of "d mod 10"] by simp_all
    ultimately show ?thesis
      using False assms(3) by (simp add: rd_day_last_def then_do_def rd_def two_def)
  qed
  then show ?thesis using rd_day_last_shift [of w ?t 0] w by simp
qed

lemma parse_isoc:
  assumes "n < 253402300800"
  shows "ngx_http_parse_time (isoc_text n @ rest) = Inr (of_nat n)"
proof -
  obtain y m d where c: "calendar (n div 86400) = (y, m, d)" by (cases "calendar (n div 86400)") auto
  note f = date_facts [OF assms(1) c]
  obtain a b e where mn: "month_names ! (m - 1) = [a, b, e]" "NUL \<notin> {a, b, e}" "rd_month [a, b, e] 0 = Inr (int m - 1)"
    using month_name [OF f(1,2)] .
  have "a \<noteq> ch_space" using mn(3) by (auto simp: rd_month_def then_do_def rd_def)
  define dd where "dd = (if d < 10 then [ch_space, dg d] else two d)"
  have "length dd = 2" by (simp add: dd_def two_def)
  then obtain d1 d2 where dd: "dd = [d1, d2]" by (auto simp: length_Suc_conv numeral_2_eq_2)
  define v where "v = isoc_text n @ rest"
  have v: "v = ch_space # a # b # e # ch_space # dd @ ch_space # clock_text n @ ch_space # four y @ rest"
    using mn(1) by (simp add: v_def isoc_text_def c dd_def)
  have len: "21 \<le> length v" by (simp add: v dd two_def four_def clock_text_length)
  have sep: "find_sep v 0 = (fmt_isoc, 0)" "skip_blank (drop (Suc 0) v) (Suc 0) = 1"
    using \<open>a \<noteq> ch_space\<close> by (simp_all add: v)
  have "rd_four v 17 = Inr y"
     by (rule rd_four_four; use f(5) len in \<open>simp add: v dd clock_text_def two_def four_def\<close>)
  moreover have "rd_month v 1 = Inr (int m - 1)"
    using mn(3) rd_month_shift [of 1 v] len by (simp add: v)
  moreover have "expect v 16 ch_space = Inr ()"
    using len by (simp_all add: rd_def expect_def then_do_def, simp_all add: v dd two_def clock_text_def)
  moreover have "rd_day_last v 5 = Inr (d, 7)"
    using rd_day_last_text [OF f(3), of 5 v "clock_text n @ ch_space # four y @ rest"]
    unfolding v dd_def by (simp add: clock_text_length four_def del: if_split)
  moreover have "rd_clock v 7 = Inr (n div 3600 mod 24, n div 60 mod 60, n mod 60)"
    by (rule rd_clock_text) (simp add: v dd)
  ultimately have "ngx_http_parse_time v = gauss_time d (int m - 1) y (n div 3600 mod 24) (n div 60 mod 60) (n mod 60)"
    using len by (simp add: ngx_http_parse_time_def sep then_do_def Let_def)
  then show ?thesis using gauss_time_calendar [OF c] f(5) by (simp add: v_def)
qed
section \<open>Property\<close>

text \<open>
  C30.  A second before the year 10000, written in any of the three formats behind any text without comma
  and space, is read back as that second: \<open>Tue, 10 Nov 2002 23:50:13\<close>, \<open>Tuesday, 10-Dec-02 23:50:13\<close>
  (with two digits for the years 1970 to 2069) and \<open>Tue Dec 10 23:50:13 2002\<close>, whatever follows.
\<close>

theorem parse_time_formats:
  assumes "n < 253402300800" and "ch_comma \<notin> set w" "ch_space \<notin> set w"
  shows "ngx_http_parse_time (w @ rfc822_text n @ rest) = Inr (of_nat n) \<and>
    ngx_http_parse_time (w @ isoc_text n @ rest) = Inr (of_nat n) \<and>
    (fst (calendar (n div 86400)) < 2070 \<longrightarrow> ngx_http_parse_time (w @ rfc850_text n @ rest) = Inr (of_nat n))"
  using assms parse_rfc822 parse_isoc parse_rfc850 by (simp add: parse_time_weekday)

theorem parse_time_formats_witness:
  "ngx_http_parse_time (bytes ''Sun'' @ rfc822_text 784111777 @ []) = Inr 784111777 \<and>
   ngx_http_parse_time (bytes ''Sun'' @ isoc_text 784111777 @ []) = Inr 784111777"
  using parse_time_formats [of 784111777 "bytes ''Sun''" "[]"] by simp

end
