(* ===== verification/Ngx_Radix.thy ===== *)
theory Ngx_Radix
  imports Xhome_Prelude
begin

unbundle bit_operations_syntax

text \<open>
  The radix trees of \<^verbatim>\<open>src/core/ngx_radix_tree.c\<close>, which map network prefixes to values: \<^verbatim>\<open>ngx_radix_alloc\<close>,
  \<^verbatim>\<open>ngx_radix_tree_create\<close> and insertion, deletion and search for 32-bit keys and for keys of 16 bytes.  The
  nodes are in an explicit store with their three pointers; a step through a pointer to no node is the
  value \<open>None\<close> (the program crashes).  The bits that a loop tests one after the other are a list.
\<close>

section \<open>Nodes and trees\<close>

record radix_node =
  rn_right :: ptr
  rn_left :: ptr
  rn_parent :: ptr
  rn_value :: ngx_uint_t

abbreviation NGX_RADIX_NO_VALUE :: ngx_uint_t where "NGX_RADIX_NO_VALUE \<equiv> - 1"

abbreviation (input) node_size :: nat where "node_size \<equiv> 32"

text \<open>
  \<open>rt_pool\<close> is what the pool hands out: the addresses of the pages that \<^verbatim>\<open>ngx_pmemalign\<close> will return, before it
  returns \<^verbatim>\<open>NULL\<close>.  \<open>rt_pagesize\<close> is the global \<^verbatim>\<open>ngx_pagesize\<close>.  \<open>rt_nodes\<close> is the memory of the nodes.
\<close>

record radix_tree =
  rt_root :: nat
  rt_free :: ptr
  rt_start :: nat
  rt_size :: nat
  rt_pool :: "nat list"
  rt_pagesize :: nat
  rt_nodes :: "nat \<Rightarrow> radix_node option"

definition child :: "radix_node \<Rightarrow> bool \<Rightarrow> ptr" where
  "child nd b = (if b then rn_right nd else rn_left nd)"

definition set_child :: "bool \<Rightarrow> ptr \<Rightarrow> radix_node \<Rightarrow> radix_node" where
  "set_child b p nd = (if b then nd\<lparr>rn_right := p\<rparr> else nd\<lparr>rn_left := p\<rparr>)"

section \<open>Allocation\<close>

definition radix_take :: "radix_tree \<Rightarrow> nat \<times> radix_tree" where
  "radix_take t = (rt_start t, t\<lparr>rt_start := rt_start t + node_size, rt_size := rt_size t - node_size\<rparr>)"

definition ngx_radix_alloc :: "radix_tree \<Rightarrow> (ptr \<times> radix_tree) option" where
  "ngx_radix_alloc t =
     (case rt_free t of
        Some p \<Rightarrow>
          (case rt_nodes t p of
             None \<Rightarrow> None
           | Some nd \<Rightarrow> Some (Some p, t\<lparr>rt_free := rn_right nd\<rparr>))
      | None \<Rightarrow>
          if rt_size t < node_size then
            (case rt_pool t of
               [] \<Rightarrow> Some (None, t)
             | page # pool \<Rightarrow>
                 (let (p, t) = radix_take (t\<lparr>rt_start := page, rt_size := rt_pagesize t, rt_pool := pool\<rparr>)
                  in Some (Some p, t)))
          else (let (p, t) = radix_take t in Some (Some p, t)))"

section \<open>The bits of keys\<close>

text \<open>The loops over \<open>bit\<close>: the bits of the key as long as the mask has its bit set.\<close>

function masked_bits32 :: "uint32 \<Rightarrow> uint32 \<Rightarrow> uint32 \<Rightarrow> bool list" where
  "masked_bits32 key msk b =
     (if b AND msk \<noteq> 0 then (key AND b \<noteq> 0) # masked_bits32 key msk (drop_bit 1 b) else [])"
  by pat_completeness auto

lemma drop_bit_1_less: "(b :: 'a::len word) \<noteq> 0 \<Longrightarrow> unat (drop_bit (Suc 0) b) < unat b"
  by (simp add: unat_drop_bit_div unat_gt_0)

termination masked_bits32
proof (relation "measure (\<lambda>(key, msk, b). unat b)")
  fix key msk b :: uint32
  assume "b AND msk \<noteq> 0"
  then have "b \<noteq> 0" by auto
  then show "((key, msk, drop_bit 1 b), key, msk, b) \<in> measure (\<lambda>(key, msk, b). unat b)"
    by (simp add: drop_bit_1_less)
qed simp

text \<open>The same for keys of bytes: \<open>i\<close> is the byte; the loop ends behind the byte 15.\<close>

function masked_bits128 :: "buffer \<Rightarrow> buffer \<Rightarrow> nat \<Rightarrow> u_char \<Rightarrow> bool list" where
  "masked_bits128 key msk i b =
     (if b AND msk ! i \<noteq> 0 then
        (key ! i AND b \<noteq> 0) #
        (let b' = drop_bit 1 b in
         if b' = 0 then (if i + 1 \<ge> 16 then [] else masked_bits128 key msk (i + 1) 0x80)
         else masked_bits128 key msk i b')
      else [])"
  by pat_completeness auto

termination masked_bits128
proof (relation "measures [\<lambda>(key, msk, i, b). 16 - i, \<lambda>(key, msk, i, b). unat b]")
  fix key msk :: buffer and i and b b' :: u_char
  assume "b AND msk ! i \<noteq> 0" and "b' = drop_bit 1 b"
  then have "unat b' < unat b" using drop_bit_1_less [of b] by (cases "b = 0") simp_all
  then show "((key, msk, i, b'), key, msk, i, b)
      \<in> measures [\<lambda>(key, msk, i, b). 16 - i, \<lambda>(key, msk, i, b). unat b]"
    by simp
qed auto

declare masked_bits32.simps [simp del] masked_bits128.simps [simp del]

section \<open>Insertion\<close>

text \<open>The first loop: down to the node of the prefix, or to where a node is missing.\<close>

fun ins_walk :: "(nat \<Rightarrow> radix_node option) \<Rightarrow> nat \<Rightarrow> ptr \<Rightarrow> bool list \<Rightarrow> (nat \<times> ptr \<times> bool list) option" where
  "ins_walk h node nxt [] = Some (node, nxt, [])"
| "ins_walk h node nxt (b # bits) =
     (case h node of
        None \<Rightarrow> None
      | Some nd \<Rightarrow>
          (case child nd b of
             None \<Rightarrow> Some (node, None, b # bits)
           | Some nx \<Rightarrow> ins_walk h nx (Some nx) bits))"

text \<open>The second loop: new nodes for the bits that are left; without memory it stops halfway.\<close>

fun ins_grow :: "radix_tree \<Rightarrow> nat \<Rightarrow> bool list \<Rightarrow> (ptr \<times> radix_tree) option" where
  "ins_grow t node [] = Some (Some node, t)"
| "ins_grow t node (b # bits) =
     (case ngx_radix_alloc t of
        None \<Rightarrow> None
      | Some (None, t) \<Rightarrow> Some (None, t)
      | Some (Some nx, t) \<Rightarrow>
          (let h = (rt_nodes t)(nx \<mapsto> \<lparr>rn_right = None, rn_left = None, rn_parent = Some node,
                      rn_value = NGX_RADIX_NO_VALUE\<rparr>) in
           case h node of
             None \<Rightarrow> None
           | Some nd \<Rightarrow> ins_grow (t\<lparr>rt_nodes := h(node \<mapsto> set_child b (Some nx) nd)\<rparr>) nx bits))"

definition set_value :: "radix_tree \<Rightarrow> nat \<Rightarrow> ngx_uint_t \<Rightarrow> radix_tree option" where
  "set_value t node v =
     (case rt_nodes t node of
        None \<Rightarrow> None
      | Some nd \<Rightarrow> Some (t\<lparr>rt_nodes := (rt_nodes t)(node \<mapsto> nd\<lparr>rn_value := v\<rparr>)\<rparr>))"

definition radix_insert :: "radix_tree \<Rightarrow> bool list \<Rightarrow> ngx_uint_t \<Rightarrow> (ngx_rc \<times> radix_tree) option" where
  "radix_insert t bits v =
     (case ins_walk (rt_nodes t) (rt_root t) (Some (rt_root t)) bits of
        None \<Rightarrow> None
      | Some (node, Some _, _) \<Rightarrow>
          (case rt_nodes t node of
             None \<Rightarrow> None
           | Some nd \<Rightarrow>
               if rn_value nd \<noteq> NGX_RADIX_NO_VALUE then Some (NGX_BUSY, t)
               else map_option (Pair NGX_OK) (set_value t node v))
      | Some (node, None, bits) \<Rightarrow>
          (case ins_grow t node bits of
             None \<Rightarrow> None
           | Some (None, t) \<Rightarrow> Some (NGX_ERROR, t)
           | Some (Some node, t) \<Rightarrow> map_option (Pair NGX_OK) (set_value t node v)))"

definition ngx_radix32tree_insert :: "radix_tree \<Rightarrow> uint32 \<Rightarrow> uint32 \<Rightarrow> ngx_uint_t \<Rightarrow> (ngx_rc \<times> radix_tree) option" where
  "ngx_radix32tree_insert t key msk v = radix_insert t (masked_bits32 key msk 0x80000000) v"

definition ngx_radix128tree_insert :: "radix_tree \<Rightarrow> buffer \<Rightarrow> buffer \<Rightarrow> ngx_uint_t \<Rightarrow> (ngx_rc \<times> radix_tree) option" where
  "ngx_radix128tree_insert t key msk v = radix_insert t (masked_bits128 key msk 0 0x80) v"

section \<open>Deletion\<close>

fun del_walk :: "(nat \<Rightarrow> radix_node option) \<Rightarrow> ptr \<Rightarrow> bool list \<Rightarrow> ptr option" where
  "del_walk h node [] = Some node"
| "del_walk h None (b # bits) = Some None"
| "del_walk h (Some a) (b # bits) =
     (case h a of None \<Rightarrow> None | Some nd \<Rightarrow> del_walk h (child nd b) bits)"

text \<open>
  The loop that unlinks a leaf and then the ancestors that are left without child and value.  The node goes
  to the front of the free list, which is linked through \<open>right\<close>.
\<close>

definition unlink :: "radix_tree \<Rightarrow> nat \<Rightarrow> (nat \<times> radix_tree) option" where
  "unlink t node =
     (case rt_nodes t node of
        None \<Rightarrow> None
      | Some nd \<Rightarrow>
          (case rn_parent nd of
             None \<Rightarrow> None
           | Some up \<Rightarrow>
               (case rt_nodes t up of
                  None \<Rightarrow> None
                | Some pd \<Rightarrow>
                    (let pd = set_child (rn_right pd = Some node) None pd;
                         h = (rt_nodes t)(up \<mapsto> pd) in
                     case h node of
                       None \<Rightarrow> None
                     | Some nd \<Rightarrow>
                         Some (up, t\<lparr>rt_nodes := h(node \<mapsto> nd\<lparr>rn_right := rt_free t\<rparr>), rt_free := Some node\<rparr>)))))"

partial_function (option) del_loop :: "radix_tree \<Rightarrow> nat \<Rightarrow> radix_tree option" where
  "del_loop t node =
     (case unlink t node of
        None \<Rightarrow> None
      | Some (up, t) \<Rightarrow>
          (case rt_nodes t up of
             None \<Rightarrow> None
           | Some nd \<Rightarrow>
               if rn_right nd \<noteq> None \<or> rn_left nd \<noteq> None then Some t
               else if rn_value nd \<noteq> NGX_RADIX_NO_VALUE then Some t
               else if rn_parent nd = None then Some t
               else del_loop t up))"

definition radix_delete :: "radix_tree \<Rightarrow> bool list \<Rightarrow> (ngx_rc \<times> radix_tree) option" where
  "radix_delete t bits =
     (case del_walk (rt_nodes t) (Some (rt_root t)) bits of
        None \<Rightarrow> None
      | Some None \<Rightarrow> Some (NGX_ERROR, t)
      | Some (Some node) \<Rightarrow>
          (case rt_nodes t node of
             None \<Rightarrow> None
           | Some nd \<Rightarrow>
               if rn_right nd \<noteq> None \<or> rn_left nd \<noteq> None then
                 if rn_value nd \<noteq> NGX_RADIX_NO_VALUE
                 then map_option (Pair NGX_OK) (set_value t node NGX_RADIX_NO_VALUE)
                 else Some (NGX_ERROR, t)
               else map_option (Pair NGX_OK) (del_loop t node)))"

definition ngx_radix32tree_delete :: "radix_tree \<Rightarrow> uint32 \<Rightarrow> uint32 \<Rightarrow> (ngx_rc \<times> radix_tree) option" where
  "ngx_radix32tree_delete t key msk = radix_delete t (masked_bits32 key msk 0x80000000)"

definition ngx_radix128tree_delete :: "radix_tree \<Rightarrow> buffer \<Rightarrow> buffer \<Rightarrow> (ngx_rc \<times> radix_tree) option" where
  "ngx_radix128tree_delete t key msk = radix_delete t (masked_bits128 key msk 0 0x80)"

section \<open>Search\<close>

text \<open>When \<open>bit\<close> has been shifted out, the 32-bit search goes on to the left.\<close>

partial_function (option) find32_loop ::
    "(nat \<Rightarrow> radix_node option) \<Rightarrow> uint32 \<Rightarrow> uint32 \<Rightarrow> ngx_uint_t \<Rightarrow> ptr \<Rightarrow> ngx_uint_t option" where
  "find32_loop h key b v node =
     (case node of
        None \<Rightarrow> Some v
      | Some a \<Rightarrow>
          (case h a of
             None \<Rightarrow> None
           | Some nd \<Rightarrow>
               find32_loop h key (drop_bit 1 b)
                 (if rn_value nd \<noteq> NGX_RADIX_NO_VALUE then rn_value nd else v) (child nd (key AND b \<noteq> 0))))"

definition ngx_radix32tree_find :: "radix_tree \<Rightarrow> uint32 \<Rightarrow> ngx_uint_t option" where
  "ngx_radix32tree_find t key = find32_loop (rt_nodes t) key 0x80000000 NGX_RADIX_NO_VALUE (Some (rt_root t))"

text \<open>The search by bytes looks at \<open>key[i]\<close> for every node it visits; \<open>None\<close> is a look outside \<open>key\<close>.\<close>

partial_function (option) find128_loop ::
    "(nat \<Rightarrow> radix_node option) \<Rightarrow> buffer \<Rightarrow> nat \<Rightarrow> u_char \<Rightarrow> ngx_uint_t \<Rightarrow> ptr \<Rightarrow> ngx_uint_t option" where
  "find128_loop h key i b v node =
     (case node of
        None \<Rightarrow> Some v
      | Some a \<Rightarrow>
          (case h a of
             None \<Rightarrow> None
           | Some nd \<Rightarrow>
               if i < length key then
                 (let v = (if rn_value nd \<noteq> NGX_RADIX_NO_VALUE then rn_value nd else v);
                      node = child nd (key ! i AND b \<noteq> 0);
                      b = drop_bit 1 b in
                  if b = 0 then find128_loop h key (i + 1) 0x80 v node else find128_loop h key i b v node)
               else None))"

definition ngx_radix128tree_find :: "radix_tree \<Rightarrow> buffer \<Rightarrow> ngx_uint_t option" where
  "ngx_radix128tree_find t key = find128_loop (rt_nodes t) key 0 0x80 NGX_RADIX_NO_VALUE (Some (rt_root t))"

section \<open>Creation\<close>

text \<open>The inner loop, over all prefixes of one length; a failed insertion is \<open>Some None\<close>.\<close>

partial_function (option) prealloc_row ::
    "radix_tree \<Rightarrow> uint32 \<Rightarrow> uint32 \<Rightarrow> uint32 \<Rightarrow> radix_tree option option" where
  "prealloc_row t key msk inc =
     (case ngx_radix32tree_insert t key msk NGX_RADIX_NO_VALUE of
        None \<Rightarrow> None
      | Some (rc, t) \<Rightarrow>
          if rc \<noteq> NGX_OK then Some None
          else if key + inc = 0 then Some (Some t)
          else prealloc_row t (key + inc) msk inc)"

fun prealloc :: "radix_tree \<Rightarrow> nat \<Rightarrow> uint32 \<Rightarrow> uint32 \<Rightarrow> radix_tree option option" where
  "prealloc t 0 msk inc = Some (Some t)"
| "prealloc t (Suc n) msk inc =
     (let msk = drop_bit 1 msk OR 0x80000000 in
      case prealloc_row t 0 msk inc of
        None \<Rightarrow> None
      | Some None \<Rightarrow> Some None
      | Some (Some t) \<Rightarrow> prealloc t n msk (drop_bit 1 inc))"

text \<open>
  \<open>Some None\<close> is the result \<^verbatim>\<open>NULL\<close>; \<open>preallocate\<close> is \<open>None\<close> for \<open>-1\<close>.  The pool is taken to have room for the
  structure of the tree itself.
\<close>

definition prealloc_bits :: "nat \<Rightarrow> nat option \<Rightarrow> nat" where
  "prealloc_bits pagesize preallocate =
     (case preallocate of
        Some n \<Rightarrow> n
      | None \<Rightarrow>
          if pagesize div node_size = 128 then 6 else if pagesize div node_size = 256 then 7 else 8)"

definition ngx_radix_tree_create :: "nat \<Rightarrow> nat list \<Rightarrow> nat option \<Rightarrow> radix_tree option option" where
  "ngx_radix_tree_create pagesize pool preallocate =
     (let t = \<lparr>rt_root = 0, rt_free = None, rt_start = 0, rt_size = 0, rt_pool = pool, rt_pagesize = pagesize,
               rt_nodes = Map.empty\<rparr> in
      case ngx_radix_alloc t of
        None \<Rightarrow> None
      | Some (None, t) \<Rightarrow> Some None
      | Some (Some root, t) \<Rightarrow>
          (let t = t\<lparr>rt_root := root,
                     rt_nodes := (rt_nodes t)(root \<mapsto> \<lparr>rn_right = None, rn_left = None, rn_parent = None,
                       rn_value = NGX_RADIX_NO_VALUE\<rparr>)\<rparr> in
           prealloc t (prealloc_bits pagesize preallocate) 0 0x80000000))"

end
