(* ===== verification/Ngx_Radix_Spec.thy ===== *)
theory Ngx_Radix_Spec
  imports Ngx_Radix
begin

unbundle bit_operations_syntax

text \<open>
  What the radix trees of \<open>Ngx_Radix\<close> promise: a map from bit strings to values, in which a search returns
  the value of the longest stored prefix of its key.  The invariant names the node of every bit string; all
  pointers of the store, the free list and the unused memory follow from it.
\<close>

section \<open>The shape of a tree\<close>

type_synonym paths = "bool list \<Rightarrow> ptr"

definition up_of :: "paths \<Rightarrow> bool list \<Rightarrow> ptr" where
  "up_of A p = (if p = [] then None else A (butlast p))"

definition node_at :: "paths \<Rightarrow> bool list \<Rightarrow> ngx_uint_t \<Rightarrow> radix_node" where
  "node_at A p v = \<lparr>rn_right = A (p @ [True]), rn_left = A (p @ [False]), rn_parent = up_of A p, rn_value = v\<rparr>"

lemma node_at_simps [simp]:
  "child (node_at A p v) b = A (p @ [b])" "rn_parent (node_at A p v) = up_of A p" "rn_value (node_at A p v) = v"
  "rn_right (node_at A p v) = A (p @ [True])" "rn_left (node_at A p v) = A (p @ [False])"
  "(node_at A p v)\<lparr>rn_value := w\<rparr> = node_at A p w"
  by (simp_all add: node_at_def child_def)

definition shape :: "(nat \<Rightarrow> radix_node option) \<Rightarrow> nat \<Rightarrow> paths \<Rightarrow> bool" where
  "shape h root A \<longleftrightarrow>
     A [] = Some root \<and>
     (\<forall>p b a. A (p @ [b]) = Some a \<longrightarrow> A p \<noteq> None) \<and>
     (\<forall>p q a. A p = Some a \<longrightarrow> A q = Some a \<longrightarrow> p = q) \<and>
     (\<forall>p a. A p = Some a \<longrightarrow> (\<exists>v. h a = Some (node_at A p v)))"

lemma shape_root: "shape h root A \<Longrightarrow> A [] = Some root"
  by (simp add: shape_def)

lemma shape_prefix: "shape h root A \<Longrightarrow> A p = None \<Longrightarrow> A (p @ [b]) = None"
  unfolding shape_def by (metis not_None_eq)

lemma shape_below: "shape h root A \<Longrightarrow> A p = None \<Longrightarrow> A (p @ q) = None"
  by (induction q rule: rev_induct) (simp_all add: shape_prefix flip: append_assoc)

lemma shape_inj: "shape h root A \<Longrightarrow> A p = Some a \<Longrightarrow> A q = Some a \<Longrightarrow> p = q"
  unfolding shape_def by blast

lemma shape_node:
  assumes "shape h root A" "A p = Some a"
  obtains v where "h a = Some (node_at A p v)"
  using assms unfolding shape_def by blast

lemma shapeI:
  assumes "A [] = Some root" "\<And>p b a. A (p @ [b]) = Some a \<Longrightarrow> A p \<noteq> None"
    "\<And>p q a. A p = Some a \<Longrightarrow> A q = Some a \<Longrightarrow> p = q"
    "\<And>p a. A p = Some a \<Longrightarrow> \<exists>v. h a = Some (node_at A p v)"
  shows "shape h root A"
  using assms unfolding shape_def by blast

text \<open>The value stored for a bit string.\<close>

definition stored :: "(nat \<Rightarrow> radix_node option) \<Rightarrow> paths \<Rightarrow> bool list \<Rightarrow> ngx_uint_t" where
  "stored h A p =
     (case A p of
        None \<Rightarrow> NGX_RADIX_NO_VALUE
      | Some a \<Rightarrow> (case h a of None \<Rightarrow> NGX_RADIX_NO_VALUE | Some nd \<Rightarrow> rn_value nd))"

section \<open>Walking down\<close>

lemma ins_walk_shape:
  assumes "shape h root A" "A q = Some node" "nxt \<noteq> None"
  shows "\<exists>us rest node' nxt'. bits = us @ rest \<and> ins_walk h node nxt bits = Some (node', nxt', rest) \<and>
    A (q @ us) = Some node' \<and> (nxt' = None \<longleftrightarrow> rest \<noteq> []) \<and> (rest \<noteq> [] \<longrightarrow> A (q @ us @ [hd rest]) = None)"
  using assms(2,3)
proof (induction bits arbitrary: q node nxt)
  case Nil
  then show ?case by simp
next
  case (Cons b bits)
  obtain v where nd: "h node = Some (node_at A q v)" using shape_node [OF assms(1) Cons.prems(1)] .
  show ?case
  proof (cases "A (q @ [b])")
    case None
    with nd Cons.prems show ?thesis
      by (intro exI [of _ "[]"] exI [of _ "b # bits"] exI [of _ node] exI [of _ None]) simp
  next
    case (Some nx)
    from Cons.IH [OF Some, of "Some nx"] obtain us rest node' nxt' where
      "bits = us @ rest" "ins_walk h nx (Some nx) bits = Some (node', nxt', rest)" "A ((q @ [b]) @ us) = Some node'"
      "nxt' = None \<longleftrightarrow> rest \<noteq> []" "rest \<noteq> [] \<longrightarrow> A ((q @ [b]) @ us @ [hd rest]) = None"
      by auto
    with nd Some show ?thesis
      by (intro exI [of _ "b # us"] exI [of _ rest] exI [of _ node'] exI [of _ nxt']) simp
  qed
qed

lemma del_walk_shape:
  assumes "shape h root A"
  shows "del_walk h (A q) bits = Some (A (q @ bits))"
proof (induction bits arbitrary: q)
  case (Cons b bits)
  show ?case
  proof (cases "A q")
    case None
    with shape_below [OF assms None] show ?thesis by simp
  next
    case (Some a)
    then obtain v where "h a = Some (node_at A q v)" using shape_node [OF assms] by blast
    with Some Cons [of "q @ [b]"] show ?thesis by simp
  qed
qed simp

section \<open>Unused memory\<close>

text \<open>The addresses of the nodes that a region of memory holds, and those that are handed out next.\<close>

definition chunks :: "nat \<Rightarrow> nat \<Rightarrow> nat list" where
  "chunks s n = map (\<lambda>i. s + node_size * i) [0..<n div node_size]"

definition avail :: "radix_tree \<Rightarrow> nat list" where
  "avail t = chunks (rt_start t) (rt_size t) @ concat (map (\<lambda>page. chunks page (rt_pagesize t)) (rt_pool t))"

fun free_list :: "(nat \<Rightarrow> radix_node option) \<Rightarrow> ptr \<Rightarrow> nat list \<Rightarrow> bool" where
  "free_list h p [] \<longleftrightarrow> p = None"
| "free_list h p (a # as) \<longleftrightarrow> p = Some a \<and> (\<exists>nd. h a = Some nd \<and> free_list h (rn_right nd) as)"

definition radix_inv :: "radix_tree \<Rightarrow> paths \<Rightarrow> nat list \<Rightarrow> bool" where
  "radix_inv t A F \<longleftrightarrow>
     shape (rt_nodes t) (rt_root t) A \<and> free_list (rt_nodes t) (rt_free t) F \<and>
     distinct (F @ avail t) \<and> set F \<inter> ran A = {} \<and> set (avail t) \<inter> dom (rt_nodes t) = {} \<and>
     node_size \<le> rt_pagesize t"

lemma chunks_take: "node_size \<le> n \<Longrightarrow> chunks s n = s # chunks (s + node_size) (n - node_size)"
proof -
  assume "node_size \<le> n"
  then have "n div node_size = Suc ((n - node_size) div node_size)" using le_div_geq [of node_size n] by simp
  then show ?thesis unfolding chunks_def by (simp only: upt_conv_Cons map_Suc_upt [symmetric] zero_less_Suc) simp
qed

lemma free_list_upd: "a \<notin> set as \<Longrightarrow> free_list (h(a \<mapsto> nd)) p as = free_list h p as"
  by (induction as arbitrary: p) auto

lemma avail_update [simp]:
  "avail (t\<lparr>rt_nodes := h\<rparr>) = avail t" "avail (t\<lparr>rt_free := f\<rparr>) = avail t"
  by (simp_all add: avail_def)

lemma radix_inv_nodes: "radix_inv t A F \<Longrightarrow> ran A \<subseteq> dom (rt_nodes t)"
  unfolding radix_inv_def ran_def by (auto elim: shape_node)

lemma radix_alloc:
  assumes inv: "radix_inv t A F"
  shows "if F @ avail t = [] then ngx_radix_alloc t = Some (None, t)
    else \<exists>nx t' F'. ngx_radix_alloc t = Some (Some nx, t') \<and> F @ avail t = nx # F' @ avail t' \<and> nx \<notin> ran A \<and>
      free_list (rt_nodes t) (rt_free t') F' \<and> rt_nodes t' = rt_nodes t \<and> rt_root t' = rt_root t \<and>
      rt_pagesize t' = rt_pagesize t \<and> set F' \<subseteq> set F \<and> set (avail t') \<subseteq> set (avail t)"
proof (cases F)
  case (Cons a F')
  with inv obtain nd where nd: "rt_nodes t a = Some nd" "rt_free t = Some a" "free_list (rt_nodes t) (rt_free t) (a # F')"
    by (auto simp: radix_inv_def)
  then have "ngx_radix_alloc t = Some (Some a, t\<lparr>rt_free := rn_right nd\<rparr>)" by (simp add: ngx_radix_alloc_def)
  moreover have "avail (t\<lparr>rt_free := rn_right nd\<rparr>) = avail t" by (simp add: avail_def)
  ultimately show ?thesis using Cons nd inv by (auto simp: radix_inv_def)
next
  case Nil
  with inv have free: "rt_free t = None" and ps: "node_size \<le> rt_pagesize t" by (auto simp: radix_inv_def)
  have fresh: "a \<notin> ran A" if "a \<in> set (avail t)" for a
    using radix_inv_nodes [OF inv] inv that by (auto simp: radix_inv_def)
  show ?thesis
  proof (cases "node_size \<le> rt_size t")
    case True
    then have av: "avail t = rt_start t # avail (snd (radix_take t))"
      by (simp add: avail_def radix_take_def chunks_take)
    with True free Nil fresh [of "rt_start t"] show ?thesis
      by (auto simp: ngx_radix_alloc_def radix_take_def)
  next
    case False
    then have none: "chunks (rt_start t) (rt_size t) = []" by (simp add: chunks_def)
    show ?thesis
    proof (cases "rt_pool t")
      case Nil
      with False free none \<open>F = []\<close> show ?thesis by (simp add: ngx_radix_alloc_def avail_def)
    next
      case (Cons page pool)
      let ?t = "t\<lparr>rt_start := page, rt_size := rt_pagesize t, rt_pool := pool\<rparr>"
      have av: "avail t = page # avail (snd (radix_take ?t))"
        by (simp add: avail_def radix_take_def chunks_take [OF ps] none Cons)
      with False free Cons \<open>F = []\<close> fresh [of page] show ?thesis
        by (auto simp: ngx_radix_alloc_def radix_take_def)
    qed
  qed
qed

section \<open>Growing a tree by a node\<close>

lemma shape_grow:
  assumes sh: "shape h root A" and q: "A q = Some node" "A (q @ [b]) = None" and nx: "nx \<notin> ran A"
    and nd: "h node = Some (node_at A q v)"
  defines "A2 \<equiv> A(q @ [b] \<mapsto> nx)"
  defines "h2 \<equiv> h(nx \<mapsto> node_at A2 (q @ [b]) NGX_RADIX_NO_VALUE, node \<mapsto> node_at A2 q v)"
  shows "shape h2 root A2" "stored h2 A2 = stored h A"
proof -
  have neq: "nx \<noteq> node" using nx q(1) by (auto simp: ran_def)
  have A2: "A2 p = (if p = q @ [b] then Some nx else A p)" for p by (simp add: A2_def)
  have same: "node_at A2 p w = node_at A p w" if "A p = Some a" "p \<noteq> q" for p a w
  proof -
    have "p \<noteq> (q @ [b]) @ r" for r using that(1) shape_below [OF sh q(2)] by auto
    then have "p \<noteq> [] \<Longrightarrow> butlast p \<noteq> q @ [b]" by (metis append_butlast_last_id append_assoc)
    with that show ?thesis by (simp add: node_at_def up_of_def A2)
  qed
  have old: "h2 a = h a" if "A p = Some a" "p \<noteq> q" for p a
  proof -
    have "a \<noteq> nx" using that(1) nx by (auto simp: ran_def)
    moreover have "a \<noteq> node" using shape_inj [OF sh that(1), of q] q(1) that(2) by auto
    ultimately show ?thesis by (simp add: h2_def)
  qed
  show "shape h2 root A2"
  proof (rule shapeI)
    show "A2 [] = Some root" using shape_root [OF sh] by (simp add: A2)
    show "A2 p \<noteq> None" if "A2 (p @ [c]) = Some a" for p c a
      using that shape_prefix [OF sh, of p c] q(1) by (auto simp: A2 split: if_splits)
    show "p = r" if "A2 p = Some a" "A2 r = Some a" for p r a
      using that nx shape_inj [OF sh, of p a r] by (auto simp: A2 ran_def split: if_splits)
    show "\<exists>w. h2 a = Some (node_at A2 p w)" if at: "A2 p = Some a" for p a
    proof (cases "p = q")
      case True
      with at q(1) have "a = node" by (simp add: A2)
      with True show ?thesis by (auto simp: h2_def)
    next
      case False
      show ?thesis
      proof (cases "p = q @ [b]")
        case True
        with at have "a = nx" by (simp add: A2)
        with True neq show ?thesis by (auto simp: h2_def)
      next
        case False
        with at have a: "A p = Some a" by (simp add: A2)
        then obtain w where "h a = Some (node_at A p w)" using shape_node [OF sh] by blast
        with a show ?thesis using old [OF a \<open>p \<noteq> q\<close>] same [OF a \<open>p \<noteq> q\<close>] by auto
      qed
    qed
  qed
  show "stored h2 A2 = stored h A"
  proof
    fix p
    consider "p = q @ [b]" | "p = q" | "p \<noteq> q" "p \<noteq> q @ [b]" by blast
    then show "stored h2 A2 p = stored h A p"
    proof cases
      case 3
      then show ?thesis using old by (auto simp: stored_def A2 split: option.split)
    qed (use neq q nd in \<open>auto simp: stored_def A2 h2_def\<close>)
  qed
qed

lemma grow_step:
  assumes inv: "radix_inv t A F" and q: "A q = Some node" "A (q @ [b]) = None"
    and al: "ngx_radix_alloc t = Some (Some nx, t1)"
  obtains nd t2 F' where "((rt_nodes t1)(nx \<mapsto> \<lparr>rn_right = None, rn_left = None, rn_parent = Some node,
        rn_value = NGX_RADIX_NO_VALUE\<rparr>)) node = Some nd"
    and "t2 = t1\<lparr>rt_nodes := (rt_nodes t1)(nx \<mapsto> \<lparr>rn_right = None, rn_left = None, rn_parent = Some node,
        rn_value = NGX_RADIX_NO_VALUE\<rparr>, node \<mapsto> set_child b (Some nx) nd)\<rparr>"
    and "radix_inv t2 (A(q @ [b] \<mapsto> nx)) F'" "stored (rt_nodes t2) (A(q @ [b] \<mapsto> nx)) = stored (rt_nodes t) A"
    and "rt_root t2 = rt_root t" "length (F' @ avail t2) = length (F @ avail t) - 1"
proof -
  have sh: "shape (rt_nodes t) (rt_root t) A" using inv by (simp add: radix_inv_def)
  obtain v where nd: "rt_nodes t node = Some (node_at A q v)" using shape_node [OF sh q(1)] .
  from radix_alloc [OF inv] al obtain F' where
    F': "F @ avail t = nx # F' @ avail t1" "nx \<notin> ran A" "free_list (rt_nodes t) (rt_free t1) F'"
      "rt_nodes t1 = rt_nodes t" "rt_root t1 = rt_root t" "rt_pagesize t1 = rt_pagesize t" "set F' \<subseteq> set F"
      "set (avail t1) \<subseteq> set (avail t)"
    by (auto split: if_splits)
  let ?A = "A(q @ [b] \<mapsto> nx)"
  have neq: "nx \<noteq> node" using F'(2) q(1) by (auto simp: ran_def)
  have new: "node_at ?A (q @ [b]) NGX_RADIX_NO_VALUE =
      \<lparr>rn_right = None, rn_left = None, rn_parent = Some node, rn_value = NGX_RADIX_NO_VALUE\<rparr>"
    using shape_below [OF sh q(2)] q(1) by (simp add: node_at_def up_of_def)
  have upd: "node_at ?A q v = set_child b (Some nx) (node_at A q v)"
  proof -
    have "butlast q \<noteq> q @ [b]" by (metis length_append_singleton length_butlast diff_le_self Suc_n_not_le_n)
    then show ?thesis by (auto simp: node_at_def up_of_def set_child_def)
  qed
  let ?h = "(rt_nodes t)(nx \<mapsto> node_at ?A (q @ [b]) NGX_RADIX_NO_VALUE, node \<mapsto> node_at ?A q v)"
  note grow = shape_grow [OF sh q F'(2) nd]
  have "distinct (nx # F' @ avail t1)" using inv F'(1) by (metis radix_inv_def)
  moreover have "set F' \<inter> ran ?A = {}"
  proof -
    have "ran ?A \<subseteq> insert nx (ran A)" by (auto simp: ran_def)
    with calculation inv F'(7) show ?thesis by (auto simp: radix_inv_def)
  qed
  moreover have "node \<notin> set F" "node \<in> dom (rt_nodes t)" using inv q(1) nd by (auto simp: radix_inv_def ran_def)
  moreover have "set (avail t1) \<inter> dom (rt_nodes t) = {}" using inv F'(8) by (auto simp: radix_inv_def)
  moreover have "node \<notin> set F'" using calculation(3) F'(7) by blast
  moreover have "free_list ?h (rt_free t1) F'" using calculation(1,6) F'(3) by (simp add: free_list_upd)
  moreover have "set (avail t1) \<inter> dom ?h = {}" using calculation(1,4,5) by auto
  ultimately have "radix_inv (t1\<lparr>rt_nodes := ?h\<rparr>) ?A F'"
    using grow(1) inv F'(5,6) by (simp add: radix_inv_def)
  then show thesis
    using that [of "node_at A q v" "t1\<lparr>rt_nodes := ?h\<rparr>" F'] nd neq grow(2) F' unfolding new upd
    by (simp add: F'(1))
qed

definition deep :: "paths \<Rightarrow> nat \<Rightarrow> bool" where
  "deep A n \<longleftrightarrow> (\<forall>p. A p \<noteq> None \<longrightarrow> length p \<le> n)"

lemma ins_grow_spec:
  assumes "radix_inv t A F" "A q = Some node" "bits = [] \<or> A (q @ [hd bits]) = None" "deep A n" "length (q @ bits) \<le> n"
  shows "\<exists>res t' A' F'. ins_grow t node bits = Some (res, t') \<and> radix_inv t' A' F' \<and> deep A' n \<and>
    stored (rt_nodes t') A' = stored (rt_nodes t) A \<and>
    (if length bits \<le> length (F @ avail t) then res \<noteq> None \<and> A' (q @ bits) = res else res = None)"
  using assms
proof (induction bits arbitrary: t A F q node)
  case Nil
  then show ?case by (intro exI [of _ "Some node"] exI [of _ t] exI [of _ A] exI [of _ F]) simp
next
  case (Cons b bits)
  show ?case
  proof (cases "F @ avail t = []")
    case True
    then have "ngx_radix_alloc t = Some (None, t)" using radix_alloc [OF Cons.prems(1)] by (simp split: if_splits)
    with Cons.prems True show ?thesis
      by (intro exI [of _ None] exI [of _ t] exI [of _ A] exI [of _ F]) simp
  next
    case False
    then obtain nx t1 where al: "ngx_radix_alloc t = Some (Some nx, t1)"
      using radix_alloc [OF Cons.prems(1)] by (auto split: if_splits)
    have none: "A (q @ [b]) = None" using Cons.prems(3) by simp
    from grow_step [OF Cons.prems(1,2) none al] obtain nd t2 F2 where
      nd: "((rt_nodes t1)(nx \<mapsto> \<lparr>rn_right = None, rn_left = None, rn_parent = Some node,
        rn_value = NGX_RADIX_NO_VALUE\<rparr>)) node = Some nd" and
      t2: "t2 = t1\<lparr>rt_nodes := (rt_nodes t1)(nx \<mapsto> \<lparr>rn_right = None, rn_left = None, rn_parent = Some node,
        rn_value = NGX_RADIX_NO_VALUE\<rparr>, node \<mapsto> set_child b (Some nx) nd)\<rparr>" and
      inv2: "radix_inv t2 (A(q @ [b] \<mapsto> nx)) F2" and
      st2: "stored (rt_nodes t2) (A(q @ [b] \<mapsto> nx)) = stored (rt_nodes t) A" and
      len: "length (F2 @ avail t2) = length (F @ avail t) - 1" .
    have sh: "shape (rt_nodes t) (rt_root t) A" using Cons.prems(1) by (simp add: radix_inv_def)
    have step: "ins_grow t node (b # bits) = ins_grow t2 nx bits" by (simp only: ins_grow.simps al Let_def nd t2 option.case prod.case)
    have "(A(q @ [b] \<mapsto> nx)) ((q @ [b]) @ [hd bits]) = None" using shape_below [OF sh none] by simp
    moreover have "deep (A(q @ [b] \<mapsto> nx)) n" using Cons.prems(4,5) by (auto simp: deep_def)
    moreover have "length ((q @ [b]) @ bits) \<le> n" using Cons.prems(5) by simp
    moreover have "(A(q @ [b] \<mapsto> nx)) (q @ [b]) = Some nx" by simp
    ultimately obtain res t' A' F' where "ins_grow t2 nx bits = Some (res, t')" "radix_inv t' A' F'" "deep A' n"
      "stored (rt_nodes t') A' = stored (rt_nodes t2) (A(q @ [b] \<mapsto> nx))"
      "if length bits \<le> length (F2 @ avail t2) then res \<noteq> None \<and> A' ((q @ [b]) @ bits) = res else res = None"
      using Cons.IH [OF inv2, of "q @ [b]" nx] by blast
    moreover have "length (b # bits) \<le> length (F @ avail t) \<longleftrightarrow> length bits \<le> length (F2 @ avail t2)"
      using len False by (cases "F @ avail t") auto
    ultimately show ?thesis unfolding step st2
      by (intro exI [of _ res] exI [of _ t'] exI [of _ A'] exI [of _ F']) (simp split: if_splits)
  qed
qed

section \<open>Setting a value\<close>

lemma set_value_spec:
  assumes inv: "radix_inv t A F" and p: "A p = Some node"
  obtains t' where "set_value t node v = Some t'" "radix_inv t' A F"
    "stored (rt_nodes t') A = (stored (rt_nodes t) A)(p := v)"
proof -
  have sh: "shape (rt_nodes t) (rt_root t) A" using inv by (simp add: radix_inv_def)
  obtain w where nd: "rt_nodes t node = Some (node_at A p w)" using shape_node [OF sh p] .
  let ?h = "(rt_nodes t)(node \<mapsto> node_at A p v)"
  have only: "q = p" if "A q = Some node" for q using shape_inj [OF sh that p] .
  have "shape ?h (rt_root t) A"
  proof (rule shapeI)
    show "\<exists>u. ?h a = Some (node_at A q u)" if at: "A q = Some a" for q a
    proof (cases "a = node")
      case True
      with at only show ?thesis by auto
    next
      case False
      obtain u where "rt_nodes t a = Some (node_at A q u)" using shape_node [OF sh at] .
      with False show ?thesis by auto
    qed
  qed (insert sh, unfold shape_def, blast+)
  moreover have "node \<notin> set F" using inv p by (auto simp: radix_inv_def ran_def)
  moreover have "dom ?h = dom (rt_nodes t)" using nd by auto
  ultimately have "radix_inv (t\<lparr>rt_nodes := ?h\<rparr>) A F" using inv by (simp add: radix_inv_def free_list_upd)
  moreover have "stored ?h A = (stored (rt_nodes t) A)(p := v)"
  proof
    fix q
    show "stored ?h A q = ((stored (rt_nodes t) A)(p := v)) q"
    proof (cases "q = p")
      case True
      then show ?thesis using p by (simp add: stored_def)
    next
      case False
      then have "A q \<noteq> Some node" using only by blast
      then show ?thesis using False by (auto simp: stored_def split: option.split)
    qed
  qed
  ultimately show thesis using that [of "t\<lparr>rt_nodes := ?h\<rparr>"] nd by (simp add: set_value_def)
qed

section \<open>The map that a tree stores\<close>

definition entry :: "radix_tree \<Rightarrow> bool list \<Rightarrow> ngx_uint_t" where
  "entry t p =
     (case del_walk (rt_nodes t) (Some (rt_root t)) p of
        Some (Some a) \<Rightarrow> (case rt_nodes t a of Some nd \<Rightarrow> rn_value nd | None \<Rightarrow> NGX_RADIX_NO_VALUE)
      | _ \<Rightarrow> NGX_RADIX_NO_VALUE)"

definition radix_ok :: "nat \<Rightarrow> radix_tree \<Rightarrow> bool" where
  "radix_ok n t \<longleftrightarrow> (\<exists>A F. radix_inv t A F \<and> deep A n)"

lemma radix_walk: "radix_inv t A F \<Longrightarrow> del_walk (rt_nodes t) (Some (rt_root t)) p = Some (A p)"
  using del_walk_shape [of "rt_nodes t" "rt_root t" A "[]" p] shape_root [of "rt_nodes t" "rt_root t" A]
  by (simp add: radix_inv_def)

lemma entry_stored: "radix_inv t A F \<Longrightarrow> entry t = stored (rt_nodes t) A"
  by (auto simp: fun_eq_iff entry_def stored_def radix_walk split: option.split)

lemma radix_insert_spec:
  assumes "radix_ok n t" "length bits \<le> n"
  shows "\<exists>rc t'. radix_insert t bits v = Some (rc, t') \<and> radix_ok n t' \<and>
    (if entry t bits \<noteq> NGX_RADIX_NO_VALUE then rc = NGX_BUSY \<and> t' = t
     else rc = NGX_OK \<and> entry t' = (entry t)(bits := v) \<or>
       rc = NGX_ERROR \<and> entry t' = entry t \<and> length (rt_pool t) * (rt_pagesize t div node_size) < length bits)"
proof -
  obtain A F where inv: "radix_inv t A F" and dp: "deep A n" using assms(1) by (auto simp: radix_ok_def)
  have sh: "shape (rt_nodes t) (rt_root t) A" using inv by (simp add: radix_inv_def)
  obtain us rest node nxt where w: "bits = us @ rest"
    "ins_walk (rt_nodes t) (rt_root t) (Some (rt_root t)) bits = Some (node, nxt, rest)"
    "A us = Some node" "nxt = None \<longleftrightarrow> rest \<noteq> []" "rest \<noteq> [] \<longrightarrow> A (us @ [hd rest]) = None"
    using ins_walk_shape [OF sh shape_root [OF sh], of "Some (rt_root t)" bits] by auto
  note en = entry_stored [OF inv]
  show ?thesis
  proof (cases "rest = []")
    case True
    then obtain nx where nx: "nxt = Some nx" using w(4) by auto
    obtain u where nd: "rt_nodes t node = Some (node_at A us u)" using shape_node [OF sh w(3)] .
    have u: "entry t bits = u" using True w(1,3) nd by (simp add: en stored_def)
    obtain t' where t': "set_value t node v = Some t'" "radix_inv t' A F"
      "stored (rt_nodes t') A = (stored (rt_nodes t) A)(us := v)"
      using set_value_spec [OF inv w(3), of v] .
    show ?thesis
    proof (cases "u = NGX_RADIX_NO_VALUE")
      case True
      have "radix_ok n t'" using t'(2) dp by (auto simp: radix_ok_def)
      moreover have "entry t' = (entry t)(bits := v)" using t' entry_stored [OF t'(2)] en w(1) \<open>rest = []\<close> by simp
      ultimately show ?thesis using True u w(2) nx nd t'(1) by (simp add: radix_insert_def)
    next
      case False
      then show ?thesis using u w(2) nx nd assms(1) by (simp add: radix_insert_def)
    qed
  next
    case False
    have none: "A bits = None" using shape_below [OF sh, of "us @ [hd rest]" "tl rest"] False w(1,5) by simp
    then have no: "entry t bits = NGX_RADIX_NO_VALUE" by (simp add: en stored_def)
    have "nxt = None" using w(4) False by simp
    from ins_grow_spec [OF inv w(3), of rest n] dp assms(2) w(1,5) False obtain res t' A' F' where
      g: "ins_grow t node rest = Some (res, t')" "radix_inv t' A' F'" "deep A' n"
        "stored (rt_nodes t') A' = stored (rt_nodes t) A"
        "if length rest \<le> length (F @ avail t) then res \<noteq> None \<and> A' bits = res else res = None"
      by auto
    have ok: "radix_ok n t'" "entry t' = entry t" using g(2-4) en by (auto simp: radix_ok_def entry_stored)
    show ?thesis
    proof (cases res)
      case None
      then have "length (F @ avail t) < length rest" using g(5) by (simp split: if_splits)
      moreover have "length (avail t) \<ge> length (rt_pool t) * (rt_pagesize t div node_size)"
        by (simp add: avail_def length_concat comp_def chunks_def sum_list_triv)
      moreover have "length rest \<le> length bits" using w(1) by simp
      ultimately have "length (rt_pool t) * (rt_pagesize t div node_size) < length bits" by simp
      with None g(1) ok no w(2) \<open>nxt = None\<close> show ?thesis by (simp add: radix_insert_def)
    next
      case (Some a)
      then have "A' bits = Some a" using g(5) by (simp split: if_splits)
      from set_value_spec [OF g(2) this, of v] obtain t2 where
        t2: "set_value t' a v = Some t2" "radix_inv t2 A' F'" "stored (rt_nodes t2) A' = (stored (rt_nodes t') A')(bits := v)" .
      have "radix_ok n t2" using t2(2) g(3) by (auto simp: radix_ok_def)
      moreover have "entry t2 = (entry t)(bits := v)" using t2 g(4) en by (simp add: entry_stored)
      ultimately show ?thesis using Some g(1) no w(2) t2(1) \<open>nxt = None\<close> by (simp add: radix_insert_def)
    qed
  qed
qed

section \<open>Removing a leaf\<close>

lemma shape_prune:
  fixes x :: radix_node
  assumes sh: "shape h root A" and p: "A p = Some up" "A (p @ [b]) = Some node" "\<And>c. A (p @ [b, c]) = None"
    and nd: "h up = Some (node_at A p w)"
  defines "A2 \<equiv> A(p @ [b] := None)"
  defines "h2 \<equiv> h(up \<mapsto> node_at A2 p w, node \<mapsto> x)"
  shows "shape h2 root A2" "stored h2 A2 = (stored h A)(p @ [b] := NGX_RADIX_NO_VALUE)"
proof -
  have neq: "up \<noteq> node" using shape_inj [OF sh p(1), of "p @ [b]"] p(2) by auto
  have A2: "A2 q = (if q = p @ [b] then None else A q)" for q by (simp add: A2_def)
  have leaf: "butlast q \<noteq> p @ [b]" if "A q = Some a" "q \<noteq> []" for q a
  proof
    assume "butlast q = p @ [b]"
    then have "q = p @ [b, last q]" using that(2) by (metis append_Cons append_Nil append_assoc append_butlast_last_id)
    then show False using p(3) [of "last q"] that(1) by simp
  qed
  have same: "node_at A2 q u = node_at A q u" if "A q = Some a" "q \<noteq> p" for q a u
    using that leaf [OF that(1)] by (simp add: node_at_def up_of_def A2)
  have old: "h2 a = h a" if "A q = Some a" "q \<noteq> p" "q \<noteq> p @ [b]" for q a
  proof -
    have "a \<noteq> up" using shape_inj [OF sh that(1), of p] p(1) that(2) by auto
    moreover have "a \<noteq> node" using shape_inj [OF sh that(1), of "p @ [b]"] p(2) that(3) by auto
    ultimately show ?thesis by (simp add: h2_def)
  qed
  have new: "h2 up = Some (node_at A2 p w)" using neq by (simp add: h2_def)
  show "shape h2 root A2"
  proof (rule shapeI)
    show "A2 [] = Some root" using shape_root [OF sh] by (simp add: A2)
    show "A2 q \<noteq> None" if "A2 (q @ [c]) = Some a" for q c a
      using that shape_prefix [OF sh, of q c] p(3) [of c] by (auto simp: A2 split: if_splits)
    show "q = r" if "A2 q = Some a" "A2 r = Some a" for q r a
      using that shape_inj [OF sh, of q a r] by (auto simp: A2 split: if_splits)
    show "\<exists>u. h2 a = Some (node_at A2 q u)" if at: "A2 q = Some a" for q a
    proof (cases "q = p")
      case True
      then have "a = up" using at p(1) by (simp add: A2 split: if_splits)
      then show ?thesis using True new by auto
    next
      case False
      have q: "A q = Some a" "q \<noteq> p @ [b]" using at by (simp_all add: A2 split: if_splits)
      obtain u where "h a = Some (node_at A q u)" using shape_node [OF sh q(1)] .
      then show ?thesis using old [OF q(1) False q(2)] same [OF q(1) False] by auto
    qed
  qed
  show "stored h2 A2 = (stored h A)(p @ [b] := NGX_RADIX_NO_VALUE)"
  proof
    fix q
    consider "q = p @ [b]" | "q = p" | "q \<noteq> p" "q \<noteq> p @ [b]" by blast
    then show "stored h2 A2 q = ((stored h A)(p @ [b] := NGX_RADIX_NO_VALUE)) q"
    proof cases
      case 2
      then show ?thesis using new p(1) nd by (simp add: stored_def A2)
    next
      case 3
      then show ?thesis using old by (auto simp: stored_def A2 split: option.split)
    qed (simp add: stored_def A2)
  qed
qed

lemma unlink_spec:
  assumes inv: "radix_inv t A F" and p: "A (p @ [b]) = Some node" "\<And>c. A (p @ [b, c]) = None"
  obtains up t' w where "unlink t node = Some (up, t')" "A p = Some up" "radix_inv t' (A(p @ [b] := None)) (node # F)"
    "stored (rt_nodes t') (A(p @ [b] := None)) = (stored (rt_nodes t) A)(p @ [b] := NGX_RADIX_NO_VALUE)"
    "rt_nodes t' up = Some (node_at (A(p @ [b] := None)) p w)"
proof -
  have sh: "shape (rt_nodes t) (rt_root t) A" using inv by (simp add: radix_inv_def)
  obtain up where up: "A p = Some up" using shape_prefix [OF sh, of p b] p(1) by fastforce
  obtain v where nd: "rt_nodes t node = Some (node_at A (p @ [b]) v)" using shape_node [OF sh p(1)] .
  obtain w where pd: "rt_nodes t up = Some (node_at A p w)" using shape_node [OF sh up] .
  have neq: "up \<noteq> node" using shape_inj [OF sh up, of "p @ [b]"] p(1) by auto
  let ?A = "A(p @ [b] := None)"
  let ?x = "(node_at A (p @ [b]) v)\<lparr>rn_right := rt_free t\<rparr>"
  let ?h = "(rt_nodes t)(up \<mapsto> node_at ?A p w, node \<mapsto> ?x)"
  have "A (p @ [True]) = Some node \<longleftrightarrow> b" using shape_inj [OF sh p(1), of "p @ [True]"] p(1) by (cases b) auto
  moreover have "butlast p \<noteq> p @ [b]" by (metis length_append_singleton length_butlast diff_le_self Suc_n_not_le_n)
  ultimately have upd: "set_child (A (p @ [True]) = Some node) None (node_at A p w) = node_at ?A p w"
    by (auto simp: node_at_def up_of_def set_child_def)
  have unl: "unlink t node = Some (up, t\<lparr>rt_nodes := ?h, rt_free := Some node\<rparr>)"
    using nd pd up neq upd by (simp add: unlink_def up_of_def)
  note prune = shape_prune [OF sh up p pd, of ?x]
  have F: "node \<notin> set F" "up \<notin> set F" using inv p(1) up by (auto simp: radix_inv_def ran_def)
  have "node \<notin> set (avail t)" using inv nd by (auto simp: radix_inv_def)
  moreover have "node \<notin> ran ?A" using shape_inj [OF sh p(1)] by (auto simp: ran_def)
  moreover have "ran ?A \<subseteq> ran A" by (auto simp: ran_def)
  moreover have "dom ?h = dom (rt_nodes t)" using nd pd by auto
  moreover have "free_list ?h (Some node) (node # F)" using inv F by (simp add: radix_inv_def free_list_upd)
  ultimately have "radix_inv (t\<lparr>rt_nodes := ?h, rt_free := Some node\<rparr>) ?A (node # F)"
    using inv prune(1) F by (auto simp: radix_inv_def)
  then show thesis using that [OF unl up] prune(2) neq by simp
qed

lemma del_loop_spec:
  assumes "radix_inv t A F" "A (p @ [b]) = Some node" "\<And>c. A (p @ [b, c]) = None" "deep A n"
  shows "\<exists>t' A' F'. del_loop t node = Some t' \<and> radix_inv t' A' F' \<and> deep A' n \<and>
    stored (rt_nodes t') A' = (stored (rt_nodes t) A)(p @ [b] := NGX_RADIX_NO_VALUE)"
  using assms
proof (induction "length p" arbitrary: p t A F b node rule: less_induct)
  case less
  let ?A = "A(p @ [b] := None)"
  obtain up t' w where u: "unlink t node = Some (up, t')" "A p = Some up" "radix_inv t' ?A (node # F)"
    "stored (rt_nodes t') ?A = (stored (rt_nodes t) A)(p @ [b] := NGX_RADIX_NO_VALUE)"
    "rt_nodes t' up = Some (node_at ?A p w)"
    using unlink_spec [OF less.prems(1-3)] .
  have dp: "deep ?A n" using less.prems(4) by (simp add: deep_def)
  show ?case
  proof (cases "?A (p @ [True]) \<noteq> None \<or> ?A (p @ [False]) \<noteq> None \<or> w \<noteq> NGX_RADIX_NO_VALUE \<or> p = []")
    case True
    then have "del_loop t node = Some t'" using u by (subst del_loop.simps) (auto simp: up_of_def)
    then show ?thesis using u dp by blast
  next
    case False
    then obtain p' b' where p': "p = p' @ [b']" by (cases p rule: rev_cases) auto
    have A: "?A (p' @ [b']) = Some up" "\<And>c. ?A (p' @ [b', c]) = None"
      using False u(2) p' by (auto simp: p' all_bool_eq) (metis (full_types) append.assoc append_Cons append_Nil)
    then have par: "?A p' \<noteq> None"
      using u(3) shape_prefix [of "rt_nodes t'" "rt_root t'" ?A p' b'] by (auto simp: radix_inv_def)
    have "\<exists>t2 A' F'. del_loop t' up = Some t2 \<and> radix_inv t2 A' F' \<and> deep A' n \<and>
        stored (rt_nodes t2) A' = (stored (rt_nodes t') ?A)(p' @ [b'] := NGX_RADIX_NO_VALUE)"
      by (rule less.hyps [OF _ u(3) A dp]) (simp add: p')
    moreover have "stored (rt_nodes t') ?A p = NGX_RADIX_NO_VALUE" using u(2,5) False by (simp add: stored_def)
    moreover have "del_loop t node = del_loop t' up"
      using u False par p' by (subst del_loop.simps) (auto simp: up_of_def)
    ultimately show ?thesis using u(4) p' by (metis fun_upd_triv)
  qed
qed

lemma radix_delete_spec:
  assumes "radix_ok n t"
  shows "\<exists>rc t'. (bits = [] \<and> radix_delete t bits = None) \<or>
    radix_delete t bits = Some (rc, t') \<and> radix_ok n t' \<and>
    (rc = NGX_OK \<and> entry t' = (entry t)(bits := NGX_RADIX_NO_VALUE) \<or>
     rc = NGX_ERROR \<and> t' = t \<and> entry t bits = NGX_RADIX_NO_VALUE)"
proof -
  obtain A F where inv: "radix_inv t A F" and dp: "deep A n" using assms(1) by (auto simp: radix_ok_def)
  have sh: "shape (rt_nodes t) (rt_root t) A" using inv by (simp add: radix_inv_def)
  note en = entry_stored [OF inv] and walk = radix_walk [OF inv, of bits]
  show ?thesis
  proof (cases "A bits")
    case None
    then show ?thesis using walk assms by (simp add: radix_delete_def en stored_def)
  next
    case (Some a)
    obtain v where nd: "rt_nodes t a = Some (node_at A bits v)" using shape_node [OF sh Some] .
    show ?thesis
    proof (cases "A (bits @ [True]) = None \<and> A (bits @ [False]) = None")
      case False
      obtain t' where t': "set_value t a NGX_RADIX_NO_VALUE = Some t'" "radix_inv t' A F"
        "stored (rt_nodes t') A = (stored (rt_nodes t) A)(bits := NGX_RADIX_NO_VALUE)"
        using set_value_spec [OF inv Some] .
      have "radix_ok n t'" "entry t' = (entry t)(bits := NGX_RADIX_NO_VALUE)"
        using t' dp en by (auto simp: radix_ok_def entry_stored)
      moreover have "entry t bits = v" using Some nd by (simp add: en stored_def)
      ultimately show ?thesis
        using False walk Some nd t'(1) assms by (auto simp: radix_delete_def)
    next
      case True
      show ?thesis
      proof (cases bits rule: rev_cases)
        case Nil
        have "unlink t a = None" using nd Nil by (simp add: unlink_def up_of_def)
        then have "del_loop t a = None" by (subst del_loop.simps) simp
        then show ?thesis using True walk Some nd Nil by (simp add: radix_delete_def)
      next
        case (snoc p b)
        have "A (p @ [b, c]) = None" for c using True snoc by (cases c) simp_all
        then obtain t' A' F' where d: "del_loop t a = Some t'" "radix_inv t' A' F'" "deep A' n"
          "stored (rt_nodes t') A' = (stored (rt_nodes t) A)(p @ [b] := NGX_RADIX_NO_VALUE)"
          using del_loop_spec [OF inv, of p b a n] Some dp snoc by auto
        then have "radix_ok n t'" "entry t' = (entry t)(bits := NGX_RADIX_NO_VALUE)"
          using en snoc by (auto simp: radix_ok_def entry_stored)
        then show ?thesis using True walk Some nd d(1) by (auto simp: radix_delete_def)
      qed
    qed
  qed
qed

section \<open>Searching\<close>

text \<open>The value of the longest prefix of a key that has one.\<close>

definition longest_prefix :: "(bool list \<Rightarrow> ngx_uint_t) \<Rightarrow> bool list \<Rightarrow> ngx_uint_t" where
  "longest_prefix g key =
     (case filter (\<lambda>n. g (take n key) \<noteq> NGX_RADIX_NO_VALUE) (rev [0..<Suc (length key)]) of
        [] \<Rightarrow> NGX_RADIX_NO_VALUE
      | n # _ \<Rightarrow> g (take n key))"

text \<open>The search as a walk along the bits of the key, with the value seen last.\<close>

fun lookup_path :: "(bool list \<Rightarrow> ngx_uint_t) \<Rightarrow> bool list \<Rightarrow> ngx_uint_t \<Rightarrow> bool list \<Rightarrow> ngx_uint_t" where
  "lookup_path g q v [] = (if g q \<noteq> NGX_RADIX_NO_VALUE then g q else v)"
| "lookup_path g q v (b # bits) = lookup_path g (q @ [b]) (if g q \<noteq> NGX_RADIX_NO_VALUE then g q else v) bits"

lemma lookup_path_snoc:
  "lookup_path g q v (bits @ [b]) =
    (if g (q @ bits @ [b]) \<noteq> NGX_RADIX_NO_VALUE then g (q @ bits @ [b]) else lookup_path g q v bits)"
  by (induction bits arbitrary: q v) simp_all

lemma longest_prefix_snoc:
  "longest_prefix g (key @ [b]) = (if g (key @ [b]) \<noteq> NGX_RADIX_NO_VALUE then g (key @ [b]) else longest_prefix g key)"
proof -
  have f: "filter (\<lambda>n. g (take n (key @ [b])) \<noteq> NGX_RADIX_NO_VALUE) (rev [0..<Suc (length key)]) =
      filter (\<lambda>n. g (take n key) \<noteq> NGX_RADIX_NO_VALUE) (rev [0..<Suc (length key)])"
    by (rule filter_cong) auto
  have up: "rev [0..<Suc (length (key @ [b]))] = Suc (length key) # rev [0..<Suc (length key)]" by simp
  show ?thesis
  proof (cases "g (key @ [b]) \<noteq> NGX_RADIX_NO_VALUE")
    case True
    then show ?thesis unfolding longest_prefix_def up by simp
  next
    case False
    then have "filter (\<lambda>n. g (take n (key @ [b])) \<noteq> NGX_RADIX_NO_VALUE) (rev [0..<Suc (length (key @ [b]))]) =
        filter (\<lambda>n. g (take n key) \<noteq> NGX_RADIX_NO_VALUE) (rev [0..<Suc (length key)])"
      unfolding up f [symmetric] by simp
    moreover have "set (filter (\<lambda>n. g (take n key) \<noteq> NGX_RADIX_NO_VALUE) (rev [0..<Suc (length key)])) \<subseteq> {..length key}"
      by auto
    ultimately show ?thesis using False unfolding longest_prefix_def
      by (auto split: list.split)
  qed
qed

lemma lookup_longest: "lookup_path g [] NGX_RADIX_NO_VALUE key = longest_prefix g key"
proof (induction key rule: rev_induct)
  case Nil
  then show ?case by (simp add: longest_prefix_def)
next
  case (snoc b key)
  then show ?case by (simp add: lookup_path_snoc longest_prefix_snoc)
qed

end
