(* ===== verification/Ngx_Radix_Search.thy ===== *)
theory Ngx_Radix_Search
  imports Ngx_Radix_Spec "HOL-Library.Sublist"
begin

unbundle bit_operations_syntax

text \<open>
  The radix trees of \<open>Ngx_Radix\<close> as maps from network prefixes: the bits that keys and masks select, the
  searches as search for the longest prefix, the creation of an empty tree, and the properties.
\<close>

section \<open>The bits of keys, from the first to the last\<close>

definition kb32 :: "uint32 \<Rightarrow> nat \<Rightarrow> bool" where
  "kb32 key j = bit key (31 - j)"

definition kb128 :: "buffer \<Rightarrow> nat \<Rightarrow> bool" where
  "kb128 key j = bit (key ! (j div 8)) (7 - j mod 8)"

lemma and_bit_nonzero: "(w :: 'a::len word) AND push_bit k 1 \<noteq> 0 \<longleftrightarrow> k < LENGTH('a) \<and> bit w k"
proof -
  have "w AND push_bit k 1 = (if k < LENGTH('a) \<and> bit w k then push_bit k 1 else 0)"
    by (rule bit_word_eqI) (auto simp: bit_simps)
  moreover have "push_bit k (1 :: 'a word) \<noteq> 0" if "k < LENGTH('a)"
    using that by (simp add: push_bit_eq_mult)
  ultimately show ?thesis by auto
qed

lemma drop_bit_one: "drop_bit (Suc 0) (2 * 2 ^ k :: 'a::len word) = 2 ^ k" if "Suc k < LENGTH('a)"
proof -
  have "drop_bit (Suc 0) (push_bit (Suc k) (1 :: 'a word)) = push_bit k 1"
    using that by (intro bit_word_eqI) (auto simp: bit_simps)
  then show ?thesis by simp
qed

lemma masked_bits32_eq:
  "k < 32 \<Longrightarrow> masked_bits32 key msk (push_bit k 1) = map (kb32 key) (takeWhile (kb32 msk) [31 - k..<32])"
proof (induction k)
  case 0
  have "drop_bit (Suc 0) (1 :: uint32) = 0" by simp
  then show ?case
    using and_bit_nonzero [of msk 0] and_bit_nonzero [of key 0]
    by (simp add: masked_bits32.simps [of _ _ 1] masked_bits32.simps [of _ _ 0] kb32_def and.commute upt_rec)
next
  case (Suc k)
  have up: "[31 - Suc k..<32] = (31 - Suc k) # [31 - k..<32]"
  proof -
    have "Suc (31 - Suc k) = 31 - k" using Suc.prems by simp
    then show ?thesis using upt_conv_Cons [of "31 - Suc k" 32] by simp
  qed
  have "31 - (31 - Suc k) = Suc k" using Suc.prems by simp
  then show ?case
    using Suc and_bit_nonzero [of msk "Suc k"] and_bit_nonzero [of key "Suc k"]
    unfolding up masked_bits32.simps [of key msk "push_bit (Suc k) 1"]
    by (simp add: drop_bit_one kb32_def and.commute del: push_bit_Suc)
qed

lemma masked_bits128_eq:
  "j < 128 \<Longrightarrow> masked_bits128 key msk (j div 8) (push_bit (7 - j mod 8) 1) = map (kb128 key) (takeWhile (kb128 msk) [j..<128])"
proof (induction "128 - j" arbitrary: j)
  case 0
  then show ?case by simp
next
  case (Suc n)
  have up: "[j..<128] = j # [Suc j..<128]" using Suc.prems by (simp add: upt_conv_Cons)
  have test: "push_bit (7 - j mod 8) 1 AND (key ! (j div 8)) \<noteq> 0 \<longleftrightarrow> kb128 key j"
    "key ! (j div 8) AND push_bit (7 - j mod 8) 1 \<noteq> 0 \<longleftrightarrow> kb128 key j" for key :: buffer
  proof -
    have "7 - j mod 8 < 8" by simp
    then show "push_bit (7 - j mod 8) 1 AND (key ! (j div 8)) \<noteq> 0 \<longleftrightarrow> kb128 key j"
      "key ! (j div 8) AND push_bit (7 - j mod 8) 1 \<noteq> 0 \<longleftrightarrow> kb128 key j"
      using and_bit_nonzero [of "key ! (j div 8)" "7 - j mod 8"] by (simp_all only: kb128_def and.commute) simp_all
  qed
  show ?case
  proof (cases "j mod 8 = 7")
    case True
    then have d: "drop_bit 1 (push_bit (7 - j mod 8) (1 :: u_char)) = 0" by simp
    have j: "Suc j div 8 = j div 8 + 1" "Suc j mod 8 = 0" using True by (simp_all add: div_Suc mod_Suc)
    have i: "j div 8 + 1 \<ge> 16 \<longleftrightarrow> \<not> Suc j < 128" using True Suc.prems by presburger
    have "Suc j < 128 \<Longrightarrow> masked_bits128 key msk (j div 8 + 1) 0x80 = map (kb128 key) (takeWhile (kb128 msk) [Suc j..<128])"
      using Suc.hyps(1) [of "Suc j"] Suc.hyps(2) j by simp
    then show ?thesis
      unfolding up masked_bits128.simps [of key msk "j div 8" "push_bit (7 - j mod 8) 1"] Let_def d i using test by auto
  next
    case False
    then have m: "Suc (j mod 8) < 8" "Suc j div 8 = j div 8" "Suc j mod 8 = Suc (j mod 8)"
      by (auto simp: div_Suc mod_Suc)
    then have e: "7 - j mod 8 = Suc (7 - Suc j mod 8)" by simp
    have d: "drop_bit 1 (push_bit (7 - j mod 8) (1 :: u_char)) = push_bit (7 - Suc j mod 8) 1"
      unfolding e using drop_bit_one [where ?'a = 8, of "7 - Suc j mod 8"] by (simp add: m(3))
    have nz: "push_bit (7 - Suc j mod 8) (1 :: u_char) \<noteq> 0"
      using and_bit_nonzero [of "- 1 :: u_char" "7 - Suc j mod 8"] by (auto simp: m)
    have "Suc j < 128" using m Suc.prems by presburger
    then have "masked_bits128 key msk (j div 8) (push_bit (7 - Suc j mod 8) 1) = map (kb128 key) (takeWhile (kb128 msk) [Suc j..<128])"
      using Suc.hyps(1) [of "Suc j"] Suc.hyps(2) m(2) by simp
    then show ?thesis
      unfolding up masked_bits128.simps [of key msk "j div 8" "push_bit (7 - j mod 8) 1"] Let_def d using test nz by auto
  qed
qed

definition bits32 :: "uint32 \<Rightarrow> bool list" where
  "bits32 key = map (kb32 key) [0..<32]"

definition bits128 :: "buffer \<Rightarrow> bool list" where
  "bits128 key = map (kb128 key) [0..<128]"

lemma masked32: "masked_bits32 key msk 0x80000000 = map (kb32 key) (takeWhile (kb32 msk) [0..<32])"
  using masked_bits32_eq [of 31 key msk] by simp

lemma masked128: "masked_bits128 key msk 0 0x80 = map (kb128 key) (takeWhile (kb128 msk) [0..<128])"
  using masked_bits128_eq [of 0 key msk] by simp

lemma masked_length: "length (masked_bits32 key msk 0x80000000) \<le> 32" "length (masked_bits128 k m 0 0x80) \<le> 128"
  unfolding masked32 masked128 using length_takeWhile_le [of "kb32 msk" "[0..<32]"] length_takeWhile_le [of "kb128 m" "[0..<128]"]
  by simp_all

section \<open>The searches\<close>

lemma lookup_missing:
  assumes "shape h root A" "A q = None"
  shows "lookup_path (stored h A) q v bits = v"
  using assms(2)
proof (induction bits arbitrary: q v)
  case Nil
  then show ?case by (simp add: stored_def)
next
  case (Cons b bits)
  then show ?case using shape_prefix [OF assms(1) Cons.prems, of b] by (simp add: stored_def)
qed

lemma find32_loop_spec:
  assumes sh: "shape h root A" and dp: "deep A 32"
  shows "j \<le> 32 \<Longrightarrow> find32_loop h key (if j < 32 then 2 ^ (31 - j) else 0) v (A (take j (bits32 key))) =
    Some (lookup_path (stored h A) (take j (bits32 key)) v (drop j (bits32 key)))"
proof (induction "32 - j" arbitrary: j v)
  case 0
  then have j: "j = 32" by simp
  have len: "length (bits32 key) = 32" by (simp add: bits32_def)
  show ?case
  proof (cases "A (bits32 key)")
    case None
    then show ?thesis using lookup_missing [OF sh None, of v "[]"] j len by (subst find32_loop.simps) simp
  next
    case (Some a)
    obtain u where nd: "h a = Some (node_at A (bits32 key) u)" using shape_node [OF sh Some] .
    have none: "A (bits32 key @ [b]) = None" for b
      using dp len unfolding deep_def by (metis length_append_singleton not_less_eq_eq order_refl option.exhaust)
    have nil: "find32_loop h key b w None = Some w" for b w by (subst find32_loop.simps) simp
    show ?thesis using Some nd none j len by (subst find32_loop.simps) (simp add: nil stored_def)
  qed
next
  case (Suc n)
  then have j: "j < 32" by simp
  define q where "q = take j (bits32 key)"
  have q: "take (Suc j) (bits32 key) = q @ [kb32 key j]" "drop j (bits32 key) = kb32 key j # drop (Suc j) (bits32 key)"
    using j by (simp_all add: q_def bits32_def take_Suc_conv_app_nth Cons_nth_drop_Suc [symmetric])
  have test: "key AND 2 ^ (31 - j) \<noteq> 0 \<longleftrightarrow> kb32 key j"
  proof -
    have "31 - j < 32" by simp
    then show ?thesis using and_bit_nonzero [of key "31 - j"] by (simp add: kb32_def)
  qed
  have b: "drop_bit 1 (2 ^ (31 - j) :: uint32) = (if Suc j < 32 then 2 ^ (31 - Suc j) else 0)"
  proof (cases "Suc j < 32")
    case True
    then have "31 - j = Suc (31 - Suc j)" by simp
    then show ?thesis using drop_bit_one [where ?'a = 32, of "31 - Suc j"] True by simp
  next
    case False
    then have "j = 31" using j by simp
    then show ?thesis by simp
  qed
  show ?case
  proof (cases "A q")
    case None
    then show ?thesis using lookup_missing [OF sh None] j unfolding q_def [symmetric] by (subst find32_loop.simps) simp
  next
    case (Some a)
    obtain u where nd: "h a = Some (node_at A q u)" using shape_node [OF sh Some] .
    have "find32_loop h key (2 ^ (31 - j)) v (Some a) =
        find32_loop h key (if Suc j < 32 then 2 ^ (31 - Suc j) else 0)
          (if u \<noteq> NGX_RADIX_NO_VALUE then u else v) (A (q @ [kb32 key j]))"
      using nd test b by (subst find32_loop.simps) simp
    also have "\<dots> = Some (lookup_path (stored h A) (q @ [kb32 key j]) (if u \<noteq> NGX_RADIX_NO_VALUE then u else v) (drop (Suc j) (bits32 key)))"
      using Suc.hyps(1) [of "Suc j"] Suc.hyps(2) j unfolding q(1) by simp
    finally show ?thesis using Some j nd unfolding q_def [symmetric] q(2) by (simp add: stored_def)
  qed
qed

lemma find128_loop_spec:
  assumes sh: "shape h root A" and dp: "deep A 128" and len: "16 \<le> length key"
  shows "j \<le> 128 \<Longrightarrow> find128_loop h key (j div 8) (2 ^ (7 - j mod 8)) v (A (take j (bits128 key))) =
    (if length key = 16 \<and> A (bits128 key) \<noteq> None then None
     else Some (lookup_path (stored h A) (take j (bits128 key)) v (drop j (bits128 key))))"
proof (induction "128 - j" arbitrary: j v)
  case 0
  then have j: "j = 128" by simp
  have lk: "length (bits128 key) = 128" by (simp add: bits128_def)
  show ?case
  proof (cases "A (bits128 key)")
    case None
    then show ?thesis using lookup_missing [OF sh None, of v "[]"] j lk by (subst find128_loop.simps) simp
  next
    case (Some a)
    obtain u where nd: "h a = Some (node_at A (bits128 key) u)" using shape_node [OF sh Some] .
    have none: "A (bits128 key @ [b]) = None" for b
      using dp lk unfolding deep_def by (metis length_append_singleton not_less_eq_eq order_refl option.exhaust)
    have nil: "find128_loop h key i b w None = Some w" for i b w by (subst find128_loop.simps) simp
    show ?thesis using Some nd none j lk len by (subst find128_loop.simps) (auto simp: nil stored_def Let_def)
  qed
next
  case (Suc n)
  then have j: "j < 128" by simp
  define q where "q = take j (bits128 key)"
  have q: "take (Suc j) (bits128 key) = q @ [kb128 key j]" "drop j (bits128 key) = kb128 key j # drop (Suc j) (bits128 key)"
    using j by (simp_all add: q_def bits128_def take_Suc_conv_app_nth Cons_nth_drop_Suc [symmetric])
  show ?case
  proof (cases "A q")
    case None
    have "bits128 key = q @ drop j (bits128 key)" by (simp add: q_def)
    then have "A (bits128 key) = None" using shape_below [OF sh None] by metis
    then show ?thesis using lookup_missing [OF sh None] None unfolding q_def [symmetric] by (subst find128_loop.simps) simp
  next
    case (Some a)
    obtain u where nd: "h a = Some (node_at A q u)" using shape_node [OF sh Some] .
    have i: "j div 8 < length key" using j len by simp
    let ?v = "if u \<noteq> NGX_RADIX_NO_VALUE then u else v"
    have "7 - j mod 8 < 8" by simp
    then have test: "key ! (j div 8) AND 2 ^ (7 - j mod 8) \<noteq> 0 \<longleftrightarrow> kb128 key j"
      using and_bit_nonzero [of "key ! (j div 8)" "7 - j mod 8"] by (simp add: kb128_def)
    have "find128_loop h key (j div 8) (2 ^ (7 - j mod 8)) v (Some a) =
        find128_loop h key (Suc j div 8) (2 ^ (7 - Suc j mod 8)) ?v (A (q @ [kb128 key j]))"
    proof (cases "j mod 8 = 7")
      case True
      then have "Suc j div 8 = j div 8 + 1" "Suc j mod 8 = 0" by (simp_all add: div_Suc mod_Suc)
      then show ?thesis using nd test i True by (subst find128_loop.simps) (simp add: Let_def)
    next
      case False
      then have m: "Suc (j mod 8) < 8" "Suc j div 8 = j div 8" "Suc j mod 8 = Suc (j mod 8)"
        by (auto simp: div_Suc mod_Suc)
      then have e: "7 - j mod 8 = Suc (7 - Suc j mod 8)" by simp
      have "drop_bit 1 (2 ^ (7 - j mod 8) :: u_char) = 2 ^ (7 - Suc j mod 8)"
        unfolding e using drop_bit_one [where ?'a = 8, of "7 - Suc j mod 8"] by (simp add: m(3))
      moreover have "(2 ^ (7 - Suc j mod 8) :: u_char) \<noteq> 0" by simp
      ultimately show ?thesis using nd test i m(2) by (subst find128_loop.simps) (simp add: Let_def)
    qed
    also have "\<dots> = (if length key = 16 \<and> A (bits128 key) \<noteq> None then None
        else Some (lookup_path (stored h A) (q @ [kb128 key j]) ?v (drop (Suc j) (bits128 key))))"
      using Suc.hyps(1) [of "Suc j"] Suc.hyps(2) j unfolding q(1) by simp
    finally show ?thesis using Some nd unfolding q_def [symmetric] q(2) by (simp add: stored_def)
  qed
qed

section \<open>Creating a tree\<close>

definition no_entry :: "bool list \<Rightarrow> ngx_uint_t" where
  "no_entry p = NGX_RADIX_NO_VALUE"

lemma insert_nothing:
  assumes "radix_ok 32 t" "entry t = no_entry"
  shows "\<exists>rc t'. ngx_radix32tree_insert t key msk NGX_RADIX_NO_VALUE = Some (rc, t') \<and> radix_ok 32 t' \<and> entry t' = no_entry"
proof -
  let ?p = "masked_bits32 key msk 0x80000000"
  have "no_entry(?p := NGX_RADIX_NO_VALUE) = no_entry" by (auto simp: no_entry_def)
  then show ?thesis
    using radix_insert_spec [OF assms(1) masked_length(1) [of key msk], of NGX_RADIX_NO_VALUE] assms(2)
    by (auto simp: ngx_radix32tree_insert_def no_entry_def)
qed

lemma prealloc_row_spec:
  assumes "m < 32" "j < 2 ^ (32 - m)" "radix_ok 32 t" "entry t = no_entry"
  shows "\<exists>r. prealloc_row t (of_nat (j * 2 ^ m)) msk (2 ^ m) = Some r \<and>
    (case r of None \<Rightarrow> True | Some t' \<Rightarrow> radix_ok 32 t' \<and> entry t' = no_entry)"
  using assms(2-4)
proof (induction "2 ^ (32 - m) - j" arbitrary: j t)
  case (Suc n)
  obtain rc t' where ins: "ngx_radix32tree_insert t (of_nat (j * 2 ^ m)) msk NGX_RADIX_NO_VALUE = Some (rc, t')"
    "radix_ok 32 t'" "entry t' = no_entry"
    using insert_nothing [OF Suc.prems(2,3)] by blast
  have key: "of_nat (j * 2 ^ m) + 2 ^ m = (of_nat (Suc j * 2 ^ m) :: uint32)" by (simp add: algebra_simps)
  show ?case
  proof (cases "rc = NGX_OK \<and> (of_nat (Suc j * 2 ^ m) :: uint32) \<noteq> 0")
    case False
    then show ?thesis using ins unfolding key [symmetric] by (subst prealloc_row.simps) (auto simp: add.commute)
  next
    case True
    have "Suc j \<noteq> 2 ^ (32 - m)"
    proof
      assume "Suc j = 2 ^ (32 - m)"
      then have "Suc j * 2 ^ m = 2 ^ 32" using assms(1) by (simp only: power_add [symmetric]) simp
      then have "(of_nat (Suc j * 2 ^ m) :: uint32) = of_nat (2 ^ 32)" by (rule arg_cong)
      also have "\<dots> = 0" by simp
      finally show False using True by simp
    qed
    with Suc.prems(1) have j: "Suc j < 2 ^ (32 - m)" by simp
    have "prealloc_row t (of_nat (j * 2 ^ m)) msk (2 ^ m) = prealloc_row t' (of_nat (Suc j * 2 ^ m)) msk (2 ^ m)"
      using ins(1) True unfolding key [symmetric] by (subst prealloc_row.simps) auto
    then show ?thesis using Suc.hyps(1) [of "Suc j" t'] Suc.hyps(2) j ins(2,3) by simp
  qed
qed simp

lemma prealloc_row_zero:
  assumes "radix_ok 32 t" "entry t = no_entry"
  shows "\<exists>r. prealloc_row t 0 msk 0 = Some r \<and>
    (case r of None \<Rightarrow> True | Some t' \<Rightarrow> radix_ok 32 t' \<and> entry t' = no_entry)"
  using insert_nothing [OF assms, of 0 msk] by (subst prealloc_row.simps) auto

lemma prealloc_spec:
  assumes "radix_ok 32 t" "entry t = no_entry" "inc = 0 \<or> (\<exists>m<32. inc = 2 ^ m)"
  shows "\<exists>r. prealloc t n msk inc = Some r \<and>
    (case r of None \<Rightarrow> True | Some t' \<Rightarrow> radix_ok 32 t' \<and> entry t' = no_entry)"
  using assms
proof (induction n arbitrary: t msk inc)
  case (Suc n)
  let ?msk = "drop_bit 1 msk OR 0x80000000"
  have inc: "drop_bit 1 inc = 0 \<or> (\<exists>m<32. drop_bit 1 inc = 2 ^ m)"
  proof (cases "inc = 0")
    case False
    then obtain m where m: "m < 32" "inc = 2 ^ m" using Suc.prems(3) by blast
    show ?thesis
    proof (cases m)
      case (Suc k)
      then have "k < 32" "drop_bit 1 inc = 2 ^ k" using m drop_bit_one [where ?'a = 32, of k] by simp_all
      then show ?thesis by blast
    qed (simp add: m)
  qed simp
  have "\<exists>r. prealloc_row t 0 ?msk inc = Some r \<and>
      (case r of None \<Rightarrow> True | Some t' \<Rightarrow> radix_ok 32 t' \<and> entry t' = no_entry)"
  proof (cases "inc = 0")
    case True
    then show ?thesis using prealloc_row_zero [OF Suc.prems(1,2)] by simp
  next
    case False
    then obtain m where m: "m < 32" "inc = 2 ^ m" using Suc.prems(3) by blast
    then show ?thesis using prealloc_row_spec [OF m(1), of 0 t] Suc.prems(1,2) by simp
  qed
  then obtain r where r: "prealloc_row t 0 ?msk inc = Some r"
    "case r of None \<Rightarrow> True | Some t' \<Rightarrow> radix_ok 32 t' \<and> entry t' = no_entry" by blast
  show ?case
  proof (cases r)
    case None
    then show ?thesis using r by simp
  next
    case (Some t')
    then show ?thesis using r Suc.IH [OF _ _ inc, of t' ?msk] by simp
  qed
qed simp

text \<open>Pages that do not overlap.\<close>

definition pool_ok :: "nat \<Rightarrow> nat list \<Rightarrow> bool" where
  "pool_ok pagesize pool \<longleftrightarrow> node_size \<le> pagesize \<and> distinct (concat (map (\<lambda>page. chunks page pagesize) pool))"

lemma create_root:
  assumes "pool_ok ps pool" "pool \<noteq> []"
  defines "t0 \<equiv> \<lparr>rt_root = 0, rt_free = None, rt_start = 0, rt_size = 0, rt_pool = pool, rt_pagesize = ps, rt_nodes = Map.empty\<rparr>"
  obtains root t1 where "ngx_radix_alloc t0 = Some (Some root, t1)"
    "radix_ok 32 (t1\<lparr>rt_root := root, rt_nodes := (rt_nodes t1)(root \<mapsto> \<lparr>rn_right = None, rn_left = None,
       rn_parent = None, rn_value = NGX_RADIX_NO_VALUE\<rparr>)\<rparr>)"
    "entry (t1\<lparr>rt_root := root, rt_nodes := (rt_nodes t1)(root \<mapsto> \<lparr>rn_right = None, rn_left = None,
       rn_parent = None, rn_value = NGX_RADIX_NO_VALUE\<rparr>)\<rparr>) = no_entry"
proof -
  obtain page rest where pool: "pool = page # rest" using assms(2) by (cases pool) auto
  define t1 where "t1 = snd (radix_take (t0\<lparr>rt_start := page, rt_size := ps, rt_pool := rest\<rparr>))"
  have al: "ngx_radix_alloc t0 = Some (Some page, t1)"
    by (simp add: ngx_radix_alloc_def t0_def pool t1_def radix_take_def)
  define nd where "nd = \<lparr>rn_right = None, rn_left = None, rn_parent = None, rn_value = NGX_RADIX_NO_VALUE\<rparr>"
  define t where "t = t1\<lparr>rt_root := page, rt_nodes := (rt_nodes t1)(page \<mapsto> nd)\<rparr>"
  define A where "A = (\<lambda>p :: bool list. if p = [] then Some page else None)"
  have ps: "node_size \<le> ps" using assms(1) by (simp add: pool_ok_def)
  have av: "page # avail t = concat (map (\<lambda>page. chunks page ps) pool)"
    by (simp add: t_def t1_def radix_take_def t0_def avail_def pool chunks_take [OF ps])
  have nodes: "rt_nodes t = [page \<mapsto> nd]" by (simp add: t_def t1_def radix_take_def t0_def)
  have "shape (rt_nodes t) (rt_root t) A"
    by (rule shapeI) (auto simp: A_def nodes t_def nd_def node_at_def up_of_def split: if_splits)
  moreover have "distinct (page # avail t)" unfolding av using assms(1) by (simp add: pool_ok_def)
  moreover have "rt_free t = None" "rt_pagesize t = ps" by (simp_all add: t_def t1_def radix_take_def t0_def)
  ultimately have inv: "radix_inv t A []" using ps nodes by (auto simp: radix_inv_def)
  moreover have "deep A 32" by (simp add: deep_def A_def)
  moreover have "stored (rt_nodes t) A = no_entry" by (auto simp: fun_eq_iff stored_def A_def nodes nd_def no_entry_def)
  ultimately have "radix_ok 32 t" "entry t = no_entry" by (auto simp: radix_ok_def entry_stored)
  then show thesis using that [OF al] by (simp add: t_def nd_def)
qed

lemma radix_create:
  assumes "pool_ok ps pool"
  shows "\<exists>r. ngx_radix_tree_create ps pool pre = Some r \<and>
    (case r of None \<Rightarrow> True | Some t \<Rightarrow> radix_ok 32 t \<and> entry t = no_entry) \<and> (pool = [] \<longrightarrow> r = None)"
proof (cases "pool = []")
  case True
  then show ?thesis by (simp add: ngx_radix_tree_create_def ngx_radix_alloc_def)
next
  case False
  have inc: "(0x80000000 :: uint32) = 0 \<or> (\<exists>m<32. (0x80000000 :: uint32) = 2 ^ m)"
    by (intro disjI2 exI [of _ 31]) simp
  show ?thesis
  proof (rule create_root [OF assms False], goal_cases)
    case (1 root t1)
    from prealloc_spec [OF 1(2,3) inc, of "prealloc_bits ps pre" 0] 1(1) False show ?case
      by (auto simp: ngx_radix_tree_create_def Let_def)
  qed
qed

section \<open>The interface of a table of prefixes\<close>

lemma longest_prefix_cong: "(\<And>n. f (take n key) = g (take n key)) \<Longrightarrow> longest_prefix f key = longest_prefix g key"
  unfolding longest_prefix_def by (simp only:)

text \<open>
  What the users of the trees (the \<^verbatim>\<open>geo\<close> and \<^verbatim>\<open>access\<close> configurations) rely on, for any kind of key: a successful
  insertion stores a value for a prefix, and a search takes the longest prefix.
\<close>

locale prefix_table =
  fixes ok :: "'t \<Rightarrow> bool" and content :: "'t \<Rightarrow> bool list \<Rightarrow> ngx_uint_t"
    and ins :: "'t \<Rightarrow> 'k \<Rightarrow> 'k \<Rightarrow> ngx_uint_t \<Rightarrow> (ngx_rc \<times> 't) option" and find :: "'t \<Rightarrow> 'k \<Rightarrow> ngx_uint_t option"
    and key_ok :: "'k \<Rightarrow> bool" and key_bits :: "'k \<Rightarrow> bool list" and net :: "'k \<Rightarrow> 'k \<Rightarrow> bool list"
  assumes ins_stores: "ok t \<Longrightarrow> ins t k m v = Some (NGX_OK, t') \<Longrightarrow> ok t' \<and> content t' = (content t)(net k m := v)"
    and find_longest: "ok t \<Longrightarrow> key_ok k \<Longrightarrow> find t k = Some (longest_prefix (content t) (key_bits k))"
begin

lemma find_other:
  assumes "ok t" "ins t k m v = Some (NGX_OK, t')" "key_ok k'" "\<not> prefix (net k m) (key_bits k')"
  shows "find t' k' = find t k'"
proof -
  have "take n (key_bits k') \<noteq> net k m" for n using assms(4) take_is_prefix by metis
  then have "longest_prefix ((content t)(net k m := v)) (key_bits k') = longest_prefix (content t) (key_bits k')"
    by (intro longest_prefix_cong) simp
  with assms ins_stores find_longest show ?thesis by metis
qed

lemma find_inserted:
  assumes "ok t" "ins t k m v = Some (NGX_OK, t')" "key_ok k'" "prefix (net k m) (key_bits k')" "v \<noteq> NGX_RADIX_NO_VALUE"
    and "\<And>q. prefix q (key_bits k') \<Longrightarrow> length (net k m) < length q \<Longrightarrow> content t q = NGX_RADIX_NO_VALUE"
  shows "find t' k' = Some v"
proof -
  define g where "g = (content t)(net k m := v)"
  have g: "g (net k m) = v" "q \<noteq> net k m \<Longrightarrow> g q = content t q" for q by (simp_all add: g_def)
  have "longest_prefix g (net k m @ zs) = v"
    if "\<And>q. prefix q (net k m @ zs) \<Longrightarrow> length (net k m) < length q \<Longrightarrow> content t q = NGX_RADIX_NO_VALUE" for zs
    using that
  proof (induction zs rule: rev_induct)
    case Nil
    show ?case using assms(5) g(1) longest_prefix_snoc [of g "butlast (net k m)" "last (net k m)"]
      by (cases "net k m = []") (simp_all add: longest_prefix_def)
  next
    case (snoc z zs)
    have "longest_prefix g (net k m @ zs) = v" by (rule snoc.IH) (meson snoc.prems prefix_order.trans prefix_append prefixI append.assoc)
    moreover have "g (net k m @ zs @ [z]) = NGX_RADIX_NO_VALUE" using snoc.prems [of "net k m @ zs @ [z]"] by (simp add: g(2))
    ultimately show ?case using longest_prefix_snoc [of g "net k m @ zs" z] by simp
  qed
  moreover obtain zs where "key_bits k' = net k m @ zs" using assms(4) by (auto simp: prefix_def)
  ultimately have "longest_prefix g (key_bits k') = v" using assms(6) by metis
  with assms ins_stores find_longest show ?thesis unfolding g_def by metis
qed

end

section \<open>Properties\<close>

text \<open>The prefix that a key and a mask name.\<close>

definition prefix32 :: "uint32 \<Rightarrow> uint32 \<Rightarrow> bool list" where
  "prefix32 key msk = map (kb32 key) (takeWhile (kb32 msk) [0..<32])"

definition prefix128 :: "buffer \<Rightarrow> buffer \<Rightarrow> bool list" where
  "prefix128 key msk = map (kb128 key) (takeWhile (kb128 msk) [0..<128])"

text \<open>
  What an insertion may do to a tree that is well formed to depth \<open>n\<close>: refuse a prefix that has a value, store
  the value, or fail for lack of memory without changing what is stored.
\<close>

definition inserted :: "nat \<Rightarrow> radix_tree \<Rightarrow> bool list \<Rightarrow> ngx_uint_t \<Rightarrow> (ngx_rc \<times> radix_tree) option \<Rightarrow> bool" where
  "inserted n t p v r =
     (case r of
        None \<Rightarrow> False
      | Some (rc, t') \<Rightarrow>
          radix_ok n t' \<and>
          (if entry t p \<noteq> NGX_RADIX_NO_VALUE then rc = NGX_BUSY \<and> t' = t
           else rc = NGX_OK \<and> entry t' = (entry t)(p := v) \<or>
             rc = NGX_ERROR \<and> entry t' = entry t \<and> length (rt_pool t) * (rt_pagesize t div 32) < length p))"

definition deleted :: "nat \<Rightarrow> radix_tree \<Rightarrow> bool list \<Rightarrow> (ngx_rc \<times> radix_tree) option \<Rightarrow> bool" where
  "deleted n t p r =
     (case r of
        None \<Rightarrow> False
      | Some (rc, t') \<Rightarrow>
          radix_ok n t' \<and>
          (rc = NGX_OK \<and> entry t' = (entry t)(p := NGX_RADIX_NO_VALUE) \<or>
           rc = NGX_ERROR \<and> t' = t \<and> entry t p = NGX_RADIX_NO_VALUE))"

lemma radix_ok_mono: "radix_ok n t \<Longrightarrow> n \<le> k \<Longrightarrow> radix_ok k t"
  by (auto simp: radix_ok_def deep_def) (meson le_trans)

lemma inserted_spec: "radix_ok n t \<Longrightarrow> length p \<le> n \<Longrightarrow> inserted n t p v (radix_insert t p v)"
  using radix_insert_spec [of n t p v] by (auto simp: inserted_def)

lemma deleted_spec: "radix_ok n t \<Longrightarrow> p \<noteq> [] \<Longrightarrow> deleted n t p (radix_delete t p)"
  using radix_delete_spec [of n t p] by (auto simp: deleted_def)

text \<open>The tree of the witnesses: one page, no nodes but the root.\<close>

lemma sample_tree:
  obtains t where "ngx_radix_tree_create 4096 [4096] (Some 0) = Some (Some t)" "radix_ok 32 t" "entry t = no_entry"
proof -
  have "pool_ok 4096 [4096]" by (simp add: pool_ok_def chunks_def distinct_map inj_on_def)
  then show thesis using radix_create [of 4096 "[4096]" "Some 0"] that
    by (auto simp: ngx_radix_tree_create_def prealloc_bits_def ngx_radix_alloc_def radix_take_def)
qed

text \<open>
  \<^verbatim>\<open>ngx_radix_tree_create\<close> returns, without a wild pointer, for every number of preallocated bits and every
  pool of pages that do not overlap; the tree it returns is well formed and stores nothing.
\<close>

theorem radix_tree_create_empty:
  assumes "pool_ok ps pool" "pool \<noteq> []"
  shows "case ngx_radix_tree_create ps pool pre of
      None \<Rightarrow> False
    | Some None \<Rightarrow> True
    | Some (Some t) \<Rightarrow> radix_ok 32 t \<and> entry t = no_entry"
  using radix_create [OF assms(1), of pre] by (auto split: option.splits)

theorem radix_tree_create_empty_witness:
  "pool_ok 64 [64, 128] \<and>
   (case ngx_radix_tree_create 64 [64, 128] (Some 1) of
      None \<Rightarrow> False
    | Some None \<Rightarrow> True
    | Some (Some t) \<Rightarrow> radix_ok 32 t \<and> entry t = no_entry)"
proof -
  have "pool_ok 64 [64, 128]" by code_simp
  then show ?thesis using radix_tree_create_empty [of 64 "[64, 128]" "Some 1"] by simp
qed

text \<open>
  Insertion, for keys of 32 bits and of 16 bytes: a prefix that has a value is refused as busy and
  the tree stays as it is; otherwise the value is stored for exactly that prefix, or, if the pool has not enough pages
  left, the insertion fails and nothing stored changes.  The tree is well formed in each case, parent pointers,
  free list and unused memory included.
\<close>

theorem radix_insert_stores:
  assumes "radix_ok 32 t" "radix_ok 128 u"
  shows "inserted 32 t (prefix32 key msk) v (ngx_radix32tree_insert t key msk v) \<and>
    inserted 128 u (prefix128 k m) v (ngx_radix128tree_insert u k m v)"
  using inserted_spec [OF assms(1) masked_length(1)] inserted_spec [OF assms(2) masked_length(2)]
  by (simp add: ngx_radix32tree_insert_def ngx_radix128tree_insert_def masked32 masked128 prefix32_def prefix128_def)

theorem radix_insert_stores_witness:
  "\<exists>t. ngx_radix_tree_create 4096 [4096] (Some 0) = Some (Some t) \<and> radix_ok 32 t \<and>
     inserted 32 t (prefix32 0x0a000000 0xff000000) 7 (ngx_radix32tree_insert t 0x0a000000 0xff000000 7)"
proof -
  obtain t where t: "ngx_radix_tree_create 4096 [4096] (Some 0) = Some (Some t)" "radix_ok 32 t" using sample_tree .
  with radix_insert_stores [OF t(2) radix_ok_mono [OF t(2)], where key = "0x0a000000" and msk = "0xff000000" and v = 7] show ?thesis by auto
qed

lemma find32_spec: "radix_ok 32 t \<Longrightarrow> ngx_radix32tree_find t key = Some (longest_prefix (entry t) (bits32 key))"
proof -
  assume "radix_ok 32 t"
  then obtain A F where a: "radix_inv t A F" "deep A 32" by (auto simp: radix_ok_def)
  then have sh: "shape (rt_nodes t) (rt_root t) A" by (simp add: radix_inv_def)
  show ?thesis
    using find32_loop_spec [OF sh a(2), of 0 key NGX_RADIX_NO_VALUE] entry_stored [OF a(1)] shape_root [OF sh]
    by (simp add: ngx_radix32tree_find_def lookup_longest)
qed

lemma find128_spec:
  "radix_ok 128 u \<Longrightarrow> 16 < length k \<Longrightarrow> ngx_radix128tree_find u k = Some (longest_prefix (entry u) (bits128 k))"
proof -
  assume "radix_ok 128 u" "16 < length k"
  then obtain B G where b: "radix_inv u B G" "deep B 128" by (auto simp: radix_ok_def)
  then have sh: "shape (rt_nodes u) (rt_root u) B" by (simp add: radix_inv_def)
  show ?thesis
    using find128_loop_spec [OF sh b(2), of k 0 NGX_RADIX_NO_VALUE] entry_stored [OF b(1)] shape_root [OF sh] \<open>16 < length k\<close>
    by (simp add: ngx_radix128tree_find_def lookup_longest)
qed

text \<open>
  C23.  The searches return the value of the longest stored prefix of the key, and the mark for no value if
  there is none; the search by bytes is given a key with at least one byte behind its sixteen.
\<close>

theorem radix_find_longest_prefix:
  assumes "radix_ok 32 t" "radix_ok 128 u" "16 < length k"
  shows "ngx_radix32tree_find t key = Some (longest_prefix (entry t) (bits32 key)) \<and>
    ngx_radix128tree_find u k = Some (longest_prefix (entry u) (bits128 k))"
  using find32_spec [OF assms(1)] find128_spec [OF assms(2,3)] by blast

interpretation table32: prefix_table "radix_ok 32" entry ngx_radix32tree_insert ngx_radix32tree_find "\<lambda>_. True" bits32 prefix32
proof unfold_locales
  fix t k m v t' assume "radix_ok 32 t" "ngx_radix32tree_insert t k m v = Some (NGX_OK, t')"
  then show "radix_ok 32 t' \<and> entry t' = (entry t)(prefix32 k m := v)"
    using inserted_spec [OF _ masked_length(1), of t k m v]
    by (auto simp: ngx_radix32tree_insert_def masked32 prefix32_def inserted_def split: if_splits)
next
  fix t k assume "radix_ok 32 t" "True"
  then show "ngx_radix32tree_find t k = Some (longest_prefix (entry t) (bits32 k))" by (simp add: find32_spec)
qed

interpretation table128: prefix_table "radix_ok 128" entry ngx_radix128tree_insert ngx_radix128tree_find
  "\<lambda>k. 16 < length k" bits128 prefix128
proof unfold_locales
  fix t k m v t' assume "radix_ok 128 t" "ngx_radix128tree_insert t k m v = Some (NGX_OK, t')"
  then show "radix_ok 128 t' \<and> entry t' = (entry t)(prefix128 k m := v)"
    using inserted_spec [OF _ masked_length(2), of t k m v]
    by (auto simp: ngx_radix128tree_insert_def masked128 prefix128_def inserted_def split: if_splits)
next
  fix t and k :: buffer assume "radix_ok 128 t" "16 < length k"
  then show "ngx_radix128tree_find t k = Some (longest_prefix (entry t) (bits128 k))" by (simp add: find128_spec)
qed

text \<open>
  C24.  A value that was inserted for a network is found for every address of the network for which no longer
  prefix was stored, and the search for an address outside the network gives what it gave before.
\<close>

theorem radix_insert_then_find:
  assumes "radix_ok 32 t" "ngx_radix32tree_insert t key msk v = Some (NGX_OK, t')" "v \<noteq> NGX_RADIX_NO_VALUE"
  shows "if prefix (prefix32 key msk) (bits32 a)
    then (\<forall>q. prefix q (bits32 a) \<longrightarrow> length (prefix32 key msk) < length q \<longrightarrow> entry t q = NGX_RADIX_NO_VALUE) \<longrightarrow>
      ngx_radix32tree_find t' a = Some v
    else ngx_radix32tree_find t' a = ngx_radix32tree_find t a"
  using table32.find_inserted [OF assms(1,2) TrueI _ assms(3), of a] table32.find_other [OF assms(1,2) TrueI, of a]
  by auto

text \<open>A tree with one network, 10.0.0.0/8, also taken as a tree of longer keys.\<close>

lemma prefix_net: "prefix32 0x0a000000 0xff000000 = [False, False, False, False, True, False, True, False]"
proof -
  have "masked_bits32 0x0a000000 0xff000000 0x80000000 = [False, False, False, False, True, False, True, False]" by code_simp
  then show ?thesis by (simp add: prefix32_def masked32)
qed

lemma sample_net:
  obtains t t' where "radix_ok 32 t" "entry t = no_entry" "ngx_radix32tree_insert t 0x0a000000 0xff000000 7 = Some (NGX_OK, t')"
    "radix_ok 32 t'" "entry t' = no_entry([False, False, False, False, True, False, True, False] := 7)"
proof -
  obtain t where t: "ngx_radix_tree_create 4096 [4096] (Some 0) = Some (Some t)" "radix_ok 32 t" "entry t = no_entry"
    using sample_tree .
  have m: "masked_bits32 0x0a000000 0xff000000 0x80000000 = [False, False, False, False, True, False, True, False]"
    by code_simp
  have "\<exists>t'. ngx_radix32tree_insert t 0x0a000000 0xff000000 7 = Some (NGX_OK, t')"
    using t(1) by (auto simp: ngx_radix32tree_insert_def m ngx_radix_tree_create_def prealloc_bits_def ngx_radix_alloc_def
        radix_take_def radix_insert_def child_def set_child_def set_value_def)
  then obtain t' where t': "ngx_radix32tree_insert t 0x0a000000 0xff000000 7 = Some (NGX_OK, t')" ..
  from table32.ins_stores [OF t(2) t'] t t' that show thesis by (simp add: prefix_net)
qed

theorem radix_find_longest_prefix_witness:
  "\<exists>t. radix_ok 32 t \<and> ngx_radix32tree_find t 0x0a010203 = Some 7 \<and> ngx_radix32tree_find t 0x0b010203 = Some NGX_RADIX_NO_VALUE \<and>
     ngx_radix128tree_find t (0x0a # replicate 16 0) = Some 7"
proof -
  let ?g = "no_entry([False, False, False, False, True, False, True, False] := 7)"
  obtain t where t: "radix_ok 32 t" "entry t = ?g" by (rule sample_net)
  have "longest_prefix ?g (bits32 0x0a010203) = 7" "longest_prefix ?g (bits32 0x0b010203) = NGX_RADIX_NO_VALUE"
    by (simp_all add: longest_prefix_def no_entry_def bits32_def kb32_def upt_rec)
  moreover have "longest_prefix ?g (bits128 (0x0a # replicate 16 0)) = 7" by code_simp
  ultimately show ?thesis
    using t radix_find_longest_prefix [OF t(1) radix_ok_mono [OF t(1)], where k = "0x0a # replicate 16 0" and key = "0x0a010203"]
      radix_find_longest_prefix [OF t(1) radix_ok_mono [OF t(1)], where k = "0x0a # replicate 16 0" and key = "0x0b010203"]
    by (intro exI [of _ t]) simp
qed

theorem radix_insert_then_find_witness:
  "\<exists>t t'. radix_ok 32 t \<and> ngx_radix32tree_insert t 0x0a000000 0xff000000 7 = Some (NGX_OK, t') \<and>
     ngx_radix32tree_find t' 0x0a010203 = Some 7 \<and> ngx_radix32tree_find t' 0x0b010203 = ngx_radix32tree_find t 0x0b010203"
proof -
  obtain t t' where t: "radix_ok 32 t" "entry t = no_entry" and t': "ngx_radix32tree_insert t 0x0a000000 0xff000000 7 = Some (NGX_OK, t')"
    by (rule sample_net)
  have "prefix (prefix32 0x0a000000 0xff000000) (bits32 0x0a010203)"
    "\<not> prefix (prefix32 0x0a000000 0xff000000) (bits32 0x0b010203)"
    by (simp_all add: prefix_net bits32_def kb32_def upt_rec)
  then show ?thesis
    using t t' radix_insert_then_find [OF t(1) t', of "0x0a010203"] radix_insert_then_find [OF t(1) t', of "0x0b010203"]
    by (auto simp: no_entry_def)
qed

text \<open>
  Deletion of a prefix that is not the empty one: it removes the value of exactly that prefix, giving back the
  nodes that carry nothing any more, or reports an error, and then nothing was stored for the prefix and
  the tree is unchanged.
\<close>

theorem radix_delete_removes:
  assumes "radix_ok 32 t" "radix_ok 128 u" "prefix32 key msk \<noteq> []" "prefix128 k m \<noteq> []"
  shows "deleted 32 t (prefix32 key msk) (ngx_radix32tree_delete t key msk) \<and>
    deleted 128 u (prefix128 k m) (ngx_radix128tree_delete u k m)"
  using deleted_spec [OF assms(1,3)] deleted_spec [OF assms(2,4)]
  by (simp add: ngx_radix32tree_delete_def ngx_radix128tree_delete_def masked32 masked128 prefix32_def prefix128_def)

theorem radix_delete_removes_witness:
  "\<exists>t. ngx_radix_tree_create 4096 [4096] (Some 0) = Some (Some t) \<and> radix_ok 32 t \<and>
     deleted 32 t (prefix32 0x0a000000 0xff000000) (ngx_radix32tree_delete t 0x0a000000 0xff000000)"
proof -
  obtain t where t: "ngx_radix_tree_create 4096 [4096] (Some 0) = Some (Some t)" "radix_ok 32 t" using sample_tree .
  have "prefix32 0x0a000000 0xff000000 \<noteq> []" "prefix128 (replicate 16 255) (replicate 16 255) \<noteq> []"
    by (simp_all add: prefix32_def prefix128_def kb32_def kb128_def upt_rec)
  with t radix_delete_removes [OF t(2) radix_ok_mono [OF t(2)], where key = "0x0a000000" and msk = "0xff000000"] show ?thesis by auto
qed

text \<open>
  The search by bytes looks at \<open>key[i]\<close> also when it has reached a leaf behind all 128 bits: with a key of
  sixteen bytes for which a value is stored, it reads the byte behind the key.
\<close>

theorem radix128_find_reads_past_key:
  assumes "radix_ok 128 u" "length k = 16" "entry u (bits128 k) \<noteq> NGX_RADIX_NO_VALUE"
  shows "ngx_radix128tree_find u k = None"
proof -
  obtain B G where b: "radix_inv u B G" "deep B 128" using assms(1) by (auto simp: radix_ok_def)
  have sh: "shape (rt_nodes u) (rt_root u) B" using b by (simp add: radix_inv_def)
  have "B (bits128 k) \<noteq> None" using assms(3) entry_stored [OF b(1)] by (auto simp: stored_def split: option.splits)
  then show ?thesis
    using find128_loop_spec [OF sh b(2), of k 0 NGX_RADIX_NO_VALUE] assms(2) shape_root [OF sh]
    by (simp add: ngx_radix128tree_find_def)
qed

text \<open>Deleting the empty prefix from a tree that has only its root follows the root's missing parent.\<close>

theorem radix_delete_root_crashes:
  assumes "rt_nodes t (rt_root t) = Some \<lparr>rn_right = None, rn_left = None, rn_parent = None, rn_value = v\<rparr>"
  shows "ngx_radix32tree_delete t key 0 = None"
proof -
  have "masked_bits32 key 0 0x80000000 = []" by (subst masked_bits32.simps) simp
  moreover have "del_loop t (rt_root t) = None" using assms by (subst del_loop.simps) (simp add: unlink_def)
  ultimately show ?thesis using assms by (simp add: ngx_radix32tree_delete_def radix_delete_def)
qed

end
