(* ===== verification/Upstream_Rr.thy ===== *)
theory Upstream_Rr
  imports Ngx_Sort "HOL-Library.Multiset"
begin

unbundle bit_operations_syntax

text \<open>
  Choosing a server: \<^verbatim>\<open>src/http/ngx_http_upstream_round_robin.c\<close> (the smooth weighted round robin with its failure
  accounting and backup servers).  A peer is a record, a group of peers a list in the order of the array; the
  bits of \<open>tried\<close> are kept in words.  Weights are signed 64-bit numbers: integers, with the wrap64-around written out.
\<close>

section \<open>Peers\<close>

record rr_peer =
  rp_name :: buffer
  current_weight :: int
  effective_weight :: int
  weight :: int
  fails :: ngx_uint_t
  accessed :: int
  checked :: int
  max_fails :: ngx_uint_t
  fail_timeout :: int
  down :: bool

record rr_group =
  rg_single :: bool
  rg_weighted :: bool
  rg_total_weight :: ngx_uint_t
  rg_peers :: "rr_peer list"

text \<open>
  The state of a request: the groups of its upstream (shared between requests), whether it has gone over to
  the backup group, the peer chosen last, the peers tried, and \<^verbatim>\<open>pc->tries\<close> and \<^verbatim>\<open>pc->name\<close> of the connection
  (\<open>None\<close> is the name of the upstream itself, which the log shows when no peer is live).
  The other balancers put fields of their own behind these, and the operations leave them alone.
  The cache of connections (\<^verbatim>\<open>last_cached\<close>) is never filled by the program and left out.
\<close>

record rr_data =
  rr_main :: rr_group
  rr_backup :: "rr_group option"
  rr_on_backup :: bool
  rr_current :: nat
  rr_tried :: "ngx_uint_t list"
  pc_tries :: ngx_uint_t
  pc_name :: "buffer option"

definition wrap64 :: "int \<Rightarrow> int" where
  "wrap64 x = (x + 2 ^ 63) mod 2 ^ 64 - 2 ^ 63"

definition is_tried :: "ngx_uint_t list \<Rightarrow> nat \<Rightarrow> bool" where
  "is_tried tried i \<longleftrightarrow> (tried ! (i div 64)) AND push_bit (i mod 64) 1 \<noteq> 0"

definition mark_tried :: "ngx_uint_t list \<Rightarrow> nat \<Rightarrow> ngx_uint_t list" where
  "mark_tried tried i = tried[i div 64 := (tried ! (i div 64)) OR push_bit (i mod 64) 1]"

section \<open>The smooth weighted choice\<close>

text \<open>The three \<^verbatim>\<open>continue\<close>s of the loop.\<close>

definition skip_peer :: "int \<Rightarrow> ngx_uint_t list \<Rightarrow> nat \<Rightarrow> rr_peer \<Rightarrow> bool" where
  "skip_peer now tried i p \<longleftrightarrow>
     is_tried tried i \<or> down p \<or>
     max_fails p \<noteq> 0 \<and> fails p \<ge> max_fails p \<and> now - checked p \<le> fail_timeout p"

definition bump :: "rr_peer \<Rightarrow> rr_peer" where
  "bump p =
     (let p = p\<lparr>current_weight := wrap64 (current_weight p + effective_weight p)\<rparr> in
      if effective_weight p < weight p then p\<lparr>effective_weight := effective_weight p + 1\<rparr> else p)"

text \<open>The best peer so far is kept with its index and its weight.\<close>

definition better :: "nat \<Rightarrow> rr_peer \<Rightarrow> (nat \<times> int) option \<Rightarrow> (nat \<times> int) option" where
  "better i p best =
     (case best of
        None \<Rightarrow> Some (i, current_weight p)
      | Some (j, w) \<Rightarrow> if current_weight p > w then Some (i, current_weight p) else best)"

text \<open>The loop: the updated peers, the best one and the total.\<close>

fun gp_loop :: "int \<Rightarrow> ngx_uint_t list \<Rightarrow> nat \<Rightarrow> rr_peer list \<Rightarrow> (nat \<times> int) option \<Rightarrow> int \<Rightarrow>
    rr_peer list \<times> (nat \<times> int) option \<times> int" where
  "gp_loop now tried i [] best ttl = ([], best, ttl)"
| "gp_loop now tried i (p # ps) best ttl =
     (if skip_peer now tried i p
      then apfst ((#) p) (gp_loop now tried (Suc i) ps best ttl)
      else apfst ((#) (bump p))
             (gp_loop now tried (Suc i) ps (better i (bump p) best) (wrap64 (ttl + effective_weight p))))"

definition ngx_http_upstream_get_peer ::
    "int \<Rightarrow> ngx_uint_t list \<Rightarrow> rr_peer list \<Rightarrow> (nat \<times> ngx_uint_t list \<times> rr_peer list) option" where
  "ngx_http_upstream_get_peer now tried peers =
     (let (ps, best, ttl) = gp_loop now tried 0 peers None 0 in
      case best of
        None \<Rightarrow> None
      | Some (i, _) \<Rightarrow>
          Some (i, mark_tried tried i,
            ps[i := (ps ! i)\<lparr>current_weight := wrap64 (current_weight (ps ! i) - ttl), checked := now\<rparr>]))"

section \<open>A request asks for a peer\<close>

definition group_of :: "'a rr_data_scheme \<Rightarrow> rr_group" where
  "group_of r = (if rr_on_backup r then the (rr_backup r) else rr_main r)"

definition set_peers :: "rr_peer list \<Rightarrow> 'a rr_data_scheme \<Rightarrow> 'a rr_data_scheme" where
  "set_peers ps r =
     (if rr_on_backup r then r\<lparr>rr_backup := Some ((the (rr_backup r))\<lparr>rg_peers := ps\<rparr>)\<rparr>
      else r\<lparr>rr_main := (rr_main r)\<lparr>rg_peers := ps\<rparr>\<rparr>)"

text \<open>Is there a group behind the current one?\<close>

definition has_next :: "'a rr_data_scheme \<Rightarrow> bool" where
  "has_next r \<longleftrightarrow> \<not> rr_on_backup r \<and> rr_backup r \<noteq> None"

text \<open>Up to the label \<^verbatim>\<open>failed\<close>; \<open>None\<close> is the jump there.\<close>

definition rr_attempt :: "int \<Rightarrow> 'a rr_data_scheme \<Rightarrow> 'a rr_data_scheme option" where
  "rr_attempt now r =
     (let g = group_of r in
      case (if rg_single g then
              (if down (rg_peers g ! 0) then None else Some (r, rg_peers g ! 0))
            else
              (case ngx_http_upstream_get_peer now (rr_tried r) (rg_peers g) of
                 None \<Rightarrow> None
               | Some (i, tried, ps) \<Rightarrow>
                   Some (set_peers ps (r\<lparr>rr_current := i, rr_tried := tried\<rparr>), ps ! i))) of
        None \<Rightarrow> None
      | Some (r, p) \<Rightarrow>
          (let r = r\<lparr>pc_name := Some (rp_name p)\<rparr> in
           Some (if pc_tries r = 1 \<and> has_next r
                 then r\<lparr>pc_tries := pc_tries r + of_nat (length (rg_peers (the (rr_backup r))))\<rparr> else r)))"

text \<open>When all peers of a group have failed they are marked as live.\<close>

definition revive :: "rr_group \<Rightarrow> rr_group" where
  "revive g = g\<lparr>rg_peers := map (\<lambda>p. p\<lparr>fails := 0\<rparr>) (rg_peers g)\<rparr>"

definition to_backup :: "'a rr_data_scheme \<Rightarrow> 'a rr_data_scheme" where
  "to_backup r =
     (let n = length (rg_peers (the (rr_backup r)));
          words = (n + 63) div 64 in
      r\<lparr>rr_on_backup := True, pc_tries := of_nat n,
        rr_tried := replicate words 0 @ drop words (rr_tried r)\<rparr>)"

definition ngx_http_upstream_get_round_robin_peer :: "int \<Rightarrow> 'a rr_data_scheme \<Rightarrow> ngx_rc \<times> 'a rr_data_scheme" where
  "ngx_http_upstream_get_round_robin_peer now r =
     (case rr_attempt now r of
        Some r \<Rightarrow> (NGX_OK, r)
      | None \<Rightarrow>
          if has_next r then
            (let r = to_backup r in
             case rr_attempt now r of
               Some r \<Rightarrow> (NGX_OK, r)
             | None \<Rightarrow>
                 (NGX_BUSY, r\<lparr>rr_backup := map_option revive (rr_backup r), rr_main := revive (rr_main r), pc_name := None\<rparr>))
          else if rr_on_backup r
          then (NGX_BUSY, r\<lparr>rr_backup := map_option revive (rr_backup r), pc_name := None\<rparr>)
          else (NGX_BUSY, r\<lparr>rr_main := revive (rr_main r), pc_name := None\<rparr>))"

text \<open>\<open>failed\<close> is the test of \<^verbatim>\<open>NGX_PEER_FAILED\<close>.  The quotient of the weight is one of unsigned numbers.\<close>

definition fail_peer :: "int \<Rightarrow> rr_peer \<Rightarrow> rr_peer" where
  "fail_peer now p =
     (let p = p\<lparr>fails := fails p + 1, accessed := now, checked := now\<rparr>;
          p = (if max_fails p \<noteq> 0
               then p\<lparr>effective_weight :=
                       wrap64 (effective_weight p - (weight p mod 2 ^ 64) div int (unat (max_fails p)))\<rparr> else p) in
      if effective_weight p < 0 then p\<lparr>effective_weight := 0\<rparr> else p)"

definition ngx_http_upstream_free_round_robin_peer :: "int \<Rightarrow> bool \<Rightarrow> 'a rr_data_scheme \<Rightarrow> 'a rr_data_scheme" where
  "ngx_http_upstream_free_round_robin_peer now failed r =
     (let g = group_of r in
      if rg_single g then r\<lparr>pc_tries := 0\<rparr>
      else
        (let ps = rg_peers g; p = ps ! rr_current r;
             p = (if failed then fail_peer now p else if accessed p < checked p then p\<lparr>fails := 0\<rparr> else p);
             r = set_peers (ps[rr_current r := p]) r in
         if pc_tries r \<noteq> 0 then r\<lparr>pc_tries := pc_tries r - 1\<rparr> else r))"

section \<open>Setting the groups up\<close>

record rr_server =
  sv_addrs :: "buffer list"
  sv_weight :: int
  sv_max_fails :: ngx_uint_t
  sv_fail_timeout :: int
  sv_down :: bool
  sv_backup :: bool

definition peers_of :: "rr_server \<Rightarrow> rr_peer list" where
  "peers_of s =
     map (\<lambda>a. \<lparr>rp_name = a, current_weight = 0, effective_weight = sv_weight s, weight = sv_weight s, fails = 0,
               accessed = 0, checked = 0, max_fails = sv_max_fails s, fail_timeout = sv_fail_timeout s,
               down = sv_down s\<rparr>) (sv_addrs s)"

definition ngx_http_upstream_cmp_servers :: "rr_peer \<Rightarrow> rr_peer \<Rightarrow> int" where
  "ngx_http_upstream_cmp_servers one two = (if weight one < weight two then 1 else 0)"

text \<open>The group of the main or of the backup servers; \<open>n\<close> and \<open>w\<close> are counted over the servers.\<close>

definition rr_group_of :: "bool \<Rightarrow> bool \<Rightarrow> rr_server list \<Rightarrow> rr_group" where
  "rr_group_of allocated backup servers =
     (let ss = filter (\<lambda>s. sv_backup s = backup) servers;
          n = (\<Sum>s\<leftarrow>ss. of_nat (length (sv_addrs s)));
          w = (\<Sum>s\<leftarrow>ss. of_nat (length (sv_addrs s)) * of_int (sv_weight s)) in
      \<lparr>rg_single = (\<not> backup \<and> n = 1), rg_weighted = (w \<noteq> n), rg_total_weight = w,
       rg_peers = ngx_sort allocated ngx_http_upstream_cmp_servers (concat (map peers_of ss))\<rparr>)"

text \<open>\<open>allocated\<close> tells whether the sort gets its buffer; the groups themselves are taken to be allocated.\<close>

definition ngx_http_upstream_init_round_robin :: "bool \<Rightarrow> rr_server list \<Rightarrow> (rr_group \<times> rr_group option) option" where
  "ngx_http_upstream_init_round_robin allocated servers =
     (let main = rr_group_of allocated False servers; backup = rr_group_of allocated True servers in
      if rg_peers main = [] then None
      else if rg_peers backup = [] then Some (main, None)
      else Some (main\<lparr>rg_single := False\<rparr>, Some backup))"

text \<open>The state of a new request; \<open>tried\<close> has a bit for every peer of the larger group.\<close>

definition ngx_http_upstream_init_round_robin_peer :: "rr_group \<times> rr_group option \<Rightarrow> rr_data" where
  "ngx_http_upstream_init_round_robin_peer us =
     (let (main, backup) = us;
          n = length (rg_peers main);
          n = (case backup of Some b \<Rightarrow> if length (rg_peers b) > n then length (rg_peers b) else n | None \<Rightarrow> n) in
      \<lparr>rr_main = main, rr_backup = backup, rr_on_backup = False, rr_current = 0,
       rr_tried = replicate (if n \<le> 64 then 1 else (n + 63) div 64) 0,
       pc_tries = of_nat (length (rg_peers main)), pc_name = None\<rparr>)"

end
