(* ===== verification/Upstream_Rr_Fair.thy ===== *)
theory Upstream_Rr_Fair
  imports Upstream_Rr
begin

unbundle bit_operations_syntax

text \<open>
  What the smooth weighted round robin of \<open>Upstream_Rr\<close> guarantees: which peer it chooses, that a request tries no
  peer twice, that the weights balance, and that peers are chosen exactly in proportion to their weights.
\<close>

section \<open>Wrapping and the bits of tried peers\<close>

lemma wrap64_id: "- (2 ^ 63) \<le> x \<Longrightarrow> x < 2 ^ 63 \<Longrightarrow> wrap64 x = x"
  by (simp add: wrap64_def)

lemma wrap64_mod: "wrap64 x mod 2 ^ 64 = x mod 2 ^ 64"
proof -
  have "wrap64 x mod 2 ^ 64 = ((x + 2 ^ 63) mod 2 ^ 64 - 2 ^ 63) mod 2 ^ 64" by (simp add: wrap64_def)
  also have "\<dots> = (x + 2 ^ 63 - 2 ^ 63) mod 2 ^ 64" by (rule mod_diff_left_eq)
  finally show ?thesis by simp
qed

lemma wrap64_cong: "a mod 2 ^ 64 = b mod 2 ^ 64 \<Longrightarrow> wrap64 a = wrap64 b"
  unfolding wrap64_def by (metis mod_add_left_eq)

lemma wrap64_add: "wrap64 (wrap64 a + b) = wrap64 (a + b)"
  by (rule wrap64_cong) (metis mod_add_left_eq wrap64_mod)

lemma and_one_bit: "(w :: ngx_uint_t) AND push_bit k 1 \<noteq> 0 \<longleftrightarrow> bit w k" if "k < 64"
proof -
  have "w AND push_bit k 1 = (if bit w k then push_bit k 1 else 0)"
    by (rule bit_word_eqI) (auto simp: bit_simps)
  moreover have "push_bit k (1 :: ngx_uint_t) \<noteq> 0" using that by (simp add: push_bit_eq_mult)
  ultimately show ?thesis by auto
qed

lemma is_tried_bit: "is_tried tried i \<longleftrightarrow> bit (tried ! (i div 64)) (i mod 64)"
  unfolding is_tried_def by (rule and_one_bit) simp

lemma is_tried_fresh: "i < 64 * n \<Longrightarrow> \<not> is_tried (replicate n 0) i"
  by (simp add: is_tried_bit div_less_iff_less_mult mult.commute)

lemma is_tried_mark:
  assumes "i < 64 * length tried" "j < 64 * length tried"
  shows "is_tried (mark_tried tried i) j \<longleftrightarrow> i = j \<or> is_tried tried j"
proof -
  have d: "i div 64 < length tried" using assms(1) by (simp add: div_less_iff_less_mult mult.commute)
  have "i mod 64 < 64" by simp
  moreover have "i = j \<longleftrightarrow> i div 64 = j div 64 \<and> i mod 64 = j mod 64" by (metis div_mult_mod_eq)
  ultimately show ?thesis
    using d by (cases "i div 64 = j div 64") (auto simp: is_tried_bit mark_tried_def bit_simps)
qed

lemma length_mark [simp]: "length (mark_tried tried i) = length tried"
  by (simp add: mark_tried_def)

section \<open>The loop\<close>

lemma bump_fields [simp]:
  "current_weight (bump p) = wrap64 (current_weight p + effective_weight p)" "weight (bump p) = weight p"
  "down (bump p) = down p" "max_fails (bump p) = max_fails p" "fails (bump p) = fails p" "checked (bump p) = checked p"
  "fail_timeout (bump p) = fail_timeout p" "rp_name (bump p) = rp_name p" "accessed (bump p) = accessed p"
  "effective_weight (bump p) = (if effective_weight p < weight p then effective_weight p + 1 else effective_weight p)"
  by (simp_all add: bump_def Let_def)

lemma gp_loop_length: "length (fst (gp_loop now tried i ps best ttl)) = length ps"
  by (induction now tried i ps best ttl rule: gp_loop.induct) simp_all

lemma gp_loop_nth:
  "k < length ps \<Longrightarrow> fst (gp_loop now tried i ps best ttl) ! k =
    (if skip_peer now tried (i + k) (ps ! k) then ps ! k else bump (ps ! k))"
proof (induction now tried i ps best ttl arbitrary: k rule: gp_loop.induct)
  case (2 now tried i p ps best ttl)
  then show ?case by (cases k) simp_all
qed simp

definition eligible :: "int \<Rightarrow> ngx_uint_t list \<Rightarrow> nat \<Rightarrow> rr_peer list \<Rightarrow> nat set" where
  "eligible now tried i ps = {k. k < length ps \<and> \<not> skip_peer now tried (i + k) (ps ! k)}"

lemma eligible_Cons:
  "eligible now tried i (p # ps) = (if skip_peer now tried i p then {} else {0}) \<union> Suc ` eligible now tried (Suc i) ps"
proof (rule set_eqI)
  fix k
  show "k \<in> eligible now tried i (p # ps) \<longleftrightarrow>
      k \<in> (if skip_peer now tried i p then {} else {0}) \<union> Suc ` eligible now tried (Suc i) ps"
    by (cases k) (auto simp: eligible_def)
qed

lemma eligible_finite [simp]: "finite (eligible now tried i ps)"
  by (simp add: eligible_def)

lemma gp_loop_total:
  "snd (snd (gp_loop now tried i ps best ttl)) = wrap64 (ttl + (\<Sum>k\<in>eligible now tried i ps. effective_weight (ps ! k)))" if "wrap64 ttl = ttl"
  using that
proof (induction now tried i ps best ttl rule: gp_loop.induct)
  case (1 now tried i best ttl)
  then show ?case by (simp add: eligible_def)
next
  case (2 now tried i p ps best ttl)
  let ?E = "eligible now tried (Suc i) ps"
  have s: "(\<Sum>k\<in>Suc ` ?E. effective_weight ((p # ps) ! k)) = (\<Sum>k\<in>?E. effective_weight (ps ! k))"
    by (simp add: sum.reindex)
  show ?case
  proof (cases "skip_peer now tried i p")
    case True
    then show ?thesis using 2 s by (simp add: eligible_Cons)
  next
    case False
    have "wrap64 (wrap64 (ttl + effective_weight p)) = wrap64 (ttl + effective_weight p)" using wrap64_add [of _ 0] by simp
    moreover have "(\<Sum>k\<in>{0} \<union> Suc ` ?E. effective_weight ((p # ps) ! k)) =
        effective_weight p + (\<Sum>k\<in>?E. effective_weight (ps ! k))"
      by (subst sum.union_disjoint) (auto simp: s)
    ultimately show ?thesis
      using 2(2) [OF False] False by (simp add: eligible_Cons wrap64_add add.assoc)
  qed
qed

text \<open>The best peer: eligible, with the greatest weight, and the first of those.\<close>

definition best_peer :: "nat set \<Rightarrow> (nat \<Rightarrow> int) \<Rightarrow> nat \<Rightarrow> bool" where
  "best_peer E c j \<longleftrightarrow> j \<in> E \<and> (\<forall>k\<in>E. c k \<le> c j \<and> (c k = c j \<longrightarrow> j \<le> k))"

lemma gp_loop_best:
  "(case fst (snd (gp_loop now tried i ps best ttl)) of
      None \<Rightarrow> best = None \<and> eligible now tried i ps = {}
    | Some (j, w) \<Rightarrow>
        (\<forall>k\<in>eligible now tried i ps. current_weight (bump (ps ! k)) \<le> w \<and> (current_weight (bump (ps ! k)) = w \<longrightarrow> j \<le> i + k)) \<and>
        (\<forall>j' w'. best = Some (j', w') \<longrightarrow> w' < w \<or> (j', w') = (j, w)) \<and>
        (best = Some (j, w) \<or>
         (\<exists>k\<in>eligible now tried i ps. j = i + k \<and> w = current_weight (bump (ps ! k)))))"
  if "\<forall>j w. best = Some (j, w) \<longrightarrow> j < i"
  using that
proof (induction now tried i ps best ttl rule: gp_loop.induct)
  case (1 now tried i best ttl)
  then show ?case by (auto simp: eligible_def split: option.split)
next
  case (2 now tried i p ps best ttl)
  show ?case
  proof (cases "skip_peer now tried i p")
    case True
    have "\<forall>j w. best = Some (j, w) \<longrightarrow> j < Suc i" using 2(3) by auto
    then show ?thesis using 2(1) [OF True] True by (fastforce simp: eligible_Cons split: option.splits)
  next
    case False
    define b where "b = better i (bump p) best"
    have b: "b = Some (i, current_weight (bump p)) \<and> (\<forall>j w. best = Some (j, w) \<longrightarrow> w < current_weight (bump p)) \<or>
        b = best \<and> (\<exists>j w. best = Some (j, w) \<and> current_weight (bump p) \<le> w \<and> j < i)"
      using 2(3) by (auto simp: b_def better_def split: option.splits)
    then have "\<forall>j w. b = Some (j, w) \<longrightarrow> j < Suc i" by auto
    note IH = 2(2) [OF False, folded b_def, OF this]
    obtain j w where r: "fst (snd (gp_loop now tried (Suc i) ps b (wrap64 (ttl + effective_weight p)))) = Some (j, w)"
      using IH b by (auto split: option.splits)
    note IH = IH [unfolded r option.case prod.case]
    have "current_weight (bump p) \<le> w \<and> (current_weight (bump p) = w \<longrightarrow> j \<le> i)"
      using b IH by fastforce
    moreover have "\<forall>j' w'. best = Some (j', w') \<longrightarrow> w' < w \<or> (j', w') = (j, w)"
      using b IH by fastforce
    moreover have "best = Some (j, w) \<or> (\<exists>k\<in>eligible now tried i (p # ps). j = i + k \<and> w = current_weight (bump ((p # ps) ! k)))"
      using b IH False by (auto simp: eligible_Cons)
    ultimately show ?thesis using IH r False by (auto simp: eligible_Cons b_def)
  qed
qed

lemma get_peer_spec:
  "case ngx_http_upstream_get_peer now tried ps of
     None \<Rightarrow> eligible now tried 0 ps = {}
   | Some (j, tried', ps') \<Rightarrow>
       best_peer (eligible now tried 0 ps) (\<lambda>k. wrap64 (current_weight (ps ! k) + effective_weight (ps ! k))) j \<and>
       tried' = mark_tried tried j \<and> length ps' = length ps \<and>
       (\<forall>k<length ps. ps' ! k =
         (if k = j then (bump (ps ! k))\<lparr>current_weight :=
              wrap64 (current_weight (bump (ps ! k)) - wrap64 (\<Sum>i\<in>eligible now tried 0 ps. effective_weight (ps ! i))), checked := now\<rparr>
          else if k \<in> eligible now tried 0 ps then bump (ps ! k) else ps ! k))"
proof -
  let ?E = "eligible now tried 0 ps" and ?r = "gp_loop now tried 0 ps None 0"
  have ttl: "snd (snd ?r) = wrap64 (\<Sum>i\<in>?E. effective_weight (ps ! i))"
    using gp_loop_total [of 0 now tried 0 ps None] by (simp add: wrap64_id)
  have nth: "fst ?r ! k = (if k \<in> ?E then bump (ps ! k) else ps ! k)" if "k < length ps" for k
    using gp_loop_nth [OF that, of now tried 0 None 0] that by (simp add: eligible_def)
  show ?thesis
  proof (cases "fst (snd ?r)")
    case None
    then show ?thesis
      using gp_loop_best [of None 0 now tried ps 0] by (simp add: ngx_http_upstream_get_peer_def split_beta)
  next
    case (Some jw)
    obtain j w where jw: "jw = (j, w)" by (cases jw)
    have b: "best_peer ?E (\<lambda>k. wrap64 (current_weight (ps ! k) + effective_weight (ps ! k))) j"
      using gp_loop_best [of None 0 now tried ps 0] Some jw by (auto simp: best_peer_def)
    then have j: "j \<in> ?E" "j < length ps" by (auto simp: best_peer_def eligible_def)
    show ?thesis
      using Some jw b j nth ttl
      by (auto simp: ngx_http_upstream_get_peer_def split_beta gp_loop_length nth_list_update)
  qed
qed

section \<open>The weights balance\<close>

definition weight_sum :: "rr_peer list \<Rightarrow> int" where
  "weight_sum ps = (\<Sum>k<length ps. current_weight (ps ! k))"

lemma get_peer_balance:
  assumes "ngx_http_upstream_get_peer now tried ps = Some (j, tried', ps')"
  shows "weight_sum ps' mod 2 ^ 64 = weight_sum ps mod 2 ^ 64"
proof -
  let ?E = "eligible now tried 0 ps"
  let ?T = "\<Sum>i\<in>?E. effective_weight (ps ! i)"
  define d where "d k = (if k \<in> ?E then effective_weight (ps ! k) else 0) - (if k = j then ?T else 0)" for k
  from get_peer_spec [of now tried ps] assms have j: "j \<in> ?E" and len: "length ps' = length ps" and
    nth: "\<And>k. k < length ps \<Longrightarrow> ps' ! k =
         (if k = j then (bump (ps ! k))\<lparr>current_weight := wrap64 (current_weight (bump (ps ! k)) - wrap64 ?T), checked := now\<rparr>
          else if k \<in> ?E then bump (ps ! k) else ps ! k)"
    by (auto simp: best_peer_def)
  have m: "current_weight (ps' ! k) mod 2 ^ 64 = (current_weight (ps ! k) + d k) mod 2 ^ 64" if "k < length ps" for k
  proof (cases "k = j")
    case True
    have "wrap64 (current_weight (bump (ps ! k)) - wrap64 ?T) mod 2 ^ 64 = (current_weight (ps ! k) + effective_weight (ps ! k) - ?T) mod 2 ^ 64"
      by (simp only: wrap64_mod bump_fields) (metis mod_diff_cong wrap64_mod)
    then show ?thesis using True nth [OF that] j by (simp add: d_def add_diff_eq)
  next
    case False
    then show ?thesis using nth [OF that] wrap64_mod [of "current_weight (ps ! k) + effective_weight (ps ! k)"] by (simp add: d_def)
  qed
  have E: "?E \<subseteq> {..<length ps}" by (auto simp: eligible_def)
  have "(\<Sum>k<length ps. d k) = (\<Sum>k\<in>{..<length ps}. if k \<in> ?E then effective_weight (ps ! k) else 0) -
      (\<Sum>k<length ps. if k = j then ?T else 0)"
    by (simp only: d_def sum_subtractf)
  also have "\<dots> = 0" using E j by (simp add: sum.inter_restrict [symmetric] Int_absorb1 subset_iff)
  finally have "(\<Sum>k<length ps. current_weight (ps ! k) + d k) = weight_sum ps" by (simp add: weight_sum_def sum.distrib)
  moreover have "weight_sum ps' mod 2 ^ 64 = (\<Sum>k<length ps. current_weight (ps' ! k) mod 2 ^ 64) mod 2 ^ 64"
    by (simp only: weight_sum_def len mod_sum_eq)
  moreover have "\<dots> = (\<Sum>k<length ps. (current_weight (ps ! k) + d k) mod 2 ^ 64) mod 2 ^ 64"
  proof -
    have "(\<Sum>k<length ps. current_weight (ps' ! k) mod 2 ^ 64) = (\<Sum>k<length ps. (current_weight (ps ! k) + d k) mod 2 ^ 64)"
      by (rule sum.cong) (simp_all only: lessThan_iff m)
    then show ?thesis by (rule arg_cong)
  qed
  ultimately show ?thesis by (simp only: mod_sum_eq)
qed

section \<open>Fairness\<close>

text \<open>A peer that takes part in every round with its full weight.\<close>

definition healthy :: "rr_peer \<Rightarrow> bool" where
  "healthy p \<longleftrightarrow>
     \<not> down p \<and> (max_fails p = 0 \<or> fails p < max_fails p) \<and> 0 \<le> weight p \<and> effective_weight p = weight p"

text \<open>Requests that come one after the other, each at its time and each with no peer tried yet.\<close>

fun rr_rounds :: "int list \<Rightarrow> nat \<Rightarrow> rr_peer list \<Rightarrow> (nat list \<times> rr_peer list) option" where
  "rr_rounds [] words ps = Some ([], ps)"
| "rr_rounds (now # nows) words ps =
     (case ngx_http_upstream_get_peer now (replicate words 0) ps of
        None \<Rightarrow> None
      | Some (i, _, ps) \<Rightarrow> map_option (apfst ((#) i)) (rr_rounds nows words ps))"

definition fair_state :: "(nat \<Rightarrow> int) \<Rightarrow> nat \<Rightarrow> int \<Rightarrow> (nat \<Rightarrow> int) \<Rightarrow> rr_peer list \<Rightarrow> bool" where
  "fair_state w N t n ps \<longleftrightarrow>
     length ps = N \<and> (\<Sum>i<N. n i) = t \<and>
     (\<forall>i<N. weight (ps ! i) = w i \<and> healthy (ps ! i) \<and>
       current_weight (ps ! i) = t * w i - (\<Sum>i<N. w i) * n i \<and> - (\<Sum>i<N. w i) < current_weight (ps ! i))"

lemma fair_step:
  assumes st: "fair_state w N t n ps" and W: "0 < (\<Sum>i<N. w i)" "(int N + 1) * (\<Sum>i<N. w i) < 2 ^ 63"
    and words: "N \<le> 64 * words"
  shows "\<exists>j tried' ps'. ngx_http_upstream_get_peer now (replicate words 0) ps = Some (j, tried', ps') \<and> j < N \<and>
    fair_state w N (t + 1) (n(j := n j + 1)) ps'"
proof -
  let ?W = "\<Sum>i<N. w i" and ?tr = "replicate words (0 :: ngx_uint_t)"
  have len: "length ps = N" and sum_n: "(\<Sum>i<N. n i) = t" using st by (simp_all add: fair_state_def)
  have p: "weight (ps ! i) = w i" "healthy (ps ! i)" "current_weight (ps ! i) = t * w i - ?W * n i" "- ?W < current_weight (ps ! i)"
    if "i < N" for i using st that unfolding fair_state_def by blast+
  have w0: "0 \<le> w i" if "i < N" for i using p(1,2) [OF that] by (simp add: healthy_def)
  have wW: "w i \<le> ?W" if "i < N" for i using that w0 by (intro member_le_sum) auto
  have E: "eligible now ?tr 0 ps = {..<N}"
    using p(2) is_tried_fresh words by (auto simp: eligible_def skip_peer_def healthy_def len not_le)
  define a where "a i = current_weight (ps ! i) + w i" for i
  have "(\<Sum>i<N. t * w i - ?W * n i) = t * ?W - ?W * t" by (simp add: sum_subtractf sum_distrib_left [symmetric] sum_n)
  moreover have "(\<Sum>i<N. current_weight (ps ! i)) = (\<Sum>i<N. t * w i - ?W * n i)" by (rule sum.cong) (simp_all add: p(3))
  ultimately have zero: "(\<Sum>i<N. current_weight (ps ! i)) = 0" by simp
  then have sum_a: "(\<Sum>i<N. a i) = ?W" by (simp add: a_def sum.distrib)
  have upper: "current_weight (ps ! i) \<le> int N * ?W" if "i < N" for i
  proof -
    have "(\<Sum>k\<in>{..<N} - {i}. - ?W) \<le> (\<Sum>k\<in>{..<N} - {i}. current_weight (ps ! k))"
      using p(4) by (intro sum_mono) (auto intro: less_imp_le)
    moreover have "(\<Sum>k<N. current_weight (ps ! k)) = current_weight (ps ! i) + (\<Sum>k\<in>{..<N} - {i}. current_weight (ps ! k))"
      using that by (intro sum.remove) simp_all
    moreover have "(\<Sum>k\<in>{..<N} - {i}. - ?W) = - (int (N - 1) * ?W)" using that by simp
    ultimately have "current_weight (ps ! i) \<le> int (N - 1) * ?W" using zero by linarith
    also have "\<dots> \<le> int N * ?W" using W(1) by (intro mult_right_mono) simp_all
    finally show ?thesis .
  qed
  have range: "- (2 ^ 63) \<le> a i" "a i < 2 ^ 63" if "i < N" for i
  proof -
    have "?W \<le> (int N + 1) * ?W" using W(1) by (simp add: algebra_simps)
    then show "- (2 ^ 63) \<le> a i" using p(4) [OF that] w0 [OF that] W(2) unfolding a_def by linarith
    show "a i < 2 ^ 63" using upper [OF that] wW [OF that] W(2) unfolding a_def by (simp add: algebra_simps)
  qed
  have ew: "effective_weight (ps ! i) = w i" if "i < N" for i using p(1,2) [OF that] by (simp add: healthy_def)
  have wr: "wrap64 (current_weight (ps ! i) + effective_weight (ps ! i)) = a i" if "i < N" for i
    using wrap64_id [OF range [OF that]] ew [OF that] by (simp add: a_def)
  have "0 < N" using W(1) by (cases N) auto
  then obtain j tried' ps' where g: "ngx_http_upstream_get_peer now ?tr ps = Some (j, tried', ps')"
    using get_peer_spec [of now ?tr ps] E by (auto split: option.splits)
  from get_peer_spec [of now ?tr ps, unfolded g E] have
    best: "best_peer {..<N} (\<lambda>k. wrap64 (current_weight (ps ! k) + effective_weight (ps ! k))) j" and len': "length ps' = N" and
    nth: "\<And>k. k < N \<Longrightarrow> ps' ! k =
         (if k = j then (bump (ps ! k))\<lparr>current_weight := wrap64 (current_weight (bump (ps ! k)) - wrap64 (\<Sum>i<N. effective_weight (ps ! i))), checked := now\<rparr>
          else bump (ps ! k))"
    using len by auto
  have j: "j < N" and max: "a k \<le> a j" if "k < N" for k using best wr that by (auto simp: best_peer_def)
  have "0 < a j"
  proof (rule ccontr)
    assume "\<not> 0 < a j"
    then have "a k \<le> 0" if "k < N" for k using max [OF that] by simp
    then have "(\<Sum>k<N. a k) \<le> 0" by (intro sum_nonpos) simp
    then show False using sum_a W(1) by simp
  qed
  have total: "wrap64 (\<Sum>i<N. effective_weight (ps ! i)) = ?W"
  proof -
    have "(\<Sum>i<N. effective_weight (ps ! i)) = ?W" by (rule sum.cong) (simp_all add: ew)
    moreover have "?W \<le> (int N + 1) * ?W" using W(1) by (simp add: algebra_simps)
    then have "wrap64 ?W = ?W" using W by (intro wrap64_id) linarith+
    ultimately show ?thesis by simp
  qed
  have "j < N" using j \<open>0 < N\<close> by blast
  have "?W \<le> (int N + 1) * ?W" using W(1) by (simp add: algebra_simps)
  then have low: "- (2 ^ 63) \<le> a j - ?W" "a j - ?W < 2 ^ 63"
    using \<open>0 < a j\<close> range [OF \<open>j < N\<close>] W by linarith+
  have cw: "current_weight (ps' ! i) = a i - (if i = j then ?W else 0)" if "i < N" for i
  proof (cases "i = j")
    case True
    have "wrap64 (a j - ?W) = a j - ?W" using low by (rule wrap64_id)
    with True show ?thesis using nth [OF that] wr [OF that] by (simp add: total)
  next
    case False
    with nth [OF that] wr [OF that] show ?thesis by simp
  qed
  have "(\<Sum>i<N. (n(j := n j + 1)) i) = (\<Sum>i<N. n i + (if i = j then 1 else 0))" by (rule sum.cong) auto
  also have "\<dots> = t + 1" using \<open>j < N\<close> by (simp add: sum.distrib sum_n)
  finally have "(\<Sum>i<N. (n(j := n j + 1)) i) = t + 1" .
  moreover have "weight (ps' ! i) = w i \<and> healthy (ps' ! i)" if "i < N" for i
    using nth [OF that] p(1,2) [OF that] by (cases "i = j") (simp_all add: healthy_def)
  moreover have "current_weight (ps' ! i) = (t + 1) * w i - ?W * (n(j := n j + 1)) i" if "i < N" for i
    using cw [OF that] p(3) [OF that] by (cases "i = j") (simp_all add: a_def algebra_simps)
  moreover have "- ?W < current_weight (ps' ! i)" if "i < N" for i
    using cw [OF that] p(4) [OF that] w0 [OF that] \<open>0 < a j\<close> by (simp add: a_def)
  ultimately have "fair_state w N (t + 1) (n(j := n j + 1)) ps'" using len' by (simp add: fair_state_def)
  then show ?thesis using g \<open>j < N\<close> by blast
qed

lemma fair_rounds:
  assumes "fair_state w N t n ps" and W: "0 < (\<Sum>i<N. w i)" "(int N + 1) * (\<Sum>i<N. w i) < 2 ^ 63" "N \<le> 64 * words"
  shows "\<exists>picks ps'. rr_rounds nows words ps = Some (picks, ps') \<and>
    fair_state w N (t + int (length nows)) (\<lambda>i. n i + int (count_list picks i)) ps'"
  using assms(1)
proof (induction nows arbitrary: t n ps)
  case Nil
  then show ?case by simp
next
  case (Cons now nows)
  obtain j tried' ps1 where g: "ngx_http_upstream_get_peer now (replicate words 0) ps = Some (j, tried', ps1)"
    "fair_state w N (t + 1) (n(j := n j + 1)) ps1"
    using fair_step [OF Cons.prems W] by blast
  from Cons.IH [OF g(2)] obtain picks ps' where r: "rr_rounds nows words ps1 = Some (picks, ps')"
    "fair_state w N (t + 1 + int (length nows)) (\<lambda>i. (n(j := n j + 1)) i + int (count_list picks i)) ps'" by blast
  have "(\<lambda>i. (n(j := n j + 1)) i + int (count_list picks i)) = (\<lambda>i. n i + int (count_list (j # picks) i))" by auto
  with g(1) r show ?case by (intro exI [of _ "j # picks"] exI [of _ ps']) (simp add: add.assoc)
qed

lemma nonneg_multiples_zero:
  fixes k :: "nat \<Rightarrow> int"
  assumes "(\<Sum>i<N. k i) = 0" "\<And>i. i < N \<Longrightarrow> 0 \<le> k i" "i < N"
  shows "k i = 0"
  using assms sum_nonneg_eq_0_iff [of "{..<N}" k] by simp

section \<open>Trying peers\<close>

text \<open>The requests of one client for peer after peer, without success.\<close>

fun rr_retries :: "int list \<Rightarrow> ngx_uint_t list \<Rightarrow> rr_peer list \<Rightarrow> nat list" where
  "rr_retries [] tried ps = []"
| "rr_retries (now # nows) tried ps =
     (case ngx_http_upstream_get_peer now tried ps of
        None \<Rightarrow> []
      | Some (i, tried, ps) \<Rightarrow> i # rr_retries nows tried ps)"

lemma rr_retries_new:
  assumes "length ps \<le> 64 * length tried"
  shows "distinct (rr_retries nows tried ps) \<and> (\<forall>i\<in>set (rr_retries nows tried ps). i < length ps \<and> \<not> is_tried tried i)"
  using assms
proof (induction nows tried ps rule: rr_retries.induct)
  case (2 now nows tried ps)
  show ?case
  proof (cases "ngx_http_upstream_get_peer now tried ps")
    case (Some r)
    obtain i tried' ps' where r: "r = (i, tried', ps')" by (cases r)
    from get_peer_spec [of now tried ps] Some r have i: "i < length ps" "\<not> is_tried tried i" "tried' = mark_tried tried i" "length ps' = length ps"
      by (auto simp: best_peer_def eligible_def skip_peer_def)
    have IH: "distinct (rr_retries nows tried' ps') \<and> (\<forall>i\<in>set (rr_retries nows tried' ps'). i < length ps' \<and> \<not> is_tried tried' i)"
      using 2(1) [OF Some, of i "(tried', ps')" tried' ps'] r 2(2) i by simp
    have "\<not> is_tried tried k \<and> k \<noteq> i" if "\<not> is_tried tried' k" "k < length ps" for k
      using that is_tried_mark [of i tried k] i 2(2) by auto
    then show ?thesis using IH Some r i by auto
  qed simp
qed simp

text \<open>Three peers of weights 5, 1 and 1.\<close>

definition sample_peer :: "buffer \<Rightarrow> int \<Rightarrow> rr_peer" where
  "sample_peer name w =
     \<lparr>rp_name = name, current_weight = 0, effective_weight = w, weight = w, fails = 0, accessed = 0, checked = 0,
      max_fails = 1, fail_timeout = 10, down = False\<rparr>"

definition sample_peers :: "rr_peer list" where
  "sample_peers = [sample_peer (bytes ''a'') 5, sample_peer (bytes ''b'') 1, sample_peer (bytes ''c'') 1]"

section \<open>Properties\<close>

text \<open>
  The choice: \<^verbatim>\<open>ngx_http_upstream_get_peer\<close> returns no peer exactly if every one is tried, down or out after
  failures; otherwise the first of those with the greatest current weight after the weights of this round have been
  added, and that peer is marked as tried.
\<close>

theorem get_peer_chooses_best:
  "case ngx_http_upstream_get_peer now tried ps of
     None \<Rightarrow> eligible now tried 0 ps = {}
   | Some (j, tried', ps') \<Rightarrow>
       best_peer (eligible now tried 0 ps) (\<lambda>k. wrap64 (current_weight (ps ! k) + effective_weight (ps ! k))) j \<and>
       tried' = mark_tried tried j \<and> map rp_name ps' = map rp_name ps"
  using get_peer_spec [of now tried ps]
  by (auto split: option.splits if_splits intro!: nth_equalityI)

text \<open>
  C11.  The round robin is fair: when \<open>N\<close> healthy peers start from current weight zero, then in as many requests
  as the sum of the weights, each peer is chosen exactly as often as its weight says, whenever the requests come, and
  afterwards all current weights are zero again.
\<close>

theorem round_robin_fair:
  assumes "\<forall>p\<in>set ps. healthy p \<and> current_weight p = 0" and "0 < (\<Sum>p\<leftarrow>ps. weight p)"
    and "(int (length ps) + 1) * (\<Sum>p\<leftarrow>ps. weight p) < 2 ^ 63" and "length ps \<le> 64 * words"
    and "int (length nows) = (\<Sum>p\<leftarrow>ps. weight p)"
  shows "\<exists>picks ps'. rr_rounds nows words ps = Some (picks, ps') \<and>
    (\<forall>i<length ps. int (count_list picks i) = weight (ps ! i) \<and> current_weight (ps' ! i) = 0)"
proof -
  let ?N = "length ps" and ?w = "\<lambda>i. weight (ps ! i)"
  have W: "(\<Sum>p\<leftarrow>ps. weight p) = (\<Sum>i<?N. ?w i)" by (simp add: sum_list_sum_nth atLeast0LessThan)
  have "fair_state ?w ?N 0 (\<lambda>_. 0) ps" using assms(1,2) W by (auto simp: fair_state_def)
  from fair_rounds [OF this, of words nows] assms W obtain picks ps' where
    r: "rr_rounds nows words ps = Some (picks, ps')" and
    f: "fair_state ?w ?N (\<Sum>i<?N. ?w i) (\<lambda>i. int (count_list picks i)) ps'" by auto
  let ?W = "\<Sum>i<?N. ?w i"
  have c: "current_weight (ps' ! i) = ?W * (?w i - int (count_list picks i))" "- ?W < current_weight (ps' ! i)"
    if "i < ?N" for i using f that unfolding fair_state_def by (auto simp: algebra_simps)
  have nonneg: "0 \<le> ?w i - int (count_list picks i)" if "i < ?N" for i
  proof -
    have "?W * (- 1) < ?W * (?w i - int (count_list picks i))" using c [OF that] by simp
    moreover have "0 < ?W" using assms(2) W by simp
    ultimately have "- 1 < ?w i - int (count_list picks i)" by (rule mult_less_cancel_left_pos [THEN iffD1, rotated])
    then show ?thesis by simp
  qed
  have "(\<Sum>i<?N. ?w i - int (count_list picks i)) = 0" using f by (simp add: fair_state_def sum_subtractf)
  then have "?w i - int (count_list picks i) = 0" if "i < ?N" for i
    using nonneg_multiples_zero [where N = ?N and k = "\<lambda>i. ?w i - int (count_list picks i)" and i = i] nonneg that by blast
  with r c(1) show ?thesis by (intro exI [of _ picks] exI [of _ ps']) simp
qed

theorem round_robin_fair_witness:
  "\<exists>picks ps'. rr_rounds [0, 1, 2, 3, 4, 5, 6] 1 sample_peers = Some (picks, ps') \<and>
     count_list picks 0 = 5 \<and> count_list picks 1 = 1 \<and> count_list picks 2 = 1"
proof -
  have "\<exists>picks ps'. rr_rounds [0, 1, 2, 3, 4, 5, 6] 1 sample_peers = Some (picks, ps') \<and>
      (\<forall>i<length sample_peers. int (count_list picks i) = weight (sample_peers ! i) \<and> current_weight (ps' ! i) = 0)"
    by (rule round_robin_fair) (simp_all add: sample_peers_def sample_peer_def healthy_def)
  then obtain picks ps' where r: "rr_rounds [0, 1, 2, 3, 4, 5, 6] 1 sample_peers = Some (picks, ps')"
    and c: "\<forall>i<length sample_peers. int (count_list picks i) = weight (sample_peers ! i)" by blast
  have "int (count_list picks 0) = 5" "int (count_list picks 1) = 1" "int (count_list picks 2) = 1"
    using c [rule_format, of 0] c [rule_format, of 1] c [rule_format, of 2] by (simp_all add: sample_peers_def sample_peer_def)
  then show ?thesis using r by auto
qed

text \<open>
  The weights balance: whatever the peers and their failures, a choice leaves the sum of all current weights
  as it is (as 64-bit numbers), so that the sum that starts at zero stays zero.
\<close>

theorem round_robin_balance:
  assumes "ngx_http_upstream_get_peer now tried ps = Some (j, tried', ps')"
  shows "weight_sum ps' mod 2 ^ 64 = weight_sum ps mod 2 ^ 64"
  using assms by (rule get_peer_balance)

theorem round_robin_balance_witness:
  "\<exists>j tried' ps'. ngx_http_upstream_get_peer 0 [0] sample_peers = Some (j, tried', ps') \<and> weight_sum ps' mod 2 ^ 64 = 0"
proof -
  have "0 \<in> eligible 0 [0] 0 sample_peers"
    by (simp add: eligible_def sample_peers_def sample_peer_def skip_peer_def is_tried_def)
  then obtain j tried' ps' where g: "ngx_http_upstream_get_peer 0 [0] sample_peers = Some (j, tried', ps')"
    using get_peer_spec [of 0 "[0]" sample_peers] by (auto split: option.splits)
  have "weight_sum sample_peers = 0" by (simp add: weight_sum_def sample_peers_def sample_peer_def lessThan_Suc numeral_3_eq_3)
  then show ?thesis using g round_robin_balance [OF g] by auto
qed

text \<open>
  A request that asks for peer after peer is given no peer twice and only peers that it had not tried, so
  that it ends after at most as many attempts as there are peers.
\<close>

theorem round_robin_no_retry:
  assumes "length ps \<le> 64 * length tried"
  shows "distinct (rr_retries nows tried ps) \<and> set (rr_retries nows tried ps) \<subseteq> {i. i < length ps \<and> \<not> is_tried tried i} \<and>
    length (rr_retries nows tried ps) \<le> length ps"
proof -
  have d: "distinct (rr_retries nows tried ps)" "set (rr_retries nows tried ps) \<subseteq> {i. i < length ps \<and> \<not> is_tried tried i}"
    using rr_retries_new [OF assms, of nows] by auto
  have "length (rr_retries nows tried ps) = card (set (rr_retries nows tried ps))" using d(1) by (rule distinct_card [symmetric])
  also have "\<dots> \<le> card {..<length ps}" using d(2) by (intro card_mono) auto
  finally show ?thesis using d by simp
qed

theorem round_robin_no_retry_witness:
  "length (rr_retries [0, 0, 0, 0, 0] [0] sample_peers) \<le> 3"
  using round_robin_no_retry [of sample_peers "[0]" "[0, 0, 0, 0, 0]"] by (simp add: sample_peers_def)

end
