(* ===== verification/Upstream_Next.thy ===== *)
theory Upstream_Next
  imports Xhome_Prelude
begin

unbundle bit_operations_syntax

text \<open>
  A request at its upstream: \<^verbatim>\<open>ngx_http_upstream_connect\<close>, \<^verbatim>\<open>ngx_http_upstream_next\<close> and
  \<^verbatim>\<open>ngx_http_upstream_finalize_request\<close> of \<^verbatim>\<open>src/http/ngx_http_upstream.c\<close>, as far as they drive the balancer: a peer
  is asked for, connected to, given back with a verdict, and the next one is asked for.  The pointers \<^verbatim>\<open>peer.get\<close> and
  \<^verbatim>\<open>peer.free\<close> are arguments, and what a balancer promises is the locale \<open>balancer\<close>.
\<close>

section \<open>The request and its events\<close>

abbreviation FT_ERROR :: ngx_uint_t where "FT_ERROR \<equiv> 0x00000002"
abbreviation FT_TIMEOUT :: ngx_uint_t where "FT_TIMEOUT \<equiv> 0x00000004"
abbreviation FT_HTTP_500 :: ngx_uint_t where "FT_HTTP_500 \<equiv> 0x00000010"
abbreviation FT_HTTP_404 :: ngx_uint_t where "FT_HTTP_404 \<equiv> 0x00000100"
abbreviation FT_NOLIVE :: ngx_uint_t where "FT_NOLIVE \<equiv> 0x40000000"

text \<open>
  The data of the balancer with the fields of \<^verbatim>\<open>u->peer\<close>, whether \<^verbatim>\<open>u->peer.sockaddr\<close> is set, and
  \<^verbatim>\<open>u->state->status\<close>.
\<close>

record 's upstream =
  up_peer :: 's
  up_sockaddr :: bool
  up_status :: nat

text \<open>
  What happens to an attempt: no socket can be had (\<^verbatim>\<open>NGX_ERROR\<close>), the peer fails in one of the ways
  \<open>ft_type\<close> (a refused connection is \<open>FT_ERROR\<close>), or it answers and the request is finalized with \<open>rc\<close>.
\<close>

datatype outcome = No_Socket | Fails ngx_uint_t | Answers nat

text \<open>
  One attempt: what other requests did to the shared state before the peer was asked for and while it was
  connected, the time of both, the outcome, and whether the client has gone.
\<close>

record 's attempt =
  at_before :: "'s \<Rightarrow> 's"
  at_get :: int
  at_during :: "'s \<Rightarrow> 's"
  at_free :: int
  at_outcome :: outcome
  at_client_error :: bool

definition ngx_http_upstream_finalize_request ::
    "(int \<Rightarrow> bool \<Rightarrow> 's \<Rightarrow> 's) \<Rightarrow> int \<Rightarrow> 's upstream \<Rightarrow> 's upstream" where
  "ngx_http_upstream_finalize_request peer_free now u =
     (if up_sockaddr u then u\<lparr>up_peer := peer_free now False (up_peer u), up_sockaddr := False\<rparr> else u)"

definition next_status :: "ngx_uint_t \<Rightarrow> nat" where
  "next_status ft_type =
     (if ft_type = FT_TIMEOUT then 504 else if ft_type = FT_HTTP_500 then 500 else if ft_type = FT_HTTP_404 then 404
      else 502)"

text \<open>
  \<^verbatim>\<open>ngx_http_upstream_next\<close>: \<open>Inl rc\<close> finalizes the request, \<open>Inr\<close> is the call of \<^verbatim>\<open>ngx_http_upstream_connect\<close>.
  Peers are never cached connections here, and there is no stale answer in a cache.
\<close>

definition ngx_http_upstream_next ::
    "(int \<Rightarrow> bool \<Rightarrow> 's \<Rightarrow> 's) \<Rightarrow> ('s \<Rightarrow> ngx_uint_t) \<Rightarrow> ngx_uint_t \<Rightarrow> int \<Rightarrow> bool \<Rightarrow> ngx_uint_t \<Rightarrow> 's upstream \<Rightarrow>
     nat \<times> 's upstream + 's upstream" where
  "ngx_http_upstream_next peer_free tries next_upstream now client_error ft_type u =
     (let u = (if up_sockaddr u
               then u\<lparr>up_peer := peer_free now (ft_type \<noteq> FT_HTTP_404) (up_peer u), up_sockaddr := False\<rparr> else u);
          status = next_status ft_type in
      if client_error then Inl (499, ngx_http_upstream_finalize_request peer_free now u)
      else (let u = u\<lparr>up_status := status\<rparr> in
            if tries (up_peer u) = 0 \<or> next_upstream AND ft_type = 0
            then Inl (status, ngx_http_upstream_finalize_request peer_free now u) else Inr u))"

text \<open>\<^verbatim>\<open>ngx_http_upstream_connect\<close> with the events that follow it, up to the end of the attempt.\<close>

definition ngx_http_upstream_connect ::
    "(int \<Rightarrow> 's \<Rightarrow> ngx_rc \<times> 's) \<Rightarrow> (int \<Rightarrow> bool \<Rightarrow> 's \<Rightarrow> 's) \<Rightarrow> ('s \<Rightarrow> ngx_uint_t) \<Rightarrow> ngx_uint_t \<Rightarrow> 's attempt \<Rightarrow>
     's upstream \<Rightarrow> nat \<times> 's upstream + 's upstream" where
  "ngx_http_upstream_connect peer_get peer_free tries next_upstream a u =
     (case peer_get (at_get a) (at_before a (up_peer u)) of (rc, s) \<Rightarrow>
        if rc = NGX_OK then
          (let u = u\<lparr>up_peer := at_during a s, up_sockaddr := True\<rparr> in
           case at_outcome a of
             No_Socket \<Rightarrow> Inl (500, ngx_http_upstream_finalize_request peer_free (at_free a) u)
           | Answers rc \<Rightarrow> Inl (rc, ngx_http_upstream_finalize_request peer_free (at_free a) u)
           | Fails ft_type \<Rightarrow>
               ngx_http_upstream_next peer_free tries next_upstream (at_free a) (at_client_error a) ft_type u)
        else
          ngx_http_upstream_next peer_free tries next_upstream (at_get a) (at_client_error a) FT_NOLIVE (u\<lparr>up_peer := s\<rparr>))"

text \<open>The request over the attempts that the world provides; \<open>Inr\<close>: it still waits for another attempt.\<close>

fun upstream_run ::
    "(int \<Rightarrow> 's \<Rightarrow> ngx_rc \<times> 's) \<Rightarrow> (int \<Rightarrow> bool \<Rightarrow> 's \<Rightarrow> 's) \<Rightarrow> ('s \<Rightarrow> ngx_uint_t) \<Rightarrow> ngx_uint_t \<Rightarrow> 's attempt list \<Rightarrow>
     's upstream \<Rightarrow> nat \<times> 's upstream + 's upstream" where
  "upstream_run peer_get peer_free tries next_upstream [] u = Inr u"
| "upstream_run peer_get peer_free tries next_upstream (a # as) u =
     (case ngx_http_upstream_connect peer_get peer_free tries next_upstream a u of
        Inl r \<Rightarrow> Inl r
      | Inr u \<Rightarrow> upstream_run peer_get peer_free tries next_upstream as u)"

section \<open>What a balancer promises\<close>

text \<open>
  \<open>ok\<close> is the invariant of the balancer's data, \<open>holds\<close> says that a peer is held, \<open>others\<close> are the changes that
  other requests may make, and \<open>budget\<close> bounds the peers that the request can still be given.
\<close>

locale balancer =
  fixes peer_get :: "int \<Rightarrow> 's \<Rightarrow> ngx_rc \<times> 's" and peer_free :: "int \<Rightarrow> bool \<Rightarrow> 's \<Rightarrow> 's" and tries :: "'s \<Rightarrow> ngx_uint_t"
    and ok :: "'s \<Rightarrow> bool" and holds :: "'s \<Rightarrow> bool" and others :: "('s \<Rightarrow> 's) \<Rightarrow> bool" and budget :: "'s \<Rightarrow> nat"
  assumes get_ok: "ok s \<Longrightarrow> peer_get now s = (rc, s') \<Longrightarrow> ok s' \<and> (rc = NGX_OK \<and> holds s' \<or> rc = NGX_BUSY)"
    and free_ok: "ok s \<Longrightarrow> holds s \<Longrightarrow> ok (peer_free now failed s)"
    and others_ok: "others f \<Longrightarrow> ok s \<Longrightarrow> ok (f s) \<and> (holds s \<longrightarrow> holds (f s)) \<and> budget (f s) = budget s"
    and progress: "ok s \<Longrightarrow> peer_get now s = (NGX_OK, s') \<Longrightarrow> budget s' < budget s \<or> (\<forall>f n b. others f \<longrightarrow> tries (peer_free n b (f s')) = 0)"
    and free_budget: "ok s \<Longrightarrow> holds s \<Longrightarrow> budget (peer_free now failed s) = budget s"
begin

text \<open>One attempt ends the request, with its peer given back, or leaves it with a smaller budget.\<close>

lemma connect_step:
  assumes ok: "ok (up_peer u)" "\<not> up_sockaddr u" and a: "others (at_before a)" "others (at_during a)"
    and n: "next_upstream AND FT_NOLIVE = 0"
  shows "case ngx_http_upstream_connect peer_get peer_free tries next_upstream a u of
      Inl (rc, u') \<Rightarrow> ok (up_peer u') \<and> \<not> up_sockaddr u'
    | Inr u' \<Rightarrow> ok (up_peer u') \<and> \<not> up_sockaddr u' \<and> budget (up_peer u') < budget (up_peer u)"
proof -
  let ?s = "at_before a (up_peer u)"
  have s: "ok ?s" "budget ?s = budget (up_peer u)" using others_ok [OF a(1) ok(1)] by simp_all
  obtain rc s1 where g: "peer_get (at_get a) ?s = (rc, s1)" by fastforce
  note s1 = get_ok [OF s(1) g]
  show ?thesis
  proof (cases "rc = NGX_OK")
    case False
    then show ?thesis
      using s1 ok n by (simp add: ngx_http_upstream_connect_def g ngx_http_upstream_next_def ngx_http_upstream_finalize_request_def Let_def)
  next
    case True
    have d: "ok (at_during a s1)" "holds (at_during a s1)" "budget (at_during a s1) = budget s1"
      using others_ok [OF a(2)] s1 True by auto
    have f: "ok (peer_free t b (at_during a s1))" "budget (peer_free t b (at_during a s1)) = budget s1" for t b
      using free_ok [OF d(1,2)] free_budget [OF d(1,2)] d(3) by auto
    have p: "budget s1 < budget (up_peer u) \<or> tries (peer_free t b (at_during a s1)) = 0" for t b
      using progress [of ?s "at_get a" s1] s g True a(2) by auto
    show ?thesis
    proof (cases "at_outcome a")
      case (Fails ft)
      have "budget s1 < budget (up_peer u)" if "tries (peer_free (at_free a) b (at_during a s1)) \<noteq> 0" for b
        using p that by blast
      then show ?thesis
        using True Fails f by (auto simp: ngx_http_upstream_connect_def g ngx_http_upstream_next_def ngx_http_upstream_finalize_request_def Let_def)
    qed (use True f in \<open>simp_all add: ngx_http_upstream_connect_def g ngx_http_upstream_finalize_request_def Let_def\<close>)
  qed
qed

text \<open>So more attempts than the budget end the request.\<close>

lemma run_ends:
  assumes "ok (up_peer u)" "\<not> up_sockaddr u" "\<forall>a\<in>set as. others (at_before a) \<and> others (at_during a)"
    "next_upstream AND FT_NOLIVE = 0" "budget (up_peer u) < length as"
  shows "\<exists>rc u'. upstream_run peer_get peer_free tries next_upstream as u = Inl (rc, u') \<and> ok (up_peer u') \<and> \<not> up_sockaddr u'"
  using assms
proof (induction as arbitrary: u)
  case (Cons a as)
  have o: "others (at_before a)" "others (at_during a)" using Cons.prems(3) by simp_all
  note st = connect_step [OF Cons.prems(1,2) o Cons.prems(4)]
  show ?case
  proof (cases "ngx_http_upstream_connect peer_get peer_free tries next_upstream a u")
    case (Inl r)
    with st show ?thesis by (cases r) auto
  next
    case (Inr u1)
    with st have "ok (up_peer u1)" "\<not> up_sockaddr u1" "budget (up_peer u1) < length as" using Cons.prems(5) by auto
    with Cons.IH [of u1] Cons.prems(3,4) Inr show ?thesis by simp
  qed
qed simp

end

end
