(* ===== verification/Upstream_Rr_Request.thy ===== *)
theory Upstream_Rr_Request
  imports Upstream_Rr_Fair Upstream_Next
begin

unbundle bit_operations_syntax

text \<open>
  The life of a request at the balancer of \<open>Upstream_Rr\<close>: it asks for a peer, gives it back with the result, and
  asks again, while other requests change the same groups.  The steps are a relation; the invariant keeps all array
  accesses inside.  The order of the peers is the one the sort gives.
\<close>

section \<open>Well-formed groups\<close>

definition peer_ok :: "rr_peer \<Rightarrow> bool" where
  "peer_ok p \<longleftrightarrow> 0 \<le> effective_weight p \<and> effective_weight p \<le> weight p \<and> weight p < 2 ^ 63"

definition group_ok :: "rr_group \<Rightarrow> bool" where
  "group_ok g \<longleftrightarrow> rg_peers g \<noteq> [] \<and> (rg_single g \<longrightarrow> length (rg_peers g) = 1) \<and> (\<forall>p\<in>set (rg_peers g). peer_ok p)"

definition rr_ok :: "'a rr_data_scheme \<Rightarrow> bool" where
  "rr_ok r \<longleftrightarrow>
     group_ok (rr_main r) \<and> (\<forall>b. rr_backup r = Some b \<longrightarrow> group_ok b \<and> length (rg_peers b) \<le> 64 * length (rr_tried r)) \<and>
     length (rg_peers (rr_main r)) \<le> 64 * length (rr_tried r) \<and> (rr_on_backup r \<longrightarrow> rr_backup r \<noteq> None)"

text \<open>A request that holds a peer has its index inside the group.\<close>

definition holds_ok :: "'a rr_data_scheme \<Rightarrow> bool" where
  "holds_ok r \<longleftrightarrow> (if rg_single (group_of r) then 0 else rr_current r) < length (rg_peers (group_of r))"

lemma bump_ok: "peer_ok p \<Longrightarrow> peer_ok (bump p)"
  by (auto simp: peer_ok_def)

lemma fail_peer_ok:
  assumes "peer_ok p"
  shows "peer_ok (fail_peer now p)"
proof -
  define q where "q = weight p mod 2 ^ 64 div int (unat (max_fails p))"
  have w: "0 \<le> weight p" "weight p < 2 ^ 63" using assms by (auto simp: peer_ok_def)
  then have "q = int (nat (weight p) div unat (max_fails p))" by (simp add: q_def zdiv_int)
  moreover have "nat (weight p) div unat (max_fails p) \<le> nat (weight p)" by (rule div_le_dividend)
  ultimately have q: "0 \<le> q" "q \<le> weight p" using w(1) by linarith+
  then have "wrap64 (effective_weight p - q) = effective_weight p - q"
    using assms w by (intro wrap64_id) (simp_all add: peer_ok_def)
  then show ?thesis using assms q by (auto simp: fail_peer_def peer_ok_def Let_def q_def)
qed

lemma get_peer_ok:
  assumes "\<forall>p\<in>set ps. peer_ok p" "ngx_http_upstream_get_peer now tried ps = Some (j, tried', ps')"
  shows "\<forall>p\<in>set ps'. peer_ok p" "length ps' = length ps" "j < length ps" "length tried' = length tried"
proof -
  note spec = get_peer_spec [of now tried ps, unfolded assms(2) option.case prod.case]
  show len: "length ps' = length ps" and "j < length ps" "length tried' = length tried"
    using spec by (auto simp: best_peer_def eligible_def)
  show "\<forall>p\<in>set ps'. peer_ok p"
  proof
    fix p assume "p \<in> set ps'"
    then obtain k where k: "k < length ps" "p = ps' ! k" using len by (metis in_set_conv_nth)
    have o: "peer_ok (ps ! k)" "peer_ok (bump (ps ! k))" using assms(1) k(1) bump_ok by simp_all
    consider "p = ps ! k" | "p = bump (ps ! k)" | c n where "p = (bump (ps ! k))\<lparr>current_weight := c, checked := n\<rparr>"
    proof -
      from spec k(1) have "ps' ! k = (if k = j then (bump (ps ! k))\<lparr>current_weight := wrap64 (current_weight (bump (ps ! k)) -
            wrap64 (\<Sum>i\<in>eligible now tried 0 ps. effective_weight (ps ! i))), checked := now\<rparr>
          else if k \<in> eligible now tried 0 ps then bump (ps ! k) else ps ! k)" by blast
      with that k(2) show thesis by (cases "k = j"; cases "k \<in> eligible now tried 0 ps") simp_all
    qed
    then show "peer_ok p" using o by cases (simp_all add: peer_ok_def)
  qed
qed

lemma set_peers_simps [simp]:
  "rr_on_backup (set_peers ps r) = rr_on_backup r" "rr_tried (set_peers ps r) = rr_tried r"
  "rr_current (set_peers ps r) = rr_current r" "pc_tries (set_peers ps r) = pc_tries r"
  "group_of (set_peers ps r) = (group_of r)\<lparr>rg_peers := ps\<rparr>"
  "rr_backup (set_peers ps r) = None \<longleftrightarrow> rr_backup r = None \<and> \<not> rr_on_backup r"
  by (auto simp: set_peers_def group_of_def)

lemma connection_fields [simp]:
  "group_of (r\<lparr>pc_tries := n\<rparr>) = group_of r" "group_of (r\<lparr>pc_name := x\<rparr>) = group_of r"
  "rr_ok (r\<lparr>pc_tries := n\<rparr>) \<longleftrightarrow> rr_ok r" "rr_ok (r\<lparr>pc_name := x\<rparr>) \<longleftrightarrow> rr_ok r"
  "holds_ok (r\<lparr>pc_tries := n\<rparr>) \<longleftrightarrow> holds_ok r" "holds_ok (r\<lparr>pc_name := x\<rparr>) \<longleftrightarrow> holds_ok r"
  by (simp_all add: group_of_def rr_ok_def holds_ok_def)

lemma group_of_ok: "rr_ok r \<Longrightarrow> group_ok (group_of r) \<and> length (rg_peers (group_of r)) \<le> 64 * length (rr_tried r)"
  by (auto simp: rr_ok_def group_of_def)

lemma set_peers_ok:
  assumes "rr_ok r" "\<forall>p\<in>set ps. peer_ok p" "length ps = length (rg_peers (group_of r))"
  shows "rr_ok (set_peers ps r)"
proof -
  have "group_ok ((group_of r)\<lparr>rg_peers := ps\<rparr>)" using group_of_ok [OF assms(1)] assms(2,3) by (auto simp: group_ok_def)
  then show ?thesis using assms by (auto simp: rr_ok_def set_peers_def group_of_def)
qed

lemma rr_attempt_ok:
  assumes ok: "rr_ok r" and a: "rr_attempt now r = Some r'"
  shows "rr_ok r'" "holds_ok r'" "rr_on_backup r' = rr_on_backup r"
proof -
  let ?g = "group_of r"
  note g = group_of_ok [OF ok]
  have "rr_ok r' \<and> holds_ok r' \<and> rr_on_backup r' = rr_on_backup r"
  proof (cases "rg_single ?g")
    case True
    define p where "p = rg_peers ?g ! 0"
    define r1 where "r1 = r\<lparr>pc_name := Some (rp_name p)\<rparr>"
    have "r' = r1 \<or> (\<exists>n. r' = r1\<lparr>pc_tries := n\<rparr>)"
      using a True by (auto simp: rr_attempt_def Let_def p_def r1_def split: if_splits)
    then show ?thesis using ok g True by (auto simp: r1_def rr_ok_def holds_ok_def group_of_def group_ok_def)
  next
    case False
    then obtain i tried ps where gp: "ngx_http_upstream_get_peer now (rr_tried r) (rg_peers ?g) = Some (i, tried, ps)"
      using a by (auto simp: rr_attempt_def split: option.splits)
    define r1 where "r1 = set_peers ps (r\<lparr>rr_current := i, rr_tried := tried\<rparr>)"
    note p = get_peer_ok [OF _ gp]
    have ps: "\<forall>p\<in>set ps. peer_ok p" "length ps = length (rg_peers ?g)" "i < length ps" "length tried = length (rr_tried r)"
      using p g by (auto simp: group_ok_def)
    have grp: "group_of (r\<lparr>rr_current := i, rr_tried := tried\<rparr>) = ?g" by (simp add: group_of_def)
    have "rr_ok (r\<lparr>rr_current := i, rr_tried := tried\<rparr>)" using ok ps(4) by (simp add: rr_ok_def)
    then have ok1: "rr_ok r1" unfolding r1_def using ps by (intro set_peers_ok) (simp_all add: grp)
    have h1: "holds_ok r1" using ps(3) False by (simp add: holds_ok_def r1_def grp)
    have "\<exists>nm. r' = r1\<lparr>pc_name := nm\<rparr> \<or> (\<exists>n. r' = r1\<lparr>pc_name := nm, pc_tries := n\<rparr>)"
      using a False gp by (auto simp: rr_attempt_def Let_def r1_def split: if_splits)
    moreover have "rr_on_backup r1 = rr_on_backup r" by (simp add: r1_def)
    ultimately show ?thesis using ok1 h1 by auto
  qed
  then show "rr_ok r'" "holds_ok r'" "rr_on_backup r' = rr_on_backup r" by simp_all
qed

lemma to_backup_ok: "rr_ok r \<Longrightarrow> has_next r \<Longrightarrow> rr_ok (to_backup r)"
  by (auto simp: rr_ok_def has_next_def to_backup_def Let_def)

lemma revive_ok: "group_ok g \<Longrightarrow> group_ok (revive g)"
  by (auto simp: group_ok_def revive_def peer_ok_def)

lemma revive_length [simp]: "length (rg_peers (revive g)) = length (rg_peers g)"
  by (simp add: revive_def)

lemma get_ok:
  assumes ok: "rr_ok r" and g: "ngx_http_upstream_get_round_robin_peer now r = (rc, r')"
  shows "rr_ok r' \<and> (rc = NGX_OK \<longrightarrow> holds_ok r') \<and> (rc = NGX_OK \<or> rc = NGX_BUSY)"
proof -
  have busy: "rr_ok (q\<lparr>rr_backup := map_option revive (rr_backup q), rr_main := revive (rr_main q), pc_name := None\<rparr>)"
    "rr_ok (q\<lparr>rr_backup := map_option revive (rr_backup q), pc_name := None\<rparr>)" "rr_ok (q\<lparr>rr_main := revive (rr_main q), pc_name := None\<rparr>)"
    if "rr_ok q" for q using that by (auto simp: rr_ok_def revive_ok)
  show ?thesis
  proof (cases "rr_attempt now r")
    case (Some q)
    with g rr_attempt_ok [OF ok Some] show ?thesis by (auto simp: ngx_http_upstream_get_round_robin_peer_def)
  next
    case None
    show ?thesis
    proof (cases "has_next r")
      case True
      note tb = to_backup_ok [OF ok True]
      show ?thesis
      proof (cases "rr_attempt now (to_backup r)")
        case (Some q)
        with g None True rr_attempt_ok [OF tb Some] show ?thesis
          by (auto simp: ngx_http_upstream_get_round_robin_peer_def Let_def)
      next
        case None': None
        with g None True busy(1) [OF tb] show ?thesis
          by (auto simp: ngx_http_upstream_get_round_robin_peer_def Let_def)
      qed
    next
      case False
      with g None busy(2,3) [OF ok] show ?thesis
        by (auto simp: ngx_http_upstream_get_round_robin_peer_def split: if_splits)
    qed
  qed
qed

section \<open>What other requests see\<close>

text \<open>All that a request does to a group leaves its number of peers, their weights and the flags alone.\<close>

definition same_shape :: "rr_group \<Rightarrow> rr_group \<Rightarrow> bool" where
  "same_shape g g' \<longleftrightarrow>
     rg_single g' = rg_single g \<and> rg_weighted g' = rg_weighted g \<and> rg_total_weight g' = rg_total_weight g \<and>
     map weight (rg_peers g') = map weight (rg_peers g) \<and> (\<forall>p\<in>set (rg_peers g'). peer_ok p)"

definition keeps_groups :: "'a rr_data_scheme \<Rightarrow> 'a rr_data_scheme \<Rightarrow> bool" where
  "keeps_groups r r' \<longleftrightarrow> same_shape (rr_main r) (rr_main r') \<and> rel_option same_shape (rr_backup r) (rr_backup r')"

lemma same_shape_length: "same_shape g g' \<Longrightarrow> length (rg_peers g') = length (rg_peers g)"
  unfolding same_shape_def by (metis length_map)

lemma same_shape_ok: "same_shape g g' \<Longrightarrow> group_ok g \<Longrightarrow> group_ok g'"
  using same_shape_length [of g g'] by (auto simp: group_ok_def same_shape_def)

lemma same_shape_refl: "group_ok g \<Longrightarrow> same_shape g g"
  by (simp add: same_shape_def group_ok_def)

lemma same_shape_trans: "same_shape f g \<Longrightarrow> same_shape g h \<Longrightarrow> same_shape f h"
  by (simp add: same_shape_def)

lemma keeps_refl: "rr_ok r \<Longrightarrow> keeps_groups r r"
  by (cases "rr_backup r") (auto simp: keeps_groups_def rr_ok_def same_shape_refl)

lemma keeps_trans: "keeps_groups q r \<Longrightarrow> keeps_groups r s \<Longrightarrow> keeps_groups q s"
  unfolding keeps_groups_def by (cases "rr_backup q"; cases "rr_backup r"; cases "rr_backup s") (auto intro: same_shape_trans)

lemma keeps_fields [simp]:
  "keeps_groups r (q\<lparr>pc_tries := n\<rparr>) \<longleftrightarrow> keeps_groups r q" "keeps_groups r (q\<lparr>pc_name := x\<rparr>) \<longleftrightarrow> keeps_groups r q"
  "keeps_groups (r\<lparr>rr_current := i, rr_tried := t\<rparr>) q \<longleftrightarrow> keeps_groups r q"
  by (simp_all add: keeps_groups_def)

lemma set_peers_keeps:
  assumes "rr_ok r" "\<forall>p\<in>set ps. peer_ok p" "map weight ps = map weight (rg_peers (group_of r))"
  shows "keeps_groups r (set_peers ps r)"
  using assms by (cases "rr_backup r") (auto simp: keeps_groups_def set_peers_def group_of_def same_shape_def rr_ok_def group_ok_def)

lemma get_peer_weights:
  assumes "ngx_http_upstream_get_peer now tried ps = Some (j, tried', ps')"
  shows "map weight ps' = map weight ps"
  using get_peer_spec [of now tried ps] assms by (auto intro!: nth_equalityI split: if_splits)

lemma attempt_keeps:
  assumes ok: "rr_ok r" and a: "rr_attempt now r = Some r'"
  shows "keeps_groups r r'"
proof (cases "rg_single (group_of r)")
  case True
  then show ?thesis using a keeps_refl [OF ok] by (auto simp: rr_attempt_def Let_def split: if_splits)
next
  case False
  then obtain i tried ps where gp: "ngx_http_upstream_get_peer now (rr_tried r) (rg_peers (group_of r)) = Some (i, tried, ps)"
    using a by (auto simp: rr_attempt_def split: option.splits)
  have "group_ok (group_of r)" using group_of_ok [OF ok] by simp
  then have p: "\<forall>p\<in>set ps. peer_ok p" "length tried = length (rr_tried r)"
    using get_peer_ok [OF _ gp] by (simp_all add: group_ok_def)
  let ?r = "r\<lparr>rr_current := i, rr_tried := tried\<rparr>"
  have "rr_ok ?r" "group_of ?r = group_of r" using ok p(2) by (simp_all add: rr_ok_def group_of_def)
  then have "keeps_groups ?r (set_peers ps ?r)"
    using p(1) get_peer_weights [OF gp] by (intro set_peers_keeps) simp_all
  then show ?thesis using a False gp by (auto simp: rr_attempt_def Let_def split: if_splits)
qed

lemma revive_shape: "group_ok g \<Longrightarrow> same_shape g (revive g)"
  by (auto simp: same_shape_def revive_def group_ok_def peer_ok_def)

lemma busy_keeps:
  assumes "rr_ok r"
  shows "keeps_groups r (r\<lparr>rr_backup := map_option revive (rr_backup r), rr_main := revive (rr_main r), pc_name := None\<rparr>)"
    "keeps_groups r (r\<lparr>rr_backup := map_option revive (rr_backup r), pc_name := None\<rparr>)"
    "keeps_groups r (r\<lparr>rr_main := revive (rr_main r), pc_name := None\<rparr>)"
  using assms by (cases "rr_backup r"; simp add: keeps_groups_def rr_ok_def revive_shape same_shape_refl)+

lemma to_backup_keeps [simp]: "keeps_groups (to_backup r) q \<longleftrightarrow> keeps_groups r q"
  by (simp add: keeps_groups_def to_backup_def Let_def)

lemma get_keeps:
  assumes ok: "rr_ok r" and g: "ngx_http_upstream_get_round_robin_peer now r = (rc, r')"
  shows "keeps_groups r r'"
proof (cases "rr_attempt now r")
  case (Some q)
  with g attempt_keeps [OF ok Some] show ?thesis by (auto simp: ngx_http_upstream_get_round_robin_peer_def)
next
  case None
  show ?thesis
  proof (cases "has_next r")
    case True
    note tb = to_backup_ok [OF ok True]
    show ?thesis using g None True attempt_keeps [OF tb, of now] busy_keeps(1) [OF tb]
      by (auto simp: ngx_http_upstream_get_round_robin_peer_def Let_def split: option.splits)
  next
    case False
    with g None busy_keeps(2,3) [OF ok] show ?thesis
      by (auto simp: ngx_http_upstream_get_round_robin_peer_def split: if_splits)
  qed
qed

lemma free_keeps:
  assumes ok: "rr_ok r" and h: "holds_ok r"
  shows "keeps_groups r (ngx_http_upstream_free_round_robin_peer now failed r)"
proof (cases "rg_single (group_of r)")
  case True
  then show ?thesis using keeps_refl [OF ok] by (simp add: ngx_http_upstream_free_round_robin_peer_def Let_def)
next
  case False
  let ?ps = "rg_peers (group_of r)" and ?i = "rr_current r"
  define p' where "p' = (if failed then fail_peer now (?ps ! ?i) else if accessed (?ps ! ?i) < checked (?ps ! ?i)
      then (?ps ! ?i)\<lparr>fails := 0\<rparr> else ?ps ! ?i)"
  have i: "?i < length ?ps" using h False by (simp add: holds_ok_def)
  have p: "peer_ok (?ps ! ?i)" "\<forall>p\<in>set ?ps. peer_ok p" using group_of_ok [OF ok] i by (auto simp: group_ok_def)
  have p': "peer_ok p'" "weight p' = weight (?ps ! ?i)"
    using p(1) fail_peer_ok [OF p(1)] by (auto simp: p'_def peer_ok_def fail_peer_def Let_def)
  have "\<forall>p\<in>set (?ps[?i := p']). peer_ok p" using p(2) p'(1) by (auto dest: set_update_subset_insert [THEN subsetD])
  moreover have "map weight (?ps[?i := p']) = map weight ?ps" using p'(2) i by (simp add: map_update list_update_same_conv)
  ultimately have "keeps_groups r (set_peers (?ps[?i := p']) r)" using ok by (intro set_peers_keeps)
  then show ?thesis
    using False by (simp add: ngx_http_upstream_free_round_robin_peer_def Let_def p'_def [symmetric])
qed

lemma keeps_ok:
  assumes "rr_ok r" "keeps_groups r r'" "rr_on_backup r' = rr_on_backup r" "length (rr_tried r') = length (rr_tried r)"
  shows "rr_ok r'"
  using assms unfolding keeps_groups_def rr_ok_def
  by (cases "rr_backup r"; cases "rr_backup r'") (auto dest: same_shape_length same_shape_ok)

lemma keeps_group_of:
  assumes "rr_ok r" "keeps_groups r r'" "rr_on_backup r' = rr_on_backup r"
  shows "same_shape (group_of r) (group_of r')"
  using assms unfolding keeps_groups_def rr_ok_def group_of_def
  by (cases "rr_backup r"; cases "rr_backup r'") auto

lemma free_private [simp]:
  "rr_on_backup (ngx_http_upstream_free_round_robin_peer now failed r) = rr_on_backup r"
  "rr_tried (ngx_http_upstream_free_round_robin_peer now failed r) = rr_tried r"
  "rr_current (ngx_http_upstream_free_round_robin_peer now failed r) = rr_current r"
  by (simp_all add: ngx_http_upstream_free_round_robin_peer_def Let_def)

lemma free_ok: "rr_ok r \<Longrightarrow> holds_ok r \<Longrightarrow> rr_ok (ngx_http_upstream_free_round_robin_peer now failed r)"
  by (rule keeps_ok [OF _ free_keeps]) simp_all

section \<open>The round robin is a balancer\<close>

text \<open>
  What other requests may do between the steps of this one: anything to the shared groups that keeps their
  shape, as the operations themselves do, and nothing to what the request keeps for itself.
\<close>

definition by_others :: "('a rr_data_scheme \<Rightarrow> 'a rr_data_scheme) \<Rightarrow> bool" where
  "by_others f \<longleftrightarrow>
     (\<forall>r. rr_ok r \<longrightarrow> keeps_groups r (f r) \<and> rr_on_backup (f r) = rr_on_backup r \<and> rr_current (f r) = rr_current r \<and>
          rr_tried (f r) = rr_tried r \<and> pc_tries (f r) = pc_tries r)"

definition untried :: "'a rr_data_scheme \<Rightarrow> nat set" where
  "untried r = {i. i < length (rg_peers (group_of r)) \<and> \<not> is_tried (rr_tried r) i}"

definition budget :: "'a rr_data_scheme \<Rightarrow> nat" where
  "budget r = card (untried r) + (if has_next r then length (rg_peers (the (rr_backup r))) else 0)"

lemma budget_keeps:
  assumes "rr_ok r" "keeps_groups r r'" "rr_on_backup r' = rr_on_backup r" "rr_tried r' = rr_tried r"
  shows "budget r' = budget r"
proof -
  have "length (rg_peers (group_of r')) = length (rg_peers (group_of r))"
    using keeps_group_of [OF assms(1-3)] by (rule same_shape_length)
  then have "untried r' = untried r" using assms(4) by (simp add: untried_def)
  moreover have "rel_option same_shape (rr_backup r) (rr_backup r')" using assms(2) by (simp add: keeps_groups_def)
  ultimately show ?thesis
    using assms(3) by (cases "rr_backup r"; cases "rr_backup r'") (simp_all add: budget_def has_next_def same_shape_length)
qed

lemma holds_keeps:
  assumes "rr_ok r" "keeps_groups r r'" "rr_on_backup r' = rr_on_backup r" "rr_current r' = rr_current r" "holds_ok r"
  shows "holds_ok r'"
  using keeps_group_of [OF assms(1-3)] assms(4,5) same_shape_length [of "group_of r" "group_of r'"]
  by (cases "rg_single (group_of r)") (simp_all add: holds_ok_def same_shape_def)

lemma by_othersD:
  assumes "by_others f" "rr_ok r"
  shows "rr_ok (f r)" "holds_ok r \<Longrightarrow> holds_ok (f r)" "budget (f r) = budget r"
    "rg_single (group_of (f r)) = rg_single (group_of r)"
proof -
  have f: "keeps_groups r (f r)" "rr_on_backup (f r) = rr_on_backup r" "rr_current (f r) = rr_current r" "rr_tried (f r) = rr_tried r"
    using assms by (auto simp: by_others_def)
  show "rr_ok (f r)" "holds_ok r \<Longrightarrow> holds_ok (f r)" "budget (f r) = budget r"
    using f keeps_ok [OF assms(2)] holds_keeps [OF assms(2)] budget_keeps [OF assms(2)] by simp_all
  show "rg_single (group_of (f r)) = rg_single (group_of r)" using keeps_group_of [OF assms(2) f(1,2)] by (simp add: same_shape_def)
qed

lemma card_untried_mark:
  assumes "i \<in> untried r" "length (rg_peers (group_of r)) \<le> 64 * length (rr_tried r)"
    "rr_tried r' = mark_tried (rr_tried r) i" "length (rg_peers (group_of r')) = length (rg_peers (group_of r))"
  shows "card (untried r') < card (untried r)"
proof -
  have "untried r' = untried r - {i}"
    using assms is_tried_mark [of i "rr_tried r"] by (auto simp: untried_def)
  moreover have "finite (untried r)" by (simp add: untried_def)
  ultimately show ?thesis using assms(1) by (metis card_Diff1_less)
qed

lemma attempt_budget:
  assumes ok: "rr_ok r" and a: "rr_attempt now r = Some r'" and s: "\<not> rg_single (group_of r)"
  shows "card (untried r') < card (untried r)" "has_next r' = has_next r"
proof -
  from s obtain i tried ps where gp: "ngx_http_upstream_get_peer now (rr_tried r) (rg_peers (group_of r)) = Some (i, tried, ps)"
    using a by (auto simp: rr_attempt_def split: option.splits)
  have i: "i \<in> untried r" "tried = mark_tried (rr_tried r) i"
    using get_peer_spec [of now "rr_tried r" "rg_peers (group_of r)"] gp
    by (auto simp: best_peer_def eligible_def untried_def skip_peer_def)
  have "rr_tried r' = tried" using a s gp by (auto simp: rr_attempt_def Let_def split: if_splits)
  moreover have "same_shape (group_of r) (group_of r')"
    using keeps_group_of [OF ok attempt_keeps [OF ok a] rr_attempt_ok(3) [OF ok a]] .
  ultimately show "card (untried r') < card (untried r)"
    using card_untried_mark [OF i(1), of r'] i(2) group_of_ok [OF ok] by (simp add: same_shape_length)
  show "has_next r' = has_next r"
    using rr_attempt_ok(3) [OF ok a] attempt_keeps [OF ok a]
    by (cases "rr_backup r"; cases "rr_backup r'") (simp_all add: has_next_def keeps_groups_def)
qed

lemma keeps_backup_length:
  "keeps_groups r r' \<Longrightarrow> rr_backup r \<noteq> None \<Longrightarrow> length (rg_peers (the (rr_backup r'))) = length (rg_peers (the (rr_backup r)))"
  by (cases "rr_backup r"; cases "rr_backup r'") (simp_all add: keeps_groups_def same_shape_length)

lemma get_progress:
  assumes ok: "rr_ok r" and g: "ngx_http_upstream_get_round_robin_peer now r = (NGX_OK, r')"
  shows "budget r' < budget r \<or> rg_single (group_of r')"
proof (cases "rr_attempt now r")
  case (Some q)
  then have [simp]: "q = r'" using g by (simp add: ngx_http_upstream_get_round_robin_peer_def)
  have "rg_single (group_of r') = rg_single (group_of r)"
    using keeps_group_of [OF ok attempt_keeps [OF ok Some] rr_attempt_ok(3) [OF ok Some]] by (simp add: same_shape_def)
  moreover have "budget r' < budget r" if "\<not> rg_single (group_of r)"
    using attempt_budget [OF ok Some that] keeps_backup_length [OF attempt_keeps [OF ok Some]]
    by (auto simp: budget_def has_next_def)
  ultimately show ?thesis by blast
next
  case None
  then have n: "has_next r" using g by (auto simp: ngx_http_upstream_get_round_robin_peer_def split: if_splits)
  let ?b = "to_backup r"
  note ok' = to_backup_ok [OF ok n]
  have a: "rr_attempt now ?b = Some r'"
    using g None n by (auto simp: ngx_http_upstream_get_round_robin_peer_def Let_def split: option.splits)
  have nb: "\<not> has_next ?b" "group_of ?b = the (rr_backup r)" by (simp_all add: has_next_def group_of_def to_backup_def Let_def)
  have "untried ?b \<subseteq> {..<length (rg_peers (the (rr_backup r)))}" by (auto simp: untried_def nb)
  then have "card (untried ?b) \<le> length (rg_peers (the (rr_backup r)))" using card_mono [of "{..<length (rg_peers (the (rr_backup r)))}"] by simp
  then have "budget ?b \<le> budget r" using n nb by (simp add: budget_def)
  moreover have "rg_single (group_of r') = rg_single (group_of ?b)"
    using keeps_group_of [OF ok' attempt_keeps [OF ok' a] rr_attempt_ok(3) [OF ok' a]] by (simp add: same_shape_def)
  moreover have "budget r' < budget ?b" if "\<not> rg_single (group_of ?b)"
    using attempt_budget [OF ok' a that] nb by (simp add: budget_def)
  ultimately show ?thesis by fastforce
qed

interpretation rr: balancer ngx_http_upstream_get_round_robin_peer ngx_http_upstream_free_round_robin_peer pc_tries
  rr_ok holds_ok by_others budget
proof (unfold_locales, goal_cases)
  case (1 s now rc s')
  then show ?case using get_ok by blast
next
  case (2 s now failed)
  then show ?case by (rule free_ok)
next
  case (3 f s)
  then show ?case using by_othersD by blast
next
  case (4 s now s')
  then have ok': "rr_ok s'" using get_ok by blast
  have "pc_tries (ngx_http_upstream_free_round_robin_peer n b (f s')) = 0" if "rg_single (group_of s')" "by_others f" for n b f
    using by_othersD(4) [OF that(2) ok'] that(1) by (simp add: ngx_http_upstream_free_round_robin_peer_def Let_def)
  then show ?case using get_progress [OF 4] by blast
next
  case (5 s now failed)
  then show ?case using free_keeps by (intro budget_keeps) simp_all
qed

section \<open>The groups that the configuration gives\<close>

interpretation heavier: key_order ngx_http_upstream_cmp_servers "\<lambda>p. - weight p" UNIV
  by unfold_locales (simp add: ngx_http_upstream_cmp_servers_def)

definition peers_in :: "bool \<Rightarrow> rr_server list \<Rightarrow> rr_peer list" where
  "peers_in backup servers = concat (map peers_of (filter (\<lambda>s. sv_backup s = backup) servers))"

lemma group_peers:
  "rg_peers (rr_group_of allocated backup servers) =
    (if allocated then sort_key (\<lambda>p. - weight p) (peers_in backup servers) else peers_in backup servers)"
proof (cases allocated)
  case False
  then show ?thesis by (simp add: rr_group_of_def Let_def peers_in_def ngx_sort_def)
qed (simp add: rr_group_of_def Let_def peers_in_def heavier.sort_is_sort_key)

lemma sort_key_empty [simp]: "sort_key f xs = [] \<longleftrightarrow> xs = []"
  by (metis length_0_conv length_sort)

lemma group_peers_set [simp]:
  "set (rg_peers (rr_group_of allocated backup servers)) = set (peers_in backup servers)"
  "length (rg_peers (rr_group_of allocated backup servers)) = length (peers_in backup servers)"
  "rg_peers (rr_group_of allocated backup servers) = [] \<longleftrightarrow> peers_in backup servers = []"
  by (simp_all add: group_peers)

lemma length_peers_in: "(\<Sum>s\<leftarrow>filter (\<lambda>s. sv_backup s = backup) servers. of_nat (length (sv_addrs s))) = of_nat (length (peers_in backup servers))"
  by (induction servers) (simp_all add: peers_in_def peers_of_def)

text \<open>A configuration as \<^verbatim>\<open>ngx_http_upstream_server\<close> leaves it: the weights are positive numbers.\<close>

definition servers_ok :: "rr_server list \<Rightarrow> bool" where
  "servers_ok servers \<longleftrightarrow>
     (\<forall>s\<in>set servers. 0 < sv_weight s \<and> sv_weight s < 2 ^ 63) \<and>
     (\<Sum>s\<leftarrow>servers. length (sv_addrs s)) < 2 ^ 64"

lemma peers_in_le: "length (peers_in backup servers) \<le> (\<Sum>s\<leftarrow>servers. length (sv_addrs s))"
  by (induction servers) (auto simp: peers_in_def peers_of_def)

lemma group_of_servers_ok:
  assumes "servers_ok servers" "peers_in backup servers \<noteq> []"
  shows "group_ok (rr_group_of allocated backup servers)"
proof -
  let ?n = "length (peers_in backup servers)"
  have "?n < 2 ^ 64" using peers_in_le [of backup servers] assms(1) unfolding servers_ok_def by linarith
  then have "unat (of_nat ?n :: ngx_uint_t) = ?n" by (simp add: unat_of_nat)
  then have "?n = 1" if "rg_single (rr_group_of allocated backup servers)"
    using that unfolding rr_group_of_def Let_def rr_group.simps length_peers_in by (metis unat_1)
  moreover have "peer_ok p" if "p \<in> set (peers_in backup servers)" for p
    using that assms(1) by (auto simp: peers_in_def peers_of_def peer_ok_def servers_ok_def)
  ultimately show ?thesis using assms(2) by (simp add: group_ok_def)
qed

lemma init_rr_ok:
  assumes "servers_ok servers" "ngx_http_upstream_init_round_robin allocated servers = Some us"
  shows "rr_ok (ngx_http_upstream_init_round_robin_peer us)"
    "budget (ngx_http_upstream_init_round_robin_peer us) \<le> length (peers_in False servers) + length (peers_in True servers)"
proof -
  let ?m = "rr_group_of allocated False servers" and ?b = "rr_group_of allocated True servers"
  let ?r = "ngx_http_upstream_init_round_robin_peer us"
  have m: "peers_in False servers \<noteq> []" "us = (?m, None) \<and> peers_in True servers = [] \<or>
      us = (?m\<lparr>rg_single := False\<rparr>, Some ?b) \<and> peers_in True servers \<noteq> []"
    using assms(2) by (auto simp: ngx_http_upstream_init_round_robin_def Let_def split: if_splits)
  have gm: "group_ok ?m" "group_ok (?m\<lparr>rg_single := False\<rparr>)" using group_of_servers_ok [OF assms(1) m(1), of allocated] by (simp_all add: group_ok_def)
  have words: "n \<le> 64 * (if n \<le> 64 then 1 else (n + 63) div 64)" for n :: nat by simp presburger
  show "rr_ok ?r"
    using m(2)
  proof (elim disjE conjE)
    assume "us = (?m, None)"
    then show ?thesis using gm(1) words [of "length (peers_in False servers)"]
      by (auto simp: rr_ok_def ngx_http_upstream_init_round_robin_peer_def Let_def)
  next
    assume u: "us = (?m\<lparr>rg_single := False\<rparr>, Some ?b)" and b: "peers_in True servers \<noteq> []"
    then show ?thesis using gm(2) group_of_servers_ok [OF assms(1) b, of allocated]
        words [of "length (peers_in False servers)"] words [of "length (peers_in True servers)"]
      by (auto simp: rr_ok_def ngx_http_upstream_init_round_robin_peer_def Let_def)
  qed
  have "group_of ?r = rr_main ?r" "length (rg_peers (rr_main ?r)) = length (peers_in False servers)"
    using m(2) by (auto simp: group_of_def ngx_http_upstream_init_round_robin_peer_def Let_def)
  then have "untried ?r \<subseteq> {..<length (peers_in False servers)}" by (auto simp: untried_def)
  then have "card (untried ?r) \<le> length (peers_in False servers)" using card_mono [of "{..<length (peers_in False servers)}"] by simp
  moreover have "(if has_next ?r then length (rg_peers (the (rr_backup ?r))) else 0) \<le> length (peers_in True servers)"
    using m(2) by (auto simp: has_next_def ngx_http_upstream_init_round_robin_peer_def Let_def)
  ultimately show "budget ?r \<le> length (peers_in False servers) + length (peers_in True servers)" by (simp add: budget_def)
qed

text \<open>Is there a peer that the request can be given in its current group?\<close>

definition live :: "int \<Rightarrow> 'a rr_data_scheme \<Rightarrow> bool" where
  "live now r \<longleftrightarrow>
     (if rg_single (group_of r) then \<not> down (rg_peers (group_of r) ! 0)
      else \<exists>i<length (rg_peers (group_of r)). \<not> skip_peer now (rr_tried r) i (rg_peers (group_of r) ! i))"

lemma attempt_live: "rr_attempt now r = None \<longleftrightarrow> \<not> live now r"
proof (cases "rg_single (group_of r)")
  case False
  have "ngx_http_upstream_get_peer now (rr_tried r) (rg_peers (group_of r)) = None \<longleftrightarrow> eligible now (rr_tried r) 0 (rg_peers (group_of r)) = {}"
    using get_peer_spec [of now "rr_tried r" "rg_peers (group_of r)"] by (auto simp: best_peer_def split: option.splits)
  with False show ?thesis by (auto simp: rr_attempt_def live_def eligible_def Let_def split: option.splits)
qed (simp add: rr_attempt_def live_def Let_def)

lemma revive_fails: "p \<in> set (rg_peers (revive g)) \<Longrightarrow> fails p = 0"
  by (auto simp: revive_def)

lemma attempt_group: "rr_attempt now r = Some r' \<Longrightarrow> rr_on_backup r' = rr_on_backup r"
  by (auto simp: rr_attempt_def Let_def split: if_splits option.splits)

text \<open>Two servers of weights 1 and 5, and one for backup.\<close>

definition sample_server :: "string \<Rightarrow> int \<Rightarrow> bool \<Rightarrow> rr_server" where
  "sample_server name w b =
     \<lparr>sv_addrs = [bytes name], sv_weight = w, sv_max_fails = 1, sv_fail_timeout = 10, sv_down = False, sv_backup = b\<rparr>"

definition sample_servers :: "rr_server list" where
  "sample_servers = [sample_server ''a'' 1 False, sample_server ''b'' 5 False, sample_server ''c'' 1 True]"

lemma sample_servers_ok: "servers_ok sample_servers"
  by (simp add: servers_ok_def sample_servers_def sample_server_def)

lemma sample_init: "\<exists>us. ngx_http_upstream_init_round_robin True sample_servers = Some us"
  by (simp add: ngx_http_upstream_init_round_robin_def Let_def)
    (simp add: peers_in_def sample_servers_def sample_server_def peers_of_def)

definition failing_attempt :: "int \<Rightarrow> 's attempt" where
  "failing_attempt now =
     \<lparr>at_before = id, at_get = now, at_during = id, at_free = now, at_outcome = Fails FT_TIMEOUT, at_client_error = False\<rparr>"

lemma by_others_id: "by_others id"
  by (simp add: by_others_def keeps_refl)

section \<open>Properties\<close>

text \<open>
  C14.  Failover: a request is given a peer of its current group whenever that has a live one; it goes over to the
  backup group only when it has none, and is refused only when the backup group has none either.  Then
  the failures of its group are forgotten, so that the next request finds the peers live again.
\<close>

theorem round_robin_failover:
  assumes "rr_ok r"
  shows "case ngx_http_upstream_get_round_robin_peer now r of (rc, r') \<Rightarrow>
     if live now r then rc = NGX_OK \<and> rr_on_backup r' = rr_on_backup r
     else if has_next r \<and> live now (to_backup r) then rc = NGX_OK \<and> rr_on_backup r'
     else rc = NGX_BUSY \<and> (\<forall>p\<in>set (rg_peers (group_of r')). fails p = 0) \<and>
       (\<not> rr_on_backup r \<longrightarrow> (\<forall>p\<in>set (rg_peers (rr_main r')). fails p = 0))"
proof -
  have tb: "rr_on_backup (to_backup r)" by (simp add: to_backup_def Let_def)
  show ?thesis
  proof (cases "live now r")
    case True
    then obtain q where "rr_attempt now r = Some q" using attempt_live [of now r] by auto
    with True attempt_group [OF this] show ?thesis by (simp add: ngx_http_upstream_get_round_robin_peer_def)
  next
    case False
    then have a: "rr_attempt now r = None" by (simp add: attempt_live)
    show ?thesis
    proof (cases "has_next r")
      case next_group: True
      show ?thesis
      proof (cases "live now (to_backup r)")
        case True
        then obtain q where "rr_attempt now (to_backup r) = Some q" using attempt_live [of now "to_backup r"] by auto
        with False a next_group True attempt_group [OF this] tb show ?thesis
          by (simp add: ngx_http_upstream_get_round_robin_peer_def Let_def)
      next
        case no_backup: False
        then have "rr_attempt now (to_backup r) = None" by (simp add: attempt_live)
        with False a next_group no_backup tb show ?thesis
          by (auto simp: ngx_http_upstream_get_round_robin_peer_def Let_def group_of_def has_next_def to_backup_def intro: revive_fails)
      qed
    next
      case no_next: False
      have "rr_backup r \<noteq> None" if "rr_on_backup r" using assms that by (simp add: rr_ok_def)
      with False a no_next show ?thesis
        by (cases "rr_backup r") (auto simp: ngx_http_upstream_get_round_robin_peer_def group_of_def has_next_def intro: revive_fails)
    qed
  qed
qed

theorem round_robin_failover_witness:
  "\<exists>us. ngx_http_upstream_init_round_robin True sample_servers = Some us \<and>
     (case ngx_http_upstream_get_round_robin_peer 0 (ngx_http_upstream_init_round_robin_peer us) of
        (rc, r') \<Rightarrow> rc = NGX_OK \<or> rc = NGX_BUSY)"
proof -
  obtain us where us: "ngx_http_upstream_init_round_robin True sample_servers = Some us" using sample_init by blast
  show ?thesis
    using us round_robin_failover [OF init_rr_ok(1) [OF sample_servers_ok us], of 0] by (auto split: prod.splits if_splits)
qed

text \<open>
  C13.  A request ends: with the peers of a configuration, whatever happens to its attempts and whatever other
  requests do to the shared peers meanwhile, a request for which more attempts come than there are peers and
  backup peers is finalized, and the peer it held last is given back.
\<close>

theorem round_robin_request_ends:
  assumes "servers_ok servers" and "ngx_http_upstream_init_round_robin allocated servers = Some us"
    and "\<forall>a\<in>set as. by_others (at_before a) \<and> by_others (at_during a)" and "next_upstream AND FT_NOLIVE = 0"
    and "length (peers_in False servers) + length (peers_in True servers) < length as"
  shows "\<exists>rc u. upstream_run ngx_http_upstream_get_round_robin_peer ngx_http_upstream_free_round_robin_peer pc_tries next_upstream as
      \<lparr>up_peer = ngx_http_upstream_init_round_robin_peer us, up_sockaddr = False, up_status = 0\<rparr> = Inl (rc, u) \<and>
    rr_ok (up_peer u) \<and> \<not> up_sockaddr u"
  using init_rr_ok [OF assms(1,2)] assms(3-5) by (intro rr.run_ends) simp_all

theorem round_robin_request_ends_witness:
  "\<exists>us rc u. ngx_http_upstream_init_round_robin True sample_servers = Some us \<and>
     upstream_run ngx_http_upstream_get_round_robin_peer ngx_http_upstream_free_round_robin_peer pc_tries 6
       (map failing_attempt [0, 1, 2, 3])
       \<lparr>up_peer = ngx_http_upstream_init_round_robin_peer us, up_sockaddr = False, up_status = 0\<rparr> = Inl (rc, u) \<and> \<not> up_sockaddr u"
proof -
  obtain us where us: "ngx_http_upstream_init_round_robin True sample_servers = Some us" using sample_init by blast
  have "\<exists>rc u. upstream_run ngx_http_upstream_get_round_robin_peer ngx_http_upstream_free_round_robin_peer pc_tries 6
      (map failing_attempt [0, 1, 2, 3])
      \<lparr>up_peer = ngx_http_upstream_init_round_robin_peer us, up_sockaddr = False, up_status = 0\<rparr> = Inl (rc, u) \<and>
    rr_ok (up_peer u) \<and> \<not> up_sockaddr u"
    by (rule round_robin_request_ends [OF sample_servers_ok us])
      (simp_all add: failing_attempt_def by_others_id peers_in_def sample_servers_def sample_server_def peers_of_def)
  then show ?thesis using us by blast
qed

text \<open>
  The array of peers holds all addresses of the servers of its group, the heaviest first and equal weights in
  the order of the configuration; there is a backup group exactly if some server is a backup with an address.
\<close>

theorem round_robin_init_order:
  "case ngx_http_upstream_init_round_robin True servers of
     None \<Rightarrow> peers_in False servers = []
   | Some (main, backup) \<Rightarrow>
       rg_peers main = sort_key (\<lambda>p. - weight p) (peers_in False servers) \<and> rg_peers main \<noteq> [] \<and>
       (case backup of None \<Rightarrow> peers_in True servers = []
        | Some b \<Rightarrow> rg_peers b = sort_key (\<lambda>p. - weight p) (peers_in True servers) \<and> rg_peers b \<noteq> [])"
  by (auto simp: ngx_http_upstream_init_round_robin_def Let_def group_peers [of True])

end
