(* ===== verification/Upstream_Least_Conn.thy ===== *)
theory Upstream_Least_Conn
  imports Upstream_Rr_Request
begin

unbundle bit_operations_syntax

text \<open>
  The balancer of least connections, \<^verbatim>\<open>src/http/modules/ngx_http_upstream_least_conn_module.c\<close>: among the
  live peers the one with the fewest connections for its weight, and among several of those the smooth weighted choice.
  It is built on the round robin of \<open>Upstream_Rr\<close>, whose data come first in its own.
\<close>

section \<open>The data\<close>

text \<open>
  \<open>lc_conns\<close> is the array \<^verbatim>\<open>lcf->conns\<close>, shared between requests, for the peers of both groups one after the
  other; \<open>lc_off\<close> is where \<^verbatim>\<open>lcp->conns\<close> points into it.
\<close>

record lc_data = rr_data +
  lc_conns :: "ngx_uint_t list"
  lc_off :: nat

text \<open>\<^verbatim>\<open>lcp->conns[i] * peer->weight\<close>, an unsigned product.\<close>

definition lc_load :: "ngx_uint_t list \<Rightarrow> nat \<Rightarrow> rr_peer list \<Rightarrow> nat \<Rightarrow> nat \<Rightarrow> ngx_uint_t" where
  "lc_load conns off ps i p = conns ! (off + i) * of_int (weight (ps ! p))"

section \<open>The choice\<close>

text \<open>The first loop: the best peer so far, and \<open>many\<close>.\<close>

definition lc_scan :: "int \<Rightarrow> ngx_uint_t list \<Rightarrow> ngx_uint_t list \<Rightarrow> nat \<Rightarrow> rr_peer list \<Rightarrow> (nat \<times> bool) option \<Rightarrow> nat \<Rightarrow> (nat \<times> bool) option" where
  "lc_scan now tried conns off ps best i =
     (if skip_peer now tried i (ps ! i) then best
      else case best of
        None \<Rightarrow> Some (i, False)
      | Some (p, many) \<Rightarrow>
          if lc_load conns off ps i p < lc_load conns off ps p i then Some (i, False)
          else if lc_load conns off ps i p = lc_load conns off ps p i then Some (p, True)
          else best)"

text \<open>The second loop, over the peers from the first best one on.\<close>

definition lc_many :: "int \<Rightarrow> ngx_uint_t list \<Rightarrow> ngx_uint_t list \<Rightarrow> nat \<Rightarrow> rr_peer list \<times> nat \<times> int \<Rightarrow> nat \<Rightarrow> rr_peer list \<times> nat \<times> int" where
  "lc_many now tried conns off st i =
     (case st of (ps, p, ttl) \<Rightarrow>
        if lc_load conns off ps i p \<noteq> lc_load conns off ps p i \<or> skip_peer now tried i (ps ! i)
        then st
        else
          (let ps' = ps[i := bump (ps ! i)]; ttl = wrap64 (ttl + effective_weight (ps ! i)) in
           (ps', if current_weight (ps' ! i) > current_weight (ps' ! p) then i else p, ttl)))"

definition lc_choose :: "int \<Rightarrow> ngx_uint_t list \<Rightarrow> ngx_uint_t list \<Rightarrow> nat \<Rightarrow> rr_peer list \<Rightarrow> (nat \<times> rr_peer list) option" where
  "lc_choose now tried conns off ps =
     (case foldl (lc_scan now tried conns off ps) None [0..<length ps] of
        None \<Rightarrow> None
      | Some (p, many) \<Rightarrow>
          (let (ps, p, ttl) = (if many then foldl (lc_many now tried conns off) (ps, p, 0) [p..<length ps] else (ps, p, 0)) in
           Some (p, ps[p := (ps ! p)\<lparr>current_weight := wrap64 (current_weight (ps ! p) - ttl), checked := now\<rparr>])))"

section \<open>A request asks for a peer and gives it back\<close>

text \<open>Up to the label \<^verbatim>\<open>failed\<close>; \<open>None\<close> is the jump there.\<close>

definition lc_attempt :: "int \<Rightarrow> lc_data \<Rightarrow> lc_data option" where
  "lc_attempt now l =
     (case lc_choose now (rr_tried l) (lc_conns l) (lc_off l) (rg_peers (group_of l)) of
        None \<Rightarrow> None
      | Some (p, ps) \<Rightarrow>
          (let l = set_peers ps l;
               l = l\<lparr>pc_name := Some (rp_name (ps ! p)), rr_current := p, rr_tried := mark_tried (rr_tried l) p,
                     lc_conns := (lc_conns l)[lc_off l + p := lc_conns l ! (lc_off l + p) + 1]\<rparr> in
           Some (if pc_tries l = 1 \<and> has_next l
                 then l\<lparr>pc_tries := pc_tries l + of_nat (length (rg_peers (the (rr_backup l))))\<rparr> else l)))"

text \<open>The peers of a group that has failed are marked as live.\<close>

definition lc_busy :: "lc_data \<Rightarrow> lc_data" where
  "lc_busy l =
     (if rr_on_backup l then l\<lparr>rr_backup := map_option revive (rr_backup l), pc_name := None\<rparr>
      else l\<lparr>rr_main := revive (rr_main l), pc_name := None\<rparr>)"

text \<open>The call for a group with no other behind it, which is also the recursive one.\<close>

definition lc_last :: "int \<Rightarrow> lc_data \<Rightarrow> ngx_rc \<times> lc_data" where
  "lc_last now l =
     (if rg_single (group_of l) then ngx_http_upstream_get_round_robin_peer now l
      else case lc_attempt now l of Some l \<Rightarrow> (NGX_OK, l) | None \<Rightarrow> (NGX_BUSY, lc_busy l))"

definition lc_to_backup :: "lc_data \<Rightarrow> lc_data" where
  "lc_to_backup l = (to_backup l)\<lparr>lc_off := lc_off l + length (rg_peers (rr_main l))\<rparr>"

definition ngx_http_upstream_get_least_conn_peer :: "int \<Rightarrow> lc_data \<Rightarrow> ngx_rc \<times> lc_data" where
  "ngx_http_upstream_get_least_conn_peer now l =
     (if rg_single (group_of l) then ngx_http_upstream_get_round_robin_peer now l
      else case lc_attempt now l of
        Some l \<Rightarrow> (NGX_OK, l)
      | None \<Rightarrow>
          if has_next l
          then (case lc_last now (lc_to_backup l) of (rc, l) \<Rightarrow>
                  if rc \<noteq> NGX_BUSY then (rc, l) else (NGX_BUSY, l\<lparr>rr_main := revive (rr_main l), pc_name := None\<rparr>))
          else (NGX_BUSY, lc_busy l))"

definition ngx_http_upstream_free_least_conn_peer :: "int \<Rightarrow> bool \<Rightarrow> lc_data \<Rightarrow> lc_data" where
  "ngx_http_upstream_free_least_conn_peer now failed l =
     (if rg_single (group_of l) then ngx_http_upstream_free_round_robin_peer now failed l
      else
        (let i = lc_off l + rr_current l; l = l\<lparr>lc_conns := (lc_conns l)[i := lc_conns l ! i - 1]\<rparr> in
         ngx_http_upstream_free_round_robin_peer now failed l))"

section \<open>Setting up\<close>

text \<open>The groups, and the counters of the connections, one for each of their peers.\<close>

definition ngx_http_upstream_init_least_conn :: "bool \<Rightarrow> rr_server list \<Rightarrow> ((rr_group \<times> rr_group option) \<times> ngx_uint_t list) option" where
  "ngx_http_upstream_init_least_conn allocated servers =
     (case ngx_http_upstream_init_round_robin allocated servers of
        None \<Rightarrow> None
      | Some (main, backup) \<Rightarrow>
          (let n = length (rg_peers main);
               n = (case backup of None \<Rightarrow> n | Some b \<Rightarrow> n + length (rg_peers b)) in
           Some ((main, backup), replicate n 0)))"

definition ngx_http_upstream_init_least_conn_peer :: "(rr_group \<times> rr_group option) \<times> ngx_uint_t list \<Rightarrow> lc_data" where
  "ngx_http_upstream_init_least_conn_peer us =
     rr_data.extend (ngx_http_upstream_init_round_robin_peer (fst us)) (lc_data.fields (snd us) 0)"

end
