(* ===== verification/Upstream_Least_Conn_Spec.thy ===== *)
theory Upstream_Least_Conn_Spec
  imports Upstream_Least_Conn
begin

unbundle bit_operations_syntax

text \<open>
  What the balancer of \<open>Upstream_Least_Conn\<close> guarantees: the peer chosen has the least load, the balancer meets the
  contract of \<open>Upstream_Next\<close>, and the counters of connections are exact over any interleaving of requests.
\<close>

section \<open>The choice\<close>

lemma ratio_trans:
  fixes a b c x y z :: nat
  assumes "a * y \<le> b * x" "b * z \<le> c * y" "0 < y"
  shows "a * z \<le> c * x"
proof -
  have "(a * z) * y \<le> (b * x) * z" using mult_le_mono1 [OF assms(1), of z] by (simp add: ac_simps)
  also have "\<dots> \<le> (c * x) * y" using mult_le_mono1 [OF assms(2), of x] by (simp add: ac_simps)
  finally show ?thesis using assms(3) by simp
qed

text \<open>The connections of a peer and its weight, as numbers; \<open>fits\<close> says that no product of them wraps.\<close>

definition conn_of :: "ngx_uint_t list \<Rightarrow> nat \<Rightarrow> nat \<Rightarrow> nat" where
  "conn_of conns off i = unat (conns ! (off + i))"

definition weight_of :: "rr_peer list \<Rightarrow> nat \<Rightarrow> nat" where
  "weight_of ps i = nat (weight (ps ! i))"

definition fits :: "ngx_uint_t list \<Rightarrow> nat \<Rightarrow> rr_peer list \<Rightarrow> bool" where
  "fits conns off ps \<longleftrightarrow>
     (\<forall>i<length ps. 0 < weight (ps ! i) \<and> weight (ps ! i) < 2 ^ 63) \<and>
     (\<forall>i<length ps. \<forall>j<length ps. conn_of conns off i * weight_of ps j < 2 ^ 64)"

lemma unat_load:
  assumes "fits conns off ps" "i < length ps" "p < length ps"
  shows "unat (lc_load conns off ps i p) = conn_of conns off i * weight_of ps p"
proof -
  have w: "0 < weight (ps ! p)" "weight (ps ! p) < 2 ^ 63" "conn_of conns off i * weight_of ps p < 2 ^ 64"
    using assms by (auto simp: fits_def)
  then have "of_int (weight (ps ! p)) = (of_nat (weight_of ps p) :: ngx_uint_t)" by (simp add: weight_of_def)
  moreover have "weight_of ps p < 2 ^ 64" using w by (simp add: weight_of_def)
  then have "unat (of_nat (weight_of ps p) :: ngx_uint_t) = weight_of ps p" by (simp add: unat_of_nat)
  ultimately show ?thesis using w(3) by (simp add: lc_load_def unat_word_ariths conn_of_def)
qed

definition least_load :: "nat set \<Rightarrow> (nat \<Rightarrow> nat) \<Rightarrow> (nat \<Rightarrow> nat) \<Rightarrow> nat \<Rightarrow> bool" where
  "least_load E c w p \<longleftrightarrow> p \<in> E \<and> (\<forall>i\<in>E. c p * w i \<le> c i * w p)"

lemma scan_spec:
  assumes "fits conns off ps" "k \<le> length ps"
  shows "case foldl (lc_scan now tried conns off ps) None [0..<k] of
      None \<Rightarrow> eligible now tried 0 (take k ps) = {}
    | Some (p, many) \<Rightarrow> least_load (eligible now tried 0 (take k ps)) (conn_of conns off) (weight_of ps) p"
  using assms(2)
proof (induction k)
  case 0
  then show ?case by (simp add: eligible_def)
next
  case (Suc k)
  let ?E = "eligible now tried 0 (take k ps)" and ?c = "conn_of conns off" and ?w = "weight_of ps"
  let ?best = "foldl (lc_scan now tried conns off ps) None [0..<k]"
  have k: "k < length ps" using Suc.prems by simp
  have E: "eligible now tried 0 (take (Suc k) ps) = (if skip_peer now tried k (ps ! k) then ?E else insert k ?E)"
    using k by (auto simp: eligible_def less_Suc_eq)
  have lt: "p < length ps" if "p \<in> ?E" for p using that by (simp add: eligible_def)
  have w: "0 < ?w i" if "i < length ps" for i using assms(1) that by (simp add: fits_def weight_of_def)
  have step: "foldl (lc_scan now tried conns off ps) None [0..<Suc k] = lc_scan now tried conns off ps ?best k" by simp
  show ?case
  proof (cases "skip_peer now tried k (ps ! k)")
    case True
    then show ?thesis
      using Suc E unfolding step by (cases ?best) (auto simp: lc_scan_def [of now tried conns off ps _ k])
  next
    case el: False
    show ?thesis
    proof (cases ?best)
      case None
      then show ?thesis using Suc E el unfolding step by (simp add: lc_scan_def [of now tried conns off ps _ k] least_load_def)
    next
      case (Some b)
      obtain p many where b: "b = (p, many)" by (cases b)
      have p: "p \<in> ?E" "\<And>i. i \<in> ?E \<Longrightarrow> ?c p * ?w i \<le> ?c i * ?w p" using Suc Some b by (simp_all add: least_load_def)
      note u = unat_load [OF assms(1) k lt [OF p(1)]] unat_load [OF assms(1) lt [OF p(1)] k]
      show ?thesis
      proof (cases "lc_load conns off ps k p < lc_load conns off ps p k")
        case True
        then have less: "?c k * ?w p \<le> ?c p * ?w k" using u by (simp add: word_less_nat_alt)
        have "?c k * ?w i \<le> ?c i * ?w k" if "i \<in> ?E" for i
          using ratio_trans [OF less p(2) [OF that] w [OF lt [OF p(1)]]] .
        then show ?thesis using Some b True el E unfolding step by (simp add: lc_scan_def [of now tried conns off ps _ k] least_load_def)
      next
        case False
        then have "?c p * ?w k \<le> ?c k * ?w p" using u by (simp add: word_less_nat_alt)
        then show ?thesis using Some b False el E p unfolding step by (auto simp: lc_scan_def [of now tried conns off ps _ k] least_load_def)
      qed
    qed
  qed
qed

text \<open>The second loop changes no field that decides who may be chosen or how heavy it is.\<close>

definition kin :: "rr_peer \<Rightarrow> rr_peer \<Rightarrow> bool" where
  "kin p q \<longleftrightarrow> weight q = weight p \<and> rp_name q = rp_name p \<and> (peer_ok p \<longrightarrow> peer_ok q)"

definition alike :: "rr_peer \<Rightarrow> rr_peer \<Rightarrow> bool" where
  "alike p q \<longleftrightarrow> kin p q \<and> (\<forall>now tried k. skip_peer now tried k q = skip_peer now tried k p)"

lemma alike_bump: "alike p q \<Longrightarrow> alike p (bump q)"
  by (simp add: alike_def kin_def skip_peer_def bump_ok)

lemma all_alike_bump: "list_all2 alike ps qs \<Longrightarrow> i < length ps \<Longrightarrow> list_all2 alike ps (qs[i := bump (qs ! i)])"
  using list_all2_update_cong [of alike ps qs "ps ! i" "bump (qs ! i)" i] alike_bump list_all2_nthD [of alike ps qs i] by simp

lemma scan_eligible:
  assumes "k \<le> length ps"
  shows "case foldl (lc_scan now tried conns off ps) None [0..<k] of
      None \<Rightarrow> eligible now tried 0 (take k ps) = {}
    | Some (p, many) \<Rightarrow> p \<in> eligible now tried 0 (take k ps)"
  using assms
proof (induction k)
  case 0
  then show ?case by (simp add: eligible_def)
next
  case (Suc k)
  have "eligible now tried 0 (take (Suc k) ps) =
      (if skip_peer now tried k (ps ! k) then eligible now tried 0 (take k ps) else insert k (eligible now tried 0 (take k ps)))"
    using Suc.prems by (auto simp: eligible_def less_Suc_eq)
  then show ?case
    using Suc by (cases "foldl (lc_scan now tried conns off ps) None [0..<k]") (auto simp: lc_scan_def [of now tried conns off ps _ k])
qed

text \<open>A property of the chosen peer that passes on to any live one of the same load holds after the second loop.\<close>

lemma many_spec:
  assumes step: "\<And>p i. Q p \<Longrightarrow> i \<in> eligible now tried 0 ps \<Longrightarrow> lc_load conns off ps i p = lc_load conns off ps p i \<Longrightarrow> Q i"
    and Q: "\<And>p. Q p \<Longrightarrow> p < length ps"
    and "list_all2 alike ps ps1" "Q p" "set xs \<subseteq> {..<length ps}" "foldl (lc_many now tried conns off) (ps1, p, ttl) xs = (ps', p', ttl')"
  shows "list_all2 alike ps ps' \<and> Q p'"
  using assms(3-)
proof (induction xs arbitrary: ps1 p ttl)
  case Nil
  then show ?case by simp
next
  case (Cons i xs)
  have i: "i < length ps" and p: "p < length ps" using Cons.prems(2,3) Q by auto
  have load: "lc_load conns off ps1 a b = lc_load conns off ps a b" if "b < length ps" for a b
    using list_all2_nthD [OF Cons.prems(1) that] by (simp add: lc_load_def alike_def kin_def)
  have skip: "skip_peer now tried i (ps1 ! i) = skip_peer now tried i (ps ! i)"
    using list_all2_nthD [OF Cons.prems(1) i] by (simp add: alike_def)
  obtain ps2 p2 ttl2 where st: "lc_many now tried conns off (ps1, p, ttl) i = (ps2, p2, ttl2)" by (metis prod_cases3)
  have "list_all2 alike ps ps2 \<and> Q p2"
  proof (cases "lc_load conns off ps i p \<noteq> lc_load conns off ps p i \<or> skip_peer now tried i (ps ! i)")
    case True
    then show ?thesis using st Cons.prems(1,2) load i p skip by (simp add: lc_many_def)
  next
    case False
    then have "Q i" using step [OF Cons.prems(2)] i by (simp add: eligible_def)
    moreover have "p2 = i \<or> p2 = p" "ps2 = ps1[i := bump (ps1 ! i)]"
      using st False load i p skip by (auto simp: lc_many_def Let_def)
    ultimately show ?thesis using Cons.prems(2) all_alike_bump [OF Cons.prems(1) i] by auto
  qed
  with Cons.IH [of ps2 p2 ttl2] Cons.prems(3,4) st show ?case by simp
qed

lemma choose_transfer:
  assumes step: "\<And>p i. Q p \<Longrightarrow> i \<in> eligible now tried 0 ps \<Longrightarrow> lc_load conns off ps i p = lc_load conns off ps p i \<Longrightarrow> Q i"
    and Q: "\<And>p. Q p \<Longrightarrow> p < length ps"
    and scan: "\<And>p many. foldl (lc_scan now tried conns off ps) None [0..<length ps] = Some (p, many) \<Longrightarrow> Q p"
    and c: "lc_choose now tried conns off ps = Some (j, ps')"
  shows "Q j \<and> list_all2 kin ps ps'"
proof -
  obtain p many where s: "foldl (lc_scan now tried conns off ps) None [0..<length ps] = Some (p, many)"
    using c by (auto simp: lc_choose_def split: option.splits)
  obtain ps1 p1 ttl where st: "(if many then foldl (lc_many now tried conns off) (ps, p, 0) [p..<length ps] else (ps, p, 0)) = (ps1, p1, ttl)"
    by (metis prod_cases3)
  have refl: "list_all2 alike ps ps" by (simp add: list_all2_same alike_def kin_def)
  have "set [p..<length ps] \<subseteq> {..<length ps}" by auto
  then have m: "list_all2 alike ps ps1 \<and> Q p1"
    using st scan [OF s] refl many_spec [where Q = Q and xs = "[p..<length ps]" and ttl = 0 and ps' = ps1 and p' = p1 and ttl' = ttl, OF step Q refl scan [OF s]] by (cases many) simp_all
  then have p1: "p1 < length ps" and k: "list_all2 kin ps ps1"
    using Q by (auto simp: alike_def intro: list_all2_mono)
  have "kin (ps ! p1) ((ps1 ! p1)\<lparr>current_weight := c, checked := now\<rparr>)" for c
    using list_all2_nthD [OF k p1] by (auto simp: kin_def peer_ok_def)
  then have "list_all2 kin ps (ps1[p1 := (ps1 ! p1)\<lparr>current_weight := c, checked := now\<rparr>])" for c
    using list_all2_update_cong [OF k, of "ps ! p1" _ p1] by simp
  then show ?thesis using s st m c by (auto simp: lc_choose_def)
qed

lemma choose_none: "lc_choose now tried conns off ps = None \<longleftrightarrow> eligible now tried 0 ps = {}"
  using scan_eligible [of "length ps" ps now tried conns off] by (auto simp: lc_choose_def split: option.splits prod.splits)

lemma choose_eligible:
  assumes "lc_choose now tried conns off ps = Some (j, ps')"
  shows "j \<in> eligible now tried 0 ps" "list_all2 kin ps ps'"
proof -
  have "j \<in> eligible now tried 0 ps \<and> list_all2 kin ps ps'"
    using scan_eligible [of "length ps" ps now tried conns off]
    by (intro choose_transfer [OF _ _ _ assms]) (auto simp: eligible_def)
  then show "j \<in> eligible now tried 0 ps" "list_all2 kin ps ps'" by simp_all
qed

lemma choose_least:
  assumes fits: "fits conns off ps" and "lc_choose now tried conns off ps = Some (j, ps')"
  shows "least_load (eligible now tried 0 ps) (conn_of conns off) (weight_of ps) j"
proof -
  let ?E = "eligible now tried 0 ps" and ?c = "conn_of conns off" and ?w = "weight_of ps"
  have "least_load ?E ?c ?w i" if "least_load ?E ?c ?w p" "i \<in> ?E" "lc_load conns off ps i p = lc_load conns off ps p i" for p i
  proof -
    have i: "i < length ps" "p < length ps" using that by (auto simp: least_load_def eligible_def)
    have eq: "?c i * ?w p = ?c p * ?w i" using that(3) unat_load [OF fits i] unat_load [OF fits i(2,1)] by simp
    have "0 < ?w p" using fits i by (simp add: fits_def weight_of_def)
    then have "?c i * ?w k \<le> ?c k * ?w i" if "k \<in> ?E" for k
      using ratio_trans [of "?c i" "?w p" "?c p" "?w i" "?w k" "?c k"] eq \<open>least_load ?E ?c ?w p\<close> that by (simp add: least_load_def)
    then show ?thesis using that(2) by (simp add: least_load_def)
  qed
  then have "least_load ?E ?c ?w j \<and> list_all2 kin ps ps'"
    using scan_spec [OF fits order_refl, of now tried]
    by (intro choose_transfer [OF _ _ _ assms(2)]) (auto simp: least_load_def eligible_def)
  then show ?thesis by simp
qed

section \<open>The contract of a balancer\<close>

definition all_peers :: "'a rr_data_scheme \<Rightarrow> nat" where
  "all_peers r = length (rg_peers (rr_main r)) + (case rr_backup r of None \<Rightarrow> 0 | Some b \<Rightarrow> length (rg_peers b))"

definition lc_ok :: "lc_data \<Rightarrow> bool" where
  "lc_ok l \<longleftrightarrow>
     rr_ok l \<and> length (lc_conns l) = all_peers l \<and> lc_off l = (if rr_on_backup l then length (rg_peers (rr_main l)) else 0) \<and>
     (rg_single (rr_main l) \<longrightarrow> rr_backup l = None)"

definition lc_others :: "(lc_data \<Rightarrow> lc_data) \<Rightarrow> bool" where
  "lc_others f \<longleftrightarrow> by_others f \<and> (\<forall>l. length (lc_conns (f l)) = length (lc_conns l) \<and> lc_off (f l) = lc_off l)"

lemma kin_peers:
  assumes "list_all2 kin ps qs" "\<forall>p\<in>set ps. peer_ok p"
  shows "\<forall>p\<in>set qs. peer_ok p" "map weight qs = map weight ps" "length qs = length ps"
proof -
  show len: "length qs = length ps" using assms(1) by (simp add: list_all2_lengthD)
  have n: "kin (ps ! i) (qs ! i)" if "i < length ps" for i using list_all2_nthD [OF assms(1) that] .
  show "\<forall>p\<in>set qs. peer_ok p"
  proof
    fix q assume "q \<in> set qs"
    then obtain i where i: "i < length ps" "q = qs ! i" using len by (auto simp: in_set_conv_nth)
    then show "peer_ok q" using n [OF i(1)] assms(2) nth_mem [OF i(1)] by (simp add: kin_def)
  qed
  show "map weight qs = map weight ps" using n len by (intro nth_equalityI) (simp_all add: kin_def)
qed

lemma keeps_all_peers: "keeps_groups r r' \<Longrightarrow> all_peers r' = all_peers r"
  by (cases "rr_backup r"; cases "rr_backup r'") (auto simp: all_peers_def keeps_groups_def same_shape_length)

lemma keeps_lc_ok:
  assumes "lc_ok l" "keeps_groups l l'" "rr_on_backup l' = rr_on_backup l" "length (rr_tried l') = length (rr_tried l)"
    "length (lc_conns l') = length (lc_conns l)" "lc_off l' = lc_off l"
  shows "lc_ok l'"
proof -
  have "rr_ok l'" using keeps_ok [OF _ assms(2-4)] assms(1) by (simp add: lc_ok_def)
  moreover have "same_shape (rr_main l) (rr_main l')" "rel_option same_shape (rr_backup l) (rr_backup l')"
    using assms(2) by (simp_all add: keeps_groups_def)
  then have "rg_single (rr_main l') = rg_single (rr_main l)" "length (rg_peers (rr_main l')) = length (rg_peers (rr_main l))"
    "rr_backup l' = None \<longleftrightarrow> rr_backup l = None"
    by (simp_all add: same_shape_def same_shape_length option.rel_sel)
  ultimately show ?thesis using assms keeps_all_peers [OF assms(2)] by (simp add: lc_ok_def)
qed

text \<open>The operations of the round robin leave the counters alone.\<close>

lemma lc_set_peers [simp]: "lc_conns (set_peers ps l) = lc_conns l" "lc_off (set_peers ps l) = lc_off l"
  by (simp_all add: set_peers_def)

lemma rr_attempt_counters: "rr_attempt now l = Some l' \<Longrightarrow> lc_conns l' = lc_conns l \<and> lc_off l' = lc_off l"
  by (auto simp: rr_attempt_def Let_def split: if_splits option.splits)

lemma to_backup_counters [simp]: "lc_conns (to_backup l) = lc_conns l" "lc_off (to_backup l) = lc_off l"
  by (simp_all add: to_backup_def Let_def)

lemma rr_get_counters:
  assumes "ngx_http_upstream_get_round_robin_peer now l = (rc, l')"
  shows "lc_conns l' = lc_conns l" "lc_off l' = lc_off l"
  using assms rr_attempt_counters [of now l] rr_attempt_counters [of now "to_backup l"]
  by (auto simp: ngx_http_upstream_get_round_robin_peer_def Let_def split: option.splits if_splits)

lemma rr_free_counters [simp]:
  "lc_conns (ngx_http_upstream_free_round_robin_peer now failed l) = lc_conns l"
  "lc_off (ngx_http_upstream_free_round_robin_peer now failed l) = lc_off l"
  by (simp_all add: ngx_http_upstream_free_round_robin_peer_def Let_def)

lemma counters_update [simp]:
  "group_of (l\<lparr>lc_conns := c\<rparr>) = group_of l" "rr_ok (l\<lparr>lc_conns := c\<rparr>) \<longleftrightarrow> rr_ok l" "holds_ok (l\<lparr>lc_conns := c\<rparr>) \<longleftrightarrow> holds_ok l"
  "keeps_groups (l\<lparr>lc_conns := c\<rparr>) q \<longleftrightarrow> keeps_groups l q" "budget (l\<lparr>lc_conns := c\<rparr>) = budget l"
  by (simp_all add: group_of_def rr_ok_def holds_ok_def keeps_groups_def budget_def untried_def has_next_def)

lemma lc_attempt_facts:
  assumes ok: "rr_ok l" and a: "lc_attempt now l = Some l'"
  shows "keeps_groups l l'" "rr_on_backup l' = rr_on_backup l" "lc_off l' = lc_off l"
    "rr_current l' \<in> untried l" "rr_tried l' = mark_tried (rr_tried l) (rr_current l')"
    "lc_conns l' = (lc_conns l)[lc_off l + rr_current l' := lc_conns l ! (lc_off l + rr_current l') + 1]"
proof -
  obtain p ps where c: "lc_choose now (rr_tried l) (lc_conns l) (lc_off l) (rg_peers (group_of l)) = Some (p, ps)"
    using a by (auto simp: lc_attempt_def split: option.splits)
  note e = choose_eligible [OF c]
  have "\<forall>p\<in>set (rg_peers (group_of l)). peer_ok p" using group_of_ok [OF ok] by (simp add: group_ok_def)
  note k = kin_peers [OF e(2) this]
  have keeps: "keeps_groups l (set_peers ps l)" using set_peers_keeps [OF ok k(1,2)] .
  define l1 where "l1 = (set_peers ps l)\<lparr>pc_name := Some (rp_name (ps ! p)), rr_current := p, rr_tried := mark_tried (rr_tried l) p,
      lc_conns := (lc_conns l)[lc_off l + p := lc_conns l ! (lc_off l + p) + 1]\<rparr>"
  have l': "l' = l1 \<or> (\<exists>n. l' = l1\<lparr>pc_tries := n\<rparr>)" using a by (auto simp: lc_attempt_def c Let_def l1_def split: if_splits)
  have "keeps_groups l l1" using keeps by (simp add: l1_def keeps_groups_def)
  then show "keeps_groups l l'" using l' by auto
  have cur: "rr_current l' = p" using l' by (auto simp: l1_def)
  show "rr_current l' \<in> untried l" using e(1) unfolding cur by (simp add: untried_def eligible_def skip_peer_def)
  show "rr_on_backup l' = rr_on_backup l" "lc_off l' = lc_off l" "rr_tried l' = mark_tried (rr_tried l) (rr_current l')"
    "lc_conns l' = (lc_conns l)[lc_off l + rr_current l' := lc_conns l ! (lc_off l + rr_current l') + 1]"
    unfolding cur using l' by (auto simp: l1_def)
qed

lemma lc_attempt_ok:
  assumes ok: "lc_ok l" and a: "lc_attempt now l = Some l'" and s: "\<not> rg_single (group_of l)"
  shows "lc_ok l'" "holds_ok l'" "budget l' < budget l" "rg_single (group_of l') = rg_single (group_of l)"
proof -
  have rr: "rr_ok l" using ok by (simp add: lc_ok_def)
  note f = lc_attempt_facts [OF rr a]
  show "lc_ok l'" using f by (intro keeps_lc_ok [OF ok f(1,2)]) simp_all
  note g = keeps_group_of [OF rr f(1,2)]
  then show single: "rg_single (group_of l') = rg_single (group_of l)" by (simp add: same_shape_def)
  show "holds_ok l'" using f(4) single s same_shape_length [OF g] by (simp add: holds_ok_def untried_def)
  have "card (untried l') < card (untried l)"
    using card_untried_mark [OF f(4), of l'] f(5) group_of_ok [OF rr] same_shape_length [OF g] by simp
  moreover have "has_next l' = has_next l" using f(1,2)
    by (cases "rr_backup l"; cases "rr_backup l'") (simp_all add: has_next_def keeps_groups_def)
  ultimately show "budget l' < budget l" using keeps_backup_length [OF f(1)] by (auto simp: budget_def has_next_def)
qed

text \<open>Where the counter of the peer is that a request holds; a single peer has none.\<close>

definition slot :: "lc_data \<Rightarrow> nat option" where
  "slot l = (if rg_single (group_of l) then None else Some (lc_off l + rr_current l))"

definition count_at :: "nat option \<Rightarrow> ngx_uint_t \<Rightarrow> ngx_uint_t list \<Rightarrow> ngx_uint_t list" where
  "count_at s d conns = (case s of None \<Rightarrow> conns | Some i \<Rightarrow> conns[i := conns ! i + d])"

lemma count_at_length [simp]: "length (count_at s d conns) = length conns"
  by (simp add: count_at_def split: option.splits)

lemma slot_in_range: "lc_ok l \<Longrightarrow> holds_ok l \<Longrightarrow> slot l = Some i \<Longrightarrow> i < length (lc_conns l)"
  by (auto simp: slot_def lc_ok_def holds_ok_def all_peers_def group_of_def rr_ok_def split: if_splits option.splits)

text \<open>What one call for a peer does, on every path.\<close>

definition lc_result :: "lc_data \<Rightarrow> ngx_rc \<Rightarrow> lc_data \<Rightarrow> bool" where
  "lc_result l rc l' \<longleftrightarrow>
     lc_ok l' \<and> keeps_groups l l' \<and>
     (rc = NGX_OK \<and> holds_ok l' \<and> (budget l' < budget l \<or> rg_single (group_of l')) \<and> lc_conns l' = count_at (slot l') 1 (lc_conns l) \<or>
      rc = NGX_BUSY \<and> lc_conns l' = lc_conns l)"

lemma single_no_next: "lc_ok l \<Longrightarrow> rg_single (group_of l) \<Longrightarrow> \<not> has_next l"
  by (auto simp: lc_ok_def has_next_def group_of_def split: if_splits)

lemma single_result:
  assumes ok: "lc_ok l" and s: "rg_single (group_of l)" and g: "ngx_http_upstream_get_round_robin_peer now l = (rc, l')"
  shows "lc_result l rc l'"
proof -
  have rr: "rr_ok l" using ok by (simp add: lc_ok_def)
  note n = single_no_next [OF ok s]
  have p: "rr_on_backup l' = rr_on_backup l" "rr_tried l' = rr_tried l"
    using g s n by (auto simp: ngx_http_upstream_get_round_robin_peer_def rr_attempt_def Let_def split: if_splits)
  note k = get_keeps [OF rr g] and c = rr_get_counters [OF g]
  have "rg_single (group_of l')" using keeps_group_of [OF rr k p(1)] s by (simp add: same_shape_def)
  moreover have "lc_ok l'" using keeps_lc_ok [OF ok k p(1)] p(2) c by simp
  ultimately show ?thesis using get_ok [OF rr g] k c by (auto simp: lc_result_def slot_def count_at_def)
qed

lemma attempt_result:
  assumes ok: "lc_ok l" and s: "\<not> rg_single (group_of l)" and a: "lc_attempt now l = Some l'"
  shows "lc_result l NGX_OK l'"
  using lc_attempt_ok [OF ok a s] lc_attempt_facts [OF _ a] ok s by (auto simp: lc_result_def lc_ok_def slot_def count_at_def)

lemma busy_result:
  assumes ok: "lc_ok l"
  shows "lc_result l NGX_BUSY (lc_busy l)"
proof -
  have k: "keeps_groups l (lc_busy l)" using ok busy_keeps(2,3) by (auto simp: lc_busy_def lc_ok_def)
  have c: "lc_conns (lc_busy l) = lc_conns l" "lc_off (lc_busy l) = lc_off l" "rr_tried (lc_busy l) = rr_tried l"
    "rr_on_backup (lc_busy l) = rr_on_backup l" by (simp_all add: lc_busy_def)
  then show ?thesis using k keeps_lc_ok [OF ok k] by (simp add: lc_result_def)
qed

lemma last_result:
  assumes ok: "lc_ok l" and g: "lc_last now l = (rc, l')"
  shows "lc_result l rc l'"
proof (cases "rg_single (group_of l)")
  case True
  then show ?thesis using g single_result [OF ok] by (simp add: lc_last_def)
next
  case False
  then show ?thesis using g attempt_result [OF ok False] busy_result [OF ok] by (auto simp: lc_last_def split: option.splits)
qed

lemma lc_to_backup_facts:
  assumes ok: "lc_ok l" and n: "has_next l"
  shows "lc_ok (lc_to_backup l)" "keeps_groups (lc_to_backup l) q \<longleftrightarrow> keeps_groups l q" "budget (lc_to_backup l) \<le> budget l"
    "lc_conns (lc_to_backup l) = lc_conns l"
proof -
  let ?b = "to_backup l"
  have "rr_ok ?b" using ok to_backup_ok [OF _ n] by (simp add: lc_ok_def)
  then have "rr_ok (lc_to_backup l)" by (simp add: lc_to_backup_def rr_ok_def)
  then show "lc_ok (lc_to_backup l)"
    using ok n by (simp add: lc_ok_def lc_to_backup_def to_backup_def Let_def all_peers_def has_next_def)
  show "keeps_groups (lc_to_backup l) q \<longleftrightarrow> keeps_groups l q" "lc_conns (lc_to_backup l) = lc_conns l"
    by (simp_all add: lc_to_backup_def to_backup_def Let_def keeps_groups_def)
  have "untried (lc_to_backup l) \<subseteq> {..<length (rg_peers (the (rr_backup l)))}"
    by (auto simp: untried_def group_of_def lc_to_backup_def to_backup_def Let_def)
  then have "card (untried (lc_to_backup l)) \<le> length (rg_peers (the (rr_backup l)))"
    using card_mono [of "{..<length (rg_peers (the (rr_backup l)))}"] by simp
  moreover have "\<not> has_next (lc_to_backup l)" by (simp add: has_next_def lc_to_backup_def to_backup_def Let_def)
  ultimately show "budget (lc_to_backup l) \<le> budget l" using n by (simp add: budget_def)
qed

lemma lc_get_result:
  assumes ok: "lc_ok l" and g: "ngx_http_upstream_get_least_conn_peer now l = (rc, l')"
  shows "lc_result l rc l'"
proof (cases "rg_single (group_of l)")
  case True
  then show ?thesis using g single_result [OF ok] by (simp add: ngx_http_upstream_get_least_conn_peer_def)
next
  case False
  show ?thesis
  proof (cases "lc_attempt now l")
    case (Some q)
    then show ?thesis using g False attempt_result [OF ok False] by (simp add: ngx_http_upstream_get_least_conn_peer_def)
  next
    case None
    show ?thesis
    proof (cases "has_next l")
      case no: False
      then show ?thesis using g False None busy_result [OF ok] by (auto simp: ngx_http_upstream_get_least_conn_peer_def)
    next
      case True
      note b = lc_to_backup_facts [OF ok True]
      obtain rc1 l1 where l1: "lc_last now (lc_to_backup l) = (rc1, l1)" by fastforce
      note r = last_result [OF b(1) l1]
      show ?thesis
      proof (cases "rc1 = NGX_BUSY")
        case busy: True
        let ?q = "l1\<lparr>rr_main := revive (rr_main l1), pc_name := None\<rparr>"
        have l1_ok: "lc_ok l1" "keeps_groups l l1" "lc_conns l1 = lc_conns l" using r b busy by (auto simp: lc_result_def)
        have k: "keeps_groups l1 ?q" using l1_ok(1) busy_keeps(3) [of l1] by (simp add: lc_ok_def)
        have "lc_ok ?q" using keeps_lc_ok [OF l1_ok(1) k] by simp
        moreover have "keeps_groups l ?q" using keeps_trans [OF l1_ok(2) k] .
        ultimately have "lc_result l NGX_BUSY ?q" using l1_ok(3) by (simp add: lc_result_def)
        then show ?thesis using g False None True l1 busy by (auto simp: ngx_http_upstream_get_least_conn_peer_def)
      next
        case other: False
        then have "lc_result l rc1 l1" using r b by (auto simp: lc_result_def)
        then show ?thesis using g False None True l1 other by (auto simp: ngx_http_upstream_get_least_conn_peer_def)
      qed
    qed
  qed
qed

lemma lc_free_facts:
  assumes ok: "lc_ok l" and h: "holds_ok l"
  shows "keeps_groups l (ngx_http_upstream_free_least_conn_peer now failed l)"
    "lc_ok (ngx_http_upstream_free_least_conn_peer now failed l)"
    "budget (ngx_http_upstream_free_least_conn_peer now failed l) = budget l"
    "lc_conns (ngx_http_upstream_free_least_conn_peer now failed l) = count_at (slot l) (- 1) (lc_conns l)"
proof -
  let ?l = "ngx_http_upstream_free_least_conn_peer now failed l"
  have rr: "rr_ok l" using ok by (simp add: lc_ok_def)
  show k: "keeps_groups l ?l" using free_keeps [OF rr h] free_keeps [of "l\<lparr>lc_conns := c\<rparr>" now failed for c] rr h
    by (auto simp: ngx_http_upstream_free_least_conn_peer_def Let_def)
  have p: "rr_on_backup ?l = rr_on_backup l" "rr_tried ?l = rr_tried l" "lc_off ?l = lc_off l" "length (lc_conns ?l) = length (lc_conns l)"
    by (simp_all add: ngx_http_upstream_free_least_conn_peer_def Let_def)
  then show "lc_ok ?l" "budget ?l = budget l" using keeps_lc_ok [OF ok k] budget_keeps [OF rr k] by simp_all
  show "lc_conns ?l = count_at (slot l) (- 1) (lc_conns l)"
    by (simp add: ngx_http_upstream_free_least_conn_peer_def Let_def slot_def count_at_def)
qed

interpretation lc: balancer ngx_http_upstream_get_least_conn_peer ngx_http_upstream_free_least_conn_peer pc_tries
  lc_ok holds_ok lc_others budget
proof (unfold_locales, goal_cases)
  case (1 s now rc s')
  then show ?case using lc_get_result by (auto simp: lc_result_def)
next
  case (2 s now failed)
  then show ?case by (rule lc_free_facts(2))
next
  case (3 f s)
  then have f: "by_others f" "rr_ok s" by (simp_all add: lc_others_def lc_ok_def)
  then have "lc_ok (f s)" using 3 by (intro keeps_lc_ok [OF 3(2)]) (simp_all add: lc_others_def by_others_def)
  then show ?case using by_othersD [OF f] by blast
next
  case (4 s now s')
  have "pc_tries (ngx_http_upstream_free_least_conn_peer n b (f s')) = 0" if "rg_single (group_of s')" "lc_others f" for n b f
  proof -
    have "rr_ok s'" "by_others f" using lc_get_result [OF 4] that(2) by (simp_all add: lc_result_def lc_ok_def lc_others_def)
    then show ?thesis using by_othersD(4) [of f s'] that(1)
      by (simp add: ngx_http_upstream_free_least_conn_peer_def ngx_http_upstream_free_round_robin_peer_def Let_def)
  qed
  then show ?case using lc_get_result [OF 4] by (auto simp: lc_result_def)
next
  case (5 s now failed)
  then show ?case by (rule lc_free_facts(3))
qed

end
