(* ===== verification/Upstream_Conns.thy ===== *)
theory Upstream_Conns
  imports Upstream_Least_Conn_Spec
begin

unbundle bit_operations_syntax

text \<open>
  Many requests at one upstream with the balancer of least connections.  The groups and the counters are shared; each
  request has data of its own, and the operations of the requests come in any order.  The counters are exact in
  every reachable state.
\<close>

section \<open>The system\<close>

text \<open>The requests, each with whether it holds a peer; its own copy of the shared part is not looked at.\<close>

record lc_system =
  ls_main :: rr_group
  ls_backup :: "rr_group option"
  ls_conns :: "ngx_uint_t list"
  ls_reqs :: "(lc_data \<times> bool) list"

definition view :: "lc_system \<Rightarrow> lc_data \<Rightarrow> lc_data" where
  "view y l = l\<lparr>rr_main := ls_main y, rr_backup := ls_backup y, lc_conns := ls_conns y\<rparr>"

definition put :: "nat \<Rightarrow> lc_data \<Rightarrow> bool \<Rightarrow> lc_system \<Rightarrow> lc_system" where
  "put k l h y =
     y\<lparr>ls_main := rr_main l, ls_backup := rr_backup l, ls_conns := lc_conns l, ls_reqs := (ls_reqs y)[k := (l, h)]\<rparr>"

text \<open>A request comes, asks for a peer when it holds none, and gives its peer back.\<close>

inductive lc_step :: "lc_system \<Rightarrow> lc_system \<Rightarrow> bool" where
  arrive: "lc_step y (y\<lparr>ls_reqs := ls_reqs y @
      [(ngx_http_upstream_init_least_conn_peer ((ls_main y, ls_backup y), ls_conns y), False)]\<rparr>)"
| ask: "k < length (ls_reqs y) \<Longrightarrow> ls_reqs y ! k = (l, False) \<Longrightarrow>
    ngx_http_upstream_get_least_conn_peer now (view y l) = (rc, l') \<Longrightarrow> lc_step y (put k l' (rc = NGX_OK) y)"
| give: "k < length (ls_reqs y) \<Longrightarrow> ls_reqs y ! k = (l, True) \<Longrightarrow>
    lc_step y (put k (ngx_http_upstream_free_least_conn_peer now failed (view y l)) False y)"

definition initial :: "(rr_group \<times> rr_group option) \<times> ngx_uint_t list \<Rightarrow> lc_system" where
  "initial us = \<lparr>ls_main = fst (fst us), ls_backup = snd (fst us), ls_conns = snd us, ls_reqs = []\<rparr>"

section \<open>The invariant\<close>

definition held :: "lc_system \<Rightarrow> nat option list" where
  "held y = map (\<lambda>(l, h). if h then slot (view y l) else None) (ls_reqs y)"

definition lc_inv :: "lc_system \<Rightarrow> bool" where
  "lc_inv y \<longleftrightarrow>
     (\<forall>(l, h) \<in> set (ls_reqs y). lc_ok (view y l) \<and> (h \<longrightarrow> holds_ok (view y l))) \<and>
     lc_ok (ngx_http_upstream_init_least_conn_peer ((ls_main y, ls_backup y), ls_conns y)) \<and>
     (\<forall>j<length (ls_conns y). ls_conns y ! j = of_nat (count_list (held y) (Some j)))"

lemma view_put [simp]: "view (put k l' h y) l = l\<lparr>rr_main := rr_main l', rr_backup := rr_backup l', lc_conns := lc_conns l'\<rparr>"
  by (simp add: view_def put_def)

lemma view_put_same [simp]: "view (put k l' h y) l' = l'"
  by (simp add: view_def put_def)

text \<open>A request does not see the difference when another one has run.\<close>

lemma other_view:
  assumes ok: "lc_ok (view y q)" and k: "keeps_groups (view y l) l'" and c: "length (lc_conns l') = length (ls_conns y)"
  shows "lc_ok (view (put i l' h y) q)" "holds_ok (view y q) \<Longrightarrow> holds_ok (view (put i l' h y) q)"
    "slot (view (put i l' h y) q) = slot (view y q)"
proof -
  let ?q = "view (put i l' h y) q"
  have k': "keeps_groups (view y q) ?q" using k by (simp add: keeps_groups_def view_def put_def)
  have s: "rr_on_backup ?q = rr_on_backup (view y q)" "rr_tried ?q = rr_tried (view y q)" "rr_current ?q = rr_current (view y q)"
    "lc_off ?q = lc_off (view y q)" "length (lc_conns ?q) = length (lc_conns (view y q))"
    using c by (simp_all add: view_def put_def)
  have rr: "rr_ok (view y q)" using ok by (simp add: lc_ok_def)
  show "lc_ok ?q" using keeps_lc_ok [OF ok k' s(1) _ s(5,4)] s(2) by simp
  show "holds_ok (view y q) \<Longrightarrow> holds_ok ?q" using holds_keeps [OF rr k' s(1,3)] .
  show "slot ?q = slot (view y q)" using keeps_group_of [OF rr k' s(1)] s unfolding slot_def same_shape_def by simp
qed

lemma fresh_view:
  assumes "lc_ok (ngx_http_upstream_init_least_conn_peer ((ls_main y, ls_backup y), ls_conns y))" "keeps_groups (view y l) l'"
    "length (lc_conns l') = length (ls_conns y)"
  shows "lc_ok (ngx_http_upstream_init_least_conn_peer ((rr_main l', rr_backup l'), lc_conns l'))"
proof -
  let ?p = "\<lambda>m b c. ngx_http_upstream_init_least_conn_peer ((m, b), c)"
  let ?f = "?p (ls_main y) (ls_backup y) (ls_conns y)" and ?f' = "?p (rr_main l') (rr_backup l') (lc_conns l')"
  have p: "rr_main (?p m b c) = m" "rr_backup (?p m b c) = b" "lc_conns (?p m b c) = c" "lc_off (?p m b c) = 0" "\<not> rr_on_backup (?p m b c)" for m b c
    by (simp_all add: ngx_http_upstream_init_least_conn_peer_def ngx_http_upstream_init_round_robin_peer_def Let_def rr_data.extend_def lc_data.fields_def)
  have k: "keeps_groups ?f ?f'" using assms(2) by (simp add: keeps_groups_def p view_def)
  have "length (rg_peers (rr_main l')) = length (rg_peers (ls_main y))"
    "rel_option (\<lambda>g g'. length (rg_peers g') = length (rg_peers g)) (ls_backup y) (rr_backup l')"
    using assms(2) by (auto simp: keeps_groups_def view_def intro: same_shape_length option.rel_mono_strong)
  then have "rr_tried ?f' = rr_tried ?f"
    by (cases "ls_backup y"; cases "rr_backup l'") (simp_all add: ngx_http_upstream_init_least_conn_peer_def ngx_http_upstream_init_round_robin_peer_def Let_def rr_data.extend_def lc_data.fields_def)
  then show ?thesis using keeps_lc_ok [OF assms(1) k] assms(3) by (simp add: p)
qed

lemma count_list_update:
  "k < length xs \<Longrightarrow> count_list (xs[k := y]) z + of_bool (xs ! k = z) = count_list xs z + of_bool (y = z)"
proof (induction xs arbitrary: k)
  case (Cons x xs)
  then show ?case by (cases k) auto
qed simp

lemma put_inv:
  assumes inv: "lc_inv y" and k: "k < length (ls_reqs y)" "ls_reqs y ! k = (l, h)"
    and l': "lc_ok l'" "keeps_groups (view y l) l'" "length (lc_conns l') = length (ls_conns y)" "h' \<Longrightarrow> holds_ok l'"
    and c: "\<And>j. j < length (ls_conns y) \<Longrightarrow>
      lc_conns l' ! j + of_bool (h \<and> slot (view y l) = Some j) = ls_conns y ! j + of_bool (h' \<and> slot l' = Some j)"
  shows "lc_inv (put k l' h' y)"
proof -
  let ?y = "put k l' h' y"
  have reqs: "ls_reqs ?y = (ls_reqs y)[k := (l', h')]" "ls_conns ?y = lc_conns l'" by (simp_all add: put_def)
  have old: "lc_ok (view y q) \<and> (b \<longrightarrow> holds_ok (view y q))" if "(q, b) \<in> set (ls_reqs y)" for q b
    using inv that by (auto simp: lc_inv_def)
  have held: "held ?y = (held y)[k := if h' then slot l' else None]"
  proof (rule nth_equalityI)
    fix i assume "i < length (held ?y)"
    then have i: "i < length (ls_reqs y)" by (simp add: held_def reqs)
    obtain q b where q: "ls_reqs y ! i = (q, b)" by (cases "ls_reqs y ! i")
    then have "lc_ok (view y q)" using old nth_mem [OF i] by simp
    then show "held ?y ! i = (held y)[k := if h' then slot l' else None] ! i"
      using i q other_view(3) [of y q l l' k h'] l'(2,3) by (cases "i = k") (simp_all add: held_def reqs del: view_put)
  qed (simp add: held_def reqs)
  have "ls_conns ?y ! j = of_nat (count_list (held ?y) (Some j))" if j: "j < length (ls_conns ?y)" for j
  proof -
    have "j < length (ls_conns y)" using j l'(3) by (simp add: reqs)
    then have "lc_conns l' ! j + of_bool (h \<and> slot (view y l) = Some j) =
        of_nat (count_list (held y) (Some j) + of_bool (h' \<and> slot l' = Some j))"
      using c [of j] inv by (simp add: lc_inv_def)
    moreover have "held y ! k = (if h then slot (view y l) else None)" "k < length (held y)" using k by (simp_all add: held_def)
    then have "count_list (held ?y) (Some j) + of_bool (h \<and> slot (view y l) = Some j) =
        count_list (held y) (Some j) + of_bool (h' \<and> slot l' = Some j)"
      using count_list_update [of k "held y" "if h' then slot l' else None" "Some j"] unfolding held
      by (cases h; cases h') simp_all
    ultimately have "lc_conns l' ! j + of_bool (h \<and> slot (view y l) = Some j) =
        of_nat (count_list (held ?y) (Some j)) + of_bool (h \<and> slot (view y l) = Some j)" by (metis of_nat_add of_nat_of_bool)
    then show ?thesis by (simp add: reqs)
  qed
  moreover have "lc_ok (view ?y q) \<and> (b \<longrightarrow> holds_ok (view ?y q))" if "(q, b) \<in> set (ls_reqs ?y)" for q b
  proof (cases "(q, b) = (l', h')")
    case False
    then have "(q, b) \<in> set (ls_reqs y)" using that set_update_subset_insert [of "ls_reqs y" k "(l', h')"] by (auto simp: reqs)
    then show ?thesis using old other_view(1,2) [OF _ l'(2,3)] by blast
  qed (use l' in simp)
  moreover have "lc_ok (ngx_http_upstream_init_least_conn_peer ((ls_main ?y, ls_backup ?y), ls_conns ?y))"
    using fresh_view [OF _ l'(2,3)] inv by (simp add: lc_inv_def put_def)
  ultimately show ?thesis unfolding lc_inv_def by blast
qed

lemma step_inv:
  assumes "lc_step y y'" "lc_inv y"
  shows "lc_inv y'"
  using assms
proof cases
  case arrive
  let ?l = "ngx_http_upstream_init_least_conn_peer ((ls_main y, ls_backup y), ls_conns y)"
  have v: "view y ?l = ?l"
    by (simp add: view_def ngx_http_upstream_init_least_conn_peer_def ngx_http_upstream_init_round_robin_peer_def Let_def rr_data.extend_def lc_data.fields_def)
  have w: "view y' q = view y q" for q by (simp add: arrive view_def)
  moreover have "ls_reqs y' = ls_reqs y @ [(?l, False)]" by (simp add: arrive)
  ultimately have "held y' = held y @ [None]" by (auto simp: held_def)
  then have "count_list (held y') (Some j) = count_list (held y) (Some j)" for j by simp
  then show ?thesis using assms(2) v w unfolding lc_inv_def by (simp add: arrive)
next
  case (ask k l now rc l')
  have "lc_ok (view y l)" using assms(2) ask(2,3) nth_mem [of k "ls_reqs y"] by (auto simp: lc_inv_def)
  note r = lc_get_result [OF this ask(4), unfolded lc_result_def]
  have conns: "lc_conns (view y l) = ls_conns y" by (simp add: view_def)
  have range: "i < length (ls_conns y)" if "rc = NGX_OK" "slot l' = Some i" for i
    using slot_in_range [OF _ _ that(2)] r that(1) conns by auto
  show ?thesis unfolding ask(1)
  proof (rule put_inv [OF assms(2) ask(2,3)])
    show "lc_ok l'" "keeps_groups (view y l) l'" "length (lc_conns l') = length (ls_conns y)" "rc = NGX_OK \<Longrightarrow> holds_ok l'"
      using r conns by auto
    show "lc_conns l' ! j + of_bool (False \<and> slot (view y l) = Some j) = ls_conns y ! j + of_bool (rc = NGX_OK \<and> slot l' = Some j)"
      if "j < length (ls_conns y)" for j
      using r conns that range by (cases "slot l'") (auto simp: count_at_def nth_list_update)
  qed
next
  case (give k l now failed)
  have ok: "lc_ok (view y l)" "holds_ok (view y l)" using assms(2) give(2,3) nth_mem [of k "ls_reqs y"] by (auto simp: lc_inv_def)
  note f = lc_free_facts [OF ok, of now failed]
  have conns: "lc_conns (view y l) = ls_conns y" by (simp add: view_def)
  show ?thesis unfolding give(1)
  proof (rule put_inv [OF assms(2) give(2,3) f(2,1)])
    show "length (lc_conns (ngx_http_upstream_free_least_conn_peer now failed (view y l))) = length (ls_conns y)" using f(4) conns by simp
    show "lc_conns (ngx_http_upstream_free_least_conn_peer now failed (view y l)) ! j + of_bool (True \<and> slot (view y l) = Some j) =
        ls_conns y ! j + of_bool (False \<and> slot (ngx_http_upstream_free_least_conn_peer now failed (view y l)) = Some j)"
      if "j < length (ls_conns y)" for j
      using that f(4) conns slot_in_range [OF ok] by (cases "slot (view y l)") (auto simp: count_at_def nth_list_update)
  qed simp
qed

section \<open>Properties\<close>

lemma init_lc_ok:
  assumes "servers_ok servers" "ngx_http_upstream_init_least_conn allocated servers = Some us"
  shows "lc_ok (ngx_http_upstream_init_least_conn_peer us)"
    "budget (ngx_http_upstream_init_least_conn_peer us) \<le> length (peers_in False servers) + length (peers_in True servers)"
    "set (snd us) \<subseteq> {0}"
proof -
  obtain main backup where i: "ngx_http_upstream_init_round_robin allocated servers = Some (main, backup)"
    using assms(2) by (auto simp: ngx_http_upstream_init_least_conn_def split: option.splits)
  note r = init_rr_ok [OF assms(1) i]
  let ?r = "ngx_http_upstream_init_round_robin_peer (main, backup)" and ?l = "ngx_http_upstream_init_least_conn_peer us"
  have us: "fst us = (main, backup)" "length (snd us) = length (rg_peers main) + (case backup of None \<Rightarrow> 0 | Some b \<Rightarrow> length (rg_peers b))"
    "set (snd us) \<subseteq> {0}"
    using assms(2) by (auto simp: ngx_http_upstream_init_least_conn_def i Let_def split: option.splits)
  have f: "rr_main ?l = rr_main ?r" "rr_backup ?l = rr_backup ?r" "rr_on_backup ?l = rr_on_backup ?r" "rr_tried ?l = rr_tried ?r"
    "rr_main ?r = main" "rr_backup ?r = backup" "\<not> rr_on_backup ?r" "lc_conns ?l = snd us" "lc_off ?l = 0"
    by (simp_all add: ngx_http_upstream_init_least_conn_peer_def us(1) ngx_http_upstream_init_round_robin_peer_def Let_def rr_data.extend_def lc_data.fields_def)
  have "rg_single main \<longrightarrow> backup = None"
    using i by (auto simp: ngx_http_upstream_init_round_robin_def Let_def split: if_splits)
  then show "lc_ok ?l" using r(1) us(2) f(5-7) unfolding lc_ok_def rr_ok_def all_peers_def f by auto
  have "budget ?l = budget ?r" by (simp add: budget_def untried_def group_of_def has_next_def f)
  then show "budget ?l \<le> length (peers_in False servers) + length (peers_in True servers)" using r(2) by simp
  show "set (snd us) \<subseteq> {0}" by (rule us(3))
qed

lemma initial_inv:
  assumes "servers_ok servers" "ngx_http_upstream_init_least_conn allocated servers = Some us"
  shows "lc_inv (initial us)"
proof -
  have "snd us ! j = 0" if "j < length (snd us)" for j using init_lc_ok(3) [OF assms] nth_mem [OF that] by auto
  then show ?thesis using init_lc_ok(1) [OF assms] by (simp add: lc_inv_def initial_def held_def)
qed

text \<open>The groups keep their kind, so that whether a request is counted is known from the start.\<close>

definition single_kinds :: "(rr_group \<times> rr_group option) \<Rightarrow> bool \<times> bool option" where
  "single_kinds us = (rg_single (fst us), map_option rg_single (snd us))"

lemma keeps_single_kinds: "keeps_groups l l' \<Longrightarrow> single_kinds (rr_main l', rr_backup l') = single_kinds (rr_main l, rr_backup l)"
  by (cases "rr_backup l"; cases "rr_backup l'") (simp_all add: keeps_groups_def same_shape_def single_kinds_def)

lemma step_single_kinds:
  assumes "lc_step y y'" "lc_inv y"
  shows "single_kinds (ls_main y', ls_backup y') = single_kinds (ls_main y, ls_backup y)"
  using assms
proof cases
  case arrive
  then show ?thesis by simp
next
  case (ask k l now rc l')
  have "lc_ok (view y l)" using assms(2) ask(2,3) nth_mem [of k "ls_reqs y"] by (auto simp: lc_inv_def)
  then have "keeps_groups (view y l) l'" using lc_get_result [OF _ ask(4)] by (auto simp: lc_result_def)
  from keeps_single_kinds [OF this] show ?thesis by (simp add: ask(1) put_def view_def)
next
  case (give k l now failed)
  have "lc_ok (view y l)" "holds_ok (view y l)" using assms(2) give(2,3) nth_mem [of k "ls_reqs y"] by (auto simp: lc_inv_def)
  from keeps_single_kinds [OF lc_free_facts(1) [OF this, of now failed]] show ?thesis by (simp add: give(1) put_def view_def)
qed

lemma reachable_inv:
  assumes "servers_ok servers" "ngx_http_upstream_init_least_conn allocated servers = Some us" "lc_step\<^sup>*\<^sup>* (initial us) y"
  shows "lc_inv y \<and> single_kinds (ls_main y, ls_backup y) = single_kinds (fst us)"
  using assms(3)
proof (induction rule: rtranclp_induct)
  case base
  then show ?case using initial_inv [OF assms(1,2)] by (simp add: initial_def)
next
  case (step y z)
  then show ?case using step_inv step_single_kinds by metis
qed

lemma init_single_kinds:
  assumes "ngx_http_upstream_init_least_conn allocated servers = Some us"
  shows "single_kinds (fst us) = (rg_single (fst (fst us)), map_option (\<lambda>_. False) (snd (fst us)))"
  using assms
  by (auto simp: ngx_http_upstream_init_least_conn_def ngx_http_upstream_init_round_robin_def single_kinds_def
      rr_group_of_def Let_def split: option.splits if_splits)

text \<open>How many requests hold the peer whose counter is the one at \<open>j\<close>.\<close>

definition holders :: "lc_system \<Rightarrow> nat \<Rightarrow> nat" where
  "holders y j = length (filter (\<lambda>(l, h). h \<and> lc_off l + rr_current l = j) (ls_reqs y))"

lemma count_list_map: "count_list (map f xs) z = length (filter (\<lambda>x. f x = z) xs)"
  by (induction xs) simp_all

lemma held_holders:
  assumes "\<And>l. (l, True) \<in> set (ls_reqs y) \<Longrightarrow> \<not> rg_single (group_of (view y l))"
  shows "count_list (held y) (Some j) = holders y j"
proof -
  have "(case x of (l, h) \<Rightarrow> if h then slot (view y l) else None) = Some j \<longleftrightarrow>
      (case x of (l, h) \<Rightarrow> h \<and> lc_off l + rr_current l = j)" if "x \<in> set (ls_reqs y)" for x
  proof -
    obtain l h where x: "x = (l, h)" by (cases x)
    have "slot (view y l) = Some (lc_off l + rr_current l)" if h using assms [of l] that \<open>x \<in> _\<close> x
      by (simp add: slot_def view_def)
    with x show ?thesis by auto
  qed
  then show ?thesis unfolding held_def holders_def count_list_map by (intro arg_cong [where f = length] filter_cong refl)
qed

lemma held_single:
  assumes "\<And>l. (l, True) \<in> set (ls_reqs y) \<Longrightarrow> rg_single (group_of (view y l))"
  shows "count_list (held y) (Some j) = 0"
  using assms by (auto simp: held_def slot_def count_list_0_iff split: if_splits)

lemma group_kind:
  assumes "lc_ok (view y l)" and "single_kinds (ls_main y, ls_backup y) = (b, map_option (\<lambda>_. False) o')"
  shows "rg_single (group_of (view y l)) \<longleftrightarrow> b"
  using assms by (cases "ls_backup y"; cases o') (auto simp: single_kinds_def group_of_def view_def lc_ok_def rr_ok_def)

text \<open>
  C12.  The counters of connections are exact: however many requests come, ask for peers and give them back, in any
  order and with any result, the counter of every peer is the number of the requests that hold it at that moment;
  and every request finds its indices inside the arrays.  The one exception is the upstream of a single peer and no
  backup, where there is nothing to choose: its counter is never touched and stays 0.
\<close>

theorem least_conn_counters_exact:
  assumes "servers_ok servers" and "ngx_http_upstream_init_least_conn allocated servers = Some us"
    and "lc_step\<^sup>*\<^sup>* (initial us) y"
  shows "(\<forall>j<length (ls_conns y). ls_conns y ! j = (if rg_single (fst (fst us)) then 0 else of_nat (holders y j))) \<and>
    (\<forall>(l, h)\<in>set (ls_reqs y). lc_ok (view y l) \<and> (h \<longrightarrow> holds_ok (view y l)))"
proof -
  have inv: "lc_inv y" and k: "single_kinds (ls_main y, ls_backup y) = (rg_single (fst (fst us)), map_option (\<lambda>_. False) (snd (fst us)))"
    using reachable_inv [OF assms] init_single_kinds [OF assms(2)] by simp_all
  have kind: "rg_single (group_of (view y l)) \<longleftrightarrow> rg_single (fst (fst us))" if "(l, h) \<in> set (ls_reqs y)" for l h
    using that inv by (intro group_kind [OF _ k]) (auto simp: lc_inv_def)
  have "count_list (held y) (Some j) = (if rg_single (fst (fst us)) then 0 else holders y j)" for j
    using held_holders [of y j] held_single [of y j] kind by (cases "rg_single (fst (fst us))") auto
  with inv show ?thesis by (simp add: lc_inv_def)
qed

lemma sample_lc:
  obtains us where "ngx_http_upstream_init_least_conn True sample_servers = Some us" "\<not> rg_single (fst (fst us))"
    "rg_peers (fst (fst us)) \<noteq> []" "\<forall>p\<in>set (rg_peers (fst (fst us))). \<not> down p \<and> fails p = 0 \<and> max_fails p = 1"
proof -
  obtain rr where rr: "ngx_http_upstream_init_round_robin True sample_servers = Some rr" using sample_init by blast
  have b: "peers_in True sample_servers \<noteq> []" by (simp add: peers_in_def sample_servers_def sample_server_def peers_of_def)
  with rr have g: "fst rr = (rr_group_of True False sample_servers)\<lparr>rg_single := False\<rparr>"
    by (auto simp: ngx_http_upstream_init_round_robin_def Let_def split: if_splits)
  have "\<forall>p\<in>set (peers_in False sample_servers). \<not> down p \<and> fails p = 0 \<and> max_fails p = 1"
    by (auto simp: peers_in_def sample_servers_def sample_server_def peers_of_def)
  moreover have "peers_in False sample_servers \<noteq> []"
    by (simp add: peers_in_def sample_servers_def sample_server_def peers_of_def)
  ultimately show ?thesis
    using that [of "(rr, _)"] rr g by (cases rr) (auto simp: ngx_http_upstream_init_least_conn_def Let_def)
qed

text \<open>The first request for a live group gets a peer.\<close>

lemma first_get:
  assumes l: "l = ngx_http_upstream_init_least_conn_peer us" and s: "\<not> rg_single (fst (fst us))" and ok: "lc_ok l"
    and ne: "rg_peers (fst (fst us)) \<noteq> []" and live: "\<forall>p\<in>set (rg_peers (fst (fst us))). \<not> down p \<and> fails p = 0 \<and> max_fails p = 1"
  shows "\<exists>l'. ngx_http_upstream_get_least_conn_peer 0 l = (NGX_OK, l') \<and> lc_off l' + rr_current l' < length (lc_conns l')"
proof -
  have f: "rr_main l = fst (fst us)" "\<not> rr_on_backup l" "\<exists>n. rr_tried l = replicate n 0"
    by (simp_all add: l ngx_http_upstream_init_least_conn_peer_def ngx_http_upstream_init_round_robin_peer_def Let_def split_beta
        rr_data.extend_def lc_data.fields_def)
  then have g: "group_of l = fst (fst us)" by (simp add: group_of_def)
  have "length (rg_peers (group_of l)) \<le> 64 * length (rr_tried l)" using group_of_ok [of l] ok by (simp add: lc_ok_def)
  then have "\<not> is_tried (rr_tried l) 0" using ne g is_tried_fresh f(3)
    by (metis length_greater_0_conv length_replicate order_less_le_trans)
  then have "\<not> skip_peer 0 (rr_tried l) 0 (rg_peers (group_of l) ! 0)" using live ne g by (simp add: skip_peer_def)
  then have "lc_choose 0 (rr_tried l) (lc_conns l) (lc_off l) (rg_peers (group_of l)) \<noteq> None"
    using choose_none [of 0 "rr_tried l" "lc_conns l" "lc_off l" "rg_peers (group_of l)"] ne g by (auto simp: eligible_def)
  then have a: "lc_attempt 0 l \<noteq> None" by (auto simp: lc_attempt_def Let_def split: option.splits)
  then obtain l' where l': "lc_attempt 0 l = Some l'" by blast
  have "\<not> rg_single (group_of l)" using s g by simp
  note h = lc_attempt_ok [OF ok l' this]
  then have "slot l' = Some (lc_off l' + rr_current l')" using s g by (simp add: slot_def)
  from slot_in_range [OF h(1,2) this] show ?thesis using s g l' by (simp add: ngx_http_upstream_get_least_conn_peer_def)
qed

theorem least_conn_counters_exact_witness:
  "\<exists>us y j. ngx_http_upstream_init_least_conn True sample_servers = Some us \<and> lc_step\<^sup>*\<^sup>* (initial us) y \<and>
     j < length (ls_conns y) \<and> holders y j = 1 \<and> ls_conns y ! j = 1"
proof -
  obtain us where us: "ngx_http_upstream_init_least_conn True sample_servers = Some us" "\<not> rg_single (fst (fst us))"
    "rg_peers (fst (fst us)) \<noteq> []" "\<forall>p\<in>set (rg_peers (fst (fst us))). \<not> down p \<and> fails p = 0 \<and> max_fails p = 1"
    by (rule sample_lc)
  define l where "l = ngx_http_upstream_init_least_conn_peer us"
  obtain l' where l': "ngx_http_upstream_get_least_conn_peer 0 l = (NGX_OK, l')" "lc_off l' + rr_current l' < length (lc_conns l')"
    using first_get [OF l_def us(2) _ us(3,4)] init_lc_ok(1) [OF sample_servers_ok us(1)] l_def by blast
  let ?x = "(initial us)\<lparr>ls_reqs := [(l, False)]\<rparr>"
  let ?y = "put 0 l' (NGX_OK = NGX_OK) ?x"
  have "lc_step (initial us) ?x" using lc_step.arrive [of "initial us"] by (simp add: initial_def l_def)
  moreover have "view ?x l = l"
    by (simp add: view_def initial_def l_def ngx_http_upstream_init_least_conn_peer_def ngx_http_upstream_init_round_robin_peer_def
        Let_def split_beta rr_data.extend_def lc_data.fields_def)
  then have "ngx_http_upstream_get_least_conn_peer 0 (view ?x l) = (NGX_OK, l')" using l'(1) by simp
  then have "lc_step ?x ?y" using lc_step.ask [of 0 ?x l 0 NGX_OK l'] by simp
  ultimately have r: "lc_step\<^sup>*\<^sup>* (initial us) ?y" by (meson converse_rtranclp_into_rtranclp r_into_rtranclp)
  have "holders ?y (lc_off l' + rr_current l') = 1" by (simp add: holders_def put_def)
  moreover have "lc_off l' + rr_current l' < length (ls_conns ?y)" using l'(2) by (simp add: put_def)
  ultimately show ?thesis
    using least_conn_counters_exact [OF sample_servers_ok us(1) r] us(1,2) r
    by (intro exI [of _ us] exI [of _ ?y] exI [of _ "lc_off l' + rr_current l'"]) simp
qed

text \<open>
  C25.  The choice of least connections: there is a peer exactly if one is live, and the one chosen has the least
  number of connections in proportion to its weight, as long as the products of counters and weights fit in 64 bits.
\<close>

theorem least_conn_chooses_least:
  assumes "fits conns off ps"
  shows "case lc_choose now tried conns off ps of
      None \<Rightarrow> (\<forall>i<length ps. skip_peer now tried i (ps ! i))
    | Some (p, ps') \<Rightarrow>
        p < length ps \<and> \<not> skip_peer now tried p (ps ! p) \<and> length ps' = length ps \<and>
        (\<forall>i<length ps. \<not> skip_peer now tried i (ps ! i) \<longrightarrow>
           conn_of conns off p * weight_of ps i \<le> conn_of conns off i * weight_of ps p)"
proof (cases "lc_choose now tried conns off ps")
  case None
  then show ?thesis using choose_none [of now tried conns off ps] by (auto simp: eligible_def)
next
  case (Some r)
  obtain p ps' where r: "r = (p, ps')" by (cases r)
  have c: "lc_choose now tried conns off ps = Some (p, ps')" using Some r by simp
  show ?thesis
    using choose_least [OF assms c] list_all2_lengthD [OF choose_eligible(2) [OF c]]
    by (simp add: c least_load_def eligible_def)
qed

theorem least_conn_chooses_least_witness:
  "case lc_choose 0 [0] [7, 1, 2] 0 sample_peers of
     None \<Rightarrow> False
   | Some (p, ps') \<Rightarrow> conn_of [7, 1, 2] 0 p * weight_of sample_peers 1 \<le> conn_of [7, 1, 2] 0 1 * weight_of sample_peers p"
proof -
  have nth: "sample_peers ! 0 = sample_peer (bytes ''a'') 5" "sample_peers ! 1 = sample_peer (bytes ''b'') 1"
    "sample_peers ! 2 = sample_peer (bytes ''c'') 1" "length sample_peers = 3" by (simp_all add: sample_peers_def)
  have i3: "i < 3 \<longleftrightarrow> i = 0 \<or> i = 1 \<or> i = 2" for i :: nat by arith
  have fits: "fits [7, 1, 2] 0 sample_peers"
    unfolding fits_def nth i3 by (auto simp: nth sample_peer_def conn_of_def weight_of_def sample_peers_def)
  have live: "\<not> skip_peer 0 [0] 1 (sample_peers ! 1)" unfolding nth by (simp add: sample_peer_def skip_peer_def is_tried_def)
  have one: "(1::nat) < length sample_peers" by (simp add: nth)
  show ?thesis
    using least_conn_chooses_least [OF fits, of 0 "[0]"] live one by (auto split: option.splits)
qed

end
