(* ===== verification/Upstream_Ip_Hash.thy ===== *)
theory Upstream_Ip_Hash
  imports Upstream_Rr_Request
begin

unbundle bit_operations_syntax

text \<open>
  The balancer by client address, \<^verbatim>\<open>src/http/modules/ngx_http_upstream_ip_hash_module.c\<close>: a hash of the address
  chooses the peer; a peer that is not live is passed over and the hash goes on, and after twenty
  tries the round robin of \<open>Upstream_Rr\<close> decides.
\<close>

section \<open>The data\<close>

text \<open>\<open>ih_addr\<close> holds the \<^verbatim>\<open>addrlen\<close> bytes of the address.\<close>

record ih_data = rr_data +
  ih_addr :: buffer
  ih_hash :: ngx_uint_t
  ih_tries :: u_char

datatype sockaddr = AF_INET buffer | AF_INET6 buffer | AF_OTHER

text \<open>The first three bytes of an IPv4 address, all of an IPv6 address, or the three zero bytes of the pseudo address.\<close>

fun ih_address :: "sockaddr \<Rightarrow> buffer" where
  "ih_address (AF_INET a) = take 3 a"
| "ih_address (AF_INET6 a) = take 16 a"
| "ih_address AF_OTHER = [0, 0, 0]"

definition ngx_http_upstream_init_ip_hash_peer :: "sockaddr \<Rightarrow> rr_group \<times> rr_group option \<Rightarrow> ih_data" where
  "ngx_http_upstream_init_ip_hash_peer a us =
     rr_data.extend (ngx_http_upstream_init_round_robin_peer us) (ih_data.fields (ih_address a) 89 0)"

section \<open>The choice\<close>

definition ih_step :: "ngx_uint_t \<Rightarrow> buffer \<Rightarrow> ngx_uint_t" where
  "ih_step hash addr = foldl (\<lambda>hash c. (hash * 113 + ucast c) mod 6271) hash addr"

text \<open>The loop over the weights; it ends behind the array when no peer has taken the number.\<close>

fun ih_weighted :: "int \<Rightarrow> nat \<Rightarrow> rr_peer list \<Rightarrow> nat" where
  "ih_weighted w i [] = i"
| "ih_weighted w i (p # ps) = (let w = wrap64 (w - weight p) in if w < 0 then i else ih_weighted w (Suc i) ps)"

definition ih_index :: "ngx_uint_t \<Rightarrow> rr_group \<Rightarrow> nat" where
  "ih_index hash g =
     (if \<not> rg_weighted g then unat (hash mod of_nat (length (rg_peers g)))
      else ih_weighted (sint (hash mod rg_total_weight g)) 0 (rg_peers g))"

text \<open>
  One round of the endless loop with the hash \<open>hash\<close>: \<open>Inl\<close> is the \<^verbatim>\<open>break\<close> with the peer \<open>p\<close>, \<open>Inr\<close> goes on.
\<close>

definition ih_round :: "int \<Rightarrow> ngx_uint_t \<Rightarrow> ih_data \<Rightarrow> nat \<times> ih_data + ih_data" where
  "ih_round now hash d =
     (let ps = rg_peers (group_of d); p = ih_index hash (group_of d) in
      if is_tried (rr_tried d) p then Inr d
      else
        (let peer = ps ! p in
         if \<not> down peer \<and> (max_fails peer = 0 \<or> fails peer < max_fails peer) then Inl (p, d)
         else if \<not> down peer \<and> now - checked peer > fail_timeout peer
         then Inl (p, set_peers (ps[p := peer\<lparr>checked := now\<rparr>]) d)
         else Inr (d\<lparr>rr_tried := mark_tried (rr_tried d) p, pc_tries := pc_tries d - 1\<rparr>)))"

text \<open>
  The loop, with as many rounds as \<open>ih_tries\<close> leaves below twenty (fuel); \<open>ih_rounds_enough\<close> below
  shows that twenty are enough for it to return.
\<close>

fun ih_rounds :: "nat \<Rightarrow> int \<Rightarrow> ngx_uint_t \<Rightarrow> ih_data \<Rightarrow> (ngx_rc \<times> ih_data) option" where
  "ih_rounds 0 now hash d = None"
| "ih_rounds (Suc n) now hash d =
     (let hash = ih_step hash (ih_addr d) in
      case ih_round now hash d of
        Inl (p, d) \<Rightarrow>
          Some (NGX_OK, d\<lparr>rr_current := p, pc_name := Some (rp_name (rg_peers (group_of d) ! p)),
                          rr_tried := mark_tried (rr_tried d) p, ih_hash := hash\<rparr>)
      | Inr d \<Rightarrow>
          (let d = d\<lparr>ih_tries := ih_tries d + 1\<rparr> in
           if ih_tries d \<ge> 20 then Some (ngx_http_upstream_get_round_robin_peer now d) else ih_rounds n now hash d))"

definition ngx_http_upstream_get_ip_hash_peer :: "int \<Rightarrow> ih_data \<Rightarrow> ngx_rc \<times> ih_data" where
  "ngx_http_upstream_get_ip_hash_peer now d =
     (if ih_tries d > 20 \<or> rg_single (group_of d) then ngx_http_upstream_get_round_robin_peer now d
      else the (ih_rounds 20 now (ih_hash d) d))"

section \<open>The index\<close>

text \<open>A group whose total weight is the sum of its weights; a division by a total of zero would be an exception.\<close>

definition total_ok :: "rr_group \<Rightarrow> bool" where
  "total_ok g \<longleftrightarrow>
     rg_peers g \<noteq> [] \<and> (\<forall>p\<in>set (rg_peers g). 0 < weight p) \<and> (\<Sum>p\<leftarrow>rg_peers g. weight p) < 2 ^ 63 \<and>
     rg_total_weight g = of_int (\<Sum>p\<leftarrow>rg_peers g. weight p)"

text \<open>The peer at whose weights the number falls.\<close>

lemma weighted_interval:
  assumes "\<forall>p\<in>set ps. 0 < weight p" "0 \<le> w" "w < (\<Sum>p\<leftarrow>ps. weight p)" "(\<Sum>p\<leftarrow>ps. weight p) < 2 ^ 63"
  shows "i \<le> ih_weighted w i ps \<and> ih_weighted w i ps < i + length ps \<and>
    (\<Sum>p\<leftarrow>take (ih_weighted w i ps - i) ps. weight p) \<le> w \<and> w < (\<Sum>p\<leftarrow>take (Suc (ih_weighted w i ps - i)) ps. weight p)"
  using assms
proof (induction w i ps rule: ih_weighted.induct)
  case (1 w i)
  then show ?case by simp
next
  case (2 w i p ps)
  have nn: "0 \<le> (\<Sum>p\<leftarrow>ps. weight p)" using 2(2) by (intro sum_list_nonneg) auto
  have p: "0 < weight p" "weight p < 2 ^ 63" using 2(2,5) nn by simp_all
  have wr: "wrap64 (w - weight p) = w - weight p" using p 2(3-5) nn by (intro wrap64_id) simp_all
  show ?case
  proof (cases "w - weight p < 0")
    case True
    then show ?thesis using wr 2(3) by (simp add: Let_def)
  next
    case False
    define j where "j = ih_weighted (w - weight p) (Suc i) ps"
    have IH: "Suc i \<le> j \<and> j < Suc i + length ps \<and> (\<Sum>p\<leftarrow>take (j - Suc i) ps. weight p) \<le> w - weight p \<and>
        w - weight p < (\<Sum>p\<leftarrow>take (Suc (j - Suc i)) ps. weight p)"
      using 2(1) [OF refl, unfolded wr] 2(2-) False p by (simp add: j_def)
    then have "j - i = Suc (j - Suc i)" by linarith
    then show ?thesis using IH False wr by (simp add: Let_def j_def [symmetric])
  qed
qed

lemma length_le_weights: "\<forall>p\<in>set ps. 0 < weight p \<Longrightarrow> int (length ps) \<le> (\<Sum>p\<leftarrow>ps. weight p)"
  by (induction ps) auto

lemma total_word:
  assumes "total_ok g"
  shows "unat (rg_total_weight g) = nat (\<Sum>p\<leftarrow>rg_peers g. weight p)" "0 < (\<Sum>p\<leftarrow>rg_peers g. weight p)"
proof -
  let ?W = "\<Sum>p\<leftarrow>rg_peers g. weight p"
  have W: "int (length (rg_peers g)) \<le> ?W" "?W < 2 ^ 63" "rg_peers g \<noteq> []"
    using assms length_le_weights [of "rg_peers g"] by (simp_all add: total_ok_def)
  then show pos: "0 < ?W" by (cases "rg_peers g") auto
  have "uint (of_int ?W :: ngx_uint_t) = ?W" using W pos by (simp add: uint_word_of_int)
  then show "unat (rg_total_weight g) = nat ?W" using assms by (simp add: total_ok_def unat_eq_nat_uint)
qed

lemma sint_below:
  assumes "uint (x :: ngx_uint_t) < 2 ^ 63"
  shows "sint x = uint x"
proof -
  have "- (2 ^ 63) \<le> uint x" using unsigned_greater_eq [of x, where 'a = int] by (simp add: order_trans [of _ 0])
  then show ?thesis using assms by (simp add: sint_uint signed_take_bit_int_eq_self)
qed

lemma hash_weight:
  assumes "total_ok g"
  shows "sint (hash mod rg_total_weight g) = uint hash mod (\<Sum>p\<leftarrow>rg_peers g. weight p)"
proof -
  let ?W = "\<Sum>p\<leftarrow>rg_peers g. weight p"
  have W: "0 < ?W" "?W < 2 ^ 63" using total_word(2) [OF assms] assms by (simp_all add: total_ok_def)
  then have "uint (rg_total_weight g) = ?W" using total_word(1) [OF assms] by (simp add: uint_nat)
  then have u: "uint (hash mod rg_total_weight g) = uint hash mod ?W" by (simp only: uint_mod)
  have "uint hash mod ?W < ?W" using W(1) by (rule pos_mod_bound)
  then have "uint (hash mod rg_total_weight g) < 2 ^ 63" using W(2) unfolding u by linarith
  from sint_below [OF this] show ?thesis unfolding u .
qed

lemma index_in_range:
  assumes "total_ok g"
  shows "ih_index hash g < length (rg_peers g)"
proof (cases "rg_weighted g")
  case True
  let ?W = "\<Sum>p\<leftarrow>rg_peers g. weight p"
  have "0 \<le> uint hash mod ?W" "uint hash mod ?W < ?W" using total_word(2) [OF assms] by simp_all
  moreover have "\<forall>p\<in>set (rg_peers g). 0 < weight p" "?W < 2 ^ 63" using assms by (simp_all add: total_ok_def)
  ultimately have "ih_weighted (uint hash mod ?W) 0 (rg_peers g) < 0 + length (rg_peers g)" using weighted_interval by blast
  then show ?thesis using True by (simp add: ih_index_def hash_weight [OF assms])
next
  case False
  have n: "int (length (rg_peers g)) < 2 ^ 63" "rg_peers g \<noteq> []"
    using assms length_le_weights [of "rg_peers g"] by (simp_all add: total_ok_def)
  then have "unat (of_nat (length (rg_peers g)) :: ngx_uint_t) = length (rg_peers g)" by (simp add: unat_of_nat)
  then show ?thesis using False n(2) by (simp add: ih_index_def unat_mod)
qed

section \<open>The contract of a balancer\<close>

definition ih_ok :: "ih_data \<Rightarrow> bool" where
  "ih_ok d \<longleftrightarrow> rr_ok d \<and> total_ok (rr_main d) \<and> (\<forall>b. rr_backup d = Some b \<longrightarrow> total_ok b)"

lemma shape_total:
  assumes "same_shape g g'" "total_ok g"
  shows "total_ok g'"
proof -
  have m: "map weight (rg_peers g') = map weight (rg_peers g)" and t: "rg_total_weight g' = rg_total_weight g"
    using assms(1) by (simp_all add: same_shape_def)
  have "weight ` set (rg_peers g') = weight ` set (rg_peers g)" using m by (metis set_map)
  then have "\<forall>p\<in>set (rg_peers g'). 0 < weight p" using assms(2) unfolding total_ok_def by (metis (no_types, lifting) imageE imageI)
  moreover have "rg_peers g' \<noteq> []" using m assms(2) by (auto simp: total_ok_def)
  ultimately show ?thesis using assms(2) m t by (simp add: total_ok_def)
qed

lemma keeps_ih_ok:
  assumes "ih_ok d" "keeps_groups d d'" "rr_ok d'"
  shows "ih_ok d'"
  using assms shape_total unfolding ih_ok_def keeps_groups_def by (cases "rr_backup d"; cases "rr_backup d'") auto

lemma group_total: "ih_ok d \<Longrightarrow> total_ok (group_of d)"
  by (auto simp: ih_ok_def group_of_def rr_ok_def)

text \<open>One round: a new peer that is live is found, or nothing but the marks of the request changes.\<close>

lemma round_found:
  assumes ok: "ih_ok d" and r: "ih_round now hash d = Inl (p, d')"
  shows "p \<in> untried d" "keeps_groups d d'" "rr_on_backup d' = rr_on_backup d" "rr_tried d' = rr_tried d"
    "\<not> skip_peer now (rr_tried d) p (rg_peers (group_of d) ! p)" "p = ih_index hash (group_of d)"
proof -
  let ?ps = "rg_peers (group_of d)"
  have rr: "rr_ok d" using ok by (simp add: ih_ok_def)
  show p: "p = ih_index hash (group_of d)" using r by (auto simp: ih_round_def Let_def split: if_splits)
  then have lt: "p < length ?ps" using index_in_range [OF group_total [OF ok]] by simp
  have t: "\<not> is_tried (rr_tried d) p" using r p by (auto simp: ih_round_def Let_def split: if_splits)
  then show "p \<in> untried d" using lt by (simp add: untried_def)
  have g: "\<forall>p\<in>set ?ps. peer_ok p" using group_of_ok [OF rr] by (simp add: group_ok_def)
  have "\<forall>q\<in>set (?ps[p := (?ps ! p)\<lparr>checked := now\<rparr>]). peer_ok q"
    using g lt by (auto simp: peer_ok_def dest!: set_update_subset_insert [THEN subsetD])
  moreover have "map weight (?ps[p := (?ps ! p)\<lparr>checked := now\<rparr>]) = map weight ?ps"
    using lt by (simp add: map_update list_update_same_conv)
  ultimately have "keeps_groups d (set_peers (?ps[p := (?ps ! p)\<lparr>checked := now\<rparr>]) d)" by (rule set_peers_keeps [OF rr])
  then show "keeps_groups d d'" using r p keeps_refl [OF rr] by (auto simp: ih_round_def Let_def split: if_splits)
  show "rr_on_backup d' = rr_on_backup d" "rr_tried d' = rr_tried d" using r by (auto simp: ih_round_def Let_def split: if_splits)
  show "\<not> skip_peer now (rr_tried d) p (?ps ! p)"
    using r p t by (auto simp: ih_round_def Let_def skip_peer_def split: if_splits)
qed

lemma round_missed:
  assumes ok: "ih_ok d" and r: "ih_round now hash d = Inr d'"
  shows "ih_ok d'" "keeps_groups d d'" "rr_on_backup d' = rr_on_backup d" "budget d' \<le> budget d" "group_of d' = group_of d" "ih_tries d' = ih_tries d"
proof -
  let ?p = "ih_index hash (group_of d)"
  have rr: "rr_ok d" using ok by (simp add: ih_ok_def)
  have d': "d' = d \<or> \<not> is_tried (rr_tried d) ?p \<and> d' = d\<lparr>rr_tried := mark_tried (rr_tried d) ?p, pc_tries := pc_tries d - 1\<rparr>"
    using r by (auto simp: ih_round_def Let_def split: if_splits)
  then show g: "group_of d' = group_of d" "rr_on_backup d' = rr_on_backup d" "ih_tries d' = ih_tries d" by (auto simp: group_of_def)
  show k: "keeps_groups d d'" using d' keeps_refl [OF rr] by (auto simp: keeps_groups_def)
  have "rr_ok d'" using d' by (intro keeps_ok [OF rr k g(2)]) auto
  then show "ih_ok d'" by (rule keeps_ih_ok [OF ok k])
  have "card (untried d') \<le> card (untried d)"
  proof (cases "d' = d")
    case False
    then have "?p \<in> untried d" using d' index_in_range [OF group_total [OF ok]] by (auto simp: untried_def)
    moreover have "rr_tried d' = mark_tried (rr_tried d) ?p" using d' False by auto
    ultimately have "card (untried d') < card (untried d)"
      using card_untried_mark [of ?p d d'] group_of_ok [OF rr] g by simp
    then show ?thesis by simp
  qed simp
  moreover have "rr_backup d' = rr_backup d" using d' by auto
  ultimately show "budget d' \<le> budget d" using g by (simp add: budget_def has_next_def)
qed

definition ih_result :: "ih_data \<Rightarrow> ngx_rc \<Rightarrow> ih_data \<Rightarrow> bool" where
  "ih_result d rc d' \<longleftrightarrow>
     ih_ok d' \<and> (rc = NGX_OK \<and> holds_ok d' \<and> (budget d' < budget d \<or> rg_single (group_of d')) \<or> rc = NGX_BUSY)"

lemma ih_result_mono: "ih_result d1 rc d' \<Longrightarrow> budget d1 \<le> budget d \<Longrightarrow> ih_result d rc d'"
  by (auto simp: ih_result_def)

lemma rr_result:
  assumes ok: "ih_ok d" and g: "ngx_http_upstream_get_round_robin_peer now d = (rc, d')"
  shows "ih_result d rc d'"
proof -
  have rr: "rr_ok d" using ok by (simp add: ih_ok_def)
  note o = get_ok [OF rr g]
  then have "ih_ok d'" using keeps_ih_ok [OF ok get_keeps [OF rr g]] by blast
  then show ?thesis using o get_progress [OF rr] g by (auto simp: ih_result_def)
qed

lemma found_result:
  assumes ok: "ih_ok d" and s: "\<not> rg_single (group_of d)" and r: "ih_round now hash d = Inl (p, d1)"
  shows "ih_result d NGX_OK (d1\<lparr>rr_current := p, pc_name := nm, rr_tried := mark_tried (rr_tried d1) p, ih_hash := hash\<rparr>)"
    (is "ih_result d NGX_OK ?d")
proof -
  note f = round_found [OF ok r]
  have rr: "rr_ok d" using ok by (simp add: ih_ok_def)
  have k: "keeps_groups d ?d" "rr_on_backup ?d = rr_on_backup d" "rr_tried ?d = mark_tried (rr_tried d) p"
    using f by (simp_all add: keeps_groups_def)
  note g = keeps_group_of [OF rr k(1,2)]
  have "rr_ok ?d" using k by (intro keeps_ok [OF rr k(1,2)]) simp
  then have "ih_ok ?d" by (rule keeps_ih_ok [OF ok k(1)])
  moreover have "holds_ok ?d" using f(1) s g same_shape_length [OF g] by (simp add: holds_ok_def untried_def same_shape_def)
  moreover have "card (untried ?d) < card (untried d)"
    using card_untried_mark [OF f(1), of ?d] k(3) group_of_ok [OF rr] same_shape_length [OF g] by simp
  then have "budget ?d < budget d"
    using k(1,2) keeps_backup_length [OF k(1)]
    by (cases "rr_backup d"; cases "rr_backup ?d") (auto simp: budget_def has_next_def keeps_groups_def)
  ultimately show ?thesis by (simp add: ih_result_def)
qed

lemma tries_irrelevant [simp]:
  "ih_ok (d\<lparr>ih_tries := n\<rparr>) \<longleftrightarrow> ih_ok d" "group_of (d\<lparr>ih_tries := n\<rparr>) = group_of d" "budget (d\<lparr>ih_tries := n\<rparr>) = budget d"
  by (simp_all add: ih_ok_def rr_ok_def group_of_def budget_def untried_def has_next_def)

text \<open>Twenty rounds are enough.\<close>

lemma ih_rounds_enough:
  assumes "ih_ok d" "\<not> rg_single (group_of d)" "unat (ih_tries d) + n \<ge> 20" "unat (ih_tries d) \<le> 20" "0 < n"
  shows "\<exists>rc d'. ih_rounds n now hash d = Some (rc, d') \<and> ih_result d rc d'"
  using assms
proof (induction n arbitrary: hash d)
  case (Suc n)
  let ?hash = "ih_step hash (ih_addr d)"
  show ?case
  proof (cases "ih_round now ?hash d")
    case (Inl pd)
    obtain p d1 where pd: "pd = (p, d1)" by (cases pd)
    with Inl found_result [OF Suc.prems(1,2)] show ?thesis by (simp add: Let_def)
  next
    case (Inr d1)
    note m = round_missed [OF Suc.prems(1) Inr]
    let ?d = "d1\<lparr>ih_tries := ih_tries d1 + 1\<rparr>"
    have t: "unat (ih_tries d + 1) = unat (ih_tries d) + 1" using Suc.prems(4) by (simp add: unat_word_ariths)
    show ?thesis
    proof (cases "ih_tries d + 1 \<ge> 20")
      case True
      obtain rc d' where g: "ngx_http_upstream_get_round_robin_peer now ?d = (rc, d')" by fastforce
      have r: "ih_result ?d rc d'" using m(1) by (intro rr_result [OF _ g]) simp
      have "ih_result d rc d'" using m(4) by (intro ih_result_mono [OF r]) simp
      then show ?thesis using Inr True m(6) g by (simp add: Let_def)
    next
      case False
      then have "unat (ih_tries d) + 1 < 20" using t by (simp add: word_le_nat_alt)
      then obtain rc d' where IH: "ih_rounds n now ?hash ?d = Some (rc, d')" "ih_result ?d rc d'"
        using Suc.IH [of ?d ?hash] m Suc.prems t by fastforce
      then have "ih_result d rc d'" using m(4) by (intro ih_result_mono [OF IH(2)]) simp
      then show ?thesis using Inr False m(6) IH(1) by (simp add: Let_def)
    qed
  qed
qed simp

lemma ih_get_result:
  assumes ok: "ih_ok d" and g: "ngx_http_upstream_get_ip_hash_peer now d = (rc, d')"
  shows "ih_result d rc d'"
proof (cases "ih_tries d > 20 \<or> rg_single (group_of d)")
  case True
  then show ?thesis using g rr_result [OF ok] by (simp add: ngx_http_upstream_get_ip_hash_peer_def)
next
  case False
  then have "unat (ih_tries d) \<le> 20" by (simp add: word_less_nat_alt)
  then obtain rc1 d1 where "ih_rounds 20 now (ih_hash d) d = Some (rc1, d1)" "ih_result d rc1 d1"
    using ih_rounds_enough [OF ok, of 20 now "ih_hash d"] False by auto
  then show ?thesis using g False by (simp add: ngx_http_upstream_get_ip_hash_peer_def)
qed

interpretation ih: balancer ngx_http_upstream_get_ip_hash_peer ngx_http_upstream_free_round_robin_peer pc_tries
  ih_ok holds_ok by_others budget
proof (unfold_locales, goal_cases)
  case (1 s now rc s')
  then show ?case using ih_get_result by (auto simp: ih_result_def)
next
  case (2 s now failed)
  then have "rr_ok s" by (simp add: ih_ok_def)
  then show ?case using 2 keeps_ih_ok free_keeps free_ok by blast
next
  case (3 f s)
  then have "rr_ok s" by (simp add: ih_ok_def)
  then show ?case using 3 by_othersD [OF 3(1)] keeps_ih_ok [OF 3(2), of "f s"] by (auto simp: by_others_def)
next
  case (4 s now s')
  have "pc_tries (ngx_http_upstream_free_round_robin_peer n b (f s')) = 0" if "rg_single (group_of s')" "by_others f" for n b f
  proof -
    have "rr_ok s'" using ih_get_result [OF 4] by (simp add: ih_result_def ih_ok_def)
    then show ?thesis using by_othersD(4) [OF that(2)] that(1) by (simp add: ngx_http_upstream_free_round_robin_peer_def Let_def)
  qed
  then show ?case using ih_get_result [OF 4] by (auto simp: ih_result_def)
next
  case (5 s now failed)
  then have "rr_ok s" by (simp add: ih_ok_def)
  then show ?case using 5 free_keeps by (intro budget_keeps) simp_all
qed

section \<open>The groups that the configuration gives\<close>

lemma sum_peers_in:
  "(\<Sum>s\<leftarrow>filter (\<lambda>s. sv_backup s = backup) servers. of_nat (length (sv_addrs s)) * of_int (sv_weight s)) =
    (of_int (\<Sum>p\<leftarrow>peers_in backup servers. weight p) :: ngx_uint_t)"
  by (induction servers) (simp_all add: peers_in_def peers_of_def o_def sum_list_triv)

lemma sum_list_mset_eq: "mset xs = mset ys \<Longrightarrow> sum_list (map f xs) = (sum_list (map f ys) :: int)"
  by (metis mset_map sum_mset_sum_list)

lemma group_total_ok:
  assumes "servers_ok servers" "peers_in backup servers \<noteq> []" "(\<Sum>p\<leftarrow>peers_in backup servers. weight p) < 2 ^ 63"
  shows "total_ok (rr_group_of allocated backup servers)"
proof -
  let ?g = "rr_group_of allocated backup servers"
  have "mset (rg_peers ?g) = mset (peers_in backup servers)" by (simp add: group_peers)
  then have "(\<Sum>p\<leftarrow>rg_peers ?g. weight p) = (\<Sum>p\<leftarrow>peers_in backup servers. weight p)" by (rule sum_list_mset_eq)
  moreover have "rg_total_weight ?g = of_int (\<Sum>p\<leftarrow>peers_in backup servers. weight p)"
    unfolding rr_group_of_def Let_def rr_group.simps by (rule sum_peers_in)
  moreover have "0 < weight p" if "p \<in> set (peers_in backup servers)" for p
    using that assms(1) by (auto simp: peers_in_def peers_of_def servers_ok_def)
  ultimately show ?thesis using assms(2,3) by (simp add: total_ok_def)
qed

lemma init_ih_ok:
  assumes "servers_ok servers" "ngx_http_upstream_init_round_robin allocated servers = Some us"
    and w: "\<forall>b. (\<Sum>p\<leftarrow>peers_in b servers. weight p) < 2 ^ 63"
  shows "ih_ok (ngx_http_upstream_init_ip_hash_peer a us)"
    "budget (ngx_http_upstream_init_ip_hash_peer a us) \<le> length (peers_in False servers) + length (peers_in True servers)"
proof -
  let ?m = "rr_group_of allocated False servers" and ?b = "rr_group_of allocated True servers"
  let ?r = "ngx_http_upstream_init_round_robin_peer us" and ?d = "ngx_http_upstream_init_ip_hash_peer a us"
  note r = init_rr_ok [OF assms(1,2)]
  have us: "peers_in False servers \<noteq> []" "us = (?m, None) \<or> us = (?m\<lparr>rg_single := False\<rparr>, Some ?b) \<and> peers_in True servers \<noteq> []"
    using assms(2) by (auto simp: ngx_http_upstream_init_round_robin_def Let_def split: if_splits)
  have f: "rr_main ?d = rr_main ?r" "rr_backup ?d = rr_backup ?r" "rr_on_backup ?d = rr_on_backup ?r" "rr_tried ?d = rr_tried ?r"
    by (simp_all add: ngx_http_upstream_init_ip_hash_peer_def rr_data.extend_def)
  have u: "rr_main ?r = fst us" "rr_backup ?r = snd us"
    by (simp_all add: ngx_http_upstream_init_round_robin_peer_def Let_def split_beta)
  have m: "total_ok ?m" using group_total_ok [OF assms(1) us(1)] w by simp
  then have "total_ok (fst us)" using us(2) by (auto simp: total_ok_def)
  moreover have "total_ok b" if "snd us = Some b" for b
    using us(2) that group_total_ok [OF assms(1), of True allocated] w by auto
  moreover have "rr_ok ?d" using r(1) unfolding rr_ok_def f .
  ultimately show "ih_ok ?d" by (simp add: ih_ok_def f u)
  have "budget ?d = budget ?r" by (simp add: budget_def untried_def group_of_def has_next_def f)
  then show "budget ?d \<le> length (peers_in False servers) + length (peers_in True servers)" using r(2) by simp
qed

section \<open>Properties\<close>

text \<open>
  C26.  The same address is sent to the same peer: when the peer that the hash of the address falls on is live, the request
  is given it, whatever the round robin would choose.  In a weighted group it is the peer whose
  share of the total weight the hash falls into.
\<close>

theorem ip_hash_sticky:
  assumes "ih_ok d" and "\<not> rg_single (group_of d)" and "ih_tries d \<le> 20" and "hash = ih_step (ih_hash d) (ih_addr d)"
    and "p = ih_index hash (group_of d)" and "\<not> skip_peer now (rr_tried d) p (rg_peers (group_of d) ! p)"
  shows "p < length (rg_peers (group_of d)) \<and>
    (\<exists>d'. ngx_http_upstream_get_ip_hash_peer now d = (NGX_OK, d') \<and> rr_current d' = p \<and>
       pc_name d' = Some (rp_name (rg_peers (group_of d) ! p))) \<and>
    (rg_weighted (group_of d) \<longrightarrow>
       (\<Sum>q\<leftarrow>take p (rg_peers (group_of d)). weight q) \<le> uint hash mod (\<Sum>q\<leftarrow>rg_peers (group_of d). weight q) \<and>
       uint hash mod (\<Sum>q\<leftarrow>rg_peers (group_of d). weight q) < (\<Sum>q\<leftarrow>take (Suc p) (rg_peers (group_of d)). weight q))"
proof (intro conjI impI)
  let ?g = "group_of d" and ?ps = "rg_peers (group_of d)"
  note t = group_total [OF assms(1)]
  show lt: "p < length ?ps" using index_in_range [OF t] assms(5) by simp
  define q where "q = (?ps ! p)\<lparr>checked := now\<rparr>"
  have tried: "\<not> is_tried (rr_tried d) p" using assms(6) by (simp add: skip_peer_def)
  have "ih_round now hash d = Inl (p, d) \<or> ih_round now hash d = Inl (p, set_peers (?ps[p := q]) d)"
    using assms(6) unfolding ih_round_def Let_def assms(5) [symmetric] q_def by (auto simp: skip_peer_def)
  moreover have "rp_name (?ps[p := q] ! p) = rp_name (?ps ! p)" using lt by (simp add: q_def)
  ultimately obtain d1 where d1: "ih_round now hash d = Inl (p, d1)" "rp_name (rg_peers (group_of d1) ! p) = rp_name (?ps ! p)" by auto
  have "ngx_http_upstream_get_ip_hash_peer now d = the (ih_rounds (Suc 19) now (ih_hash d) d)"
    using assms(2,3) by (simp add: ngx_http_upstream_get_ip_hash_peer_def not_less [symmetric] eval_nat_numeral del: ih_rounds.simps)
  then show "\<exists>d'. ngx_http_upstream_get_ip_hash_peer now d = (NGX_OK, d') \<and> rr_current d' = p \<and> pc_name d' = Some (rp_name (?ps ! p))"
    unfolding ih_rounds.simps Let_def assms(4) [symmetric] d1(1) sum.case prod.case using d1(2) by simp
  assume w: "rg_weighted ?g"
  let ?W = "\<Sum>q\<leftarrow>?ps. weight q"
  have b: "0 \<le> uint hash mod ?W" "uint hash mod ?W < ?W" "\<forall>q\<in>set ?ps. 0 < weight q" "?W < 2 ^ 63"
    using total_word(2) [OF t] t by (simp_all add: total_ok_def)
  have "p = ih_weighted (uint hash mod ?W) 0 ?ps" using w assms(5) by (simp add: ih_index_def hash_weight [OF t])
  with weighted_interval [OF b(3,1,2,4), of 0]
  show "(\<Sum>q\<leftarrow>take p ?ps. weight q) \<le> uint hash mod ?W" "uint hash mod ?W < (\<Sum>q\<leftarrow>take (Suc p) ?ps. weight q)" by simp_all
qed

text \<open>
  A request to an upstream with this balancer ends as well: after more attempts than there are peers it is
  finalized and holds no peer.
\<close>

theorem ip_hash_request_ends:
  assumes "servers_ok servers" and "ngx_http_upstream_init_round_robin allocated servers = Some us"
    and "\<forall>b. (\<Sum>p\<leftarrow>peers_in b servers. weight p) < 2 ^ 63"
    and "\<forall>a\<in>set as. by_others (at_before a) \<and> by_others (at_during a)" and "next_upstream AND FT_NOLIVE = 0"
    and "length (peers_in False servers) + length (peers_in True servers) < length as"
  shows "\<exists>rc u. upstream_run ngx_http_upstream_get_ip_hash_peer ngx_http_upstream_free_round_robin_peer pc_tries next_upstream as
      \<lparr>up_peer = ngx_http_upstream_init_ip_hash_peer addr us, up_sockaddr = False, up_status = 0\<rparr> = Inl (rc, u) \<and>
    ih_ok (up_peer u) \<and> \<not> up_sockaddr u"
  using init_ih_ok [OF assms(1-3), of addr] assms(4-6) by (intro ih.run_ends) (simp_all add: order_le_less_trans)

lemma sample_weights: "\<forall>b. (\<Sum>p\<leftarrow>peers_in b sample_servers. weight p) < 2 ^ 63"
  by (simp add: all_bool_eq peers_in_def sample_servers_def sample_server_def peers_of_def)

theorem ip_hash_request_ends_witness:
  "\<exists>us rc u. ngx_http_upstream_init_round_robin True sample_servers = Some us \<and>
     upstream_run ngx_http_upstream_get_ip_hash_peer ngx_http_upstream_free_round_robin_peer pc_tries 6
       (map failing_attempt [0, 1, 2, 3])
       \<lparr>up_peer = ngx_http_upstream_init_ip_hash_peer (AF_INET [10, 0, 0, 7]) us, up_sockaddr = False, up_status = 0\<rparr> = Inl (rc, u) \<and> \<not> up_sockaddr u"
proof -
  obtain us where us: "ngx_http_upstream_init_round_robin True sample_servers = Some us" using sample_init by blast
  have "\<exists>rc u. upstream_run ngx_http_upstream_get_ip_hash_peer ngx_http_upstream_free_round_robin_peer pc_tries 6
      (map failing_attempt [0, 1, 2, 3])
      \<lparr>up_peer = ngx_http_upstream_init_ip_hash_peer (AF_INET [10, 0, 0, 7]) us, up_sockaddr = False, up_status = 0\<rparr> = Inl (rc, u) \<and>
    ih_ok (up_peer u) \<and> \<not> up_sockaddr u"
    by (rule ip_hash_request_ends [OF sample_servers_ok us sample_weights])
      (simp_all add: failing_attempt_def by_others_id peers_in_def sample_servers_def sample_server_def peers_of_def)
  then show ?thesis using us by blast
qed

theorem ip_hash_sticky_witness:
  "\<exists>us d'. ngx_http_upstream_init_round_robin True sample_servers = Some us \<and>
     ngx_http_upstream_get_ip_hash_peer 0 (ngx_http_upstream_init_ip_hash_peer (AF_INET [10, 0, 0, 7]) us) = (NGX_OK, d')"
proof -
  obtain us where us: "ngx_http_upstream_init_round_robin True sample_servers = Some us" using sample_init by blast
  define d where "d = ngx_http_upstream_init_ip_hash_peer (AF_INET [10, 0, 0, 7]) us"
  have ok: "ih_ok d" unfolding d_def by (rule init_ih_ok(1) [OF sample_servers_ok us sample_weights])
  have b: "peers_in True sample_servers \<noteq> []" by (simp add: peers_in_def sample_servers_def sample_server_def peers_of_def)
  then have g: "group_of d = (rr_group_of True False sample_servers)\<lparr>rg_single := False\<rparr>" "ih_tries d = 0"
    using us by (auto simp: d_def group_of_def ngx_http_upstream_init_ip_hash_peer_def rr_data.extend_def ih_data.fields_def
        ngx_http_upstream_init_round_robin_peer_def ngx_http_upstream_init_round_robin_def Let_def split: if_splits)
  let ?p = "ih_index (ih_step (ih_hash d) (ih_addr d)) (group_of d)"
  have p: "?p < length (rg_peers (group_of d))" by (rule index_in_range [OF group_total [OF ok]])
  then have "rg_peers (group_of d) ! ?p \<in> set (peers_in False sample_servers)" using nth_mem [OF p] g by simp
  then have live: "\<not> down (rg_peers (group_of d) ! ?p)" "fails (rg_peers (group_of d) ! ?p) = 0" "max_fails (rg_peers (group_of d) ! ?p) = 1"
    by (auto simp: peers_in_def sample_servers_def sample_server_def peers_of_def)
  have n: "length (rg_peers (group_of d)) \<le> 64 * length (rr_tried d)" using group_of_ok [of d] ok by (simp add: ih_ok_def)
  have "\<exists>n. rr_tried d = replicate n 0"
    by (auto simp: d_def ngx_http_upstream_init_ip_hash_peer_def rr_data.extend_def ngx_http_upstream_init_round_robin_peer_def Let_def split_beta)
  then have "\<not> is_tried (rr_tried d) ?p" using is_tried_fresh p n by (metis length_replicate order_less_le_trans)
  then have "\<not> skip_peer 0 (rr_tried d) ?p (rg_peers (group_of d) ! ?p)" using live by (simp add: skip_peer_def)
  from ip_hash_sticky [OF ok _ _ refl refl this] g obtain d' where "ngx_http_upstream_get_ip_hash_peer 0 d = (NGX_OK, d')" by auto
  then show ?thesis using us by (auto simp: d_def)
qed

end
