(* ===== verification/Mp4_Atoms.thy ===== *)
theory Mp4_Atoms
  imports Xhome_Prelude
begin

unbundle bit_operations_syntax

text \<open>
  Starting a film in the middle: \<^verbatim>\<open>src/http/modules/ngx_http_mp4_module.c\<close>, the module with which the video-on-demand
  server answers a request with the argument \<^verbatim>\<open>start\<close>.  The tables that describe the samples of a track
  are read from the file, cut at the first sample to be sent, and sent before the rest of the media data.  A table
  is the list of its entries; the bytes of an entry are only accessed by the macros, so that entries are tuples of words.
\<close>

section \<open>Values in the file\<close>

definition ngx_mp4_get_32value :: "u_char list \<Rightarrow> uint32" where
  "ngx_mp4_get_32value p =
     push_bit 24 (ucast (p ! 0)) + push_bit 16 (ucast (p ! 1)) + push_bit 8 (ucast (p ! 2)) + ucast (p ! 3)"

definition ngx_mp4_set_32value :: "uint32 \<Rightarrow> u_char list" where
  "ngx_mp4_set_32value n = [ucast (drop_bit 24 n), ucast (drop_bit 16 n), ucast (drop_bit 8 n), ucast n]"

definition ngx_mp4_get_64value :: "u_char list \<Rightarrow> ngx_uint_t" where
  "ngx_mp4_get_64value p =
     push_bit 56 (ucast (p ! 0)) + push_bit 48 (ucast (p ! 1)) + push_bit 40 (ucast (p ! 2)) + push_bit 32 (ucast (p ! 3)) +
     push_bit 24 (ucast (p ! 4)) + push_bit 16 (ucast (p ! 5)) + push_bit 8 (ucast (p ! 6)) + ucast (p ! 7)"

definition ngx_mp4_set_64value :: "ngx_uint_t \<Rightarrow> u_char list" where
  "ngx_mp4_set_64value n =
     [ucast (drop_bit 56 n), ucast (drop_bit 48 n), ucast (drop_bit 40 n), ucast (drop_bit 32 n),
      ucast (drop_bit 24 n), ucast (drop_bit 16 n), ucast (drop_bit 8 n), ucast n]"

section \<open>Tables and tracks\<close>

text \<open>The fields \<^verbatim>\<open>size\<close> and \<^verbatim>\<open>entries\<close> of the header of an atom, and its entries from \<^verbatim>\<open>pos\<close> to \<^verbatim>\<open>last\<close>.\<close>

record 'e mp4_table =
  tb_size :: uint32
  tb_entries :: uint32
  tb_data :: "'e list"

text \<open>
  A track; a table is \<open>None\<close> when its buffer is not in the output chain.  The fields \<open>tkhd_size\<close> to \<open>dinf_size\<close> are the
  sizes of atoms that are sent as they are; \<open>stbl_atom\<close> to \<open>trak_atom\<close> are the sizes in the headers of the enclosing atoms.
\<close>

record mp4_trak =
  timescale :: uint32
  time_to_sample_entries :: uint32
  sample_to_chunk_entries :: uint32
  sync_samples_entries :: uint32
  composition_offset_entries :: uint32
  sample_sizes_entries :: uint32
  chunks :: uint32
  start_sample :: ngx_uint_t
  start_chunk :: ngx_uint_t
  chunk_samples :: ngx_uint_t
  chunk_samples_size :: ngx_uint_t
  start_offset :: ngx_uint_t
  tkhd_size :: ngx_uint_t
  mdhd_size :: ngx_uint_t
  hdlr_size :: ngx_uint_t
  vmhd_size :: ngx_uint_t
  smhd_size :: ngx_uint_t
  dinf_size :: ngx_uint_t
  tk_size :: ngx_uint_t
  stts_data :: "(uint32 \<times> uint32) mp4_table option"
  stss_data :: "uint32 mp4_table option"
  ctts_data :: "(uint32 \<times> uint32) mp4_table option"
  stsc_chunk :: "(uint32 \<times> uint32 \<times> uint32) option"
  stsc_data :: "(uint32 \<times> uint32 \<times> uint32) mp4_table option"
  stsz_data :: "uint32 mp4_table option"
  stco_data :: "uint32 mp4_table option"
  co64_data :: "ngx_uint_t mp4_table option"
  stbl_atom :: uint32
  minf_atom :: uint32
  mdia_atom :: uint32
  trak_atom :: uint32

text \<open>The result of an operation: \<^verbatim>\<open>NGX_OK\<close>, \<^verbatim>\<open>NGX_ERROR\<close>, or an access outside a table.\<close>

datatype 'a mp4_result = Mp4_Ok 'a | Mp4_Error | Mp4_Outside

fun mp4_bind :: "'a mp4_result \<Rightarrow> ('a \<Rightarrow> 'b mp4_result) \<Rightarrow> 'b mp4_result" where
  "mp4_bind (Mp4_Ok x) f = f x"
| "mp4_bind Mp4_Error f = Mp4_Error"
| "mp4_bind Mp4_Outside f = Mp4_Outside"

section \<open>Reading a table\<close>

text \<open>The entries of a table of \<open>n\<close> entries of \<open>k\<close> bytes.\<close>

fun table_entries :: "nat \<Rightarrow> (u_char list \<Rightarrow> 'e) \<Rightarrow> nat \<Rightarrow> u_char list \<Rightarrow> 'e list" where
  "table_entries k get 0 bs = []"
| "table_entries k get (Suc n) bs = get (take k bs) # table_entries k get n (drop k bs)"

definition get_pair :: "u_char list \<Rightarrow> uint32 \<times> uint32" where
  "get_pair p = (ngx_mp4_get_32value p, ngx_mp4_get_32value (drop 4 p))"

definition get_triple :: "u_char list \<Rightarrow> uint32 \<times> uint32 \<times> uint32" where
  "get_triple p = (ngx_mp4_get_32value p, ngx_mp4_get_32value (drop 4 p), ngx_mp4_get_32value (drop 8 p))"

text \<open>
  The part that the readers share: the data of the atom, \<open>data\<close>, begins with version, flags and number of entries,
  and the entries must fit into it.  The size in the header is only set when the table is sent.
\<close>

definition mp4_read_table :: "nat \<Rightarrow> (u_char list \<Rightarrow> 'e) \<Rightarrow> u_char list \<Rightarrow> 'e mp4_table option" where
  "mp4_read_table k get data =
     (if length data < 8 then None
      else
        (let entries = ngx_mp4_get_32value (drop 4 data) in
         if length data < 8 + unat entries * k then None
         else Some \<lparr>tb_size = 0, tb_entries = entries, tb_data = table_entries k get (unat entries) (drop 8 data)\<rparr>))"

definition ngx_http_mp4_read_stts_atom :: "u_char list \<Rightarrow> mp4_trak \<Rightarrow> mp4_trak mp4_result" where
  "ngx_http_mp4_read_stts_atom data trak =
     (case mp4_read_table 8 get_pair data of
        None \<Rightarrow> Mp4_Error
      | Some t \<Rightarrow> Mp4_Ok (trak\<lparr>time_to_sample_entries := tb_entries t, stts_data := Some t\<rparr>))"

definition ngx_http_mp4_read_stss_atom :: "u_char list \<Rightarrow> mp4_trak \<Rightarrow> mp4_trak mp4_result" where
  "ngx_http_mp4_read_stss_atom data trak =
     (case mp4_read_table 4 ngx_mp4_get_32value data of
        None \<Rightarrow> Mp4_Error
      | Some t \<Rightarrow> Mp4_Ok (trak\<lparr>sync_samples_entries := tb_entries t, stss_data := Some t\<rparr>))"

definition ngx_http_mp4_read_ctts_atom :: "u_char list \<Rightarrow> mp4_trak \<Rightarrow> mp4_trak mp4_result" where
  "ngx_http_mp4_read_ctts_atom data trak =
     (case mp4_read_table 8 get_pair data of
        None \<Rightarrow> Mp4_Error
      | Some t \<Rightarrow> Mp4_Ok (trak\<lparr>composition_offset_entries := tb_entries t, ctts_data := Some t\<rparr>))"

definition ngx_http_mp4_read_stsc_atom :: "u_char list \<Rightarrow> mp4_trak \<Rightarrow> mp4_trak mp4_result" where
  "ngx_http_mp4_read_stsc_atom data trak =
     (case mp4_read_table 12 get_triple data of
        None \<Rightarrow> Mp4_Error
      | Some t \<Rightarrow> Mp4_Ok (trak\<lparr>sample_to_chunk_entries := tb_entries t, stsc_data := Some t\<rparr>))"

text \<open>In the sizes a common size comes first; when there is one, there is no table and the atom is sent as it is.\<close>

definition ngx_http_mp4_read_stsz_atom :: "u_char list \<Rightarrow> mp4_trak \<Rightarrow> mp4_trak mp4_result" where
  "ngx_http_mp4_read_stsz_atom data trak =
     (if length data < 12 then Mp4_Error
      else
        (let sz = ngx_mp4_get_32value (drop 4 data); entries = ngx_mp4_get_32value (drop 8 data);
             trak = trak\<lparr>sample_sizes_entries := entries\<rparr> in
         if sz = 0 then
           (if length data < 12 + unat entries * 4 then Mp4_Error
            else Mp4_Ok (trak\<lparr>stsz_data := Some \<lparr>tb_size = 0, tb_entries = entries,
                   tb_data = table_entries 4 ngx_mp4_get_32value (unat entries) (drop 12 data)\<rparr>\<rparr>))
         else Mp4_Ok (trak\<lparr>tk_size := tk_size trak + (8 + of_nat (length data))\<rparr>)))"

definition ngx_http_mp4_read_stco_atom :: "u_char list \<Rightarrow> mp4_trak \<Rightarrow> mp4_trak mp4_result" where
  "ngx_http_mp4_read_stco_atom data trak =
     (case mp4_read_table 4 ngx_mp4_get_32value data of
        None \<Rightarrow> Mp4_Error
      | Some t \<Rightarrow> Mp4_Ok (trak\<lparr>chunks := tb_entries t, stco_data := Some t\<rparr>))"

definition ngx_http_mp4_read_co64_atom :: "u_char list \<Rightarrow> mp4_trak \<Rightarrow> mp4_trak mp4_result" where
  "ngx_http_mp4_read_co64_atom data trak =
     (case mp4_read_table 8 ngx_mp4_get_64value data of
        None \<Rightarrow> Mp4_Error
      | Some t \<Rightarrow> Mp4_Ok (trak\<lparr>chunks := tb_entries t, co64_data := Some t\<rparr>))"

section \<open>Times of samples\<close>

text \<open>
  The loop over the entries: the first sample, the number of entries left and the entries from the one that
  holds it.  The product that is subtracted is one of 32 bits.
\<close>

fun stts_find :: "ngx_uint_t \<Rightarrow> ngx_uint_t \<Rightarrow> uint32 \<Rightarrow> (uint32 \<times> uint32) list \<Rightarrow>
    (ngx_uint_t \<times> uint32 \<times> (uint32 \<times> uint32) list) option" where
  "stts_find start_time ss entries [] = None"
| "stts_find start_time ss entries ((count, duration) # es) =
     (if start_time < ucast count * ucast duration then
        Some (ss + start_time div ucast duration, entries, (count - ucast (start_time div ucast duration), duration) # es)
      else stts_find (start_time - ucast (count * duration)) (ss + ucast count) (entries - 1) es)"

text \<open>\<open>start\<close> is \<^verbatim>\<open>mp4->start\<close>, in milliseconds.\<close>

definition ngx_http_mp4_update_stts_atom :: "ngx_uint_t \<Rightarrow> mp4_trak \<Rightarrow> mp4_trak mp4_result" where
  "ngx_http_mp4_update_stts_atom start trak =
     (case stts_data trak of
        None \<Rightarrow> Mp4_Error
      | Some t \<Rightarrow>
          (case stts_find (start * ucast (timescale trak) div 1000) 0 (time_to_sample_entries trak) (tb_data t) of
             None \<Rightarrow> Mp4_Error
           | Some (ss, entries, es) \<Rightarrow>
               (let atom_size = 16 + 8 * of_nat (length es) in
                Mp4_Ok (trak\<lparr>start_sample := ss, tk_size := tk_size trak + atom_size,
                  stts_data := Some \<lparr>tb_size = ucast atom_size, tb_entries = entries, tb_data = es\<rparr>\<rparr>))))"

section \<open>Sync samples\<close>

fun stss_find :: "uint32 \<Rightarrow> uint32 \<Rightarrow> uint32 list \<Rightarrow> (uint32 \<times> uint32 list) option" where
  "stss_find ss entries [] = None"
| "stss_find ss entries (sample # es) = (if sample \<ge> ss then Some (entries, sample # es) else stss_find ss (entries - 1) es)"

definition ngx_http_mp4_update_stss_atom :: "mp4_trak \<Rightarrow> mp4_trak mp4_result" where
  "ngx_http_mp4_update_stss_atom trak =
     (case stss_data trak of
        None \<Rightarrow> Mp4_Ok trak
      | Some t \<Rightarrow>
          (case stss_find (ucast (start_sample trak + 1)) (sync_samples_entries trak) (tb_data t) of
             None \<Rightarrow> Mp4_Error
           | Some (entries, es) \<Rightarrow>
               (let es = map (\<lambda>sample. sample - ucast (start_sample trak)) es; atom_size = 16 + 4 * of_nat (length es) in
                Mp4_Ok (trak\<lparr>tk_size := tk_size trak + atom_size,
                  stss_data := Some \<lparr>tb_size = ucast atom_size, tb_entries = entries, tb_data = es\<rparr>\<rparr>))))"

section \<open>Composition offsets\<close>

fun ctts_find :: "uint32 \<Rightarrow> uint32 \<Rightarrow> (uint32 \<times> uint32) list \<Rightarrow> (uint32 \<times> (uint32 \<times> uint32) list) option" where
  "ctts_find ss entries [] = None"
| "ctts_find ss entries ((count, off) # es) =
     (if ss \<le> count then Some (entries, (count - (ss - 1), off) # es) else ctts_find (ss - count) (entries - 1) es)"

definition ngx_http_mp4_update_ctts_atom :: "mp4_trak \<Rightarrow> mp4_trak" where
  "ngx_http_mp4_update_ctts_atom trak =
     (case ctts_data trak of
        None \<Rightarrow> trak
      | Some t \<Rightarrow>
          (case ctts_find (ucast (start_sample trak + 1)) (composition_offset_entries trak) (tb_data t) of
             None \<Rightarrow> trak\<lparr>ctts_data := None\<rparr>
           | Some (entries, es) \<Rightarrow>
               (let atom_size = 16 + 8 * of_nat (length es) in
                trak\<lparr>tk_size := tk_size trak + atom_size,
                  ctts_data := Some \<lparr>tb_size = ucast atom_size, tb_entries = entries, tb_data = es\<rparr>\<rparr>)))"

section \<open>Samples in chunks\<close>

text \<open>
  The loop: the current entry, the ones behind it; found are the rest of the samples, the next chunk, the number of
  entries, the current entry and the ones behind it.
\<close>

fun stsc_find :: "uint32 \<Rightarrow> uint32 \<Rightarrow> uint32 \<times> uint32 \<times> uint32 \<Rightarrow> (uint32 \<times> uint32 \<times> uint32) list \<Rightarrow> uint32 \<Rightarrow>
    (uint32 \<times> uint32 \<times> uint32 \<times> (uint32 \<times> uint32 \<times> uint32) \<times> (uint32 \<times> uint32 \<times> uint32) list) option" where
  "stsc_find ss entries (chunk, samples, i) [] nchunks =
     (if ss > (nchunks - chunk) * samples then None else Some (ss, nchunks, entries, (chunk, samples, i), []))"
| "stsc_find ss entries (chunk, samples, i) (e # es) nchunks =
     (let next_chunk = fst e; n = (next_chunk - chunk) * samples in
      if ss \<le> n then Some (ss, next_chunk, entries, (chunk, samples, i), e # es)
      else stsc_find (ss - n) (entries - 1) e es nchunks)"

definition ngx_http_mp4_update_stsc_atom :: "mp4_trak \<Rightarrow> mp4_trak mp4_result" where
  "ngx_http_mp4_update_stsc_atom trak =
     (case stsc_data trak of
        None \<Rightarrow> Mp4_Error
      | Some t \<Rightarrow>
          if sample_to_chunk_entries trak = 0 then Mp4_Error
          else
            (case tb_data t of
               [] \<Rightarrow> Mp4_Outside
             | e # es \<Rightarrow>
                 (case stsc_find (ucast (start_sample trak)) (sample_to_chunk_entries trak - 1) e es (chunks trak) of
                    None \<Rightarrow> Mp4_Error
                  | Some (ss, next_chunk, entries, (chunk, samples, i), es) \<Rightarrow>
                      if samples = 0 then Mp4_Error
                      else
                        (let entries = entries + 1;
                             sc = ucast (chunk - 1) + ucast (ss div samples);
                             cs = ucast (ss mod samples);
                             es' = map (\<lambda>(c, sm, k). (c - ucast sc, sm, k)) es;
                             atom_size = 16 + 12 * of_nat (Suc (length es));
                             trak = trak\<lparr>start_chunk := sc, chunk_samples := cs\<rparr>;
                             (first, e', entries, atom_size) =
                               (if cs \<noteq> 0 \<and> ucast next_chunk - sc = 2
                                then (None, (1, ucast (ucast samples - cs), i), entries, atom_size)
                                else if cs \<noteq> 0
                                then (Some (1, ucast (ucast samples - cs), i), (2, samples, i), entries + 1, atom_size + 12)
                                else (None, (1, samples, i), entries, atom_size)) in
                         Mp4_Ok (trak\<lparr>stsc_chunk := first, tk_size := tk_size trak + atom_size,
                           stsc_data := Some \<lparr>tb_size = ucast atom_size, tb_entries = entries, tb_data = e' # es'\<rparr>\<rparr>)))))"

section \<open>Sizes of samples\<close>

definition ngx_http_mp4_update_stsz_atom :: "mp4_trak \<Rightarrow> mp4_trak mp4_result" where
  "ngx_http_mp4_update_stsz_atom trak =
     (case stsz_data trak of
        None \<Rightarrow> Mp4_Ok trak
      | Some t \<Rightarrow>
          if start_sample trak > ucast (sample_sizes_entries trak) then Mp4_Error
          else
            (let ss = unat (start_sample trak); cs = unat (chunk_samples trak); ds = drop ss (tb_data t);
                 atom_size = 20 + 4 * of_nat (length ds) in
             if cs > ss \<or> ss > length (tb_data t) then Mp4_Outside
             else
               Mp4_Ok (trak\<lparr>chunk_samples_size := chunk_samples_size trak + (\<Sum>z\<leftarrow>take cs (drop (ss - cs) (tb_data t)). ucast z),
                 tk_size := tk_size trak + atom_size,
                 stsz_data := Some \<lparr>tb_size = ucast atom_size,
                   tb_entries = ucast (ucast (sample_sizes_entries trak) - start_sample trak), tb_data = ds\<rparr>\<rparr>)))"

section \<open>Offsets of chunks\<close>

definition ngx_http_mp4_update_stco_atom :: "mp4_trak \<Rightarrow> mp4_trak mp4_result" where
  "ngx_http_mp4_update_stco_atom trak =
     (case stco_data trak of
        None \<Rightarrow> Mp4_Error
      | Some t \<Rightarrow>
          if start_chunk trak > ucast (chunks trak) then Mp4_Error
          else
            (let ds = drop (unat (start_chunk trak)) (tb_data t); atom_size = 16 + 4 * of_nat (length ds) in
             case ds of
               [] \<Rightarrow> Mp4_Outside
             | d # ds \<Rightarrow>
                 (let off = ucast d + chunk_samples_size trak in
                  Mp4_Ok (trak\<lparr>tk_size := tk_size trak + atom_size, start_offset := off,
                    stco_data := Some \<lparr>tb_size = ucast atom_size,
                      tb_entries = ucast (ucast (chunks trak) - start_chunk trak), tb_data = ucast off # ds\<rparr>\<rparr>))))"

definition ngx_http_mp4_adjust_stco_atom :: "uint32 \<Rightarrow> mp4_trak \<Rightarrow> mp4_trak" where
  "ngx_http_mp4_adjust_stco_atom adjustment trak =
     trak\<lparr>stco_data := map_option (\<lambda>t. t\<lparr>tb_data := map (\<lambda>d. d + adjustment) (tb_data t)\<rparr>) (stco_data trak)\<rparr>"

definition ngx_http_mp4_update_co64_atom :: "mp4_trak \<Rightarrow> mp4_trak mp4_result" where
  "ngx_http_mp4_update_co64_atom trak =
     (case co64_data trak of
        None \<Rightarrow> Mp4_Error
      | Some t \<Rightarrow>
          if start_chunk trak > ucast (chunks trak) then Mp4_Error
          else
            (let ds = drop (unat (start_chunk trak)) (tb_data t); atom_size = 16 + 8 * of_nat (length ds) in
             case ds of
               [] \<Rightarrow> Mp4_Outside
             | d # ds \<Rightarrow>
                 (let off = d + chunk_samples_size trak in
                  Mp4_Ok (trak\<lparr>tk_size := tk_size trak + atom_size, start_offset := off,
                    co64_data := Some \<lparr>tb_size = ucast atom_size,
                      tb_entries = ucast (ucast (chunks trak) - start_chunk trak), tb_data = off # ds\<rparr>\<rparr>))))"

definition ngx_http_mp4_adjust_co64_atom :: "ngx_uint_t \<Rightarrow> mp4_trak \<Rightarrow> mp4_trak" where
  "ngx_http_mp4_adjust_co64_atom adjustment trak =
     trak\<lparr>co64_data := map_option (\<lambda>t. t\<lparr>tb_data := map (\<lambda>d. d + adjustment) (tb_data t)\<rparr>) (co64_data trak)\<rparr>"

section \<open>The enclosing atoms\<close>

definition ngx_http_mp4_update_stbl_atom :: "mp4_trak \<Rightarrow> mp4_trak" where
  "ngx_http_mp4_update_stbl_atom trak =
     (let sz = tk_size trak + 8 in trak\<lparr>tk_size := sz, stbl_atom := ucast sz\<rparr>)"

definition ngx_http_mp4_update_minf_atom :: "mp4_trak \<Rightarrow> mp4_trak" where
  "ngx_http_mp4_update_minf_atom trak =
     (let sz = tk_size trak + (8 + vmhd_size trak + smhd_size trak + dinf_size trak) in
      trak\<lparr>tk_size := sz, minf_atom := ucast sz\<rparr>)"

definition ngx_http_mp4_update_mdia_atom :: "mp4_trak \<Rightarrow> mp4_trak" where
  "ngx_http_mp4_update_mdia_atom trak =
     (let sz = tk_size trak + 8 in trak\<lparr>tk_size := sz, mdia_atom := ucast sz\<rparr>)"

definition ngx_http_mp4_update_trak_atom :: "mp4_trak \<Rightarrow> mp4_trak" where
  "ngx_http_mp4_update_trak_atom trak =
     (let sz = tk_size trak + 8 in trak\<lparr>tk_size := sz, trak_atom := ucast sz\<rparr>)"

section \<open>The file\<close>

text \<open>
  The file after its atoms have been read: the size of the \<^verbatim>\<open>ftyp\<close> and \<^verbatim>\<open>mvhd\<close> atoms, the tracks, and the end
  \<^verbatim>\<open>file_last\<close> of the media data; then what is sent: the headers, and where the media data begin.
\<close>

record mp4_file =
  mp_start :: ngx_uint_t
  mp_end :: ngx_uint_t
  mp_ftyp_size :: ngx_uint_t
  mp_moov_size :: ngx_uint_t
  mp_mvhd_size :: "ngx_uint_t option"
  mp_content_length :: ngx_uint_t
  mp_traks :: "mp4_trak list"
  mp_mdat_last :: "ngx_uint_t option"
  mp_moov_header :: "u_char list"
  mp_mdat_header :: "u_char list"
  mp_mdat_pos :: ngx_uint_t

text \<open>One track in the loop of \<^verbatim>\<open>ngx_http_mp4_process\<close>.\<close>

definition mp4_process_trak :: "ngx_uint_t \<Rightarrow> mp4_trak \<Rightarrow> mp4_trak mp4_result" where
  "mp4_process_trak start trak =
     mp4_bind (ngx_http_mp4_update_stts_atom start trak) (\<lambda>trak.
     mp4_bind (ngx_http_mp4_update_stss_atom trak) (\<lambda>trak.
     let trak = ngx_http_mp4_update_ctts_atom trak in
     mp4_bind (ngx_http_mp4_update_stsc_atom trak) (\<lambda>trak.
     mp4_bind (ngx_http_mp4_update_stsz_atom trak) (\<lambda>trak.
     mp4_bind (if co64_data trak \<noteq> None then ngx_http_mp4_update_co64_atom trak else ngx_http_mp4_update_stco_atom trak) (\<lambda>trak.
     let trak = ngx_http_mp4_update_stbl_atom trak;
         trak = ngx_http_mp4_update_minf_atom trak;
         trak = trak\<lparr>tk_size := tk_size trak + mdhd_size trak\<rparr>;
         trak = trak\<lparr>tk_size := tk_size trak + hdlr_size trak\<rparr>;
         trak = ngx_http_mp4_update_mdia_atom trak;
         trak = trak\<lparr>tk_size := tk_size trak + tkhd_size trak\<rparr> in
     Mp4_Ok (ngx_http_mp4_update_trak_atom trak))))))"

text \<open>The loop: the tracks, the size of the \<^verbatim>\<open>moov\<close> atom and the least offset.\<close>

fun mp4_process_traks :: "ngx_uint_t \<Rightarrow> mp4_trak list \<Rightarrow> ngx_uint_t \<Rightarrow> ngx_uint_t \<Rightarrow>
    (mp4_trak list \<times> ngx_uint_t \<times> ngx_uint_t) mp4_result" where
  "mp4_process_traks start [] moov off = Mp4_Ok ([], moov, off)"
| "mp4_process_traks start (trak # traks) moov off =
     mp4_bind (mp4_process_trak start trak) (\<lambda>trak.
     mp4_bind (mp4_process_traks start traks (moov + tk_size trak)
       (if sint off > sint (start_offset trak) then start_offset trak else off)) (\<lambda>(traks, moov, off).
     Mp4_Ok (trak # traks, moov, off)))"

definition atom_name :: "string \<Rightarrow> u_char list" where
  "atom_name s = map of_char s"

text \<open>The header of the media data, with 32 or 64 bits of size, and its length.\<close>

definition ngx_http_mp4_update_mdat_atom :: "ngx_uint_t \<Rightarrow> ngx_uint_t \<Rightarrow> mp4_file \<Rightarrow> ngx_uint_t \<times> mp4_file" where
  "ngx_http_mp4_update_mdat_atom fl off mp4 =
     (let sz = fl - off;
          (header, n) =
            (if sz > 0xffffffff
             then (ngx_mp4_set_32value 1 @ atom_name ''mdat'' @ ngx_mp4_set_64value (16 + sz), 16)
             else (ngx_mp4_set_32value (ucast (8 + sz)) @ atom_name ''mdat'', 8)) in
      (n, mp4\<lparr>mp_mdat_pos := off, mp_mdat_header := header, mp_content_length := mp_content_length mp4 + (n + sz)\<rparr>))"

text \<open>\<^verbatim>\<open>ngx_http_mp4_process\<close> after the atoms have been read.\<close>

definition mp4_adjust :: "ngx_uint_t \<Rightarrow> mp4_trak \<Rightarrow> mp4_trak" where
  "mp4_adjust adjustment trak =
     (if co64_data trak \<noteq> None then ngx_http_mp4_adjust_co64_atom adjustment trak
      else ngx_http_mp4_adjust_stco_atom (ucast adjustment) trak)"

definition ngx_http_mp4_process :: "mp4_file \<Rightarrow> mp4_file mp4_result" where
  "ngx_http_mp4_process mp4 =
     (if mp_traks mp4 = [] then Mp4_Error
      else
        case mp_mdat_last mp4 of
          None \<Rightarrow> Mp4_Error
        | Some fl \<Rightarrow>
            mp4_bind (mp4_process_traks (mp_start mp4) (mp_traks mp4)
                (mp_moov_size mp4 + (case mp_mvhd_size mp4 of None \<Rightarrow> 0 | Some n \<Rightarrow> n)) (mp_end mp4))
              (\<lambda>(traks, moov, off).
                 let moov = moov + 8;
                     mp4 = mp4\<lparr>mp_moov_size := moov, mp_moov_header := ngx_mp4_set_32value (ucast moov) @ atom_name ''moov'',
                               mp_content_length := mp_content_length mp4 + moov\<rparr> in
                 if sint off > sint fl then Mp4_Error
                 else
                   (let (n, mp4) = ngx_http_mp4_update_mdat_atom fl off mp4;
                        adjustment = mp_ftyp_size mp4 + moov + n - off in
                    Mp4_Ok (mp4\<lparr>mp_traks := map (mp4_adjust adjustment) traks\<rparr>))))"

end
