(* ===== verification/Mp4_Tables.thy ===== *)
theory Mp4_Tables
  imports Mp4_Atoms
begin

unbundle bit_operations_syntax

text \<open>
  The bytes of the tables of \<open>Mp4_Atoms\<close>: the macros that read and write values are inverse to each other, and a table that has
  been written is read back entry by entry, for every kind of entry.
\<close>

section \<open>Values\<close>

lemma get_32_of_nat: "ngx_mp4_get_32value (b0 # b1 # b2 # b3 # bs) =
    of_nat (unat b0 * 2 ^ 24 + unat b1 * 2 ^ 16 + unat b2 * 2 ^ 8 + unat b3)"
  by (simp add: ngx_mp4_get_32value_def push_bit_eq_mult)

lemma get_64_of_nat: "ngx_mp4_get_64value (b0 # b1 # b2 # b3 # b4 # b5 # b6 # b7 # bs) =
    of_nat (unat b0 * 2 ^ 56 + unat b1 * 2 ^ 48 + unat b2 * 2 ^ 40 + unat b3 * 2 ^ 32 + unat b4 * 2 ^ 24 + unat b5 * 2 ^ 16 + unat b6 * 2 ^ 8 + unat b7)"
  by (simp add: ngx_mp4_get_64value_def push_bit_eq_mult)

lemma unat_nth_byte: "unat (ucast (drop_bit k (n :: 'a::len word)) :: u_char) = unat n div 2 ^ k mod 256"
proof -
  have "unat (ucast (drop_bit k n) :: u_char) = unat (drop_bit k n) mod 256" by (simp add: unsigned_ucast_eq take_bit_eq_mod)
  also have "unat (drop_bit k n) = unat n div 2 ^ k" unfolding unat_drop_bit_eq by (rule drop_bit_eq_div)
  finally show ?thesis .
qed

lemma horner: "(m :: nat) div k mod 256 * k + m mod k = m mod (256 * k)"
  by (simp add: mod_mult2_eq mult.commute [of 256])

lemma get_set_32: "ngx_mp4_get_32value (ngx_mp4_set_32value n @ bs) = n"
proof -
  let ?m = "unat n"
  have "?m < 2 ^ 32" using unsigned_less [of n, where 'a = nat] by simp
  moreover have "?m div 2 ^ 24 mod 256 * 2 ^ 24 + ?m div 2 ^ 16 mod 256 * 2 ^ 16 + ?m div 2 ^ 8 mod 256 * 2 ^ 8 + ?m mod 256 = ?m mod 2 ^ 32"
    using horner [of ?m "2 ^ 24"] horner [of ?m "2 ^ 16"] horner [of ?m "2 ^ 8"] by simp
  moreover have "unat (ucast n :: u_char) = ?m mod 256" by (simp add: unsigned_ucast_eq take_bit_eq_mod)
  ultimately show ?thesis by (simp add: ngx_mp4_set_32value_def get_32_of_nat unat_nth_byte del: of_nat_add of_nat_mult)
qed

lemma get_set_64: "ngx_mp4_get_64value (ngx_mp4_set_64value n @ bs) = n"
proof -
  let ?m = "unat n"
  have "?m < 2 ^ 64" using unsigned_less [of n, where 'a = nat] by simp
  moreover have "?m div 2 ^ 56 mod 256 * 2 ^ 56 + ?m div 2 ^ 48 mod 256 * 2 ^ 48 + ?m div 2 ^ 40 mod 256 * 2 ^ 40 + ?m div 2 ^ 32 mod 256 * 2 ^ 32 +
    ?m div 2 ^ 24 mod 256 * 2 ^ 24 + ?m div 2 ^ 16 mod 256 * 2 ^ 16 + ?m div 2 ^ 8 mod 256 * 2 ^ 8 + ?m mod 256 = ?m mod 2 ^ 64"
    using horner [of ?m "2 ^ 56"] horner [of ?m "2 ^ 48"] horner [of ?m "2 ^ 40"] horner [of ?m "2 ^ 32"]
      horner [of ?m "2 ^ 24"] horner [of ?m "2 ^ 16"] horner [of ?m "2 ^ 8"] by simp
  moreover have "unat (ucast n :: u_char) = ?m mod 256" by (simp add: unsigned_ucast_eq take_bit_eq_mod)
  ultimately show ?thesis by (simp add: ngx_mp4_set_64value_def get_64_of_nat unat_nth_byte del: of_nat_add of_nat_mult)
qed

lemma length_set [simp]: "length (ngx_mp4_set_32value n) = 4" "length (ngx_mp4_set_64value m) = 8"
  by (simp_all add: ngx_mp4_set_32value_def ngx_mp4_set_64value_def)

section \<open>Tables\<close>

text \<open>A kind of entries: \<open>k\<close> bytes, which \<open>get\<close> reads at the beginning of what follows.\<close>

locale mp4_entries =
  fixes k :: nat and get :: "u_char list \<Rightarrow> 'e" and put :: "'e \<Rightarrow> u_char list"
  assumes length_put: "length (put e) = k"
    and get_put: "get (put e) = e"
begin

lemma entries_put: "table_entries k get (length es) (concat (map put es) @ bs) = es"
proof (induction es)
  case (Cons e es)
  have "table_entries k get (length (e # es)) (concat (map put (e # es)) @ bs) = get (put e) # table_entries k get (length es) (concat (map put es) @ bs)"
    using length_put [of e] by simp
  then show ?case using Cons by (simp add: get_put)
qed simp

lemma read_put:
  assumes "length es < 2 ^ 32" "length flags = 4"
  shows "mp4_read_table k get (flags @ ngx_mp4_set_32value (of_nat (length es)) @ concat (map put es)) =
    Some \<lparr>tb_size = 0, tb_entries = of_nat (length es), tb_data = es\<rparr>"
proof -
  let ?data = "flags @ ngx_mp4_set_32value (of_nat (length es)) @ concat (map put es)"
  have n: "ngx_mp4_get_32value (drop 4 ?data) = of_nat (length es)" using assms(2) get_set_32 by simp
  have u: "unat (of_nat (length es) :: uint32) = length es" using assms(1) by (simp add: unat_of_nat)
  have len: "length (concat (map put es)) = length es * k" by (induction es) (simp_all add: length_put)
  have "drop 8 ?data = concat (map put es)" using assms(2) by simp
  moreover have "table_entries k get (length es) (concat (map put es)) = es" using entries_put [of es "[]"] by simp
  ultimately show ?thesis using assms(2) by (simp only: mp4_read_table_def n u Let_def) (simp add: len)
qed

end

definition put_pair :: "uint32 \<times> uint32 \<Rightarrow> u_char list" where
  "put_pair e = ngx_mp4_set_32value (fst e) @ ngx_mp4_set_32value (snd e)"

definition put_triple :: "uint32 \<times> uint32 \<times> uint32 \<Rightarrow> u_char list" where
  "put_triple e = ngx_mp4_set_32value (fst e) @ ngx_mp4_set_32value (fst (snd e)) @ ngx_mp4_set_32value (snd (snd e))"

lemma get_set_32_alone: "ngx_mp4_get_32value (ngx_mp4_set_32value n) = n"
  using get_set_32 [of n "[]"] by simp

interpretation values32: mp4_entries 4 ngx_mp4_get_32value ngx_mp4_set_32value
  by unfold_locales (simp_all add: get_set_32_alone)

interpretation values64: mp4_entries 8 ngx_mp4_get_64value ngx_mp4_set_64value
  by unfold_locales (simp_all add: get_set_64 [of _ "[]", simplified])

interpretation pairs: mp4_entries 8 get_pair put_pair
  by unfold_locales (simp_all add: get_pair_def put_pair_def get_set_32 get_set_32_alone)

interpretation triples: mp4_entries 12 get_triple put_triple
  by unfold_locales (simp_all add: get_triple_def put_triple_def get_set_32 get_set_32_alone)

text \<open>The sizes of samples: a common size of 0 comes before the number of entries; with another one there is no table.\<close>

lemma read_stsz:
  assumes "length flags = 4" "length zs < 2 ^ 32"
  shows "ngx_http_mp4_read_stsz_atom (flags @ ngx_mp4_set_32value 0 @ ngx_mp4_set_32value (of_nat (length zs)) @ concat (map ngx_mp4_set_32value zs)) t =
    Mp4_Ok (t\<lparr>sample_sizes_entries := of_nat (length zs), stsz_data := Some \<lparr>tb_size = 0, tb_entries = of_nat (length zs), tb_data = zs\<rparr>\<rparr>)"
proof -
  let ?data = "flags @ ngx_mp4_set_32value 0 @ ngx_mp4_set_32value (of_nat (length zs)) @ concat (map ngx_mp4_set_32value zs)"
  have d: "ngx_mp4_get_32value (drop 4 ?data) = 0" "ngx_mp4_get_32value (drop 8 ?data) = of_nat (length zs)"
    "drop 12 ?data = concat (map ngx_mp4_set_32value zs)"
    using assms(1) get_set_32 by simp_all
  have u: "unat (of_nat (length zs) :: uint32) = length zs" using assms(2) by (simp add: unat_of_nat)
  have len: "length ?data = 12 + length zs * 4" using assms(1) by (simp add: length_concat o_def sum_list_triv)
  have "table_entries 4 ngx_mp4_get_32value (length zs) (concat (map ngx_mp4_set_32value zs)) = zs" using values32.entries_put [of zs "[]"] by simp
  then show ?thesis unfolding ngx_http_mp4_read_stsz_atom_def d u len Let_def by simp
qed

lemma read_stsz_common:
  assumes "length flags = 4" "z \<noteq> 0"
  shows "ngx_http_mp4_read_stsz_atom (flags @ ngx_mp4_set_32value z @ ngx_mp4_set_32value n @ rest) t =
    Mp4_Ok (t\<lparr>sample_sizes_entries := n, tk_size := tk_size t + (20 + of_nat (length rest))\<rparr>)"
proof -
  let ?data = "flags @ ngx_mp4_set_32value z @ ngx_mp4_set_32value n @ rest"
  have d: "ngx_mp4_get_32value (drop 4 ?data) = z" "ngx_mp4_get_32value (drop 8 ?data) = n" using assms(1) get_set_32 by simp_all
  have len: "length ?data = 12 + length rest" using assms(1) by simp
  show ?thesis using assms(2) unfolding ngx_http_mp4_read_stsz_atom_def d len Let_def by simp
qed

text \<open>
  C22.  The readers of the seven tables of a track recover every table from its bytes: version and flags, the number of entries, and the
  entries written with the macros that the module uses for its own output.  The sizes of samples have a common size of 0 before the number
  of entries; when it is not 0 the track gets no table, and the whole atom counts for its size.
\<close>

theorem mp4_tables_round_trip:
  assumes "length flags = 4" "length es < 2 ^ 32" "length cs < 2 ^ 32" "length vs < 2 ^ 32" "length os < 2 ^ 32" "z \<noteq> 0"
  shows "ngx_http_mp4_read_stts_atom (flags @ ngx_mp4_set_32value (of_nat (length es)) @ concat (map put_pair es)) t =
      Mp4_Ok (t\<lparr>time_to_sample_entries := of_nat (length es), stts_data := Some \<lparr>tb_size = 0, tb_entries = of_nat (length es), tb_data = es\<rparr>\<rparr>) \<and>
    ngx_http_mp4_read_ctts_atom (flags @ ngx_mp4_set_32value (of_nat (length es)) @ concat (map put_pair es)) t =
      Mp4_Ok (t\<lparr>composition_offset_entries := of_nat (length es), ctts_data := Some \<lparr>tb_size = 0, tb_entries = of_nat (length es), tb_data = es\<rparr>\<rparr>) \<and>
    ngx_http_mp4_read_stsc_atom (flags @ ngx_mp4_set_32value (of_nat (length cs)) @ concat (map put_triple cs)) t =
      Mp4_Ok (t\<lparr>sample_to_chunk_entries := of_nat (length cs), stsc_data := Some \<lparr>tb_size = 0, tb_entries = of_nat (length cs), tb_data = cs\<rparr>\<rparr>) \<and>
    ngx_http_mp4_read_stss_atom (flags @ ngx_mp4_set_32value (of_nat (length vs)) @ concat (map ngx_mp4_set_32value vs)) t =
      Mp4_Ok (t\<lparr>sync_samples_entries := of_nat (length vs), stss_data := Some \<lparr>tb_size = 0, tb_entries = of_nat (length vs), tb_data = vs\<rparr>\<rparr>) \<and>
    ngx_http_mp4_read_stsz_atom (flags @ ngx_mp4_set_32value 0 @ ngx_mp4_set_32value (of_nat (length vs)) @ concat (map ngx_mp4_set_32value vs)) t =
      Mp4_Ok (t\<lparr>sample_sizes_entries := of_nat (length vs), stsz_data := Some \<lparr>tb_size = 0, tb_entries = of_nat (length vs), tb_data = vs\<rparr>\<rparr>) \<and>
    ngx_http_mp4_read_stsz_atom (flags @ ngx_mp4_set_32value z @ ngx_mp4_set_32value n @ rest) t =
      Mp4_Ok (t\<lparr>sample_sizes_entries := n, tk_size := tk_size t + (20 + of_nat (length rest))\<rparr>) \<and>
    ngx_http_mp4_read_stco_atom (flags @ ngx_mp4_set_32value (of_nat (length vs)) @ concat (map ngx_mp4_set_32value vs)) t =
      Mp4_Ok (t\<lparr>chunks := of_nat (length vs), stco_data := Some \<lparr>tb_size = 0, tb_entries = of_nat (length vs), tb_data = vs\<rparr>\<rparr>) \<and>
    ngx_http_mp4_read_co64_atom (flags @ ngx_mp4_set_32value (of_nat (length os)) @ concat (map ngx_mp4_set_64value os)) t =
      Mp4_Ok (t\<lparr>chunks := of_nat (length os), co64_data := Some \<lparr>tb_size = 0, tb_entries = of_nat (length os), tb_data = os\<rparr>\<rparr>)"
  using read_stsz [OF assms(1,4)] read_stsz_common [OF assms(1,6)] assms(1-5)
  by (simp add: ngx_http_mp4_read_stts_atom_def ngx_http_mp4_read_ctts_atom_def ngx_http_mp4_read_stsc_atom_def ngx_http_mp4_read_stss_atom_def
      ngx_http_mp4_read_stco_atom_def ngx_http_mp4_read_co64_atom_def pairs.read_put triples.read_put values32.read_put values64.read_put)

theorem mp4_tables_round_trip_witness:
  "\<forall>t. ngx_http_mp4_read_stsc_atom ([0, 0, 0, 0] @ ngx_mp4_set_32value 2 @ concat (map put_triple [(1, 30, 1), (9, 4, 1)])) t =
      Mp4_Ok (t\<lparr>sample_to_chunk_entries := 2, stsc_data := Some \<lparr>tb_size = 0, tb_entries = 2, tb_data = [(1, 30, 1), (9, 4, 1)]\<rparr>\<rparr>) \<and>
    ngx_http_mp4_read_stsz_atom ([0, 0, 0, 0] @ ngx_mp4_set_32value 0 @ ngx_mp4_set_32value 3 @ concat (map ngx_mp4_set_32value [700, 12, 9])) t =
      Mp4_Ok (t\<lparr>sample_sizes_entries := 3, stsz_data := Some \<lparr>tb_size = 0, tb_entries = 3, tb_data = [700, 12, 9]\<rparr>\<rparr>)"
proof
  fix t :: mp4_trak
  show "ngx_http_mp4_read_stsc_atom ([0, 0, 0, 0] @ ngx_mp4_set_32value 2 @ concat (map put_triple [(1, 30, 1), (9, 4, 1)])) t =
      Mp4_Ok (t\<lparr>sample_to_chunk_entries := 2, stsc_data := Some \<lparr>tb_size = 0, tb_entries = 2, tb_data = [(1, 30, 1), (9, 4, 1)]\<rparr>\<rparr>) \<and>
    ngx_http_mp4_read_stsz_atom ([0, 0, 0, 0] @ ngx_mp4_set_32value 0 @ ngx_mp4_set_32value 3 @ concat (map ngx_mp4_set_32value [700, 12, 9])) t =
      Mp4_Ok (t\<lparr>sample_sizes_entries := 3, stsz_data := Some \<lparr>tb_size = 0, tb_entries = 3, tb_data = [700, 12, 9]\<rparr>\<rparr>)"
    using mp4_tables_round_trip [of "[0, 0, 0, 0]" "[]" "[(1, 30, 1), (9, 4, 1)]" "[700, 12, 9]" "[]" 1 t] by simp
qed

section \<open>Tables that do not fit\<close>

text \<open>A table is read only when all of its entries are in the atom.\<close>

lemma read_table_inside:
  assumes "mp4_read_table k get data = Some tb"
  shows "8 + length (tb_data tb) * k \<le> length data" "length (tb_data tb) = unat (tb_entries tb)"
proof -
  have len: "length (table_entries k get n bs) = n" for n bs by (induction n arbitrary: bs) simp_all
  show "8 + length (tb_data tb) * k \<le> length data" "length (tb_data tb) = unat (tb_entries tb)"
    using assms by (auto simp: mp4_read_table_def Let_def len split: if_splits)
qed

end
