(* ===== verification/Mp4_Seek.thy ===== *)
theory Mp4_Seek
  imports Mp4_Atoms
begin

unbundle bit_operations_syntax

text \<open>
  What cutting the tables of \<open>Mp4_Atoms\<close> means: a table with counts stands for the list of the values of its
  samples, the tables of chunks, offsets and sizes together for the positions of the samples in the file.  After the cut
  they stand for the same values of the samples from the first one on.
\<close>

section \<open>Tables with counts\<close>

definition expand :: "(uint32 \<times> uint32) list \<Rightarrow> nat list" where
  "expand es = concat (map (\<lambda>(c, x). replicate (unat c) (unat x)) es)"

lemma expand_simps [simp]:
  "expand [] = []" "expand ((c, x) # es) = replicate (unat c) (unat x) @ expand es"
  by (simp_all add: expand_def)

text \<open>No product of count and duration wraps, and the samples can be numbered.\<close>

definition stts_fits :: "(uint32 \<times> uint32) list \<Rightarrow> bool" where
  "stts_fits es \<longleftrightarrow> (\<forall>(c, d)\<in>set es. unat c * unat d < 2 ^ 32)"

lemma unat32: "unat (x :: uint32) < 2 ^ 32"
  using unsigned_less [of x, where 'a = nat] by simp

lemma unat_ucast_up [simp]: "unat (ucast (x :: uint32) :: ngx_uint_t) = unat x"
  using unat32 [of x] by (simp add: unsigned_ucast_eq take_bit_nat_eq_self)

lemma word_product: "unat (c :: uint32) * unat (d :: uint32) < 2 ^ 32 \<Longrightarrow> unat (c * d) = unat c * unat d"
  by (simp add: unat_word_ariths)

lemma word_product64: "unat (ucast (c :: uint32) * ucast (d :: uint32) :: ngx_uint_t) = unat c * unat d"
proof -
  have "unat c * unat d < 2 ^ 32 * 2 ^ 32" using unat32 [of c] unat32 [of d] by (intro mult_strict_mono) simp_all
  then show ?thesis by (simp add: unat_word_ariths del: unsigned_ucast_eq)
qed

lemma unat_ucast_down: "unat (x :: ngx_uint_t) < 2 ^ 32 \<Longrightarrow> unat (ucast x :: uint32) = unat x"
  by (simp add: unsigned_ucast_eq take_bit_nat_eq_self)

lemma stts_find_spec:
  assumes "stts_fits es" "unat ss + length (expand es) < 2 ^ 64"
  shows "case stts_find st ss entries es of
      None \<Rightarrow> sum_list (expand es) \<le> unat st
    | Some (ss', entries', es') \<Rightarrow> \<exists>k. unat ss' = unat ss + k \<and> k < length (expand es) \<and> expand es' = drop k (expand es) \<and>
        sum_list (take k (expand es)) \<le> unat st \<and> unat st < sum_list (take (Suc k) (expand es)) \<and>
        entries' = entries - of_nat (length es - length es') \<and> length es' \<le> length es"
  using assms
proof (induction es arbitrary: st ss entries)
  case Nil
  then show ?case by simp
next
  case (Cons e es)
  obtain c d where e: "e = (c, d)" by (cases e)
  let ?n = "unat c" and ?d = "unat d" and ?T = "unat st"
  have fits: "?n * ?d < 2 ^ 32" "stts_fits es" using Cons.prems(1) by (simp_all add: stts_fits_def e)
  show ?case
  proof (cases "?T < ?n * ?d")
    case True
    then have lt: "st < ucast c * ucast d" by (simp add: word_less_nat_alt word_product64)
    define q where "q = ?T div ?d"
    have d0: "0 < ?d" using True by (cases "?d = 0") simp_all
    have q: "q < ?n" using True d0 by (simp add: q_def div_less_iff_less_mult)
    have qu: "unat (st div ucast d) = q" by (simp add: q_def unat_div)
    have "q < 2 ^ 32" using q unat32 [of c] by simp
    then have "unat (ucast (st div ucast d) :: uint32) = q" using qu by (simp add: unat_ucast_down)
    then have "unat (c - ucast (st div ucast d)) = ?n - q" using q by (simp add: unat_sub word_le_nat_alt)
    then have ex: "expand ((c - ucast (st div ucast d), d) # es) = drop q (expand (e # es))" using q by (simp add: e)
    have "unat (ss + st div ucast d) = unat ss + q"
      using Cons.prems(2) q qu by (simp add: e unat_word_ariths)
    moreover have "q * ?d \<le> ?T" "?T < Suc q * ?d" using d0 by (simp_all add: q_def dividend_less_div_times)
    moreover have "take q (expand (e # es)) = replicate q ?d" "take (Suc q) (expand (e # es)) = replicate (Suc q) ?d"
      using q by (simp_all add: e del: replicate.simps)
    ultimately show ?thesis
      using lt q ex by (simp add: e sum_list_replicate del: replicate.simps expand_simps) (simp add: e)
  next
    case False
    then have ge: "\<not> st < ucast c * ucast d" by (simp add: word_less_nat_alt word_product64)
    have T: "unat (st - ucast (c * d)) = ?T - ?n * ?d"
      using False fits(1) by (simp add: unat_sub word_le_nat_alt word_product)
    have ss: "unat (ss + ucast c) = unat ss + ?n" using Cons.prems(2) by (simp add: e unat_word_ariths)
    have "unat (ss + ucast c) + length (expand es) < 2 ^ 64" using Cons.prems(2) ss by (simp add: e)
    note IH = Cons.IH [OF fits(2) this, of "st - ucast (c * d)" "entries - 1"]
    show ?thesis
    proof (cases "stts_find (st - ucast (c * d)) (ss + ucast c) (entries - 1) es")
      case None
      then show ?thesis using IH ge T False by (simp add: e sum_list_replicate)
    next
      case (Some r)
      obtain ss' en' es' where r: "r = (ss', en', es')" by (cases r)
      from IH Some r obtain k where k: "unat ss' = unat ss + ?n + k" "k < length (expand es)" "expand es' = drop k (expand es)"
        "sum_list (take k (expand es)) \<le> ?T - ?n * ?d" "?T - ?n * ?d < sum_list (take (Suc k) (expand es))"
        "en' = entries - 1 - of_nat (length es - length es')" "length es' \<le> length es"
        using ss T by auto
      have "entries - 1 - of_nat (length es - length es') = entries - of_nat (length (e # es) - length es')"
        using k(7) by (simp add: Suc_diff_le)
      moreover have "expand es' = drop (?n + k) (expand (e # es))" "?n + k < length (expand (e # es))" using k(2,3) by (simp_all add: e)
      moreover have "sum_list (take (?n + k) (expand (e # es))) = ?n * ?d + sum_list (take k (expand es))"
        "sum_list (take (Suc (?n + k)) (expand (e # es))) = ?n * ?d + sum_list (take (Suc k) (expand es))"
        by (simp_all add: e sum_list_replicate Suc_diff_le)
      moreover have "stts_find st ss entries (e # es) = Some (ss', en', es')" using Some r ge by (simp add: e)
      moreover have "unat ss' = unat ss + (?n + k)" using k(1) by simp
      moreover have "sum_list (take (?n + k) (expand (e # es))) \<le> ?T" "?T < sum_list (take (Suc (?n + k)) (expand (e # es)))"
        using calculation(4,5) k(4,5) False by linarith+
      ultimately show ?thesis using k(6,7) by (simp only: option.case prod.case) (metis le_SucI length_Cons)
    qed
  qed
qed

lemma ctts_find_spec:
  assumes "unat ss = Suc s"
  shows "case ctts_find ss entries es of
      None \<Rightarrow> length (expand es) \<le> s
    | Some (entries', es') \<Rightarrow> s < length (expand es) \<and> expand es' = drop s (expand es) \<and>
        entries' = entries - of_nat (length es - length es') \<and> length es' \<le> length es"
  using assms
proof (induction es arbitrary: ss s entries)
  case Nil
  then show ?case by simp
next
  case (Cons e es)
  obtain c x where e: "e = (c, x)" by (cases e)
  show ?case
  proof (cases "Suc s \<le> unat c")
    case True
    have "1 \<le> ss" using Cons.prems by (simp add: word_le_nat_alt)
    then have m: "unat (ss - 1) = s" using Cons.prems by (simp add: unat_sub)
    then have "unat (c - (ss - 1)) = unat c - s" using True by (simp add: unat_sub word_le_nat_alt)
    then show ?thesis using True Cons.prems by (simp add: e word_le_nat_alt)
  next
    case False
    then have n: "unat (ss - c) = Suc (s - unat c)" using Cons.prems by (simp add: unat_sub word_le_nat_alt)
    note IH = Cons.IH [OF this, of "entries - 1"]
    have c: "unat c \<le> s" "\<not> ss \<le> c" using False Cons.prems by (simp_all add: word_le_nat_alt)
    show ?thesis
    proof (cases "ctts_find (ss - c) (entries - 1) es")
      case None
      then show ?thesis using IH c by (simp add: e)
    next
      case (Some r)
      obtain en' es' where r: "r = (en', es')" by (cases r)
      have k: "s - unat c < length (expand es)" "expand es' = drop (s - unat c) (expand es)"
        "en' = entries - 1 - of_nat (length es - length es')" "length es' \<le> length es" using IH Some r by simp_all
      have "entries - 1 - of_nat (length es - length es') = entries - of_nat (length (e # es) - length es')"
        using k(4) by (simp add: Suc_diff_le)
      then show ?thesis using Some r c k by (simp add: e less_diff_conv2)
    qed
  qed
qed

section \<open>Sync samples\<close>

lemma stss_find_spec:
  "case stss_find ss entries es of
      None \<Rightarrow> (\<forall>x\<in>set es. x < ss)
    | Some (entries', es') \<Rightarrow> es' = dropWhile (\<lambda>x. x < ss) es \<and> es' \<noteq> [] \<and> entries' = entries - of_nat (length es - length es')"
proof (induction ss entries es rule: stss_find.induct)
  case (2 ss entries x es)
  show ?case
  proof (cases "ss \<le> x")
    case False
    show ?thesis
    proof (cases "stss_find ss (entries - 1) es")
      case None
      then show ?thesis using 2 False by (auto simp: not_le)
    next
      case (Some r)
      obtain en' es' where r: "r = (en', es')" by (cases r)
      have "es' = dropWhile (\<lambda>x. x < ss) es \<and> es' \<noteq> [] \<and> en' = entries - 1 - of_nat (length es - length es')"
        using 2 [OF False] unfolding Some r option.case prod.case .
      then have k: "es' = dropWhile (\<lambda>x. x < ss) es" "es' \<noteq> []" "en' = entries - 1 - of_nat (length es - length es')" by blast+
      have "length es' \<le> length es" by (simp add: k(1) length_dropWhile_le)
      then have "entries - 1 - of_nat (length es - length es') = entries - of_nat (length (x # es) - length es')" by (simp add: Suc_diff_le)
      then show ?thesis using Some r k False by (simp add: not_le)
    qed
  qed (simp add: not_less)
qed simp

lemma dropWhile_sorted: "sorted xs \<Longrightarrow> dropWhile (\<lambda>x. x < a) xs = filter (\<lambda>x. a \<le> x) xs"
proof (induction xs)
  case (Cons x xs)
  show ?case
  proof (cases "x < a")
    case False
    then have "filter ((\<le>) a) (x # xs) = x # xs" using Cons.prems by (intro filter_True) auto
    then show ?thesis using False by simp
  qed (use Cons in simp)
qed simp

section \<open>Chunks\<close>

text \<open>
  The number of samples in each of the chunks: an entry speaks for the chunks from its own to the one before the
  next entry, the last entry for those up to the last chunk.
\<close>

fun counts :: "nat \<Rightarrow> (uint32 \<times> uint32 \<times> uint32) list \<Rightarrow> nat list" where
  "counts nch [] = []"
| "counts nch [(c, s, i)] = replicate (Suc nch - unat c) (unat s)"
| "counts nch ((c, s, i) # (c', s', i') # es) = replicate (unat c' - unat c) (unat s) @ counts nch ((c', s', i') # es)"

fun ascending :: "nat \<Rightarrow> (uint32 \<times> uint32 \<times> uint32) list \<Rightarrow> bool" where
  "ascending nch [] = False"
| "ascending nch [(c, s, i)] = (unat c \<le> nch)"
| "ascending nch ((c, s, i) # (c', s', i') # es) = (unat c \<le> unat c' \<and> ascending nch ((c', s', i') # es))"

lemma ascending_le: "ascending nch ((c, s, i) # es) \<Longrightarrow> unat c \<le> nch"
proof (induction es arbitrary: c s i)
  case (Cons e es)
  obtain c' s' i' where e: "e = (c', s', i')" by (cases e)
  then show ?case using Cons.prems Cons.IH [of c' s' i'] by simp
qed simp

lemma length_counts: "ascending nch ((c, s, i) # es) \<Longrightarrow> length (counts nch ((c, s, i) # es)) = Suc nch - unat c"
proof (induction es arbitrary: c s i)
  case (Cons e es)
  obtain c' s' i' where e: "e = (c', s', i')" by (cases e)
  have "unat c' \<le> nch" using Cons.prems ascending_le [of nch c' s' i' es] by (simp add: e)
  then show ?case using Cons by (simp add: e)
qed simp

text \<open>Counting from \<open>j\<close> chunks later.\<close>

lemma counts_shift:
  assumes "ascending nch ((c, s, i) # es)" "j < unat c"
  shows "counts (nch - j) (map (\<lambda>(c, s, i). (c - of_nat j, s, i)) ((c, s, i) # es)) = counts nch ((c, s, i) # es)"
  using assms
proof (induction es arbitrary: c s i)
  case Nil
  have "unat (c - of_nat j) = unat c - j" if "j < unat c" for c :: uint32
    using that unat32 [of c] by (simp add: unat_sub word_le_nat_alt unat_of_nat)
  then show ?case using Nil by simp
next
  case (Cons e es)
  obtain c' s' i' where e: "e = (c', s', i')" by (cases e)
  have u: "unat (c - of_nat j) = unat c - j" if "j < unat c" for c :: uint32
    using that unat32 [of c] by (simp add: unat_sub word_le_nat_alt unat_of_nat)
  have "j < unat c'" using Cons.prems by (simp add: e)
  then show ?case using Cons u [of c] u [of c'] by (simp add: e)
qed

text \<open>
  What the loop finds: the chunks and samples of the entries before the one found lie before the first sample; the entry
  found speaks for chunks up to \<open>nxt\<close>, and the rest of the samples is in them.
\<close>

lemma stsc_find_spec:
  assumes "ascending nch (e # es)" "nch < 2 ^ 32" "sum_list (counts nch (e # es)) < 2 ^ 32"
    and "stsc_find ss entries e es (of_nat nch) = Some (ss', nxt, entries', (c, s, i), es')"
  shows "\<exists>pre. counts nch (e # es) = pre @ counts nch ((c, s, i) # es') \<and> length pre = unat c - unat (fst e) \<and>
    unat (fst e) \<le> unat c \<and> unat ss = sum_list pre + unat ss' \<and> ascending nch ((c, s, i) # es') \<and>
    unat ss' \<le> (unat nxt - unat c) * unat s \<and> nxt = (case es' of [] \<Rightarrow> of_nat nch | (c', _) # _ \<Rightarrow> c') \<and>
    entries' = entries - of_nat (length es - length es') \<and> length es' \<le> length es \<and> last (e # es) = last ((c, s, i) # es')"
  using assms
proof (induction ss entries e es "of_nat nch :: uint32" rule: stsc_find.induct)
  case (1 ss entries chunk samples i0)
  have le: "unat chunk \<le> nch" using 1 by simp
  have n: "unat (of_nat nch :: uint32) = nch" using 1(2) by (simp add: unat_of_nat)
  have "(nch - unat chunk) * unat samples \<le> (Suc nch - unat chunk) * unat samples" by (intro mult_right_mono) simp_all
  moreover have "(Suc nch - unat chunk) * unat samples < 2 ^ 32" using 1(3) by (simp add: sum_list_replicate)
  ultimately have "(nch - unat chunk) * unat samples < 2 ^ 32" by (rule le_less_trans)
  then have "unat ((of_nat nch - chunk) * samples) = (nch - unat chunk) * unat samples"
    using le n by (simp add: unat_word_ariths unat_sub word_le_nat_alt)
  then show ?case using 1 n by (auto simp: word_le_nat_alt not_less split: if_splits)
next
  case (2 ss entries chunk samples i0 e es)
  obtain c1 s1 i1 where e: "e = (c1, s1, i1)" by (cases e)
  have le: "unat chunk \<le> unat c1" and asc: "ascending nch (e # es)" using 2(2) by (simp_all add: e)
  have cts: "counts nch ((chunk, samples, i0) # e # es) = replicate (unat c1 - unat chunk) (unat samples) @ counts nch (e # es)"
    by (simp add: e)
  have sm: "(unat c1 - unat chunk) * unat samples < 2 ^ 32" "sum_list (counts nch (e # es)) < 2 ^ 32"
    using 2(4) unfolding cts by (simp_all add: sum_list_replicate)
  then have n: "unat ((c1 - chunk) * samples) = (unat c1 - unat chunk) * unat samples"
    using le by (simp add: unat_word_ariths unat_sub word_le_nat_alt)
  show ?case
  proof (cases "ss \<le> (c1 - chunk) * samples")
    case True
    then show ?thesis using 2(2,5) n by (auto simp: e word_le_nat_alt)
  next
    case False
    let ?n = "(c1 - chunk) * samples"
    have f: "stsc_find (ss - ?n) (entries - 1) e es (of_nat nch) = Some (ss', nxt, entries', (c, s, i), es')"
      using 2(5) False by (simp add: e Let_def)
    have "fst e = c1" by (simp add: e)
    from 2(1) [OF refl refl _ asc 2(3) sm(2)] False f this obtain pre where
      pre: "counts nch (e # es) = pre @ counts nch ((c, s, i) # es')" "length pre = unat c - unat c1" "unat c1 \<le> unat c"
      "unat (ss - ?n) = sum_list pre + unat ss'" "ascending nch ((c, s, i) # es')" "unat ss' \<le> (unat nxt - unat c) * unat s"
      "nxt = (case es' of [] \<Rightarrow> of_nat nch | (c', _) # _ \<Rightarrow> c')" "entries' = entries - 1 - of_nat (length es - length es')" "length es' \<le> length es"
      "last (e # es) = last ((c, s, i) # es')"
      by auto
    have "unat ss = (unat c1 - unat chunk) * unat samples + unat (ss - ?n)"
      using False n by (simp add: unat_sub word_le_nat_alt)
    moreover have "entries - 1 - of_nat (length es - length es') = entries - of_nat (length (e # es) - length es')"
      using pre(9) by (simp add: Suc_diff_le)
    ultimately show ?thesis
      using pre le cts by (intro exI [of _ "replicate (unat c1 - unat chunk) (unat samples) @ pre"]) (simp add: sum_list_replicate)
  qed
qed

definition first_entries :: "mp4_trak \<Rightarrow> (uint32 \<times> uint32 \<times> uint32) list" where
  "first_entries t = (case stsc_chunk t of None \<Rightarrow> [] | Some e \<Rightarrow> [e])"

text \<open>The new table, from an entry for chunks from \<open>c\<close> on and the entries behind it, \<open>q\<close> chunks and \<open>m\<close> samples further.\<close>

lemma cut_counts:
  fixes c s :: uint32 and q m nch :: nat and es :: "(uint32 \<times> uint32 \<times> uint32) list"
  defines "sc \<equiv> unat c - 1 + q" and "nxt \<equiv> (case es of [] \<Rightarrow> nch | (c', _) # _ \<Rightarrow> unat c')"
  assumes asc: "ascending nch ((c, s, i) # es)" and c: "0 < unat c" and m: "m < unat s" and le: "q * unat s + m \<le> (nxt - unat c) * unat s"
    and sm: "unat sm = unat s - m"
    and shape: "tab = (if m \<noteq> 0 \<and> nxt - sc = 2 then [(1, sm, i)] else if m \<noteq> 0 then [(1, sm, i), (2, s, i)] else [(1, s, i)])"
  shows "sc < nch" "sc < nxt" "m \<le> counts nch ((c, s, i) # es) ! q" "sum_list (take q (counts nch ((c, s, i) # es))) = q * unat s"
    "m = 0 \<or> sc + 2 \<noteq> nch \<or> es \<noteq> [] \<Longrightarrow> counts (nch - sc) (tab @ map (\<lambda>(c, s, i). (c - of_nat sc, s, i)) es) =
      (counts nch ((c, s, i) # es) ! q - m) # drop (Suc q) (counts nch ((c, s, i) # es))"
proof -
  let ?C = "counts nch ((c, s, i) # es)"
  have nxt_le: "nxt \<le> nch" "unat c \<le> nxt"
    using asc ascending_le ascending_le [OF asc] by (auto simp: nxt_def split: list.splits)
  have q: "q \<le> nxt - unat c" "m \<noteq> 0 \<Longrightarrow> q < nxt - unat c"
  proof -
    have "q * unat s \<le> (nxt - unat c) * unat s" using le by linarith
    then show "q \<le> nxt - unat c" using m by simp
    assume "m \<noteq> 0"
    then have "q * unat s < (nxt - unat c) * unat s" using le by linarith
    then show "q < nxt - unat c" using m by simp
  qed
  show sc: "sc < nch" "sc < nxt" using q(1) nxt_le c by (auto simp: sc_def)
  obtain L D where LD: "?C = replicate L (unat s) @ D" "q \<le> L" "m \<noteq> 0 \<Longrightarrow> q < L"
    "es = [] \<Longrightarrow> L = Suc nch - unat c \<and> D = []" "es \<noteq> [] \<Longrightarrow> L = nxt - unat c \<and> D = counts nch es"
  proof (cases es)
    case Nil
    then show thesis using that [of "Suc nch - unat c" "[]"] q nxt_le by (auto simp: nxt_def)
  next
    case (Cons e es1)
    obtain c1 s1 i1 where "e = (c1, s1, i1)" by (cases e)
    then show thesis using that [of "nxt - unat c" "counts nch es"] q Cons by (auto simp: nxt_def)
  qed
  show "sum_list (take q ?C) = q * unat s" using LD by (simp add: sum_list_replicate)
  show "m \<le> ?C ! q" using LD(1,3) m by (cases "m = 0") (simp_all add: nth_append)
  have len: "length ?C = Suc nch - unat c" using length_counts [OF asc] .
  then have "q < length ?C" using sc c nxt_le by (simp add: sc_def)
  then have dq: "?C ! q # drop (Suc q) ?C = drop q ?C" by (rule Cons_nth_drop_Suc)
  have lt: "unat (c1 - of_nat sc) = unat c1 - sc \<and> sc < unat c1" if "es = (c1, s1, i1) # es1" for c1 s1 i1 es1
  proof -
    have "sc < unat c1" using that q(1) c nxt_le by (simp add: sc_def nxt_def)
    then show ?thesis using unat32 [of c1] by (simp add: unat_sub word_le_nat_alt unat_of_nat)
  qed
  have shift: "counts (nch - sc) (map (\<lambda>(c, s, i). (c - of_nat sc, s, i)) es) = D" if "es \<noteq> []"
  proof -
    obtain c1 s1 i1 es1 where es: "es = (c1, s1, i1) # es1" using \<open>es \<noteq> []\<close> by (metis neq_Nil_conv prod_cases3)
    have "ascending nch ((c1, s1, i1) # es1)" using asc by (simp add: es)
    then show ?thesis using counts_shift [of nch c1 s1 i1 es1 sc] lt [OF es] LD(5) that by (simp add: es)
  qed
  have two: "unat (2 :: uint32) = 2" by simp
  assume last: "m = 0 \<or> sc + 2 \<noteq> nch \<or> es \<noteq> []"
  show "counts (nch - sc) (tab @ map (\<lambda>(c, s, i). (c - of_nat sc, s, i)) es) = (?C ! q - m) # drop (Suc q) ?C"
  proof (cases "m = 0")
    case True
    then have tab: "tab = [(1, s, i)]" using shape by simp
    show ?thesis
    proof (cases es)
      case Nil
      have "L - q = nch - sc" using LD(4) Nil c sc by (simp add: sc_def)
      then show ?thesis using Nil tab True LD(1,4) dq by simp
    next
      case (Cons e es1)
      obtain c1 s1 i1 where e: "e = (c1, s1, i1)" by (cases e)
      have "L - q = unat c1 - sc - 1" using LD(5) Cons e c by (simp add: sc_def nxt_def)
      then show ?thesis using Cons e tab True LD(1,2) dq shift lt [of c1 s1 i1 es1] by simp
    qed
  next
    case False
    have Cq: "?C ! q = unat s" "drop (Suc q) ?C = replicate (L - Suc q) (unat s) @ D" using LD(1,3) False by (simp_all add: nth_append)
    show ?thesis
    proof (cases es)
      case Nil
      then have "nxt = nch" by (simp add: nxt_def)
      then have "\<not> nxt - sc = 2" using last False Nil by auto
      then have tab: "tab = [(1, sm, i), (2, s, i)]" using shape False by simp
      have "L - Suc q = nch - sc - 1" using LD(4) Nil c sc by (simp add: sc_def)
      then show ?thesis using Nil tab Cq LD(4) sm two by simp
    next
      case (Cons e es1)
      obtain c1 s1 i1 where e: "e = (c1, s1, i1)" by (cases e)
      have nx: "nxt = unat c1" by (simp add: nxt_def Cons e)
      have L: "L - Suc q = unat c1 - sc - 2" using LD(5) Cons nx c by (simp add: sc_def)
      have "sc + 2 \<le> unat c1" using q(2) False c nx by (simp add: sc_def)
      then show ?thesis
        using Cons e shape Cq L sm two shift lt [of c1 s1 i1 es1] nx False by (cases "unat c1 - sc = 2") (auto simp: numeral_2_eq_2)
    qed
  qed
qed

definition stsc_ok :: "mp4_trak \<Rightarrow> bool" where
  "stsc_ok t \<longleftrightarrow>
     (\<exists>tb i s es. stsc_data t = Some tb \<and> tb_data tb = (1, s, i) # es \<and> ascending (unat (chunks t)) (tb_data tb) \<and>
        sum_list (counts (unat (chunks t)) (tb_data tb)) < 2 ^ 32 \<and> sample_to_chunk_entries t = of_nat (length (tb_data tb)) \<and>
        length (tb_data tb) < 2 ^ 32 - 1)"

definition stsc_table :: "mp4_trak \<Rightarrow> (uint32 \<times> uint32 \<times> uint32) list" where
  "stsc_table t = tb_data (the (stsc_data t))"

text \<open>
  The last chunk but one, when its entry is the last one of the table: the code takes it for the last chunk of
  its entry, because it ends the last entry at chunk \<open>chunks\<close> and not behind it.
\<close>

definition before_last_chunk :: "mp4_trak \<Rightarrow> mp4_trak \<Rightarrow> bool" where
  "before_last_chunk t t' \<longleftrightarrow>
     chunk_samples t' \<noteq> 0 \<and> unat (start_chunk t') + 2 = unat (chunks t) \<and> unat (fst (last (stsc_table t))) \<noteq> unat (chunks t)"

lemma update_stsc_spec:
  assumes ok: "stsc_ok t" and ss: "unat (start_sample t) < 2 ^ 32" and u: "ngx_http_mp4_update_stsc_atom t = Mp4_Ok t'"
  defines "cts \<equiv> counts (unat (chunks t)) (stsc_table t)" and "sc \<equiv> unat (start_chunk t')" and "cs \<equiv> unat (chunk_samples t')"
  shows "sc < unat (chunks t)" "cs \<le> cts ! sc" "unat (start_sample t) = sum_list (take sc cts) + cs"
    "\<not> before_last_chunk t t' \<Longrightarrow> counts (unat (chunks t) - sc) (first_entries t' @ stsc_table t') = (cts ! sc - cs) # drop (Suc sc) cts"
proof -
  obtain tb i0 s0 es0 where tb: "stsc_data t = Some tb" "tb_data tb = (1, s0, i0) # es0" "ascending (unat (chunks t)) (tb_data tb)"
    "sum_list (counts (unat (chunks t)) (tb_data tb)) < 2 ^ 32" using ok by (auto simp: stsc_ok_def)
  let ?nch = "unat (chunks t)"
  obtain ss' nxt en c s i es where f: "stsc_find (ucast (start_sample t)) (sample_to_chunk_entries t - 1) (1, s0, i0) es0 (chunks t) =
      Some (ss', nxt, en, (c, s, i), es)" and s0: "s \<noteq> 0"
    using u tb(1,2) by (auto simp: ngx_http_mp4_update_stsc_atom_def split: if_splits option.splits)
  have nch: "of_nat ?nch = chunks t" "?nch < 2 ^ 32" using unat32 [of "chunks t"] by simp_all
  have f': "stsc_find (ucast (start_sample t)) (sample_to_chunk_entries t - 1) (1, s0, i0) es0 (of_nat ?nch) =
      Some (ss', nxt, en, (c, s, i), es)" using f by simp
  obtain pre where pre: "counts ?nch (tb_data tb) = pre @ counts ?nch ((c, s, i) # es)" "length pre = unat c - 1" "1 \<le> unat c"
    "unat (start_sample t) = sum_list pre + unat ss'" "ascending ?nch ((c, s, i) # es)" "unat ss' \<le> (unat nxt - unat c) * unat s"
    "nxt = (case es of [] \<Rightarrow> chunks t | (c', _) # _ \<Rightarrow> c')" "last (tb_data tb) = last ((c, s, i) # es)"
    using stsc_find_spec [OF tb(3) [unfolded tb(2)] nch(2) tb(4) [unfolded tb(2)] f']
    unfolding tb(2) fst_conv unat_1 nch(1) unat_ucast_down [OF ss] by blast
  define q m where "q = unat ss' div unat s" and "m = unat ss' mod unat s"
  have spos: "0 < unat s" using s0 by (simp add: unat_gt_0)
  have nx: "unat nxt = (case es of [] \<Rightarrow> ?nch | (c', _) # _ \<Rightarrow> unat c')" using pre(7) by (auto split: list.splits)
  let ?sc = "ucast (c - 1) + ucast (ss' div s) :: ngx_uint_t"
  have c1: "unat (c - 1) = unat c - 1" using pre(3) by (simp add: unat_sub word_le_nat_alt)
  have scu: "unat ?sc = unat c - 1 + q"
  proof -
    have "q \<le> unat ss'" by (simp add: q_def)
    then have "unat c - 1 + q < 2 ^ 32 + 2 ^ 32" using unat32 [of c] unat32 [of ss'] by linarith
    then have "unat c - 1 + q < 2 ^ 64" by simp
    moreover have "unat (ss' div s) = q" by (simp add: q_def unat_div)
    ultimately show ?thesis using c1 by (simp add: unat_word_ariths(1))
  qed
  have csu: "unat (ucast (ss' mod s) :: ngx_uint_t) = m" by (simp add: m_def unat_mod)
  have smu: "unat (ucast (ucast s - ucast (ss' mod s) :: ngx_uint_t) :: uint32) = unat s - m"
  proof -
    have "unat (ucast s - ucast (ss' mod s) :: ngx_uint_t) = unat s - m"
      using csu spos by (simp add: unat_sub word_le_nat_alt m_def order.strict_implies_order)
    moreover have "unat s - m < 2 ^ 32" using unat32 [of s] by simp
    ultimately show ?thesis by (simp add: unat_ucast_down)
  qed
  have t': "start_chunk t' = ?sc" "chunk_samples t' = ucast (ss' mod s)"
    using u tb(1,2) f s0 by (auto simp: ngx_http_mp4_update_stsc_atom_def Let_def split: if_splits)
  have sc: "sc = unat c - 1 + q" and cs: "cs = m" using t' scu csu by (simp_all add: sc_def cs_def)
  have cts: "cts = pre @ counts ?nch ((c, s, i) # es)" using pre(1) tb(1) by (simp add: cts_def stsc_table_def)
  have qm: "q * unat s + m = unat ss'" "m < unat s" using spos by (simp_all add: q_def m_def)
  have len: "length (counts ?nch ((c, s, i) # es)) = Suc ?nch - unat c" using length_counts [OF pre(5)] .
  have take: "take sc cts = pre @ take q (counts ?nch ((c, s, i) # es))" using pre(2) by (simp add: cts sc)
  have nth: "cts ! sc = counts ?nch ((c, s, i) # es) ! q" "drop (Suc sc) cts = drop (Suc q) (counts ?nch ((c, s, i) # es))"
    using pre(2) by (simp_all add: cts sc nth_append)
  let ?sm = "ucast (ucast s - ucast (ss' mod s) :: ngx_uint_t) :: uint32"
  let ?tab = "if m \<noteq> 0 \<and> (case es of [] \<Rightarrow> ?nch | (c', _) # _ \<Rightarrow> unat c') - sc = 2 then [(1, ?sm, i)]
      else if m \<noteq> 0 then [(1, ?sm, i), (2, s, i)] else [(1, s, i)]"
  have c0: "0 < unat c" using pre(3) by simp
  have le: "q * unat s + m \<le> ((case es of [] \<Rightarrow> ?nch | (c', _) # _ \<Rightarrow> unat c') - unat c) * unat s"
    using pre(6) unfolding qm(1) nx by simp
  note cut = cut_counts [where c = c and s = s and i = i and es = es and nch = ?nch and q = q and m = m and sm = ?sm and tab = ?tab,
      folded sc, OF pre(5) c0 qm(2) le smu refl]
  show "sc < ?nch" by (rule cut(1))
  show "cs \<le> cts ! sc" using cut(3) by (simp add: nth cs)
  show "unat (start_sample t) = sum_list (take sc cts) + cs" using pre(4) cut(4) qm(1) by (simp add: take cs)
  assume nb: "\<not> before_last_chunk t t'"
  have "m = 0 \<or> sc + 2 \<noteq> ?nch \<or> es \<noteq> []"
  proof (rule ccontr)
    assume "\<not> ?thesis"
    then have b: "m \<noteq> 0" "sc + 2 = ?nch" "es = []" by auto
    then have "fst (last (stsc_table t)) = c" using pre(8) tb(1) by (simp add: stsc_table_def)
    then have "unat c = ?nch" using nb b cs by (auto simp: before_last_chunk_def sc_def cs_def)
    then show False using b(2) sc by simp
  qed
  note new = cut(5) [OF this]
  have "ucast nxt - ?sc = 2 \<longleftrightarrow> unat nxt - sc = 2"
  proof -
    have "?sc \<le> ucast nxt" using cut(2) scu sc nx by (simp add: word_le_nat_alt)
    then have "unat (ucast nxt - ?sc) = unat nxt - sc" using scu sc by (simp add: unat_sub)
    then show ?thesis by (simp add: word_unat_eq_iff)
  qed
  moreover have "(ucast (ss' mod s) :: ngx_uint_t) \<noteq> 0 \<longleftrightarrow> m \<noteq> 0" using csu by (metis unat_0 unat_eq_0)
  moreover have "(ucast ?sc :: uint32) = of_nat sc" using scu sc by (metis of_nat_unat)
  ultimately have "first_entries t' @ stsc_table t' = ?tab @ map (\<lambda>(c, s, i). (c - of_nat sc, s, i)) es"
    using u tb(1,2) f s0 nx by (auto simp: ngx_http_mp4_update_stsc_atom_def Let_def first_entries_def stsc_table_def split: if_splits)
  then show "counts (?nch - sc) (first_entries t' @ stsc_table t') = (cts ! sc - cs) # drop (Suc sc) cts"
    using new by (simp add: nth cs)
qed

end
