(* ===== verification/Mp4_Track.thy ===== *)
theory Mp4_Track
  imports Mp4_Seek
begin

unbundle bit_operations_syntax

text \<open>
  The cut of a whole track: with the tables of \<open>Mp4_Seek\<close> cut by the operations of \<open>Mp4_Atoms\<close>, the track describes exactly the
  samples from the one that plays at the start time on, with their durations, sizes and positions in the file; and what the
  server sends holds the bytes of these samples where the sent tables say.
\<close>

section \<open>Positions of samples\<close>

text \<open>The samples of a chunk follow each other; chunks are filled with the sizes in order.\<close>

fun offsets :: "nat \<Rightarrow> nat list \<Rightarrow> nat list" where
  "offsets pos [] = []"
| "offsets pos (sz # szs) = pos # offsets (pos + sz) szs"

fun layout :: "nat list \<Rightarrow> nat list \<Rightarrow> nat list \<Rightarrow> nat list" where
  "layout (n # ns) (pos # ps) szs = offsets pos (take n szs) @ layout ns ps (drop n szs)"
| "layout ns ps szs = []"

lemma length_offsets [simp]: "length (offsets pos szs) = length szs"
  by (induction pos szs rule: offsets.induct) simp_all

lemma drop_offsets: "k \<le> length szs \<Longrightarrow> drop k (offsets pos szs) = offsets (pos + sum_list (take k szs)) (drop k szs)"
proof (induction k arbitrary: pos szs)
  case (Suc k)
  then show ?case by (cases szs) (simp_all add: add.assoc)
qed simp

text \<open>Leaving out chunks and then samples of a chunk leaves the positions of the rest.\<close>

lemma layout_cut:
  assumes "k < length ns" "k < length ps" "c \<le> ns ! k" "sum_list (take (Suc k) ns) \<le> length szs"
  shows "layout ((ns ! k - c) # drop (Suc k) ns)
      ((ps ! k + sum_list (take c (drop (sum_list (take k ns)) szs))) # drop (Suc k) ps) (drop (sum_list (take k ns) + c) szs) =
    drop (sum_list (take k ns) + c) (layout ns ps szs)"
  using assms
proof (induction k arbitrary: ns ps szs)
  case 0
  obtain n ns' p ps' where ns: "ns = n # ns'" "ps = p # ps'" using 0 by (cases ns; cases ps) auto
  have c: "c \<le> n" "n \<le> length szs" using 0 by (simp_all add: ns)
  have "take (n - c) (drop c szs) = drop c (take n szs)" by (simp add: drop_take)
  moreover have "drop (n - c) (drop c szs) = drop n szs" using c by simp
  moreover have "drop c (offsets p (take n szs)) = offsets (p + sum_list (take c szs)) (drop c (take n szs))"
    using c drop_offsets [of c "take n szs" p] by (simp add: min_absorb1)
  ultimately show ?case using c by (simp add: ns)
next
  case (Suc k)
  obtain n ns' p ps' where ns: "ns = n # ns'" "ps = p # ps'" using Suc.prems by (cases ns; cases ps) auto
  have n: "n \<le> length szs" "sum_list (take (Suc k) ns') \<le> length szs - n" using Suc.prems by (simp_all add: ns)
  have "layout ((ns' ! k - c) # drop (Suc k) ns')
      ((ps' ! k + sum_list (take c (drop (sum_list (take k ns')) (drop n szs)))) # drop (Suc k) ps') (drop (sum_list (take k ns') + c) (drop n szs)) =
    drop (sum_list (take k ns') + c) (layout ns' ps' (drop n szs))"
    using Suc.prems n by (intro Suc.IH) (simp_all add: ns)
  moreover have "drop (n + sum_list (take k ns') + c) (offsets p (take n szs)) = []" using n by simp
  ultimately show ?case using n by (simp add: ns add.assoc add.commute [of n])
qed

section \<open>Tracks\<close>

definition durations :: "mp4_trak \<Rightarrow> nat list" where
  "durations t = expand (tb_data (the (stts_data t)))"

definition sizes :: "mp4_trak \<Rightarrow> nat list" where
  "sizes t = map unat (tb_data (the (stsz_data t)))"

definition chunk_offsets :: "mp4_trak \<Rightarrow> nat list" where
  "chunk_offsets t =
     (case co64_data t of Some tb \<Rightarrow> map unat (tb_data tb) | None \<Rightarrow> map unat (tb_data (the (stco_data t))))"

definition chunk_counts :: "mp4_trak \<Rightarrow> nat list" where
  "chunk_counts t = counts (length (chunk_offsets t)) (first_entries t @ stsc_table t)"

definition positions :: "mp4_trak \<Rightarrow> nat list" where
  "positions t = layout (chunk_counts t) (chunk_offsets t) (sizes t)"

text \<open>Where chunk \<open>k\<close>, counted from 0, ends in the file.\<close>

definition chunk_end :: "mp4_trak \<Rightarrow> nat \<Rightarrow> nat" where
  "chunk_end t k =
     chunk_offsets t ! k + sum_list (take (chunk_counts t ! k) (drop (sum_list (take k (chunk_counts t))) (sizes t)))"

text \<open>
  A consistent track: the tables are there and agree on the number of samples and chunks, no product in the
  times wraps, and the chunks end where offsets of the kind of table can still reach.
\<close>

definition trak_ok :: "mp4_trak \<Rightarrow> bool" where
  "trak_ok t \<longleftrightarrow>
     stts_data t \<noteq> None \<and> stts_fits (tb_data (the (stts_data t))) \<and> stsz_data t \<noteq> None \<and> stsc_ok t \<and> stsc_chunk t = None \<and>
     (co64_data t = None \<longrightarrow> stco_data t \<noteq> None) \<and> chunk_samples_size t = 0 \<and>
     length (durations t) = length (sizes t) \<and> sum_list (chunk_counts t) = length (sizes t) \<and>
     length (sizes t) = unat (sample_sizes_entries t) \<and> length (chunk_offsets t) = unat (chunks t) \<and>
     (\<forall>k<length (chunk_offsets t). chunk_end t k < (if co64_data t = None then 2 ^ 32 else 2 ^ 64))"

lemma bind_Ok: "mp4_bind x f = Mp4_Ok y \<longleftrightarrow> (\<exists>z. x = Mp4_Ok z \<and> f z = Mp4_Ok y)"
  by (cases x) simp_all

lemma bind_Outside: "mp4_bind x f = Mp4_Outside \<longleftrightarrow> x = Mp4_Outside \<or> (\<exists>z. x = Mp4_Ok z \<and> f z = Mp4_Outside)"
  by (cases x) simp_all

section \<open>The steps\<close>

text \<open>What each step leaves of the other tables.\<close>

lemma stts_step:
  assumes "ngx_http_mp4_update_stts_atom start t = Mp4_Ok t1"
  obtains ss en es sz tb where "stts_find (start * ucast (timescale t) div 1000) 0 (time_to_sample_entries t) (tb_data (the (stts_data t))) = Some (ss, en, es)"
    "t1 = t\<lparr>start_sample := ss, tk_size := sz, stts_data := Some tb\<rparr>" "tb_data tb = es"
  using assms by (auto simp: ngx_http_mp4_update_stts_atom_def Let_def split: option.splits)

lemma stss_step:
  assumes "ngx_http_mp4_update_stss_atom t = Mp4_Ok t1"
  obtains sz d where "t1 = t\<lparr>tk_size := sz, stss_data := d\<rparr>"
proof (cases "stss_data t")
  case None
  then have "t1 = t\<lparr>tk_size := tk_size t, stss_data := stss_data t\<rparr>" using assms by (simp add: ngx_http_mp4_update_stss_atom_def)
  then show thesis by (rule that)
next
  case (Some tb)
  then show thesis using assms that by (auto simp: ngx_http_mp4_update_stss_atom_def Let_def split: option.splits)
qed

lemma ctts_step: "\<exists>sz d. ngx_http_mp4_update_ctts_atom t = t\<lparr>tk_size := sz, ctts_data := d\<rparr>"
proof (cases "ctts_data t")
  case None
  then have "ngx_http_mp4_update_ctts_atom t = t\<lparr>tk_size := tk_size t, ctts_data := ctts_data t\<rparr>"
    by (simp add: ngx_http_mp4_update_ctts_atom_def)
  then show ?thesis by blast
next
  case (Some tb)
  show ?thesis
  proof (cases "ctts_find (ucast (start_sample t + 1)) (composition_offset_entries t) (tb_data tb)")
    case None
    then have "ngx_http_mp4_update_ctts_atom t = t\<lparr>tk_size := tk_size t, ctts_data := None\<rparr>"
      using Some by (simp add: ngx_http_mp4_update_ctts_atom_def)
    then show ?thesis by blast
  next
    case found: (Some r)
    then show ?thesis using Some by (cases r) (auto simp: ngx_http_mp4_update_ctts_atom_def Let_def)
  qed
qed

lemma stsc_step:
  assumes "ngx_http_mp4_update_stsc_atom t = Mp4_Ok t1"
  obtains sc cs f sz tb where "t1 = t\<lparr>start_chunk := sc, chunk_samples := cs, stsc_chunk := f, tk_size := sz, stsc_data := Some tb\<rparr>"
  using assms by (auto simp: ngx_http_mp4_update_stsc_atom_def Let_def split: option.splits if_splits list.splits)

lemma stsz_step:
  assumes "ngx_http_mp4_update_stsz_atom t = Mp4_Ok t1" "stsz_data t = Some tb"
  obtains sz tb' where "t1 = t\<lparr>chunk_samples_size := chunk_samples_size t +
      (\<Sum>z\<leftarrow>take (unat (chunk_samples t)) (drop (unat (start_sample t) - unat (chunk_samples t)) (tb_data tb)). ucast z),
      tk_size := sz, stsz_data := Some tb'\<rparr>" "tb_data tb' = drop (unat (start_sample t)) (tb_data tb)"
  using assms by (auto simp: ngx_http_mp4_update_stsz_atom_def Let_def split: if_splits)

lemma stco_step:
  assumes "ngx_http_mp4_update_stco_atom t = Mp4_Ok t1"
  obtains d ds sz tb where "drop (unat (start_chunk t)) (tb_data (the (stco_data t))) = d # ds" "stco_data t \<noteq> None"
    "t1 = t\<lparr>tk_size := sz, start_offset := ucast d + chunk_samples_size t, stco_data := Some tb\<rparr>"
    "tb_data tb = ucast (ucast d + chunk_samples_size t) # ds"
  using assms by (auto simp: ngx_http_mp4_update_stco_atom_def Let_def split: option.splits if_splits list.splits)

lemma co64_step:
  assumes "ngx_http_mp4_update_co64_atom t = Mp4_Ok t1"
  obtains d ds sz tb where "drop (unat (start_chunk t)) (tb_data (the (co64_data t))) = d # ds" "co64_data t \<noteq> None"
    "t1 = t\<lparr>tk_size := sz, start_offset := d + chunk_samples_size t, co64_data := Some tb\<rparr>"
    "tb_data tb = (d + chunk_samples_size t) # ds"
  using assms by (auto simp: ngx_http_mp4_update_co64_atom_def Let_def split: option.splits if_splits list.splits)

lemma stss_ctts_step:
  assumes "ngx_http_mp4_update_stss_atom t1 = Mp4_Ok t1'"
  shows "\<exists>sz ss ct. ngx_http_mp4_update_ctts_atom t1' = t1\<lparr>tk_size := sz, stss_data := ss, ctts_data := ct\<rparr>"
proof -
  obtain sz1 d1 where s1: "t1' = t1\<lparr>tk_size := sz1, stss_data := d1\<rparr>" using stss_step [OF assms] by blast
  obtain sz2 d2 where s2: "ngx_http_mp4_update_ctts_atom t1' = t1'\<lparr>tk_size := sz2, ctts_data := d2\<rparr>" using ctts_step by blast
  have "ngx_http_mp4_update_ctts_atom t1' = t1\<lparr>tk_size := sz2, stss_data := d1, ctts_data := d2\<rparr>" using s2 s1 by simp
  then show ?thesis by blast
qed

text \<open>The whole chain of steps.\<close>

lemma process_trak_steps:
  assumes "mp4_process_trak start t = Mp4_Ok t'"
  obtains t1 t2 t3 t4 t5 sz a b c d where "ngx_http_mp4_update_stts_atom start t = Mp4_Ok t1"
    "\<exists>sz ss ct. t2 = t1\<lparr>tk_size := sz, stss_data := ss, ctts_data := ct\<rparr>"
    "ngx_http_mp4_update_stsc_atom t2 = Mp4_Ok t3" "ngx_http_mp4_update_stsz_atom t3 = Mp4_Ok t4"
    "(if co64_data t4 \<noteq> None then ngx_http_mp4_update_co64_atom t4 else ngx_http_mp4_update_stco_atom t4) = Mp4_Ok t5"
    "t' = t5\<lparr>stbl_atom := a, minf_atom := b, mdia_atom := c, tk_size := sz, trak_atom := d\<rparr>"
proof -
  obtain t1 t1' t3 t4 t5 where s: "ngx_http_mp4_update_stts_atom start t = Mp4_Ok t1" "ngx_http_mp4_update_stss_atom t1 = Mp4_Ok t1'"
    "ngx_http_mp4_update_stsc_atom (ngx_http_mp4_update_ctts_atom t1') = Mp4_Ok t3" "ngx_http_mp4_update_stsz_atom t3 = Mp4_Ok t4"
    "(if co64_data t4 \<noteq> None then ngx_http_mp4_update_co64_atom t4 else ngx_http_mp4_update_stco_atom t4) = Mp4_Ok t5"
    and t': "t' = (let trak = ngx_http_mp4_update_stbl_atom t5; trak = ngx_http_mp4_update_minf_atom trak;
         trak = trak\<lparr>tk_size := tk_size trak + mdhd_size trak\<rparr>; trak = trak\<lparr>tk_size := tk_size trak + hdlr_size trak\<rparr>;
         trak = ngx_http_mp4_update_mdia_atom trak; trak = trak\<lparr>tk_size := tk_size trak + tkhd_size trak\<rparr> in
         ngx_http_mp4_update_trak_atom trak)"
    using assms unfolding mp4_process_trak_def Let_def bind_Ok by auto
  note stss_ctts_step [OF s(2)]
  moreover have "\<exists>sz a b c d. t' = t5\<lparr>stbl_atom := a, minf_atom := b, mdia_atom := c, tk_size := sz, trak_atom := d\<rparr>"
    unfolding t' Let_def ngx_http_mp4_update_stbl_atom_def ngx_http_mp4_update_minf_atom_def ngx_http_mp4_update_mdia_atom_def
      ngx_http_mp4_update_trak_atom_def by (intro exI) simp
  ultimately show thesis using that s(1,3,4,5) by blast
qed

section \<open>The cut of a track\<close>

lemma unat_sum_list: "(\<Sum>z\<leftarrow>zs. unat z) < 2 ^ 64 \<Longrightarrow> unat (\<Sum>z\<leftarrow>zs. ucast (z :: uint32) :: ngx_uint_t) = (\<Sum>z\<leftarrow>zs. unat z)"
proof (induction zs)
  case (Cons z zs)
  then have "unat (\<Sum>z\<leftarrow>zs. ucast z :: ngx_uint_t) = (\<Sum>z\<leftarrow>zs. unat z)" by simp
  then show ?case using Cons.prems by (simp add: unat_word_ariths)
qed simp

lemma sum_take_mono: "c \<le> n \<Longrightarrow> sum_list (take c xs) \<le> sum_list (take n (xs :: nat list))"
proof -
  assume "c \<le> n"
  then have "take n xs = take c xs @ take (n - c) (drop c xs)" by (metis le_add_diff_inverse take_add)
  then show ?thesis by simp
qed

lemma sum_take_le: "sum_list (take n (xs :: nat list)) \<le> sum_list xs"
  by (metis append_take_drop_id le_add1 sum_list_append)

text \<open>The offsets after the cut, for both kinds of tables.\<close>

lemma offsets_cut:
  assumes ok: "trak_ok t" and same: "co64_data t4 = co64_data t" "stco_data t4 = stco_data t" "chunks t4 = chunks t"
    and sc: "unat (start_chunk t4) < length (chunk_offsets t)"
    and css: "chunk_offsets t ! unat (start_chunk t4) + unat (chunk_samples_size t4) < (if co64_data t = None then 2 ^ 32 else 2 ^ 64)"
    and u: "(if co64_data t4 \<noteq> None then ngx_http_mp4_update_co64_atom t4 else ngx_http_mp4_update_stco_atom t4) = Mp4_Ok t5"
  shows "chunk_offsets t5 = (chunk_offsets t ! unat (start_chunk t4) + unat (chunk_samples_size t4)) #
      drop (Suc (unat (start_chunk t4))) (chunk_offsets t)"
    "unat (start_offset t5) = hd (chunk_offsets t5)"
    "\<exists>sz off a b. t5 = t4\<lparr>tk_size := sz, start_offset := off, stco_data := a, co64_data := b\<rparr>"
    "co64_data t5 = None \<longleftrightarrow> co64_data t4 = None" "co64_data t5 = None \<longrightarrow> stco_data t5 \<noteq> None"
proof -
  let ?k = "unat (start_chunk t4)" and ?c = "chunk_samples_size t4"
  have "chunk_offsets t5 = (chunk_offsets t ! ?k + unat ?c) # drop (Suc ?k) (chunk_offsets t) \<and> unat (start_offset t5) = hd (chunk_offsets t5) \<and> (co64_data t5 = None \<longleftrightarrow> co64_data t4 = None) \<and>
    (co64_data t5 = None \<longrightarrow> stco_data t5 \<noteq> None) \<and>
    (\<exists>sz off a b. t5 = t4\<lparr>tk_size := sz, start_offset := off, stco_data := a, co64_data := b\<rparr>)"
  proof (cases "co64_data t4")
    case None
    then have "ngx_http_mp4_update_stco_atom t4 = Mp4_Ok t5" using u by simp
    then obtain d ds sz tb where st: "drop ?k (tb_data (the (stco_data t4))) = d # ds"
      "t5 = t4\<lparr>tk_size := sz, start_offset := ucast d + ?c, stco_data := Some tb\<rparr>" "tb_data tb = ucast (ucast d + ?c) # ds"
      by (rule stco_step)
    have off: "chunk_offsets t = map unat (tb_data (the (stco_data t)))" using None same by (simp add: chunk_offsets_def)
    have "drop ?k (chunk_offsets t) = unat d # map unat ds" using st(1) same by (simp add: off drop_map)
    then have d: "chunk_offsets t ! ?k = unat d" "drop (Suc ?k) (chunk_offsets t) = map unat ds"
      using sc Cons_nth_drop_Suc [of ?k "chunk_offsets t"] by simp_all
    then have "unat d + unat ?c < 2 ^ 32" using css None same by simp
    then have "unat (ucast d + ?c) = unat d + unat ?c" "unat (ucast (ucast d + ?c) :: uint32) = unat d + unat ?c"
      by (simp_all add: unat_word_ariths unat_ucast_down)
    moreover have e: "t5 = t4\<lparr>tk_size := sz, start_offset := ucast d + ?c, stco_data := Some tb, co64_data := None\<rparr>" using st(2) None by simp
    then have "\<exists>sz off a b. t5 = t4\<lparr>tk_size := sz, start_offset := off, stco_data := a, co64_data := b\<rparr>" by (intro exI)
    ultimately show ?thesis using st(2,3) d None by (intro conjI) (simp_all add: chunk_offsets_def)
  next
    case (Some tb0)
    then have "ngx_http_mp4_update_co64_atom t4 = Mp4_Ok t5" using u by simp
    then obtain d ds sz tb where st: "drop ?k (tb_data (the (co64_data t4))) = d # ds"
      "t5 = t4\<lparr>tk_size := sz, start_offset := d + ?c, co64_data := Some tb\<rparr>" "tb_data tb = (d + ?c) # ds"
      by (rule co64_step)
    have off: "chunk_offsets t = map unat (tb_data tb0)" using Some same by (simp add: chunk_offsets_def)
    have "drop ?k (chunk_offsets t) = unat d # map unat ds" using st(1) Some by (simp add: off drop_map)
    then have d: "chunk_offsets t ! ?k = unat d" "drop (Suc ?k) (chunk_offsets t) = map unat ds"
      using sc Cons_nth_drop_Suc [of ?k "chunk_offsets t"] by simp_all
    then have "unat d + unat ?c < 2 ^ 64" using css Some same by simp
    then have "unat (d + ?c) = unat d + unat ?c" by (simp add: unat_word_ariths)
    moreover have e: "t5 = t4\<lparr>tk_size := sz, start_offset := d + ?c, stco_data := stco_data t4, co64_data := Some tb\<rparr>" using st(2) by simp
    then have "\<exists>sz off a b. t5 = t4\<lparr>tk_size := sz, start_offset := off, stco_data := a, co64_data := b\<rparr>" by (intro exI)
    ultimately show ?thesis using st(2,3) d Some by (intro conjI) (simp_all add: chunk_offsets_def)
  qed
  then show "chunk_offsets t5 = (chunk_offsets t ! ?k + unat ?c) # drop (Suc ?k) (chunk_offsets t)" "unat (start_offset t5) = hd (chunk_offsets t5)"
    "\<exists>sz off a b. t5 = t4\<lparr>tk_size := sz, start_offset := off, stco_data := a, co64_data := b\<rparr>"
    "co64_data t5 = None \<longleftrightarrow> co64_data t4 = None" "co64_data t5 = None \<longrightarrow> stco_data t5 \<noteq> None" by blast+
qed

lemma length_chunk_counts:
  assumes "trak_ok t"
  shows "length (chunk_counts t) = unat (chunks t)"
proof -
  obtain tb i s es where tb: "stsc_data t = Some tb" "tb_data tb = (1, s, i) # es" "ascending (unat (chunks t)) (tb_data tb)"
    using assms by (auto simp: trak_ok_def stsc_ok_def)
  have "stsc_chunk t = None" "length (chunk_offsets t) = unat (chunks t)" using assms by (simp_all add: trak_ok_def)
  then have "chunk_counts t = counts (unat (chunks t)) ((1, s, i) # es)"
    using tb by (simp add: chunk_counts_def first_entries_def stsc_table_def)
  then show ?thesis using length_counts [OF tb(3) [unfolded tb(2)]] by simp
qed

text \<open>Where the cut is: the sample \<open>ss\<close> that plays at the start time, in chunk \<open>sc\<close> behind \<open>cs\<close> others.\<close>

lemma cut_point:
  assumes ok: "trak_ok t" and u1: "ngx_http_mp4_update_stts_atom start t = Mp4_Ok t1"
    and t2: "\<exists>sz ss ct. t2 = t1\<lparr>tk_size := sz, stss_data := ss, ctts_data := ct\<rparr>" and u3: "ngx_http_mp4_update_stsc_atom t2 = Mp4_Ok t3"
  obtains ss z tb1 ssd ctd sc cs f tb3 where
    "t3 = t\<lparr>start_sample := ss, stts_data := Some tb1, stss_data := ssd, ctts_data := ctd, start_chunk := sc, chunk_samples := cs,
      stsc_chunk := f, tk_size := z, stsc_data := Some tb3\<rparr>"
    "unat ss < length (durations t)" "expand (tb_data tb1) = drop (unat ss) (durations t)"
    "sum_list (take (unat ss) (durations t)) \<le> unat (start * ucast (timescale t) div 1000)"
    "unat (start * ucast (timescale t) div 1000) < sum_list (take (Suc (unat ss)) (durations t))"
    "unat sc < unat (chunks t)" "unat cs \<le> chunk_counts t ! unat sc" "unat ss = sum_list (take (unat sc) (chunk_counts t)) + unat cs"
    "\<not> before_last_chunk t t3 \<longrightarrow> counts (unat (chunks t) - unat sc) (first_entries t3 @ stsc_table t3) =
      (chunk_counts t ! unat sc - unat cs) # drop (Suc (unat sc)) (chunk_counts t)"
proof -
  obtain ss en es z1 tb1 where s1: "stts_find (start * ucast (timescale t) div 1000) 0 (time_to_sample_entries t) (tb_data (the (stts_data t))) = Some (ss, en, es)"
    "t1 = t\<lparr>start_sample := ss, tk_size := z1, stts_data := Some tb1\<rparr>" "tb_data tb1 = es" using u1 by (rule stts_step)
  obtain z2 ssd ctd where s2: "t2 = t1\<lparr>tk_size := z2, stss_data := ssd, ctts_data := ctd\<rparr>" using t2 by blast
  obtain sc cs f z3 tb3 where s3: "t3 = t2\<lparr>start_chunk := sc, chunk_samples := cs, stsc_chunk := f, tk_size := z3, stsc_data := Some tb3\<rparr>"
    using u3 by (rule stsc_step)
  have n: "length (durations t) = length (sizes t)" "length (sizes t) = unat (sample_sizes_entries t)"
    "length (chunk_offsets t) = unat (chunks t)" "stsc_chunk t = None" "stsc_ok t" "stts_fits (tb_data (the (stts_data t)))"
    using ok by (simp_all add: trak_ok_def)
  have len: "length (durations t) < 2 ^ 32" using n(1,2) unat32 [of "sample_sizes_entries t"] by simp
  have "unat (0 :: ngx_uint_t) + length (expand (tb_data (the (stts_data t)))) < 2 ^ 64" using len by (simp add: durations_def)
  from stts_find_spec [OF n(6) this, of "start * ucast (timescale t) div 1000" "time_to_sample_entries t", unfolded s1(1)]
  have dur: "unat ss < length (durations t)" "expand es = drop (unat ss) (durations t)"
    "sum_list (take (unat ss) (durations t)) \<le> unat (start * ucast (timescale t) div 1000)"
    "unat (start * ucast (timescale t) div 1000) < sum_list (take (Suc (unat ss)) (durations t))" by (auto simp: durations_def)
  have cts: "counts (unat (chunks t2)) (stsc_table t2) = chunk_counts t"
    by (simp add: chunk_counts_def n(3,4) first_entries_def stsc_table_def s2 s1(2))
  have "stsc_ok t2" "unat (start_sample t2) < 2 ^ 32" using n(5) dur(1) len by (simp_all add: stsc_ok_def s2 s1(2))
  note sp = update_stsc_spec [OF this u3, unfolded cts]
  have f2: "chunks t2 = chunks t" "start_sample t2 = ss" "start_chunk t3 = sc" "chunk_samples t3 = cs" by (simp_all add: s3 s2 s1(2))
  have b: "before_last_chunk t2 t3 = before_last_chunk t t3" by (simp add: before_last_chunk_def stsc_table_def s3 s2 s1(2))
  have t3: "t3 = t\<lparr>start_sample := ss, stts_data := Some tb1, stss_data := ssd, ctts_data := ctd, start_chunk := sc, chunk_samples := cs,
      stsc_chunk := f, tk_size := z3, stsc_data := Some tb3\<rparr>" by (simp add: s3 s2 s1(2))
  show thesis using sp [unfolded f2 b] dur s1(3) by (intro that [OF t3]) simp_all
qed

text \<open>The bytes of the samples that are left out of the first chunk.\<close>

lemma left_out:
  assumes ok: "trak_ok t" and sc: "k < length (chunk_offsets t)" "c \<le> chunk_counts t ! k"
  defines "xs \<equiv> drop (sum_list (take k (chunk_counts t))) (sizes t)"
  shows "chunk_offsets t ! k + sum_list (take c xs) \<le> chunk_end t k"
    "chunk_offsets t ! k + sum_list (take c xs) < (if co64_data t = None then 2 ^ 32 else 2 ^ 64)" "sum_list (take c xs) < 2 ^ 64"
proof -
  show le: "chunk_offsets t ! k + sum_list (take c xs) \<le> chunk_end t k"
    using sum_take_mono [OF sc(2), of xs] by (simp add: chunk_end_def xs_def)
  have "chunk_end t k < (if co64_data t = None then 2 ^ 32 else 2 ^ 64)" using ok sc(1) by (simp add: trak_ok_def)
  with le show b: "chunk_offsets t ! k + sum_list (take c xs) < (if co64_data t = None then 2 ^ 32 else 2 ^ 64)" by linarith
  show "sum_list (take c xs) < 2 ^ 64"
  proof (cases "co64_data t = None")
    case True
    then show ?thesis using b by simp
  next
    case False
    then show ?thesis using b unfolding if_not_P [OF False] by linarith
  qed
qed

lemma trak_cut:
  assumes ok: "trak_ok t" and p: "mp4_process_trak start t = Mp4_Ok t'"
  defines "s \<equiv> unat (start_sample t')"
  shows "s < length (durations t)" "durations t' = drop s (durations t)" "sizes t' = drop s (sizes t)"
    "sum_list (take s (durations t)) \<le> unat (start * ucast (timescale t) div 1000)"
    "unat (start * ucast (timescale t) div 1000) < sum_list (take (Suc s) (durations t))"
    "\<not> before_last_chunk t t' \<Longrightarrow> positions t' = drop s (positions t)" "unat (start_offset t') = hd (chunk_offsets t')"
    "\<exists>k x. k < length (chunk_offsets t) \<and> chunk_offsets t' = x # drop (Suc k) (chunk_offsets t) \<and> chunk_offsets t ! k \<le> x \<and> x \<le> chunk_end t k"
    "co64_data t' = None \<longleftrightarrow> co64_data t = None" "co64_data t' = None \<longrightarrow> stco_data t' \<noteq> None"
proof -
  obtain t1 t2 t3 t4 t5 z a b c d where st: "ngx_http_mp4_update_stts_atom start t = Mp4_Ok t1"
    "\<exists>sz ss ct. t2 = t1\<lparr>tk_size := sz, stss_data := ss, ctts_data := ct\<rparr>"
    "ngx_http_mp4_update_stsc_atom t2 = Mp4_Ok t3" "ngx_http_mp4_update_stsz_atom t3 = Mp4_Ok t4"
    "(if co64_data t4 \<noteq> None then ngx_http_mp4_update_co64_atom t4 else ngx_http_mp4_update_stco_atom t4) = Mp4_Ok t5"
    "t' = t5\<lparr>stbl_atom := a, minf_atom := b, mdia_atom := c, tk_size := z, trak_atom := d\<rparr>"
    using p by (rule process_trak_steps)
  obtain ss z3 tb1 ssd ctd sc cs f tb3 where s3:
    "t3 = t\<lparr>start_sample := ss, stts_data := Some tb1, stss_data := ssd, ctts_data := ctd, start_chunk := sc, chunk_samples := cs,
      stsc_chunk := f, tk_size := z3, stsc_data := Some tb3\<rparr>"
    and dur: "unat ss < length (durations t)" "expand (tb_data tb1) = drop (unat ss) (durations t)"
    "sum_list (take (unat ss) (durations t)) \<le> unat (start * ucast (timescale t) div 1000)"
    "unat (start * ucast (timescale t) div 1000) < sum_list (take (Suc (unat ss)) (durations t))"
    and sc: "unat sc < unat (chunks t)" "unat cs \<le> chunk_counts t ! unat sc" "unat ss = sum_list (take (unat sc) (chunk_counts t)) + unat cs"
    and sp: "\<not> before_last_chunk t t3 \<longrightarrow> counts (unat (chunks t) - unat sc) (first_entries t3 @ stsc_table t3) =
      (chunk_counts t ! unat sc - unat cs) # drop (Suc (unat sc)) (chunk_counts t)"
    by (rule cut_point [OF ok st(1-3)])
  obtain tbz where tbz: "stsz_data t = Some tbz" using ok by (auto simp: trak_ok_def)
  have "stsz_data t3 = Some tbz" using tbz by (simp add: s3)
  from stsz_step [OF st(4) this] obtain z4 tb4 where s4: "t4 = t3\<lparr>chunk_samples_size := chunk_samples_size t3 +
      (\<Sum>z\<leftarrow>take (unat (chunk_samples t3)) (drop (unat (start_sample t3) - unat (chunk_samples t3)) (tb_data tbz)). ucast z),
      tk_size := z4, stsz_data := Some tb4\<rparr>" "tb_data tb4 = drop (unat (start_sample t3)) (tb_data tbz)" by blast
  have n: "sum_list (chunk_counts t) = length (sizes t)" "length (chunk_offsets t) = unat (chunks t)" "chunk_samples_size t = 0"
    using ok by (simp_all add: trak_ok_def)
  let ?k = "unat sc" and ?c = "unat cs" and ?n = "chunk_counts t"
  have k: "?k < length (chunk_offsets t)" using sc(1) n(2) by simp
  let ?x = "sum_list (take ?c (drop (sum_list (take ?k ?n)) (sizes t)))"
  note lo = left_out [OF ok k sc(2)]
  have "?x = (\<Sum>z\<leftarrow>take ?c (drop (unat ss - ?c) (tb_data tbz)). unat z)"
    using sc(3) tbz by (simp add: sizes_def take_map drop_map)
  then have css: "unat (chunk_samples_size t4) = ?x"
    using unat_sum_list [of "take ?c (drop (unat ss - ?c) (tb_data tbz))"] lo(3) n(3) by (simp add: s4(1) s3)
  have same: "co64_data t4 = co64_data t" "stco_data t4 = stco_data t" "chunks t4 = chunks t" "start_chunk t4 = sc"
    by (simp_all add: s4(1) s3)
  note off = offsets_cut [OF ok same(1-3) _ _ st(5), unfolded same(4) css, OF k lo(2)]
  obtain z5 o5 a5 b5 where s5: "t5 = t4\<lparr>tk_size := z5, start_offset := o5, stco_data := a5, co64_data := b5\<rparr>" using off(3) by blast
  have f': "start_sample t' = ss" "durations t' = expand (tb_data tb1)" "sizes t' = drop (unat ss) (sizes t)" "chunk_offsets t' = chunk_offsets t5"
    "first_entries t' @ stsc_table t' = first_entries t3 @ stsc_table t3" "start_offset t' = start_offset t5"
    using s4(2) tbz by (simp_all add: st(6) s5 s4(1) s3 durations_def sizes_def chunk_offsets_def first_entries_def stsc_table_def drop_map
        split: option.split)
  show "s < length (durations t)" "durations t' = drop s (durations t)" "sizes t' = drop s (sizes t)"
    "sum_list (take s (durations t)) \<le> unat (start * ucast (timescale t) div 1000)"
    "unat (start * ucast (timescale t) div 1000) < sum_list (take (Suc s) (durations t))" "unat (start_offset t') = hd (chunk_offsets t')"
    using dur f' off(2) by (simp_all add: s_def)
  show "\<exists>k x. k < length (chunk_offsets t) \<and> chunk_offsets t' = x # drop (Suc k) (chunk_offsets t) \<and> chunk_offsets t ! k \<le> x \<and> x \<le> chunk_end t k"
    using k lo(1) by (intro exI [of _ ?k] exI [of _ "chunk_offsets t ! ?k + ?x"]) (simp add: f' off(1))
  show "co64_data t' = None \<longleftrightarrow> co64_data t = None" using off(4) by (simp add: st(6) same)
  show "co64_data t' = None \<longrightarrow> stco_data t' \<noteq> None" using off(5) by (simp add: st(6))
  assume "\<not> before_last_chunk t t'"
  then have "\<not> before_last_chunk t t3" by (simp add: before_last_chunk_def stsc_table_def st(6) s5 s4(1) s3)
  then have cc: "chunk_counts t' = (?n ! ?k - ?c) # drop (Suc ?k) ?n"
    using sp off(1) sc(1) n(2) by (simp add: chunk_counts_def f' Suc_diff_Suc)
  have kn: "?k < length ?n" using sc(1) by (simp add: length_chunk_counts [OF ok])
  have "sum_list (take (Suc ?k) ?n) \<le> length (sizes t)" using sum_take_le [of "Suc ?k" ?n] n(1) by simp
  from layout_cut [OF kn k sc(2) this]
  show "positions t' = drop s (positions t)" using sc by (simp add: positions_def cc f' off(1) s_def)
qed

text \<open>The chain of operations stays inside the tables.\<close>

lemma stsc_inside: "stsc_ok t \<Longrightarrow> ngx_http_mp4_update_stsc_atom t \<noteq> Mp4_Outside"
  by (auto simp: stsc_ok_def ngx_http_mp4_update_stsc_atom_def Let_def split: option.splits if_splits prod.splits)

lemma stsz_inside:
  assumes "chunk_samples t \<le> start_sample t" "\<And>tb. stsz_data t = Some tb \<Longrightarrow> unat (sample_sizes_entries t) \<le> length (tb_data tb)"
  shows "ngx_http_mp4_update_stsz_atom t \<noteq> Mp4_Outside"
proof
  assume "ngx_http_mp4_update_stsz_atom t = Mp4_Outside"
  then obtain tb where "stsz_data t = Some tb" "start_sample t \<le> ucast (sample_sizes_entries t)"
    "unat (start_sample t) < unat (chunk_samples t) \<or> length (tb_data tb) < unat (start_sample t)"
    by (auto simp: ngx_http_mp4_update_stsz_atom_def Let_def not_less split: option.splits if_splits)
  then show False using assms by (auto simp: word_le_nat_alt)
qed

lemma stco_inside:
  assumes "\<And>tb. stco_data t = Some tb \<Longrightarrow> unat (start_chunk t) < length (tb_data tb)"
  shows "ngx_http_mp4_update_stco_atom t \<noteq> Mp4_Outside"
  using assms by (auto simp: ngx_http_mp4_update_stco_atom_def Let_def split: option.splits list.splits)

lemma co64_inside:
  assumes "\<And>tb. co64_data t = Some tb \<Longrightarrow> unat (start_chunk t) < length (tb_data tb)"
  shows "ngx_http_mp4_update_co64_atom t \<noteq> Mp4_Outside"
  using assms by (auto simp: ngx_http_mp4_update_co64_atom_def Let_def split: option.splits list.splits)

section \<open>Sync samples and composition offsets\<close>

text \<open>Numbers of samples are cut at \<open>s\<close> and counted from there.\<close>

lemma unat_next:
  assumes "unat (ss :: ngx_uint_t) < 2 ^ 32 - 1"
  shows "unat (ucast (ss + 1) :: uint32) = Suc (unat ss)" "unat (ucast ss :: uint32) = unat ss"
proof -
  have "unat (ss + 1) = Suc (unat ss)" using assms by (simp add: unat_word_ariths)
  then show "unat (ucast (ss + 1) :: uint32) = Suc (unat ss)" using assms by (simp add: unat_ucast_down)
  show "unat (ucast ss :: uint32) = unat ss" using assms by (simp add: unat_ucast_down)
qed

lemma stss_cut:
  assumes s: "unat (start_sample t) < 2 ^ 32 - 1" and tb: "stss_data t = Some tb" "sorted (tb_data tb)"
    and u: "ngx_http_mp4_update_stss_atom t = Mp4_Ok t'"
  shows "map unat (tb_data (the (stss_data t'))) =
    map (\<lambda>n. n - unat (start_sample t)) (filter (\<lambda>n. unat (start_sample t) < n) (map unat (tb_data tb)))"
proof -
  let ?s = "start_sample t" and ?a = "ucast (start_sample t + 1) :: uint32"
  note n = unat_next [OF s]
  obtain en es where f: "stss_find ?a (sync_samples_entries t) (tb_data tb) = Some (en, es)"
    using u tb(1) by (auto simp: ngx_http_mp4_update_stss_atom_def split: option.splits)
  have es: "es = filter (\<lambda>x. ?a \<le> x) (tb_data tb)"
    using stss_find_spec [where ss = ?a and entries = "sync_samples_entries t" and es = "tb_data tb"] dropWhile_sorted [OF tb(2)] by (simp add: f)
  have "tb_data (the (stss_data t')) = map (\<lambda>x. x - ucast ?s) es"
    using u tb(1) f by (auto simp: ngx_http_mp4_update_stss_atom_def Let_def)
  moreover have "unat (x - ucast ?s) = unat x - unat ?s" if "?a \<le> x" for x :: uint32
    using that n by (simp add: unat_sub word_le_nat_alt)
  moreover have "?a \<le> x \<longleftrightarrow> unat ?s < unat x" for x using n by (simp add: word_le_nat_alt Suc_le_eq)
  ultimately show ?thesis by (simp add: es filter_map o_def cong: map_cong)
qed

lemma ctts_cut:
  assumes s: "unat (start_sample t) < 2 ^ 32 - 1" and tb: "ctts_data t = Some tb"
  shows "(case ctts_data (ngx_http_mp4_update_ctts_atom t) of None \<Rightarrow> [] | Some tb' \<Rightarrow> expand (tb_data tb')) =
    drop (unat (start_sample t)) (expand (tb_data tb))"
proof -
  let ?a = "ucast (start_sample t + 1) :: uint32"
  note sp = ctts_find_spec [OF unat_next(1) [OF s], where entries = "composition_offset_entries t" and es = "tb_data tb"]
  show ?thesis
  proof (cases "ctts_find ?a (composition_offset_entries t) (tb_data tb)")
    case None
    then show ?thesis using sp tb by (simp add: ngx_http_mp4_update_ctts_atom_def)
  next
    case (Some r)
    then show ?thesis using sp tb by (cases r) (simp add: ngx_http_mp4_update_ctts_atom_def Let_def)
  qed
qed

section \<open>A small film\<close>

text \<open>A track of chunks of two samples of 7 and 9 bytes each, at the given offsets.\<close>

definition demo_trak :: "uint32 list \<Rightarrow> mp4_trak" where
  "demo_trak offs =
     \<lparr>timescale = 1000, time_to_sample_entries = 2, sample_to_chunk_entries = 1, sync_samples_entries = 0,
      composition_offset_entries = 0, sample_sizes_entries = of_nat (2 * length offs), chunks = of_nat (length offs), start_sample = 0, start_chunk = 0,
      chunk_samples = 0, chunk_samples_size = 0, start_offset = 0, tkhd_size = 0, mdhd_size = 0, hdlr_size = 0,
      vmhd_size = 0, smhd_size = 0, dinf_size = 0, tk_size = 0,
      stts_data = Some \<lparr>tb_size = 0, tb_entries = 2, tb_data = [(2, 40), (2 * of_nat (length offs) - 2, 20)]\<rparr>,
      stss_data = None, ctts_data = None, stsc_chunk = None,
      stsc_data = Some \<lparr>tb_size = 0, tb_entries = 1, tb_data = [(1, 2, 1)]\<rparr>,
      stsz_data = Some \<lparr>tb_size = 0, tb_entries = of_nat (2 * length offs), tb_data = concat (replicate (length offs) [7, 9])\<rparr>,
      stco_data = Some \<lparr>tb_size = 0, tb_entries = of_nat (length offs), tb_data = offs\<rparr>, co64_data = None,
      stbl_atom = 0, minf_atom = 0, mdia_atom = 0, trak_atom = 0\<rparr>"

lemmas track_defs = trak_ok_def stts_fits_def stsc_ok_def durations_def sizes_def chunk_offsets_def chunk_counts_def
  first_entries_def stsc_table_def chunk_end_def positions_def

lemmas process_trak_defs = mp4_process_trak_def ngx_http_mp4_update_stts_atom_def ngx_http_mp4_update_stss_atom_def
  ngx_http_mp4_update_ctts_atom_def ngx_http_mp4_update_stsc_atom_def ngx_http_mp4_update_stsz_atom_def
  ngx_http_mp4_update_stco_atom_def ngx_http_mp4_update_stbl_atom_def ngx_http_mp4_update_minf_atom_def
  ngx_http_mp4_update_mdia_atom_def ngx_http_mp4_update_trak_atom_def

lemma demo_ok: "trak_ok (demo_trak [100, 200, 300, 400])"
  by (simp add: demo_trak_def track_defs sum_list_replicate All_less_Suc)

lemma demo_process: "\<exists>t'. mp4_process_trak 105 (demo_trak [100, 200, 300, 400]) = Mp4_Ok t' \<and> start_chunk t' = 1 \<and> chunk_samples t' = 1"
  by (simp add: process_trak_defs demo_trak_def Let_def)

section \<open>What a seek does\<close>

text \<open>
  C19.  Starting a consistent track at a time leaves exactly the samples from the one that plays at this time on: its
  durations, sizes and positions in the file are those of the track from sample \<open>s\<close> on, where the time, in
  units of the track, lies in the duration of sample \<open>s\<close>.  (The positions: unless the first sample is inside the last chunk but
  one of the last entry of the table of chunks, where the code goes wrong.)
\<close>

theorem mp4_seek_track:
  assumes "trak_ok t" "mp4_process_trak start t = Mp4_Ok t'"
  shows "\<exists>s. s < length (durations t) \<and> durations t' = drop s (durations t) \<and> sizes t' = drop s (sizes t) \<and>
    (\<not> before_last_chunk t t' \<longrightarrow> positions t' = drop s (positions t)) \<and>
    sum_list (take s (durations t)) \<le> unat (start * ucast (timescale t) div 1000) \<and>
    unat (start * ucast (timescale t) div 1000) < sum_list (take (Suc s) (durations t))"
  using trak_cut [OF assms] by (intro exI [of _ "unat (start_sample t')"]) simp

theorem mp4_seek_track_witness:
  "\<exists>t'. mp4_process_trak 105 (demo_trak [100, 200, 300, 400]) = Mp4_Ok t' \<and>
    (\<exists>s<8. positions t' = drop s (positions (demo_trak [100, 200, 300, 400])))"
proof -
  let ?t = "demo_trak [100, 200, 300, 400]"
  obtain t' where t': "mp4_process_trak 105 ?t = Mp4_Ok t'" "start_chunk t' = 1" "chunk_samples t' = 1" using demo_process by blast
  have "\<not> before_last_chunk ?t t'" using t' by (simp add: before_last_chunk_def demo_trak_def stsc_table_def)
  moreover have "length (durations ?t) = 8" by (simp add: demo_trak_def durations_def)
  ultimately show ?thesis using mp4_seek_track [OF demo_ok t'(1)] t'(1) by auto
qed

text \<open>
  C21.  The other tables that speak of samples follow the cut at sample \<open>s\<close>: of the sync samples those behind it are left, counted from it,
  and the composition offsets are those of the samples from it on.
\<close>

theorem mp4_seek_samples:
  assumes "unat (start_sample t) < 2 ^ 32 - 1" "stss_data t = Some sync" "sorted (tb_data sync)" "ctts_data t = Some ct"
    "ngx_http_mp4_update_stss_atom t = Mp4_Ok t1"
  defines "s \<equiv> unat (start_sample t)" and "t2 \<equiv> ngx_http_mp4_update_ctts_atom t1"
  shows "map unat (tb_data (the (stss_data t2))) = map (\<lambda>n. n - s) (filter (\<lambda>n. s < n) (map unat (tb_data sync))) \<and>
    (case ctts_data t2 of None \<Rightarrow> [] | Some tb \<Rightarrow> expand (tb_data tb)) = drop s (expand (tb_data ct))"
proof -
  obtain sz d where t1: "t1 = t\<lparr>tk_size := sz, stss_data := d\<rparr>" using stss_step [OF assms(5)] by blast
  have "stss_data t2 = stss_data t1" using ctts_step [of t1] by (auto simp: t2_def)
  then show ?thesis using stss_cut [OF assms(1-3,5)] ctts_cut [of t1 ct] assms(1,4) by (simp add: t1 t2_def s_def)
qed

theorem mp4_seek_samples_witness:
  "\<exists>t1. ngx_http_mp4_update_stss_atom (demo_trak [100, 200]\<lparr>start_sample := 2, sync_samples_entries := 2, composition_offset_entries := 1,
      stss_data := Some \<lparr>tb_size = 0, tb_entries = 2, tb_data = [1, 4]\<rparr>, ctts_data := Some \<lparr>tb_size = 0, tb_entries = 1, tb_data = [(4, 9)]\<rparr>\<rparr>) = Mp4_Ok t1 \<and>
    map unat (tb_data (the (stss_data (ngx_http_mp4_update_ctts_atom t1)))) = [2] \<and>
    (case ctts_data (ngx_http_mp4_update_ctts_atom t1) of None \<Rightarrow> [] | Some tb \<Rightarrow> expand (tb_data tb)) = replicate 2 9"
proof -
  let ?sync = "\<lparr>tb_size = 0, tb_entries = 2, tb_data = [1, 4]\<rparr> :: uint32 mp4_table" and
    ?ct = "\<lparr>tb_size = 0, tb_entries = 1, tb_data = [(4, 9)]\<rparr> :: (uint32 \<times> uint32) mp4_table"
  let ?t = "demo_trak [100, 200]\<lparr>start_sample := 2, sync_samples_entries := 2, composition_offset_entries := 1, stss_data := Some ?sync, ctts_data := Some ?ct\<rparr>"
  have "\<exists>t1. ngx_http_mp4_update_stss_atom ?t = Mp4_Ok t1"
    by (simp add: ngx_http_mp4_update_stss_atom_def Let_def demo_trak_def)
  then obtain t1 where t1: "ngx_http_mp4_update_stss_atom ?t = Mp4_Ok t1" by blast
  have "map unat (tb_data (the (stss_data (ngx_http_mp4_update_ctts_atom t1)))) =
      map (\<lambda>n. n - unat (start_sample ?t)) (filter (\<lambda>n. unat (start_sample ?t) < n) (map unat (tb_data ?sync))) \<and>
    (case ctts_data (ngx_http_mp4_update_ctts_atom t1) of None \<Rightarrow> [] | Some tb \<Rightarrow> expand (tb_data tb)) =
      drop (unat (start_sample ?t)) (expand (tb_data ?ct))"
    by (rule mp4_seek_samples [OF _ _ _ _ t1]) simp_all
  then show ?thesis using t1 by simp
qed

text \<open>
  C20.  For a consistent track no operation on its tables reads or writes outside them, whatever the start time.
\<close>

theorem mp4_inside_tables:
  assumes ok: "trak_ok t"
  shows "mp4_process_trak start t \<noteq> Mp4_Outside"
proof
  assume o: "mp4_process_trak start t = Mp4_Outside"
  have 1: "ngx_http_mp4_update_stts_atom start t \<noteq> Mp4_Outside"
    by (auto simp: ngx_http_mp4_update_stts_atom_def Let_def split: option.splits)
  have 2: "ngx_http_mp4_update_stss_atom t1 \<noteq> Mp4_Outside" for t1
    by (auto simp: ngx_http_mp4_update_stss_atom_def Let_def split: option.splits)
  obtain t1 t1' where s: "ngx_http_mp4_update_stts_atom start t = Mp4_Ok t1" "ngx_http_mp4_update_stss_atom t1 = Mp4_Ok t1'"
    using o 1 2 unfolding mp4_process_trak_def Let_def bind_Outside by blast
  define t2 where "t2 = ngx_http_mp4_update_ctts_atom t1'"
  have t2: "\<exists>sz ss ct. t2 = t1\<lparr>tk_size := sz, stss_data := ss, ctts_data := ct\<rparr>"
    using stss_ctts_step [OF s(2)] by (simp add: t2_def)
  obtain ss1 z1 tb1 where "t1 = t\<lparr>start_sample := ss1, tk_size := z1, stts_data := Some tb1\<rparr>" using stts_step [OF s(1)] by blast
  moreover have "stsc_ok t" using ok by (simp add: trak_ok_def)
  ultimately have "stsc_ok t2" using t2 by (auto simp: stsc_ok_def)
  note 3 = stsc_inside [OF this]
  have "ngx_http_mp4_update_stsc_atom t2 = Mp4_Outside \<or> (\<exists>t3. ngx_http_mp4_update_stsc_atom t2 = Mp4_Ok t3 \<and>
      (ngx_http_mp4_update_stsz_atom t3 = Mp4_Outside \<or> (\<exists>t4. ngx_http_mp4_update_stsz_atom t3 = Mp4_Ok t4 \<and>
        (if co64_data t4 \<noteq> None then ngx_http_mp4_update_co64_atom t4 else ngx_http_mp4_update_stco_atom t4) = Mp4_Outside)))"
    using o 1 2 s unfolding mp4_process_trak_def Let_def bind_Outside t2_def by auto
  then obtain t3 where u3: "ngx_http_mp4_update_stsc_atom t2 = Mp4_Ok t3" and o3: "ngx_http_mp4_update_stsz_atom t3 = Mp4_Outside \<or>
      (\<exists>t4. ngx_http_mp4_update_stsz_atom t3 = Mp4_Ok t4 \<and>
        (if co64_data t4 \<noteq> None then ngx_http_mp4_update_co64_atom t4 else ngx_http_mp4_update_stco_atom t4) = Mp4_Outside)"
    using 3 by blast
  obtain ss z tb1 ssd ctd sc cs f tb3 where t3:
    "t3 = t\<lparr>start_sample := ss, stts_data := Some tb1, stss_data := ssd, ctts_data := ctd, start_chunk := sc, chunk_samples := cs,
      stsc_chunk := f, tk_size := z, stsc_data := Some tb3\<rparr>"
    and sc: "unat sc < unat (chunks t)" "unat ss = sum_list (take (unat sc) (chunk_counts t)) + unat cs"
    by (rule cut_point [OF ok s(1) t2 u3])
  have "ngx_http_mp4_update_stsz_atom t3 \<noteq> Mp4_Outside"
    using ok sc(2) by (intro stsz_inside) (auto simp: t3 word_le_nat_alt trak_ok_def sizes_def)
  then obtain t4 where u4: "ngx_http_mp4_update_stsz_atom t3 = Mp4_Ok t4"
    and o4: "(if co64_data t4 \<noteq> None then ngx_http_mp4_update_co64_atom t4 else ngx_http_mp4_update_stco_atom t4) = Mp4_Outside"
    using o3 by blast
  obtain tbz where "stsz_data t3 = Some tbz" using ok by (auto simp: trak_ok_def t3)
  then obtain x z4 tb4 where "t4 = t3\<lparr>chunk_samples_size := x, tk_size := z4, stsz_data := Some tb4\<rparr>"
    using stsz_step [OF u4] by blast
  then have t4: "start_chunk t4 = sc" "stco_data t4 = stco_data t" "co64_data t4 = co64_data t" by (simp_all add: t3)
  have len: "length (chunk_offsets t) = unat (chunks t)" using ok by (simp add: trak_ok_def)
  have "(if co64_data t4 \<noteq> None then ngx_http_mp4_update_co64_atom t4 else ngx_http_mp4_update_stco_atom t4) \<noteq> Mp4_Outside"
  proof (cases "co64_data t")
    case None
    have "ngx_http_mp4_update_stco_atom t4 \<noteq> Mp4_Outside"
      by (rule stco_inside) (use None len sc(1) t4 in \<open>simp add: chunk_offsets_def\<close>)
    then show ?thesis using None t4 by simp
  next
    case (Some tb)
    have "ngx_http_mp4_update_co64_atom t4 \<noteq> Mp4_Outside"
      by (rule co64_inside) (use Some len sc(1) t4 in \<open>simp add: chunk_offsets_def\<close>)
    then show ?thesis using Some t4 by simp
  qed
  then show False using o4 by contradiction
qed

theorem mp4_inside_tables_witness: "trak_ok (demo_trak [100, 200, 300, 400]) \<and> mp4_process_trak 1000 (demo_trak [100, 200, 300, 400]) \<noteq> Mp4_Outside"
  using demo_ok mp4_inside_tables [OF demo_ok, of 1000] by blast

text \<open>
  What goes wrong in the last chunk but one: of the three samples from the second one of chunk 2 on, the tables
  that are sent place two only.  And a time in the last chunk behind its first sample is refused.
\<close>

lemma mp4_drops_last_chunk:
  "\<exists>t'. mp4_process_trak 105 (demo_trak [100, 200, 300]) = Mp4_Ok t' \<and> length (sizes t') = 3 \<and> sum_list (chunk_counts t') = 2 \<and>
    chunk_counts t' = [1, 1]"
  by (simp add: process_trak_defs demo_trak_def Let_def track_defs)

lemma mp4_refuses_last_chunk: "mp4_process_trak 145 (demo_trak [100, 200, 300]) = Mp4_Error"
  by (simp add: process_trak_defs demo_trak_def Let_def)

end
