(* ===== verification/Mp4_Moov.thy ===== *)
theory Mp4_Moov
  imports Mp4_Tables Mp4_Track
begin

unbundle bit_operations_syntax

text \<open>
  The bytes of the \<^verbatim>\<open>moov\<close> atom that is sent: the chain of buffers that \<^verbatim>\<open>ngx_http_mp4_process\<close> links, in its order.  The sizes
  that the operations of \<open>Mp4_Atoms\<close> add up are the lengths of these buffers.
\<close>

section \<open>The chain\<close>

text \<open>
  The atoms of a track that are sent as they were read; \<open>mc_stsz\<close> is the atom of the sizes when it has a common size and no table, and
  \<open>mc_flags\<close> the version and the flags of each table.
\<close>

record mp4_copied =
  mc_tkhd :: "u_char list"
  mc_mdhd :: "u_char list"
  mc_hdlr :: "u_char list"
  mc_vmhd :: "u_char list"
  mc_smhd :: "u_char list"
  mc_dinf :: "u_char list"
  mc_stsd :: "u_char list"
  mc_stsz :: "u_char list"
  mc_flags :: "string \<Rightarrow> u_char list"

definition atom_header :: "uint32 \<Rightarrow> string \<Rightarrow> u_char list" where
  "atom_header sz name = ngx_mp4_set_32value sz @ atom_name name"

definition table_header :: "mp4_copied \<Rightarrow> string \<Rightarrow> 'e mp4_table \<Rightarrow> u_char list" where
  "table_header c name t = atom_header (tb_size t) name @ mc_flags c name @ ngx_mp4_set_32value (tb_entries t)"

definition table_bytes :: "mp4_copied \<Rightarrow> string \<Rightarrow> ('e \<Rightarrow> u_char list) \<Rightarrow> 'e mp4_table option \<Rightarrow> u_char list" where
  "table_bytes c name enc tb = (case tb of None \<Rightarrow> [] | Some t \<Rightarrow> table_header c name t @ concat (map enc (tb_data t)))"

text \<open>The table of chunks has a buffer of its own for the entry of the chunk that is cut.\<close>

definition stsc_bytes :: "mp4_copied \<Rightarrow> mp4_trak \<Rightarrow> u_char list" where
  "stsc_bytes c t =
     (case stsc_data t of
        None \<Rightarrow> []
      | Some tb \<Rightarrow> table_header c ''stsc'' tb @ (case stsc_chunk t of None \<Rightarrow> [] | Some e \<Rightarrow> put_triple e) @ concat (map put_triple (tb_data tb)))"

text \<open>The common size, here 0, stands before the number of entries.\<close>

definition stsz_bytes :: "mp4_copied \<Rightarrow> mp4_trak \<Rightarrow> u_char list" where
  "stsz_bytes c t =
     (case stsz_data t of
        None \<Rightarrow> mc_stsz c
      | Some tb \<Rightarrow> atom_header (tb_size tb) ''stsz'' @ mc_flags c ''stsz'' @ ngx_mp4_set_32value 0 @ ngx_mp4_set_32value (tb_entries tb) @
          concat (map ngx_mp4_set_32value (tb_data tb)))"

definition trak_bytes :: "mp4_copied \<Rightarrow> mp4_trak \<Rightarrow> u_char list" where
  "trak_bytes c t =
     atom_header (trak_atom t) ''trak'' @ mc_tkhd c @
     atom_header (mdia_atom t) ''mdia'' @ mc_mdhd c @ mc_hdlr c @
     atom_header (minf_atom t) ''minf'' @ mc_vmhd c @ mc_smhd c @ mc_dinf c @
     atom_header (stbl_atom t) ''stbl'' @ mc_stsd c @
     table_bytes c ''stts'' put_pair (stts_data t) @
     table_bytes c ''stss'' ngx_mp4_set_32value (stss_data t) @
     table_bytes c ''ctts'' put_pair (ctts_data t) @
     stsc_bytes c t @ stsz_bytes c t @
     table_bytes c ''stco'' ngx_mp4_set_32value (stco_data t) @
     table_bytes c ''co64'' ngx_mp4_set_64value (co64_data t)"

definition moov_bytes :: "u_char list \<Rightarrow> mp4_copied list \<Rightarrow> mp4_file \<Rightarrow> u_char list" where
  "moov_bytes mvhd cs mp4 = mp_moov_header mp4 @ mvhd @ concat (map2 trak_bytes cs (mp_traks mp4))"

section \<open>The sizes of tables\<close>

text \<open>The buffers that were read belong to the track, whose size so far is that of the atoms counted while reading.\<close>

definition copied_ok :: "mp4_copied \<Rightarrow> mp4_trak \<Rightarrow> bool" where
  "copied_ok c t \<longleftrightarrow>
     of_nat (length (mc_tkhd c)) = tkhd_size t \<and> of_nat (length (mc_mdhd c)) = mdhd_size t \<and> of_nat (length (mc_hdlr c)) = hdlr_size t \<and>
     of_nat (length (mc_vmhd c)) = vmhd_size t \<and> of_nat (length (mc_smhd c)) = smhd_size t \<and> of_nat (length (mc_dinf c)) = dinf_size t \<and>
     of_nat (length (mc_stsd c)) + (if stsz_data t = None then of_nat (length (mc_stsz c)) else 0) = tk_size t \<and>
     (\<forall>name. length (mc_flags c name) = 4) \<and> (stco_data t = None \<or> co64_data t = None)"

lemma length_atom_header [simp]: "length name = 4 \<Longrightarrow> length (atom_header sz name) = 8"
  by (simp add: atom_header_def atom_name_def)

lemma length_table_header: "length name = 4 \<Longrightarrow> length (mc_flags c name) = 4 \<Longrightarrow> length (table_header c name t) = 16"
  by (simp add: table_header_def)

lemma length_put [simp]: "length (put_pair e) = 8" "length (put_triple e') = 12"
  by (simp_all add: put_pair_def put_triple_def)

lemma length_entries: "(\<And>e. length (enc e) = k) \<Longrightarrow> length (concat (map enc es)) = k * length es"
  by (induction es) simp_all

lemma length_table_bytes:
  assumes "length name = 4" "length (mc_flags c name) = 4" "\<And>e. length (enc e) = k"
  shows "length (table_bytes c name enc (Some t)) = 16 + k * length (tb_data t)"
  using length_entries [of enc k "tb_data t"] assms by (simp add: table_bytes_def length_table_header)

text \<open>The sizes of the atoms that are copied, and the tables: what a step may change is named in its lemma.\<close>

definition copied_sizes :: "mp4_trak \<Rightarrow> ngx_uint_t list" where
  "copied_sizes t = [tkhd_size t, mdhd_size t, hdlr_size t, vmhd_size t, smhd_size t, dinf_size t]"

lemma stts_size:
  assumes "ngx_http_mp4_update_stts_atom start t = Mp4_Ok t'" "length (mc_flags c ''stts'') = 4"
  shows "tk_size t' = tk_size t + of_nat (length (table_bytes c ''stts'' put_pair (stts_data t')))"
    "copied_sizes t' = copied_sizes t" "stss_data t' = stss_data t" "ctts_data t' = ctts_data t" "stsc_data t' = stsc_data t"
    "stsz_data t' = stsz_data t" "stco_data t' = stco_data t" "co64_data t' = co64_data t"
  using assms by (auto simp: ngx_http_mp4_update_stts_atom_def length_table_bytes Let_def copied_sizes_def split: option.splits)

lemma stss_size:
  assumes "ngx_http_mp4_update_stss_atom t = Mp4_Ok t'" "length (mc_flags c ''stss'') = 4"
  shows "tk_size t' = tk_size t + of_nat (length (table_bytes c ''stss'' ngx_mp4_set_32value (stss_data t')))"
    "copied_sizes t' = copied_sizes t" "stts_data t' = stts_data t" "ctts_data t' = ctts_data t" "stsc_data t' = stsc_data t"
    "stsz_data t' = stsz_data t" "stco_data t' = stco_data t" "co64_data t' = co64_data t"
  using assms by (auto simp: ngx_http_mp4_update_stss_atom_def length_table_bytes table_bytes_def [of c _ _ None] Let_def copied_sizes_def
      split: option.splits)

lemma ctts_size:
  assumes "ngx_http_mp4_update_ctts_atom t = t'" "length (mc_flags c ''ctts'') = 4"
  shows "tk_size t' = tk_size t + of_nat (length (table_bytes c ''ctts'' put_pair (ctts_data t')))"
    "copied_sizes t' = copied_sizes t" "stts_data t' = stts_data t" "stss_data t' = stss_data t" "stsc_data t' = stsc_data t"
    "stsz_data t' = stsz_data t" "stco_data t' = stco_data t" "co64_data t' = co64_data t"
  using assms by (auto simp: ngx_http_mp4_update_ctts_atom_def length_table_bytes table_bytes_def [of c _ _ None] Let_def copied_sizes_def
      split: option.splits)

lemma stsc_size:
  assumes "ngx_http_mp4_update_stsc_atom t = Mp4_Ok t'" "length (mc_flags c ''stsc'') = 4"
  shows "tk_size t' = tk_size t + of_nat (length (stsc_bytes c t'))"
    "copied_sizes t' = copied_sizes t" "stts_data t' = stts_data t" "stss_data t' = stss_data t" "ctts_data t' = ctts_data t"
    "stsz_data t' = stsz_data t" "stco_data t' = stco_data t" "co64_data t' = co64_data t"
  using assms length_entries [of put_triple 12]
  by (auto simp: ngx_http_mp4_update_stsc_atom_def stsc_bytes_def length_table_header Let_def copied_sizes_def
      split: option.splits list.splits if_splits prod.splits)

lemma stsz_size:
  assumes "ngx_http_mp4_update_stsz_atom t = Mp4_Ok t'" "length (mc_flags c ''stsz'') = 4"
  shows "tk_size t' = tk_size t + (if stsz_data t = None then 0 else of_nat (length (stsz_bytes c t')))" "stsz_data t' = None \<longleftrightarrow> stsz_data t = None"
    "copied_sizes t' = copied_sizes t" "stts_data t' = stts_data t" "stss_data t' = stss_data t" "ctts_data t' = ctts_data t"
    "stsc_data t' = stsc_data t" "stsc_chunk t' = stsc_chunk t" "stco_data t' = stco_data t" "co64_data t' = co64_data t"
  using assms length_entries [of ngx_mp4_set_32value 4]
  by (auto simp: ngx_http_mp4_update_stsz_atom_def stsz_bytes_def Let_def copied_sizes_def split: option.splits if_splits)

lemma offset_size:
  assumes "(if co64_data t \<noteq> None then ngx_http_mp4_update_co64_atom t else ngx_http_mp4_update_stco_atom t) = Mp4_Ok t'"
    "\<And>name. length (mc_flags c name) = 4" "stco_data t = None \<or> co64_data t = None"
  shows "tk_size t' = tk_size t + of_nat (length (table_bytes c ''stco'' ngx_mp4_set_32value (stco_data t')) +
        length (table_bytes c ''co64'' ngx_mp4_set_64value (co64_data t')))"
    "copied_sizes t' = copied_sizes t" "stts_data t' = stts_data t" "stss_data t' = stss_data t" "ctts_data t' = ctts_data t"
    "stsc_data t' = stsc_data t" "stsc_chunk t' = stsc_chunk t" "stsz_data t' = stsz_data t"
  using assms
  by (auto simp: ngx_http_mp4_update_co64_atom_def ngx_http_mp4_update_stco_atom_def length_table_bytes table_bytes_def [of c _ _ None] Let_def
      copied_sizes_def split: option.splits if_splits list.splits)

section \<open>The sizes of atoms\<close>

text \<open>What the enclosing atoms add to the tables.\<close>

definition mp4_enclose :: "mp4_trak \<Rightarrow> mp4_trak" where
  "mp4_enclose trak =
     (let trak = ngx_http_mp4_update_stbl_atom trak;
          trak = ngx_http_mp4_update_minf_atom trak;
          trak = trak\<lparr>tk_size := tk_size trak + mdhd_size trak\<rparr>;
          trak = trak\<lparr>tk_size := tk_size trak + hdlr_size trak\<rparr>;
          trak = ngx_http_mp4_update_mdia_atom trak;
          trak = trak\<lparr>tk_size := tk_size trak + tkhd_size trak\<rparr> in
      ngx_http_mp4_update_trak_atom trak)"

lemma process_trak_chain:
  assumes "mp4_process_trak start t = Mp4_Ok t'"
  obtains t1 t2 t4 t5 t6 where "ngx_http_mp4_update_stts_atom start t = Mp4_Ok t1" "ngx_http_mp4_update_stss_atom t1 = Mp4_Ok t2"
    "ngx_http_mp4_update_stsc_atom (ngx_http_mp4_update_ctts_atom t2) = Mp4_Ok t4" "ngx_http_mp4_update_stsz_atom t4 = Mp4_Ok t5"
    "(if co64_data t5 \<noteq> None then ngx_http_mp4_update_co64_atom t5 else ngx_http_mp4_update_stco_atom t5) = Mp4_Ok t6" "t' = mp4_enclose t6"
  using assms by (auto simp: mp4_process_trak_def mp4_enclose_def Let_def bind_Ok)

lemma enclose_tables:
  "stts_data (mp4_enclose t) = stts_data t" "stss_data (mp4_enclose t) = stss_data t" "ctts_data (mp4_enclose t) = ctts_data t"
  "stsc_data (mp4_enclose t) = stsc_data t" "stsc_chunk (mp4_enclose t) = stsc_chunk t" "stsz_data (mp4_enclose t) = stsz_data t"
  "stco_data (mp4_enclose t) = stco_data t" "co64_data (mp4_enclose t) = co64_data t"
  "tk_size (mp4_enclose t) = tk_size t + (32 + vmhd_size t + smhd_size t + dinf_size t + mdhd_size t + hdlr_size t + tkhd_size t)"
  by (simp_all add: mp4_enclose_def ngx_http_mp4_update_stbl_atom_def ngx_http_mp4_update_minf_atom_def ngx_http_mp4_update_mdia_atom_def
      ngx_http_mp4_update_trak_atom_def Let_def)

lemma enclose_bytes: "stsc_bytes c (mp4_enclose t) = stsc_bytes c t" "stsz_bytes c (mp4_enclose t) = stsz_bytes c t"
  unfolding stsc_bytes_def stsz_bytes_def enclose_tables by (rule refl)+

lemma trak_size:
  assumes c: "copied_ok c t" and p: "mp4_process_trak start t = Mp4_Ok t'"
  shows "tk_size t' = of_nat (length (trak_bytes c t'))"
proof -
  obtain t1 t2 t4 t5 t6 where s: "ngx_http_mp4_update_stts_atom start t = Mp4_Ok t1" "ngx_http_mp4_update_stss_atom t1 = Mp4_Ok t2"
    "ngx_http_mp4_update_stsc_atom (ngx_http_mp4_update_ctts_atom t2) = Mp4_Ok t4" "ngx_http_mp4_update_stsz_atom t4 = Mp4_Ok t5"
    "(if co64_data t5 \<noteq> None then ngx_http_mp4_update_co64_atom t5 else ngx_http_mp4_update_stco_atom t5) = Mp4_Ok t6" "t' = mp4_enclose t6"
    using p by (rule process_trak_chain)
  have flags: "length (mc_flags c name) = 4" for name using c by (simp add: copied_ok_def)
  note z1 = stts_size [OF s(1) flags] and z2 = stss_size [OF s(2) flags] and z3 = ctts_size [OF refl flags, of t2]
    and z4 = stsc_size [OF s(3) flags] and z5 = stsz_size [OF s(4) flags]
  have one: "stco_data t5 = None \<or> co64_data t5 = None"
    using c by (simp add: copied_ok_def z1 z2 z3 z4 z5)
  note z6 = offset_size [OF s(5) flags one]
  have sizes: "copied_sizes t6 = copied_sizes t" by (simp add: z1 z2 z3 z4 z5 z6)
  have stsc: "stsc_bytes c t6 = stsc_bytes c t4" "stsz_bytes c t6 = stsz_bytes c t5"
    unfolding stsc_bytes_def stsz_bytes_def z6(6-8) z5(7,8) by (rule refl)+
  have stsz: "(if stsz_data t = None then of_nat (length (mc_stsz c)) else 0) + (if stsz_data t4 = None then 0 else of_nat (length (stsz_bytes c t5))) =
      (of_nat (length (stsz_bytes c t5)) :: ngx_uint_t)"
    using z5(2) by (auto simp: z1 z2 z3 z4 stsz_bytes_def)
  have tables: "stts_data t6 = stts_data t1" "stss_data t6 = stss_data t2" "ctts_data t6 = ctts_data (ngx_http_mp4_update_ctts_atom t2)"
    by (simp_all add: z2 z3 z4 z5 z6)
  have "tk_size t6 = of_nat (length (mc_stsd c)) + of_nat (length (table_bytes c ''stts'' put_pair (stts_data t6))) +
      of_nat (length (table_bytes c ''stss'' ngx_mp4_set_32value (stss_data t6))) + of_nat (length (table_bytes c ''ctts'' put_pair (ctts_data t6))) +
      of_nat (length (stsc_bytes c t6)) + of_nat (length (stsz_bytes c t6)) +
      of_nat (length (table_bytes c ''stco'' ngx_mp4_set_32value (stco_data t6)) + length (table_bytes c ''co64'' ngx_mp4_set_64value (co64_data t6)))"
    (is "_ = ?d + ?a + ?b + ?c + ?e + ?z + ?o")
  proof -
    let ?x = "if stsz_data t = None then of_nat (length (mc_stsz c)) else 0 :: ngx_uint_t"
    let ?y = "if stsz_data t4 = None then 0 else of_nat (length (stsz_bytes c t5)) :: ngx_uint_t"
    have "tk_size t = ?d + ?x" using c by (simp add: copied_ok_def)
    then have "tk_size t1 = ?d + ?x + ?a" using z1(1) tables(1) by simp
    then have "tk_size t2 = ?d + ?x + ?a + ?b" using z2(1) tables(2) by simp
    then have "tk_size (ngx_http_mp4_update_ctts_atom t2) = ?d + ?x + ?a + ?b + ?c" using z3(1) tables(3) by simp
    then have "tk_size t4 = ?d + ?x + ?a + ?b + ?c + ?e" using z4(1) stsc(1) by simp
    then have "tk_size t5 = ?d + ?x + ?a + ?b + ?c + ?e + ?y" using z5(1) by (simp only:)
    also have "\<dots> = ?d + ?a + ?b + ?c + ?e + (?x + ?y)" by (simp only: add_ac)
    also have "?x + ?y = ?z" using stsz stsc(2) by (simp only:)
    finally show ?thesis using z6(1) by (simp only:)
  qed
  then show ?thesis using c sizes
    by (simp add: s(6) enclose_tables enclose_bytes trak_bytes_def copied_sizes_def copied_ok_def)
qed

lemma adjust_length: "length (trak_bytes c (mp4_adjust a t)) = length (trak_bytes c t)"
  by (auto simp: length_concat o_def sum_list_triv mp4_adjust_def ngx_http_mp4_adjust_stco_atom_def ngx_http_mp4_adjust_co64_atom_def trak_bytes_def stsc_bytes_def stsz_bytes_def
      table_bytes_def table_header_def split: option.splits)

lemma process_traks_size:
  assumes "mp4_process_traks start ts moov off = Mp4_Ok (ts', moov', off')" "list_all2 copied_ok cs ts"
  shows "moov' = moov + of_nat (length (concat (map2 trak_bytes cs ts')))"
  using assms
proof (induction ts arbitrary: cs moov off ts' moov' off')
  case (Cons t ts)
  then obtain c cs1 where cs: "cs = c # cs1" "copied_ok c t" "list_all2 copied_ok cs1 ts" by (auto simp: list_all2_Cons2)
  from Cons.prems(1) obtain t1 ts1 where s: "mp4_process_trak start t = Mp4_Ok t1"
      "mp4_process_traks start ts (moov + tk_size t1) (if sint off > sint (start_offset t1) then start_offset t1 else off) = Mp4_Ok (ts1, moov', off')"
      "ts' = t1 # ts1" by (auto simp: bind_Ok split: prod.splits)
  show ?case using Cons.IH [OF s(2) cs(3)] trak_size [OF cs(2) s(1)] by (simp add: cs(1) s(3) add.assoc)
qed simp

lemma adjust_all_length: "length (concat (map2 trak_bytes cs (map (mp4_adjust a) ts))) = length (concat (map2 trak_bytes cs ts))"
proof (induction cs arbitrary: ts)
  case (Cons c cs)
  then show ?case by (cases ts) (simp_all add: adjust_length)
qed simp

text \<open>The size that the \<^verbatim>\<open>moov\<close> atom announces is the length of its bytes.\<close>

lemma moov_size:
  assumes p: "ngx_http_mp4_process mp4 = Mp4_Ok mp4'" and c: "list_all2 copied_ok cs (mp_traks mp4)"
    and m: "mp_moov_size mp4 = 0" "of_nat (length mvhd) = (case mp_mvhd_size mp4 of None \<Rightarrow> 0 | Some n \<Rightarrow> n)"
  shows "mp_moov_size mp4' = of_nat (length (moov_bytes mvhd cs mp4'))"
    "mp_moov_header mp4' = atom_header (ucast (mp_moov_size mp4')) ''moov''"
proof -
  obtain fl where fl: "mp_mdat_last mp4 = Some fl" using p by (auto simp: ngx_http_mp4_process_def split: if_splits option.splits)
  let ?moov = "mp_moov_size mp4 + (case mp_mvhd_size mp4 of None \<Rightarrow> 0 | Some n \<Rightarrow> n)"
  obtain ts moov1 off where q: "mp4_process_traks (mp_start mp4) (mp_traks mp4) ?moov (mp_end mp4) = Mp4_Ok (ts, moov1, off)"
    using p fl unfolding ngx_http_mp4_process_def by (auto simp: bind_Ok split: if_splits)
  have "\<exists>a. mp_traks mp4' = map (mp4_adjust a) ts \<and> mp_moov_size mp4' = moov1 + 8 \<and>
      mp_moov_header mp4' = ngx_mp4_set_32value (ucast (moov1 + 8)) @ atom_name ''moov''"
    using p fl q unfolding ngx_http_mp4_process_def Let_def
    by (auto simp: ngx_http_mp4_update_mdat_atom_def Let_def split: if_splits)
  then obtain a where a: "mp_traks mp4' = map (mp4_adjust a) ts" "mp_moov_size mp4' = moov1 + 8"
      "mp_moov_header mp4' = ngx_mp4_set_32value (ucast (moov1 + 8)) @ atom_name ''moov''" by blast
  show h: "mp_moov_header mp4' = atom_header (ucast (mp_moov_size mp4')) ''moov''" by (simp add: a atom_header_def)
  show "mp_moov_size mp4' = of_nat (length (moov_bytes mvhd cs mp4'))"
    using process_traks_size [OF q c] m adjust_all_length [of cs a ts] by (simp add: moov_bytes_def h a(1,2) add.commute)
qed

end
