(* ===== verification/Mp4_File.thy ===== *)
theory Mp4_File
  imports Mp4_Moov
begin

unbundle bit_operations_syntax

text \<open>
  What the server sends for a seek: the tables of all tracks, cut by \<open>Mp4_Track\<close>, are adjusted to the new place of the media
  data, and from each position that they name on, the bytes sent are those of the stored file.
\<close>

section \<open>The tracks\<close>

lemma process_traks_list:
  assumes "mp4_process_traks start ts moov off = Mp4_Ok (ts', moov', off')"
  shows "list_all2 (\<lambda>t t'. mp4_process_trak start t = Mp4_Ok t') ts ts'" "sint off' \<le> sint off"
    "\<And>t'. t' \<in> set ts' \<Longrightarrow> sint off' \<le> sint (start_offset t')" "off' = off \<or> off' \<in> start_offset ` set ts'"
  using assms
proof (induction ts arbitrary: moov off ts' moov' off')
  case (Cons t ts)
  {
    case 1
    then show ?case using Cons.IH(1) by (auto simp: bind_Ok split: prod.splits)
  next
    case 2
    then show ?case using Cons.IH(2) by (fastforce simp: bind_Ok split: prod.splits if_splits)
  next
    case (3 t')
    then obtain t1 ts1 moov1 off1 where s: "mp4_process_trak start t = Mp4_Ok t1"
      "mp4_process_traks start ts (moov + tk_size t1) (if sint off > sint (start_offset t1) then start_offset t1 else off) = Mp4_Ok (ts1, moov1, off1)"
      "ts' = t1 # ts1" "off' = off1" by (auto simp: bind_Ok split: prod.splits)
    show ?case
    proof (cases "t' = t1")
      case True
      then show ?thesis using Cons.IH(2) [OF s(2)] s(4) by (auto split: if_splits)
    next
      case False
      then show ?thesis using Cons.IH(3) [OF _ s(2)] 3(1) s(3,4) by auto
    qed
  next
    case 4
    then obtain t1 ts1 moov1 off1 where s:
      "mp4_process_traks start ts (moov + tk_size t1) (if sint off > sint (start_offset t1) then start_offset t1 else off) = Mp4_Ok (ts1, moov1, off1)"
      "ts' = t1 # ts1" "off' = off1" by (auto simp: bind_Ok split: prod.splits)
    then show ?case using Cons.IH(4) [OF s(1)] by (auto split: if_splits)
  }
qed simp_all

section \<open>Moving the media data\<close>

lemma offsets_shift: "off \<le> pos \<Longrightarrow> offsets (pos + h - off) szs = map (\<lambda>p. p + h - off) (offsets pos szs)"
proof (induction szs arbitrary: pos)
  case (Cons z szs)
  have "pos + h - off + z = pos + z + h - off" using Cons.prems by simp
  then show ?case using Cons.IH [of "pos + z"] Cons.prems by simp
qed simp

lemma offsets_ge: "off \<le> pos \<Longrightarrow> p \<in> set (offsets pos szs) \<Longrightarrow> off \<le> p"
proof (induction szs arbitrary: pos)
  case (Cons z szs)
  then show ?case using Cons.IH [of "pos + z"] by auto
qed simp

lemma layout_shift:
  "(\<And>p. p \<in> set ps \<Longrightarrow> off \<le> p) \<Longrightarrow> layout ns (map (\<lambda>p. p + h - off) ps) szs = map (\<lambda>p. p + h - off) (layout ns ps szs)"
  by (induction ns ps szs rule: layout.induct) (simp_all add: offsets_shift)

lemma layout_ge: "(\<And>p. p \<in> set ps \<Longrightarrow> off \<le> p) \<Longrightarrow> p \<in> set (layout ns ps szs) \<Longrightarrow> off \<le> p"
  by (induction ns ps szs rule: layout.induct) (auto dest: offsets_ge [rotated])

text \<open>Adding the adjustment in 32 or 64 bits moves the offsets, even when the media data move towards the beginning.\<close>

lemma unat_shift64:
  assumes "unat off \<le> unat (d :: ngx_uint_t)" "unat d + unat h < 2 ^ 64"
  shows "unat (d + (h - off)) = unat d + unat h - unat off"
proof -
  have "off \<le> d" using assms(1) by (simp add: word_le_nat_alt)
  then have "unat (d - off) = unat d - unat off" by (simp add: unat_sub)
  moreover have "unat (d - off + h) = unat (d - off) + unat h"
    using assms calculation by (simp add: unat_word_ariths(1))
  moreover have "d + (h - off) = d - off + h" by simp
  ultimately show ?thesis using assms(1) by presburger
qed

lemma ucast_add_down: "ucast (ucast (d :: uint32) + x :: ngx_uint_t) = d + ucast x"
  by (simp add: word_unat_eq_iff unat_word_ariths unsigned_ucast_eq take_bit_eq_mod mod_mod_cancel mod_simps)

lemma unat_shift32:
  assumes "unat off \<le> unat (d :: uint32)" "unat d + unat h < 2 ^ 32"
  shows "unat (d + ucast (h - off :: ngx_uint_t)) = unat d + unat h - unat off"
proof -
  have u: "unat (ucast d + (h - off)) = unat d + unat h - unat off" using assms by (subst unat_shift64) simp_all
  then have "unat (ucast (ucast d + (h - off)) :: uint32) = unat d + unat h - unat off" using assms by (simp add: unat_ucast_down)
  moreover have "ucast (ucast d + (h - off)) = d + ucast (h - off)" by (rule ucast_add_down)
  ultimately show ?thesis by simp
qed

lemma adjust_offsets:
  assumes "co64_data t = None \<Longrightarrow> stco_data t \<noteq> None"
    "\<And>d. d \<in> set (chunk_offsets t) \<Longrightarrow> unat off \<le> d \<and> d + unat h < (if co64_data t = None then 2 ^ 32 else 2 ^ 64)"
  shows "chunk_offsets (mp4_adjust (h - off) t) = map (\<lambda>d. d + unat h - unat off) (chunk_offsets t)"
proof (cases "co64_data t")
  case None
  obtain tb where tb: "stco_data t = Some tb" using assms(1) None by blast
  have "unat (d + ucast (h - off)) = unat d + unat h - unat off" if "d \<in> set (tb_data tb)" for d
    using that assms(2) [of "unat d"] None tb by (intro unat_shift32) (simp_all add: chunk_offsets_def)
  then show ?thesis using None tb by (simp add: mp4_adjust_def ngx_http_mp4_adjust_stco_atom_def chunk_offsets_def)
next
  case (Some tb)
  have "unat (d + (h - off)) = unat d + unat h - unat off" if "d \<in> set (tb_data tb)" for d
    using that assms(2) [of "unat d"] Some by (intro unat_shift64) (simp_all add: chunk_offsets_def)
  then show ?thesis using Some by (simp add: mp4_adjust_def ngx_http_mp4_adjust_co64_atom_def chunk_offsets_def)
qed

lemma adjust_other [simp]:
  "durations (mp4_adjust a t) = durations t" "sizes (mp4_adjust a t) = sizes t"
  "first_entries (mp4_adjust a t) = first_entries t" "stsc_table (mp4_adjust a t) = stsc_table t"
  "start_chunk (mp4_adjust a t) = start_chunk t" "chunk_samples (mp4_adjust a t) = chunk_samples t"
  by (simp_all add: mp4_adjust_def ngx_http_mp4_adjust_stco_atom_def ngx_http_mp4_adjust_co64_atom_def durations_def sizes_def
      first_entries_def stsc_table_def)

lemma adjust_positions:
  assumes "co64_data t = None \<Longrightarrow> stco_data t \<noteq> None"
    "\<And>d. d \<in> set (chunk_offsets t) \<Longrightarrow> unat off \<le> d \<and> d + unat h < (if co64_data t = None then 2 ^ 32 else 2 ^ 64)"
  shows "positions (mp4_adjust (h - off) t) = map (\<lambda>p. p + unat h - unat off) (positions t)"
    "\<And>p. p \<in> set (positions t) \<Longrightarrow> unat off \<le> p"
proof -
  note off = adjust_offsets [OF assms]
  have "chunk_counts (mp4_adjust (h - off) t) = chunk_counts t" by (simp add: chunk_counts_def off)
  then show "positions (mp4_adjust (h - off) t) = map (\<lambda>p. p + unat h - unat off) (positions t)"
    using assms(2) by (simp add: positions_def off layout_shift)
  show "unat off \<le> p" if "p \<in> set (positions t)" for p
    using that assms(2) layout_ge [of "chunk_offsets t" "unat off" p] by (auto simp: positions_def)
qed

section \<open>The file that is sent\<close>

text \<open>The chunks of a track are in order, up to the end of the media data.\<close>

definition in_order :: "nat \<Rightarrow> mp4_trak \<Rightarrow> bool" where
  "in_order fl t \<longleftrightarrow>
     (\<forall>k<length (chunk_offsets t). chunk_end t k \<le> (if Suc k < length (chunk_offsets t) then chunk_offsets t ! Suc k else fl))"

lemma in_order_end:
  assumes "in_order fl t" "k < length (chunk_offsets t)"
  shows "chunk_end t k \<le> fl" "\<And>j. k < j \<Longrightarrow> j < length (chunk_offsets t) \<Longrightarrow> chunk_end t k \<le> chunk_offsets t ! j"
proof -
  have le: "chunk_offsets t ! j \<le> chunk_end t j" for j by (simp add: chunk_end_def)
  show later: "chunk_end t k \<le> chunk_offsets t ! j" if "k < j" "j < length (chunk_offsets t)" for j
    using that
  proof (induction j)
    case (Suc j)
    have step: "chunk_end t j \<le> chunk_offsets t ! Suc j" using assms(1) Suc.prems unfolding in_order_def by (metis Suc_lessD)
    show ?case
    proof (cases "k = j")
      case False
      then show ?thesis using Suc le [of j] step by simp
    qed (use step in simp)
  qed simp
  let ?m = "length (chunk_offsets t) - 1"
  have m: "?m < length (chunk_offsets t)" "\<not> Suc ?m < length (chunk_offsets t)" using assms(2) by simp_all
  have last: "chunk_end t ?m \<le> fl" using assms(1) m unfolding in_order_def by (metis (full_types))
  show "chunk_end t k \<le> fl"
  proof (cases "k = ?m")
    case False
    then have "chunk_end t k \<le> chunk_offsets t ! ?m" using assms(2) by (intro later) simp_all
    then show ?thesis using last le [of ?m] by linarith
  qed (use last in simp)
qed

text \<open>After the cut: every offset lies between the first one and the end.\<close>

lemma cut_offsets:
  assumes "trak_ok t" "in_order fl t" "mp4_process_trak start t = Mp4_Ok t'" "d \<in> set (chunk_offsets t')"
  shows "unat (start_offset t') \<le> d" "d \<le> fl"
proof -
  obtain k x where kx: "k < length (chunk_offsets t)" "chunk_offsets t' = x # drop (Suc k) (chunk_offsets t)" "x \<le> chunk_end t k"
    using trak_cut(8) [OF assms(1,3)] by blast
  have x: "unat (start_offset t') = x" using trak_cut(7) [OF assms(1,3)] kx(2) by simp
  have "x \<le> d \<and> d \<le> fl"
  proof (cases "d = x")
    case True
    then show ?thesis using kx(3) in_order_end(1) [OF assms(2) kx(1)] by simp
  next
    case False
    then obtain j where "j < length (drop (Suc k) (chunk_offsets t))" "d = drop (Suc k) (chunk_offsets t) ! j"
      using assms(4) kx(2) by (auto simp: in_set_conv_nth)
    then have j: "Suc k + j < length (chunk_offsets t)" "d = chunk_offsets t ! (Suc k + j)" by simp_all
    have "chunk_end t k \<le> d" using in_order_end(2) [OF assms(2) kx(1), of "Suc k + j"] j by simp
    moreover have "d \<le> chunk_end t (Suc k + j)" using j(2) by (simp add: chunk_end_def)
    ultimately show ?thesis using kx(3) in_order_end(1) [OF assms(2) j(1)] by linarith
  qed
  then show "unat (start_offset t') \<le> d" "d \<le> fl" using x by simp_all
qed

lemma cut_start:
  assumes "trak_ok t" "in_order fl t" "mp4_process_trak start t = Mp4_Ok t'"
  shows "unat (start_offset t') \<le> fl"
proof -
  have "chunk_offsets t' \<noteq> []" using trak_cut(8) [OF assms(1,3)] by auto
  then have "unat (start_offset t') \<in> set (chunk_offsets t')" using trak_cut(7) [OF assms(1,3)] by simp
  then show ?thesis using cut_offsets(2) [OF assms] by blast
qed

text \<open>The bytes that are sent: the \<^verbatim>\<open>ftyp\<close> and \<^verbatim>\<open>moov\<close> atoms, the header of the media data and the media data from the first sample on.\<close>

definition sent_file :: "u_char list \<Rightarrow> u_char list \<Rightarrow> u_char list \<Rightarrow> mp4_file \<Rightarrow> u_char list" where
  "sent_file ftyp moov stored mp4 =
     ftyp @ moov @ mp_mdat_header mp4 @ drop (unat (mp_mdat_pos mp4)) (take (unat (the (mp_mdat_last mp4))) stored)"

lemma update_mdat:
  assumes "ngx_http_mp4_update_mdat_atom fl off mp4 = (n, mp4')"
  shows "unat n = length (mp_mdat_header mp4')" "unat n \<le> 16" "mp_mdat_pos mp4' = off" "mp_mdat_last mp4' = mp_mdat_last mp4"
    "mp_ftyp_size mp4' = mp_ftyp_size mp4" "mp_moov_size mp4' = mp_moov_size mp4"
    "mp_content_length mp4' = mp_content_length mp4 + (n + (fl - off))"
  using assms by (auto simp: ngx_http_mp4_update_mdat_atom_def Let_def ngx_mp4_set_32value_def ngx_mp4_set_64value_def atom_name_def split: if_splits)

text \<open>The chain of a successful run.\<close>

lemma process_steps:
  assumes "ngx_http_mp4_process mp4 = Mp4_Ok mp4'" "mp_mdat_last mp4 = Some fl"
  obtains ts moov off n where "mp4_process_traks (mp_start mp4) (mp_traks mp4) moov (mp_end mp4) = Mp4_Ok (ts, mp_moov_size mp4' - 8, off)"
    "mp_traks mp4' = map (mp4_adjust (mp_ftyp_size mp4 + mp_moov_size mp4' + n - off)) ts" "unat n = length (mp_mdat_header mp4')" "unat n \<le> 16"
    "mp_mdat_pos mp4' = off" "mp_mdat_last mp4' = Some fl" "sint off \<le> sint fl"
    "mp_content_length mp4' = mp_content_length mp4 + mp_moov_size mp4' + (n + (fl - off))"
proof -
  let ?moov = "mp_moov_size mp4 + (case mp_mvhd_size mp4 of None \<Rightarrow> 0 | Some n \<Rightarrow> n)"
  obtain ts moov1 off where p: "mp4_process_traks (mp_start mp4) (mp_traks mp4) ?moov (mp_end mp4) = Mp4_Ok (ts, moov1, off)"
    using assms unfolding ngx_http_mp4_process_def by (auto simp: bind_Ok split: if_splits)
  let ?mp4 = "mp4\<lparr>mp_moov_size := moov1 + 8, mp_moov_header := ngx_mp4_set_32value (ucast (moov1 + 8)) @ atom_name ''moov'',
    mp_content_length := mp_content_length mp4 + (moov1 + 8)\<rparr>"
  obtain n mp1 where u: "ngx_http_mp4_update_mdat_atom fl off ?mp4 = (n, mp1)" by (cases "ngx_http_mp4_update_mdat_atom fl off ?mp4")
  have m: "mp4' = mp1\<lparr>mp_traks := map (mp4_adjust (mp_ftyp_size mp1 + (moov1 + 8) + n - off)) ts\<rparr>"
    using assms p u unfolding ngx_http_mp4_process_def Let_def by (simp split: if_splits)
  have "sint off \<le> sint fl" using assms p unfolding ngx_http_mp4_process_def by (simp add: Let_def split: if_splits)
  then show thesis using p update_mdat [OF u] assms(2) by (intro that [of ?moov ts off n]) (simp_all add: m)
qed

lemma drop_sent: "off \<le> p \<Longrightarrow> drop (p + length hs - off) (hs @ drop off xs) = drop p xs"
proof -
  assume "off \<le> p"
  then have "p + length hs - off = length hs + (p - off)" "p - off + off = p" by simp_all
  then show ?thesis by simp
qed

text \<open>One track, when the media data move from \<open>off\<close> to \<open>h\<close>.\<close>

lemma track_sent:
  assumes ok: "trak_ok t" "in_order fl t" "fl + unat h < (if co64_data t = None then 2 ^ 32 else 2 ^ 63)"
    and p: "mp4_process_trak start t = Mp4_Ok t'" and off: "unat off \<le> unat (start_offset t')"
    and sent: "\<And>p. unat off \<le> p \<Longrightarrow> drop (p + unat h - unat off) sent = drop p old"
  defines "t1 \<equiv> mp4_adjust (h - off) t'"
  shows "\<exists>s<length (sizes t). durations t1 = drop s (durations t) \<and> sizes t1 = drop s (sizes t) \<and>
    (\<not> before_last_chunk t t1 \<longrightarrow> length (positions t1) = length (positions t) - s \<and>
      (\<forall>j<length (positions t1). drop (positions t1 ! j) sent = drop (positions t ! (s + j)) old))"
proof -
  let ?s = "unat (start_sample t')"
  note c = trak_cut [OF ok(1) p]
  have room: "unat off \<le> d \<and> d + unat h < (if co64_data t' = None then 2 ^ 32 else 2 ^ 64)" if "d \<in> set (chunk_offsets t')" for d
  proof -
    have d: "unat off \<le> d" "d + unat h \<le> fl + unat h" using cut_offsets [OF ok(1,2) p that] off by simp_all
    show ?thesis
    proof (cases "co64_data t = None")
      case True
      then show ?thesis using d ok(3) c(9) by simp
    next
      case False
      have "fl + unat h < 2 ^ 63" using ok(3) unfolding if_not_P [OF False] .
      moreover have "\<not> co64_data t' = None" using False c(9) by simp
      ultimately show ?thesis using d unfolding if_not_P [OF \<open>\<not> co64_data t' = None\<close>] by simp
    qed
  qed
  note ap = adjust_positions [OF mp [OF c(10)] room]
  have "length (positions t1) = length (positions t) - ?s \<and>
      (\<forall>j<length (positions t1). drop (positions t1 ! j) sent = drop (positions t ! (?s + j)) old)" if "\<not> before_last_chunk t t'"
  proof -
    have "unat off \<le> drop ?s (positions t) ! j" if "j < length (positions t) - ?s" for j
      using ap(2) that unfolding c(6) [OF \<open>\<not> before_last_chunk t t'\<close>] by (metis length_drop nth_mem)
    then show ?thesis using c(6) [OF that] ap(1) sent by (simp add: t1_def)
  qed
  moreover have "length (durations t) = length (sizes t)" using ok(1) by (simp add: trak_ok_def)
  moreover have "before_last_chunk t t1 = before_last_chunk t t'" by (simp add: before_last_chunk_def t1_def)
  ultimately show ?thesis using c(1-3) by (intro exI [of _ ?s]) (simp add: t1_def)
qed

lemma sends_samples:
  assumes p: "ngx_http_mp4_process mp4 = Mp4_Ok mp4'" and fl: "mp_mdat_last mp4 = Some fl"
    and ok: "\<forall>t\<in>set (mp_traks mp4). trak_ok t \<and> in_order (unat fl) t \<and>
      unat fl + (length ftyp + length moov + 16) < (if co64_data t = None then 2 ^ 32 else 2 ^ 63)"
    and len: "length ftyp = unat (mp_ftyp_size mp4)" "length moov = unat (mp_moov_size mp4')" "unat (mp_end mp4) < 2 ^ 63"
  shows "list_all2 (\<lambda>t t'. \<exists>s<length (sizes t). durations t' = drop s (durations t) \<and> sizes t' = drop s (sizes t) \<and>
      (\<not> before_last_chunk t t' \<longrightarrow> length (positions t') = length (positions t) - s \<and>
        (\<forall>j<length (positions t'). drop (positions t' ! j) (sent_file ftyp moov stored mp4') = drop (positions t ! (s + j)) (take (unat fl) stored))))
    (mp_traks mp4) (mp_traks mp4')"
proof -
  obtain ts moov0 off n where st: "mp4_process_traks (mp_start mp4) (mp_traks mp4) moov0 (mp_end mp4) = Mp4_Ok (ts, mp_moov_size mp4' - 8, off)"
    "mp_traks mp4' = map (mp4_adjust (mp_ftyp_size mp4 + mp_moov_size mp4' + n - off)) ts" "unat n = length (mp_mdat_header mp4')" "unat n \<le> 16"
    "mp_mdat_pos mp4' = off" "mp_mdat_last mp4' = Some fl"
    using p fl by (rule process_steps) blast
  note tr = process_traks_list [OF st(1)]
  let ?h = "mp_ftyp_size mp4 + mp_moov_size mp4' + n"
  have sums: "unat fl + (length ftyp + length moov + 16) < 2 ^ 63" if "t \<in> set (mp_traks mp4)" for t
    using ok that by (cases "co64_data t = None") fastforce+
  have h: "unat ?h = length ftyp + length moov + unat n" if "t \<in> set (mp_traks mp4)" for t
    using sums [OF that] len st(4) by (simp add: unat_word_ariths(1))
  have small: "unat (start_offset t') < 2 ^ 63" if t': "t' \<in> set ts" for t'
  proof -
    obtain i where i: "i < length ts" "t' = ts ! i" using t' by (metis in_set_conv_nth)
    then have "mp_traks mp4 ! i \<in> set (mp_traks mp4)" "mp4_process_trak (mp_start mp4) (mp_traks mp4 ! i) = Mp4_Ok t'"
      using tr(1) by (simp_all add: list_all2_conv_all_nth)
    then obtain t where t: "t \<in> set (mp_traks mp4)" "mp4_process_trak (mp_start mp4) t = Mp4_Ok t'" by blast
    have "trak_ok t" "in_order (unat fl) t" using ok t(1) by simp_all
    then have "unat (start_offset t') \<le> unat fl" using t(2) by (rule cut_start)
    then show ?thesis using sums [OF t(1)] by simp
  qed
  have off: "unat off \<le> unat (start_offset t')" if "t' \<in> set ts" for t'
  proof -
    have "unat off < 2 ^ 63" using tr(4) small len(3) by auto
    then show ?thesis using tr(3) [OF that] small [OF that] by (simp only: sint_unat of_nat_le_iff)
  qed
  have from_sample: "drop (p + unat ?h - unat off) (sent_file ftyp moov stored mp4') = drop p (take (unat fl) stored)"
    if "t \<in> set (mp_traks mp4)" "unat off \<le> p" for t p
  proof -
    have "unat ?h = length (ftyp @ moov @ mp_mdat_header mp4')" using h [OF that(1)] st(3) by simp
    moreover have "sent_file ftyp moov stored mp4' = (ftyp @ moov @ mp_mdat_header mp4') @ drop (unat off) (take (unat fl) stored)"
      by (simp add: sent_file_def st(5,6))
    ultimately show ?thesis by (simp only: drop_sent [OF that(2)])
  qed
  show ?thesis unfolding st(2) list_all2_map2
  proof (rule list.rel_mono_strong [OF tr(1)])
    fix t t' assume t: "t \<in> set (mp_traks mp4)" "t' \<in> set ts" "mp4_process_trak (mp_start mp4) t = Mp4_Ok t'"
    note tok = bspec [OF ok t(1)]
    have "unat fl + unat ?h \<le> unat fl + (length ftyp + length moov + 16)" using h [OF t(1)] st(4) by simp
    then have "unat fl + unat ?h < (if co64_data t = None then 2 ^ 32 else 2 ^ 63)"
      by (rule le_less_trans) (use tok in blast)
    then show "\<exists>s<length (sizes t). durations (mp4_adjust (?h - off) t') = drop s (durations t) \<and> sizes (mp4_adjust (?h - off) t') = drop s (sizes t) \<and>
      (\<not> before_last_chunk t (mp4_adjust (?h - off) t') \<longrightarrow> length (positions (mp4_adjust (?h - off) t')) = length (positions t) - s \<and>
        (\<forall>j<length (positions (mp4_adjust (?h - off) t')). drop (positions (mp4_adjust (?h - off) t') ! j) (sent_file ftyp moov stored mp4') =
          drop (positions t ! (s + j)) (take (unat fl) stored)))"
      by (rule track_sent [OF conjunct1 [OF tok] conjunct1 [OF conjunct2 [OF tok]] _ t(3) off [OF t(2)] from_sample [OF t(1)]])
  qed
qed

section \<open>The response\<close>

text \<open>
  The file as it has been read: \<open>ftyp\<close>, \<open>mvhd\<close> and the atoms \<open>cs\<close> of the tracks are the buffers that are kept to be sent, and their
  sizes have been counted.
\<close>

definition file_read :: "u_char list \<Rightarrow> u_char list \<Rightarrow> mp4_copied list \<Rightarrow> mp4_file \<Rightarrow> bool" where
  "file_read ftyp mvhd cs mp4 \<longleftrightarrow>
     of_nat (length ftyp) = mp_ftyp_size mp4 \<and> mp_content_length mp4 = mp_ftyp_size mp4 \<and> mp_moov_size mp4 = 0 \<and>
     of_nat (length mvhd) = (case mp_mvhd_size mp4 of None \<Rightarrow> 0 | Some n \<Rightarrow> n) \<and> list_all2 copied_ok cs (mp_traks mp4)"

lemma sent_length:
  assumes p: "ngx_http_mp4_process mp4 = Mp4_Ok mp4'" and fl: "mp_mdat_last mp4 = Some fl" "unat fl \<le> length stored" "unat fl < 2 ^ 63"
    and ok: "\<forall>t\<in>set (mp_traks mp4). trak_ok t \<and> in_order (unat fl) t" and e: "unat (mp_end mp4) < 2 ^ 63"
    and c: "mp_content_length mp4 = of_nat (length ftyp)" "mp_moov_size mp4' = of_nat (length moov)"
  shows "mp_content_length mp4' = of_nat (length (sent_file ftyp moov stored mp4'))"
proof -
  obtain ts moov0 off n where st: "mp4_process_traks (mp_start mp4) (mp_traks mp4) moov0 (mp_end mp4) = Mp4_Ok (ts, mp_moov_size mp4' - 8, off)"
    "unat n = length (mp_mdat_header mp4')" "mp_mdat_pos mp4' = off" "mp_mdat_last mp4' = Some fl" "sint off \<le> sint fl"
    "mp_content_length mp4' = mp_content_length mp4 + mp_moov_size mp4' + (n + (fl - off))"
    using p fl(1) by (rule process_steps) blast
  note tr = process_traks_list [OF st(1)]
  have "unat off < 2 ^ 63"
  proof (cases "off = mp_end mp4")
    case False
    then obtain t' where t': "t' \<in> set ts" "off = start_offset t'" using tr(4) by auto
    obtain i where i: "i < length ts" "t' = ts ! i" using t'(1) by (auto simp: in_set_conv_nth)
    then have "mp_traks mp4 ! i \<in> set (mp_traks mp4)" "mp4_process_trak (mp_start mp4) (mp_traks mp4 ! i) = Mp4_Ok t'"
      using tr(1) by (simp_all add: list_all2_conv_all_nth)
    then have "unat (start_offset t') \<le> unat fl" using ok cut_start by blast
    then show ?thesis using fl(3) t'(2) by simp
  qed (use e in simp)
  then have le: "unat off \<le> unat fl" using st(5) fl(3) by (simp only: sint_unat of_nat_le_iff)
  have "of_nat (unat fl - unat off) = fl - off" using le by (simp add: of_nat_diff)
  moreover have "n = of_nat (length (mp_mdat_header mp4'))" unfolding st(2) [symmetric] by simp
  ultimately show ?thesis using st(3,4,6) fl(2) c by (simp add: sent_file_def)
qed

text \<open>
  C18.  A request for a part of a film, for a file whose tracks are consistent and in order and whose offsets have room for the new
  header.  The bytes sent, headers and rewritten tables included, are as many as \<^verbatim>\<open>Content-Length\<close> announces.  Every track is cut at a sample,
  and from the position that its new tables give to a sample on, the bytes sent are those of the stored file from the old position
  of this sample on; except for a track whose first sample is inside the last chunk but one of the last entry of its table of
  chunks, where the code goes wrong (\<open>before_last_chunk\<close>).
\<close>

theorem mp4_sends_samples:
  assumes p: "ngx_http_mp4_process mp4 = Mp4_Ok mp4'" and fl: "mp_mdat_last mp4 = Some fl" "unat fl \<le> length stored"
    and rd: "file_read ftyp mvhd cs mp4" "unat (mp_end mp4) < 2 ^ 63"
    and ok: "\<forall>t\<in>set (mp_traks mp4). trak_ok t \<and> in_order (unat fl) t \<and>
      unat fl + (length ftyp + length (moov_bytes mvhd cs mp4') + 16) < (if co64_data t = None then 2 ^ 32 else 2 ^ 63)"
    and sent: "sent = sent_file ftyp (moov_bytes mvhd cs mp4') stored mp4'"
  shows "mp_content_length mp4' = of_nat (length sent) \<and>
    list_all2 (\<lambda>t t'. \<exists>s<length (sizes t). durations t' = drop s (durations t) \<and> sizes t' = drop s (sizes t) \<and>
      (\<not> before_last_chunk t t' \<longrightarrow> length (positions t') = length (positions t) - s \<and>
        (\<forall>j<length (positions t'). drop (positions t' ! j) sent = drop (positions t ! (s + j)) (take (unat fl) stored))))
    (mp_traks mp4) (mp_traks mp4')"
proof -
  let ?moov = "moov_bytes mvhd cs mp4'"
  have m: "mp_moov_size mp4' = of_nat (length ?moov)" using rd(1) moov_size(1) [OF p] by (simp add: file_read_def)
  have "mp_traks mp4 \<noteq> []" using p by (auto simp: ngx_http_mp4_process_def)
  then have "unat fl + (length ftyp + length ?moov + 16) < 2 ^ 63"
    using ok by (cases "mp_traks mp4") (fastforce split: if_splits)+
  then have small: "unat fl < 2 ^ 63" "length ftyp < 2 ^ 64" "length ?moov < 2 ^ 64" by simp_all
  have len: "length ftyp = unat (mp_ftyp_size mp4)" "length ?moov = unat (mp_moov_size mp4')"
    using rd(1) m unat_of_nat_64 [OF small(2)] unat_of_nat_64 [OF small(3)] by (auto simp: file_read_def)
  have "mp_content_length mp4' = of_nat (length sent)"
    unfolding sent using rd(1) ok by (intro sent_length [OF p fl small(1) _ rd(2) _ m]) (simp_all add: file_read_def)
  then show ?thesis unfolding sent using sends_samples [OF p fl(1) ok len rd(2)] by blast
qed

definition demo_file :: mp4_file where
  "demo_file =
     \<lparr>mp_start = 105, mp_end = 500, mp_ftyp_size = 20, mp_moov_size = 0, mp_mvhd_size = Some 100, mp_content_length = 20,
      mp_traks = [demo_trak [100, 200, 300, 400]], mp_mdat_last = Some 416, mp_moov_header = [], mp_mdat_header = [], mp_mdat_pos = 0\<rparr>"

definition demo_copied :: mp4_copied where
  "demo_copied =
     \<lparr>mc_tkhd = [], mc_mdhd = [], mc_hdlr = [], mc_vmhd = [], mc_smhd = [], mc_dinf = [], mc_stsd = [], mc_stsz = [],
      mc_flags = (\<lambda>_. [0, 0, 0, 0])\<rparr>"

lemma demo_file_process:
  "\<exists>mp4'. ngx_http_mp4_process demo_file = Mp4_Ok mp4' \<and> length (moov_bytes (replicate 100 0) [demo_copied] mp4') < 1000"
  by (simp add: demo_file_def ngx_http_mp4_process_def ngx_http_mp4_update_mdat_atom_def process_trak_defs demo_trak_def Let_def)
    (simp add: moov_bytes_def trak_bytes_def table_bytes_def stsc_bytes_def stsz_bytes_def table_header_def atom_header_def atom_name_def mp4_adjust_def
      ngx_http_mp4_adjust_stco_atom_def demo_copied_def)

lemma demo_in_order: "in_order 416 (demo_trak [100, 200, 300, 400])"
  by (simp add: demo_trak_def track_defs in_order_def All_less_Suc)

lemma demo_read: "file_read (replicate 20 0) (replicate 100 0) [demo_copied] demo_file"
  by (simp add: file_read_def demo_file_def copied_ok_def demo_copied_def demo_trak_def)

theorem mp4_sends_samples_witness:
  "\<exists>mp4' sent. ngx_http_mp4_process demo_file = Mp4_Ok mp4' \<and>
    sent = sent_file (replicate 20 0) (moov_bytes (replicate 100 0) [demo_copied] mp4') (replicate 500 7) mp4' \<and>
    mp_content_length mp4' = of_nat (length sent) \<and>
    list_all2 (\<lambda>t t'. \<exists>s<8. sizes t' = drop s (sizes t) \<and> (\<not> before_last_chunk t t' \<longrightarrow>
      (\<forall>j<length (positions t'). drop (positions t' ! j) sent = drop (positions t ! (s + j)) (take 416 (replicate 500 7)))))
    (mp_traks demo_file) (mp_traks mp4')"
proof -
  obtain mp4' where m: "ngx_http_mp4_process demo_file = Mp4_Ok mp4'" "length (moov_bytes (replicate 100 0) [demo_copied] mp4') < 1000" using demo_file_process by blast
  define moov where "moov = moov_bytes (replicate 100 0) [demo_copied] mp4'"
  define sent where "sent = sent_file (replicate 20 0) moov (replicate 500 7) mp4'"
  have "length moov < 1000" using m(2) by (simp only: moov_def)
  have fl: "mp_mdat_last demo_file = Some 416" "unat (416 :: ngx_uint_t) \<le> length (replicate 500 (7 :: u_char))" "unat (mp_end demo_file) < 2 ^ 63"
    by (simp_all add: demo_file_def)
  have ok: "\<forall>t\<in>set (mp_traks demo_file). trak_ok t \<and> in_order (unat (416 :: ngx_uint_t)) t \<and>
      unat (416 :: ngx_uint_t) + (length (replicate 20 (0 :: u_char)) + length moov + 16) < (if co64_data t = None then 2 ^ 32 else 2 ^ 63)"
    using demo_ok demo_in_order \<open>length moov < 1000\<close> by (simp add: demo_file_def)
  note r = mp4_sends_samples [OF m(1) fl(1,2) demo_read fl(3) ok [unfolded moov_def] sent_def [unfolded moov_def]]
  have sz: "length (sizes t) = 8" if "t \<in> set (mp_traks demo_file)" for t
    using that by (simp add: demo_file_def) (simp add: sizes_def demo_trak_def)
  have "list_all2 (\<lambda>t t'. \<exists>s<8. sizes t' = drop s (sizes t) \<and> (\<not> before_last_chunk t t' \<longrightarrow>
      (\<forall>j<length (positions t'). drop (positions t' ! j) sent = drop (positions t ! (s + j)) (take 416 (replicate 500 7)))))
    (mp_traks demo_file) (mp_traks mp4')"
    by (rule list.rel_mono_strong [OF conjunct2 [OF r]]) (use sz in force)
  then show ?thesis using m(1) r sent_def [unfolded moov_def] by blast
qed

text \<open>The size of the media data that just fits into 32 bits makes the size of the atom wrap: it is sent as 7.\<close>

lemma mp4_mdat_size_wraps: "mp_mdat_header (snd (ngx_http_mp4_update_mdat_atom 0x100000fff 0x1000 mp4)) = [0, 0, 0, 7, 0x6d, 0x64, 0x61, 0x74]"
  by (simp add: ngx_http_mp4_update_mdat_atom_def Let_def ngx_mp4_set_32value_def atom_name_def of_char_def drop_bit_eq_div)

end
