(* ===== verification/Http_Range.thy ===== *)
theory Http_Range
  imports Ngx_Times Ngx_String
begin

unbundle bit_operations_syntax

text \<open>
  Partial content: \<^verbatim>\<open>src/http/modules/ngx_http_range_filter_module.c\<close>, with which a player fetches a part of a recording.  The
  header filter reads the ranges of the request and announces the parts, the body filter cuts the
  buffers that pass through it.  Allocation from the pool does not fail here; \<open>addr\<close> gives the addresses of the
  texts that are printed, \<open>boundary\<close> is the number of \<^verbatim>\<open>ngx_next_temp_number\<close>.
\<close>

section \<open>Ranges of a request\<close>

record http_range =
  rg_start :: ngx_int_t
  rg_end :: ngx_int_t
  rg_content_range :: buffer

datatype range_rc = Range_Ok | Range_Declined | Range_Not_Satisfiable

text \<open>
  The pointer \<^verbatim>\<open>p\<close> is the memory from it on; reading at the end of the memory is \<open>None\<close>.  The loops over spaces and digits:
\<close>

fun rp_spaces :: "buffer \<Rightarrow> buffer option" where
  "rp_spaces [] = None"
| "rp_spaces (c # p) = (if c = ch_space then rp_spaces p else Some (c # p))"

fun rp_digits :: "ngx_int_t \<Rightarrow> buffer \<Rightarrow> (ngx_int_t \<times> buffer) option" where
  "rp_digits v [] = None"
| "rp_digits v (c # p) = (if ch_0 \<le> c \<and> c \<le> ch_9 then rp_digits (v * 10 + ucast c - ucast ch_0) p else Some (v, c # p))"

text \<open>One range, up to the label \<^verbatim>\<open>found\<close>; \<open>Some None\<close> is the answer that the ranges cannot be satisfied.\<close>

definition rp_end :: "ngx_int_t \<Rightarrow> ngx_int_t option \<Rightarrow> buffer \<Rightarrow> (ngx_int_t \<times> ngx_int_t \<times> buffer) option option" where
  "rp_end content_length start p =
     (case p of
        [] \<Rightarrow> None
      | c # _ \<Rightarrow>
          if c < ch_0 \<or> c > ch_9 then Some None
          else
            Option.bind (rp_digits 0 p) (\<lambda>(end, p).
            Option.bind (rp_spaces p) (\<lambda>p.
              case p of
                [] \<Rightarrow> None
              | c # _ \<Rightarrow>
                  if c \<noteq> ch_comma \<and> c \<noteq> NUL then Some None
                  else
                    (let (start, end) =
                       (case start of None \<Rightarrow> (content_length - end, content_length - 1) | Some start \<Rightarrow> (start, end)) in
                     Some (Some (start, if sint end \<ge> sint content_length then content_length else end + 1, p))))))"

definition rp_one :: "ngx_int_t \<Rightarrow> buffer \<Rightarrow> (ngx_int_t \<times> ngx_int_t \<times> buffer) option option" where
  "rp_one content_length p =
     Option.bind (rp_spaces p) (\<lambda>p.
       case p of
         [] \<Rightarrow> None
       | c # q \<Rightarrow>
           if c \<noteq> ch_minus then
             if c < ch_0 \<or> c > ch_9 then Some None
             else
               Option.bind (rp_digits 0 p) (\<lambda>(start, p).
               Option.bind (rp_spaces p) (\<lambda>p.
                 case p of
                   [] \<Rightarrow> None
                 | c # p \<Rightarrow>
                     if c \<noteq> ch_minus then Some None
                     else
                       Option.bind (rp_spaces p) (\<lambda>p.
                         case p of
                           [] \<Rightarrow> None
                         | c # _ \<Rightarrow>
                             if c = ch_comma \<or> c = NUL then Some (Some (start, content_length, p))
                             else rp_end content_length (Some start) p)))
           else rp_end content_length None q)"

lemma rp_spaces_length: "rp_spaces p = Some q \<Longrightarrow> length q \<le> length p"
  by (induction p) (auto split: if_splits)

lemma rp_spaces_Some: "rp_spaces p = Some q \<Longrightarrow> q \<noteq> [] \<and> hd q \<noteq> ch_space"
  by (induction p) (auto split: if_splits)

lemma rp_digits_length: "rp_digits v p = Some (w, q) \<Longrightarrow> length q \<le> length p"
proof (induction v p rule: rp_digits.induct)
  case (2 v c p)
  then show ?case by (cases "ch_0 \<le> c \<and> c \<le> ch_9") auto
qed simp

lemma rp_end_steps:
  assumes "rp_end cl st p = Some (Some (s, e, q))"
  obtains v q1 where "rp_digits 0 p = Some (v, q1)" "rp_spaces q1 = Some q" "q \<noteq> []" "hd q = ch_comma \<or> hd q = NUL"
    "s = (case st of None \<Rightarrow> cl - v | Some s \<Rightarrow> s)"
    "e = (let v = (case st of None \<Rightarrow> cl - 1 | Some _ \<Rightarrow> v) in if sint v \<ge> sint cl then cl else v + 1)"
proof -
  obtain c ps where p: "p = c # ps" "\<not> (c < ch_0 \<or> c > ch_9)"
    using assms by (auto simp: rp_end_def split: list.splits if_splits)
  then obtain v q1 q2 where q: "rp_digits 0 p = Some (v, q1)" "rp_spaces q1 = Some q2"
    "(case q2 of [] \<Rightarrow> None | c # _ \<Rightarrow> if c \<noteq> ch_comma \<and> c \<noteq> NUL then Some None else
       (let (start, end) = (case st of None \<Rightarrow> (cl - v, cl - 1) | Some start \<Rightarrow> (start, v)) in
        Some (Some (start, if sint end \<ge> sint cl then cl else end + 1, q2)))) = Some (Some (s, e, q))"
    using assms unfolding rp_end_def by (simp only: p list.case if_False bind_eq_Some_conv split_paired_Ex prod.case) blast
  have "q2 = q \<and> q \<noteq> [] \<and> (hd q = ch_comma \<or> hd q = NUL) \<and> s = (case st of None \<Rightarrow> cl - v | Some s \<Rightarrow> s) \<and>
    e = (let v = (case st of None \<Rightarrow> cl - 1 | Some _ \<Rightarrow> v) in if sint v \<ge> sint cl then cl else v + 1)"
    using q(3) by (auto simp: Let_def split: list.splits option.splits if_splits)
  then show thesis using q(1,2) by (intro that) simp_all
qed

lemma rp_one_steps:
  assumes "rp_one cl p = Some (Some (s, e, q'))"
  obtains q1 where "rp_spaces p = Some (ch_minus # q1)" "rp_end cl None q1 = Some (Some (s, e, q'))"
    | q1 q2 q3 q4 where "rp_spaces p = Some q1" "rp_digits 0 q1 = Some (s, q2)" "rp_spaces q2 = Some (ch_minus # q3)" "rp_spaces q3 = Some q4"
      "q4 \<noteq> []" "q' = q4 \<and> e = cl \<and> (hd q' = ch_comma \<or> hd q' = NUL) \<or> rp_end cl (Some s) q4 = Some (Some (s, e, q'))"
proof -
  obtain c q0 where q0: "rp_spaces p = Some (c # q0)"
    using assms by (auto simp: rp_one_def bind_eq_Some_conv neq_Nil_conv split: list.splits)
  show thesis
  proof (cases "c = ch_minus")
    case True
    then show thesis using assms q0 that(1) by (simp add: rp_one_def)
  next
    case False
    then obtain v q2 q where d: "\<not> (c < ch_0 \<or> c > ch_9)" "rp_digits 0 (c # q0) = Some (v, q2)" "rp_spaces q2 = Some q"
      using assms q0 by (auto simp: rp_one_def bind_eq_Some_conv split: if_splits)
    then obtain q3 where q3: "q = ch_minus # q3"
      using assms q0 False by (auto simp: rp_one_def split: list.splits if_splits)
    have "rp_spaces q3 \<noteq> None"
      using assms q0 False d q3 by (cases "rp_spaces q3") (simp_all add: rp_one_def)
    then obtain q4 where q4: "rp_spaces q3 = Some q4" "q4 \<noteq> []" using rp_spaces_Some by blast
    then obtain c4 r4 where c4: "q4 = c4 # r4" by (cases q4) simp_all
    have "(if c4 = ch_comma \<or> c4 = NUL then Some (Some (v, cl, q4)) else rp_end cl (Some v) q4) = Some (Some (s, e, q'))"
      using assms q0 False d q3 q4 c4 by (auto simp: rp_one_def simp del: rp_digits.simps split: if_splits)
    moreover have "s' = v" if "rp_end cl (Some v) q4 = Some (Some (s', e', q''))" for s' e' q''
      using that by (rule rp_end_steps) simp
    ultimately have "s = v" "q' = q4 \<and> e = cl \<and> (hd q' = ch_comma \<or> hd q' = NUL) \<or> rp_end cl (Some s) q4 = Some (Some (s, e, q'))"
      using c4 by (auto split: if_splits)
    then show thesis using that(2) q0 d q3 q4 by blast
  qed
qed

lemma rp_end_length: "rp_end cl st p = Some (Some (s, e, q)) \<Longrightarrow> length q \<le> length p"
  by (erule rp_end_steps) (auto dest!: rp_spaces_length rp_digits_length)

lemma rp_one_length: "rp_one cl p = Some (Some (s, e, q)) \<Longrightarrow> length q \<le> length p"
  by (erule rp_one_steps) (auto dest!: rp_spaces_length rp_digits_length rp_end_length)

text \<open>The loop of \<^verbatim>\<open>ngx_http_range_parse\<close>; \<open>size\<close> and \<open>rs\<close> are the sum of the sizes and the array of ranges.\<close>

function range_loop :: "ngx_int_t \<Rightarrow> ngx_uint_t \<Rightarrow> ngx_int_t \<Rightarrow> http_range list \<Rightarrow> buffer \<Rightarrow> (range_rc \<times> http_range list) option" where
  "range_loop content_length ranges sz rs p =
     (case rp_one content_length p of
        None \<Rightarrow> None
      | Some None \<Rightarrow> Some (Range_Not_Satisfiable, rs)
      | Some (Some (start, end, p)) \<Rightarrow>
          (let found = sint start < sint end;
               rs = (if found then rs @ [\<lparr>rg_start = start, rg_end = end, rg_content_range = []\<rparr>] else rs);
               sz = (if found then sz + (end - start) else sz) in
           if found \<and> ranges = 0 then Some (Range_Declined, rs)
           else
             (let ranges = (if found then ranges - 1 else ranges) in
              case p of
                [] \<Rightarrow> None
              | c # p \<Rightarrow>
                  if c = ch_comma then range_loop content_length ranges sz rs p
                  else if rs = [] then Some (Range_Not_Satisfiable, rs)
                  else if sint sz > sint content_length then Some (Range_Declined, rs)
                  else Some (Range_Ok, rs))))"
  by pat_completeness auto
termination
  by (relation "measure (\<lambda>(cl, n, sz, rs, p). length p)") (auto dest!: rp_one_length)

declare range_loop.simps [simp del]

text \<open>\<open>data\<close> is the memory at the value of the header, which ends with a zero byte.\<close>

definition ngx_http_range_parse :: "ngx_int_t \<Rightarrow> ngx_uint_t \<Rightarrow> buffer \<Rightarrow> (range_rc \<times> http_range list) option" where
  "ngx_http_range_parse content_length ranges data = range_loop content_length ranges 0 [] (drop 6 data)"

section \<open>The header filter\<close>

text \<open>
  What the filter looks at and changes of a request.  \<open>rq_content_length\<close> tells whether there is a header
  \<^verbatim>\<open>Content-Length\<close> of its own; \<open>rq_content_type_lowcase\<close> whether \<^verbatim>\<open>content_type_lowcase\<close> is set.
\<close>

record range_req =
  rq_http_version :: ngx_uint_t
  rq_status :: ngx_uint_t
  rq_status_line :: buffer
  rq_is_main :: bool
  rq_content_length_n :: ngx_int_t
  rq_content_length :: bool
  rq_allow_ranges :: bool
  rq_range :: "buffer option"
  rq_if_range :: "buffer option"
  rq_last_modified_time :: ngx_int_t
  rq_content_type :: buffer
  rq_content_type_len :: nat
  rq_content_type_lowcase :: bool
  rq_charset :: buffer
  rq_accept_ranges :: bool
  rq_content_range :: "buffer option"

record range_ctx =
  rc_offset :: ngx_int_t
  rc_boundary_header :: buffer
  rc_ranges :: "http_range list"

definition ngx_http_range_singlepart_header :: "(nat \<Rightarrow> nat) \<Rightarrow> range_ctx \<Rightarrow> range_req \<Rightarrow> range_req option" where
  "ngx_http_range_singlepart_header addr ctx r =
     (case rc_ranges ctx of
        [] \<Rightarrow> None
      | rg # _ \<Rightarrow>
          map_option
            (\<lambda>v. r\<lparr>rq_content_range := Some v, rq_content_length_n := rg_end rg - rg_start rg, rq_content_length := False\<rparr>)
            (ngx_sprintf (addr 0) (bytes ''bytes %O-%O/%O'')
               [Va_long (rg_start rg), Va_long (rg_end rg - 1), Va_long (rq_content_length_n r)]))"

text \<open>The loop over the ranges: the length grows by what each part takes.\<close>

fun multipart_ranges :: "(nat \<Rightarrow> nat) \<Rightarrow> nat \<Rightarrow> ngx_int_t \<Rightarrow> nat \<Rightarrow> ngx_uint_t \<Rightarrow> http_range list \<Rightarrow> (ngx_uint_t \<times> http_range list) option" where
  "multipart_ranges addr i cl hlen len [] = Some (len, [])"
| "multipart_ranges addr i cl hlen len (rg # ranges) =
     Option.bind (ngx_sprintf (addr i) (bytes ''%O-%O/%O'' @ [CR, LF, CR, LF])
       [Va_long (rg_start rg), Va_long (rg_end rg - 1), Va_long cl]) (\<lambda>v.
     map_option (\<lambda>(len, ranges). (len, rg\<lparr>rg_content_range := v\<rparr> # ranges))
       (multipart_ranges addr (Suc i) cl hlen
         (len + (of_nat hlen + of_nat (length v) + (rg_end rg - rg_start rg))) ranges))"

definition ngx_http_range_multipart_header ::
    "(nat \<Rightarrow> nat) \<Rightarrow> ngx_uint_t \<Rightarrow> range_ctx \<Rightarrow> range_req \<Rightarrow> (range_req \<times> range_ctx) option" where
  "ngx_http_range_multipart_header addr boundary ctx r =
     Option.bind
       (if rq_charset r \<noteq> [] then
          ngx_sprintf (addr 0)
            ([CR, LF] @ bytes ''--%0muA'' @ [CR, LF] @ bytes ''Content-Type: %V; charset=%V'' @ [CR, LF] @ bytes ''Content-Range: bytes '')
            [Va_long boundary, Va_str (rq_content_type r), Va_str (rq_charset r)]
        else if rq_content_type r \<noteq> [] then
          ngx_sprintf (addr 0)
            ([CR, LF] @ bytes ''--%0muA'' @ [CR, LF] @ bytes ''Content-Type: %V'' @ [CR, LF] @ bytes ''Content-Range: bytes '')
            [Va_long boundary, Va_str (rq_content_type r)]
        else
          ngx_sprintf (addr 0) ([CR, LF] @ bytes ''--%0muA'' @ [CR, LF] @ bytes ''Content-Range: bytes '') [Va_long boundary]) (\<lambda>header.
     Option.bind (ngx_sprintf (addr 1) (bytes ''multipart/byteranges; boundary=%0muA'') [Va_long boundary]) (\<lambda>ct.
     map_option
       (\<lambda>(len, ranges).
          (r\<lparr>rq_charset := (if rq_charset r \<noteq> [] then [] else rq_charset r), rq_content_type := ct, rq_content_type_lowcase := False,
             rq_content_type_len := length ct, rq_content_length_n := len, rq_content_length := False\<rparr>,
           ctx\<lparr>rc_boundary_header := header, rc_ranges := ranges\<rparr>))
       (multipart_ranges addr 2 (rq_content_length_n r) (length header) (4 + 20 + 4) (rc_ranges ctx))))"

definition ngx_http_range_not_satisfiable :: "(nat \<Rightarrow> nat) \<Rightarrow> range_req \<Rightarrow> range_req option" where
  "ngx_http_range_not_satisfiable addr r =
     map_option
       (\<lambda>v. r\<lparr>rq_status := 416, rq_content_range := Some v, rq_content_length_n := - 1, rq_content_length := False\<rparr>)
       (ngx_sprintf (addr 0) (bytes ''bytes */%O'') [Va_long (rq_content_length_n r)])"

text \<open>
  The filter calls the next one with the request and perhaps a context for the body, or ends the request; an access
  outside the memory is \<open>None\<close>.  \<open>max_ranges\<close> is the configured number.
\<close>

datatype range_result = Range_Next range_req "range_ctx option" | Range_Refused range_req

definition range_wanted :: "range_req \<Rightarrow> bool option" where
  "range_wanted r =
     (case rq_range r of
        None \<Rightarrow> Some False
      | Some v \<Rightarrow>
          if length v < 7 then Some False
          else
            map_option (\<lambda>d. d = 0 \<and>
                (case rq_if_range r of
                   Some t \<Rightarrow> rq_last_modified_time r \<noteq> - 1 \<longrightarrow>
                     (case ngx_http_parse_time t of Inl _ \<Rightarrow> - 1 | Inr t \<Rightarrow> t) = rq_last_modified_time r
                 | None \<Rightarrow> True))
              (ngx_strncasecmp (v @ [NUL]) (bytes ''bytes='' @ [NUL]) 6))"

definition ngx_http_range_header_filter :: "(nat \<Rightarrow> nat) \<Rightarrow> ngx_uint_t \<Rightarrow> ngx_uint_t \<Rightarrow> range_req \<Rightarrow> range_result option" where
  "ngx_http_range_header_filter addr boundary max_ranges r =
     (if rq_http_version r < 1000 \<or> rq_status r \<noteq> 200 \<or> \<not> rq_is_main r \<or> rq_content_length_n r = - 1 \<or> \<not> rq_allow_ranges r \<or>
         max_ranges = 0
      then Some (Range_Next r None)
      else
        Option.bind (range_wanted r) (\<lambda>wanted.
        if \<not> wanted then Some (Range_Next (r\<lparr>rq_accept_ranges := True\<rparr>) None)
        else
          Option.bind (ngx_http_range_parse (rq_content_length_n r) max_ranges (the (rq_range r) @ [NUL])) (\<lambda>(rc, ranges).
            let ctx = \<lparr>rc_offset = 0, rc_boundary_header = [], rc_ranges = ranges\<rparr> in
            case rc of
              Range_Ok \<Rightarrow>
                (let r = r\<lparr>rq_status := 206, rq_status_line := []\<rparr> in
                 if length ranges = 1
                 then map_option (\<lambda>r. Range_Next r (Some ctx)) (ngx_http_range_singlepart_header addr ctx r)
                 else map_option (\<lambda>(r, ctx). Range_Next r (Some ctx)) (ngx_http_range_multipart_header addr boundary ctx r))
            | Range_Not_Satisfiable \<Rightarrow> map_option Range_Refused (ngx_http_range_not_satisfiable addr r)
            | Range_Declined \<Rightarrow> Some (Range_Next (r\<lparr>rq_accept_ranges := True\<rparr>) None))))"

section \<open>The body filter\<close>

text \<open>
  A buffer: in a file from \<open>bf_file_pos\<close> to \<open>bf_file_last\<close>, in memory (\<^verbatim>\<open>ngx_buf_in_memory\<close>) from \<open>bf_pos\<close> to \<open>bf_last\<close>, or
  with nothing but flags.
\<close>

record range_buf =
  bf_in_file :: bool
  bf_file_pos :: ngx_int_t
  bf_file_last :: ngx_int_t
  bf_in_memory :: bool
  bf_pos :: ngx_uint_t
  bf_last :: ngx_uint_t
  bf_flush :: bool
  bf_last_buf :: bool
  bf_sync :: bool

definition ngx_buf_special :: "range_buf \<Rightarrow> bool" where
  "ngx_buf_special b \<longleftrightarrow> (bf_flush b \<or> bf_last_buf b \<or> bf_sync b) \<and> \<not> bf_in_memory b \<and> \<not> bf_in_file b"

definition ngx_buf_size :: "range_buf \<Rightarrow> ngx_int_t" where
  "ngx_buf_size b = (if bf_in_memory b then bf_last b - bf_pos b else bf_file_last b - bf_file_pos b)"

text \<open>The assignments of the loop: a buffer without a byte of the range, its front and its end.\<close>

definition skip_buf :: "range_buf \<Rightarrow> range_buf" where
  "skip_buf b = b\<lparr>bf_file_pos := (if bf_in_file b then bf_file_last b else bf_file_pos b), bf_pos := bf_last b, bf_sync := True\<rparr>"

definition cut_front :: "ngx_int_t \<Rightarrow> range_buf \<Rightarrow> range_buf" where
  "cut_front n b =
     b\<lparr>bf_file_pos := (if bf_in_file b then bf_file_pos b + n else bf_file_pos b),
       bf_pos := (if bf_in_memory b then bf_pos b + n else bf_pos b)\<rparr>"

definition cut_end :: "ngx_int_t \<Rightarrow> range_buf \<Rightarrow> range_buf" where
  "cut_end n b =
     b\<lparr>bf_file_last := (if bf_in_file b then bf_file_last b - n else bf_file_last b),
       bf_last := (if bf_in_memory b then bf_last b - n else bf_last b), bf_last_buf := True\<rparr>"

text \<open>
  The loop: the new offset, the buffers that \<^verbatim>\<open>*ll = cl\<close> has linked, those behind the last of them that are still
  linked because \<^verbatim>\<open>cl->next\<close> was neither overwritten nor cut, and the buffers of the chain as they are left.
\<close>

fun singlepart_loop :: "http_range \<Rightarrow> ngx_int_t \<Rightarrow> range_buf list \<Rightarrow> ngx_int_t \<times> range_buf list \<times> range_buf list \<times> range_buf list" where
  "singlepart_loop rg offset [] = (offset, [], [], [])"
| "singlepart_loop rg offset (buf # cl) =
     (let start = offset; stop = offset + ngx_buf_size buf in
      if ngx_buf_special buf then
        (let (offset, out, behind, left) = singlepart_loop rg stop cl in (offset, buf # out, behind, buf # left))
      else if sint (rg_end rg) \<le> sint start \<or> sint (rg_start rg) \<ge> sint stop then
        (let (offset, out, behind, left) = singlepart_loop rg stop cl in
         (offset, out, if out = [] then skip_buf buf # behind else behind, skip_buf buf # left))
      else
        (let buf = (if sint (rg_start rg) > sint start then cut_front (rg_start rg - start) buf else buf) in
         if sint (rg_end rg) \<le> sint stop then
           (let buf = cut_end (stop - rg_end rg) buf in (stop, [buf], [], buf # cl))
         else
           (let (offset, out, behind, left) = singlepart_loop rg stop cl in (offset, buf # out, behind, buf # left))))"

text \<open>What goes to the next filter: texts of the module itself, the last of them with \<^verbatim>\<open>last_buf\<close> set, and buffers.\<close>

datatype range_out = Out_Text buffer | Out_Last buffer | Out_Buf range_buf

definition ngx_http_range_test_overlapped :: "range_ctx \<Rightarrow> range_buf \<Rightarrow> bool \<times> range_ctx" where
  "ngx_http_range_test_overlapped ctx buf =
     (if rc_offset ctx \<noteq> 0 then (False, ctx)
      else if \<not> bf_last_buf buf \<and>
        (\<exists>rg\<in>set (rc_ranges ctx). sint (rc_offset ctx) > sint (rg_start rg) \<or> sint (rc_offset ctx + ngx_buf_size buf) < sint (rg_end rg))
      then (False, ctx)
      else (True, ctx\<lparr>rc_offset := ngx_buf_size buf\<rparr>))"

definition part_buf :: "range_buf \<Rightarrow> http_range \<Rightarrow> range_buf" where
  "part_buf buf rg =
     \<lparr>bf_in_file = bf_in_file buf,
      bf_file_pos = (if bf_in_file buf then bf_file_pos buf + rg_start rg else 0),
      bf_file_last = (if bf_in_file buf then bf_file_pos buf + rg_end rg else 0),
      bf_in_memory = bf_in_memory buf,
      bf_pos = (if bf_in_memory buf then bf_pos buf + rg_start rg else 0),
      bf_last = (if bf_in_memory buf then bf_pos buf + rg_end rg else 0),
      bf_flush = False, bf_last_buf = False, bf_sync = False\<rparr>"

definition ngx_http_range_multipart_body :: "range_ctx \<Rightarrow> range_buf \<Rightarrow> range_out list option" where
  "ngx_http_range_multipart_body ctx buf =
     (let header = rc_boundary_header ctx in
      if length header < 4 + 20 then None
      else
        Some (concat (map (\<lambda>rg. [Out_Text header, Out_Text (rg_content_range rg), Out_Buf (part_buf buf rg)]) (rc_ranges ctx)) @
              [Out_Last (take (4 + 20) header @ [ch_minus, ch_minus, CR, LF])]))"

text \<open>The next filter is called with a chain, or is not called because nothing is left, or there is an error.\<close>

datatype range_body_result = Body_Next "range_out list" | Body_Done | Body_Error

definition ngx_http_range_singlepart_body :: "range_ctx \<Rightarrow> http_range \<Rightarrow> range_buf list \<Rightarrow> range_body_result \<times> range_ctx \<times> range_buf list" where
  "ngx_http_range_singlepart_body ctx rg chain =
     (let (offset, out, behind, left) = singlepart_loop rg (rc_offset ctx) chain in
      (if out = [] then Body_Done else Body_Next (map Out_Buf (out @ behind)), ctx\<lparr>rc_offset := offset\<rparr>, left))"

definition ngx_http_range_body_filter ::
    "range_ctx option \<Rightarrow> range_buf list \<Rightarrow> (range_body_result \<times> range_ctx option \<times> range_buf list) option" where
  "ngx_http_range_body_filter rctx chain =
     (case (rctx, chain) of
        (None, _) \<Rightarrow> Some (Body_Next (map Out_Buf chain), None, chain)
      | (Some ctx, []) \<Rightarrow> Some (Body_Next [], Some ctx, [])
      | (Some ctx, buf # _) \<Rightarrow>
          (case rc_ranges ctx of
             [rg] \<Rightarrow>
               (let (result, ctx, left) = ngx_http_range_singlepart_body ctx rg chain in Some (result, Some ctx, left))
           | _ \<Rightarrow>
               if ngx_buf_special buf then Some (Body_Next (map Out_Buf chain), Some ctx, chain)
               else
                 (let (ok, ctx) = ngx_http_range_test_overlapped ctx buf in
                  if \<not> ok then Some (Body_Error, Some ctx, chain)
                  else map_option (\<lambda>out. (Body_Next out, Some ctx, chain)) (ngx_http_range_multipart_body ctx buf))))"

end
