(* ===== verification/Http_Range_Body.thy ===== *)
theory Http_Range_Body
  imports Http_Range
begin

unbundle bit_operations_syntax

text \<open>
  What the body filter of \<open>Http_Range\<close> sends: for one range, exactly its bytes, however the body is spread
  over buffers and calls; for several, the parts, as many bytes as the header announced.
\<close>

section \<open>Slices\<close>

text \<open>The part of a piece of the body that lies in the range from \<open>s\<close> to \<open>e\<close>; the piece begins at \<open>off\<close>.\<close>

definition slice_at :: "nat \<Rightarrow> nat \<Rightarrow> nat \<Rightarrow> 'a list \<Rightarrow> 'a list" where
  "slice_at s e off xs = drop (s - off) (take (e - off) xs)"

lemma slice_at_Nil [simp]: "slice_at s e off [] = []"
  by (simp add: slice_at_def)

lemma slice_at_append: "slice_at s e off (xs @ ys) = slice_at s e off xs @ slice_at s e (off + length xs) ys"
proof (cases "e - off \<le> length xs")
  case True
  then show ?thesis by (simp add: slice_at_def)
next
  case False
  then show ?thesis by (simp add: slice_at_def)
qed

lemma slice_at_behind: "e \<le> off \<Longrightarrow> slice_at s e off xs = []"
  by (simp add: slice_at_def)

lemma slice_at_before: "off + length xs \<le> s \<Longrightarrow> slice_at s e off xs = []"
  by (simp add: slice_at_def)

section \<open>Buffers\<close>

text \<open>The bytes of a buffer, in the memory \<open>mem\<close> or the file \<open>file\<close>.\<close>

definition buf_bytes :: "buffer \<Rightarrow> buffer \<Rightarrow> range_buf \<Rightarrow> buffer" where
  "buf_bytes mem stored b =
     (if bf_in_memory b then drop (unat (bf_pos b)) (take (unat (bf_last b)) mem)
      else if bf_in_file b then drop (unat (bf_file_pos b)) (take (unat (bf_file_last b)) stored)
      else [])"

definition buf_ok :: "buffer \<Rightarrow> buffer \<Rightarrow> range_buf \<Rightarrow> bool" where
  "buf_ok mem stored b \<longleftrightarrow> length mem < 2 ^ 63 \<and> length stored < 2 ^ 63 \<and>
     (bf_in_memory b \<longrightarrow> unat (bf_pos b) \<le> unat (bf_last b) \<and> unat (bf_last b) \<le> length mem) \<and>
     (bf_in_file b \<longrightarrow> unat (bf_file_pos b) \<le> unat (bf_file_last b) \<and> unat (bf_file_last b) \<le> length stored) \<and>
     (bf_in_memory b \<longrightarrow> bf_in_file b \<longrightarrow> bf_last b - bf_pos b = bf_file_last b - bf_file_pos b) \<and>
     (\<not> bf_in_memory b \<longrightarrow> \<not> bf_in_file b \<longrightarrow> bf_file_last b = bf_file_pos b)"

lemma unat_minus: "unat (y :: ngx_uint_t) \<le> unat x \<Longrightarrow> unat (x - y) = unat x - unat y"
  by (simp add: unat_sub word_le_nat_alt)

lemma unat_plus: "unat (x :: ngx_uint_t) + unat y < 2 ^ 64 \<Longrightarrow> unat (x + y) = unat x + unat y"
  by (simp add: unat_word_ariths(1))

lemma buf_size: "buf_ok mem stored b \<Longrightarrow> unat (ngx_buf_size b) = length (buf_bytes mem stored b)"
  by (auto simp: buf_ok_def ngx_buf_size_def buf_bytes_def unat_minus)

lemma special_bytes: "ngx_buf_special b \<Longrightarrow> buf_bytes mem stored b = []"
  by (simp add: ngx_buf_special_def buf_bytes_def)

lemma skip_bytes: "buf_bytes mem stored (skip_buf b) = []"
  by (simp add: skip_buf_def buf_bytes_def)

lemma buf_bounds:
  assumes "buf_ok mem stored b"
  shows "bf_in_memory b \<Longrightarrow> unat (bf_pos b) + length (buf_bytes mem stored b) = unat (bf_last b)" "bf_in_memory b \<Longrightarrow> unat (bf_last b) < 2 ^ 63"
    "bf_in_file b \<Longrightarrow> unat (bf_file_pos b) + length (buf_bytes mem stored b) = unat (bf_file_last b)"
    "bf_in_file b \<Longrightarrow> unat (bf_file_last b) < 2 ^ 63"
proof -
  show "unat (bf_last b) < 2 ^ 63" if "bf_in_memory b"
    using assms that unfolding buf_ok_def by (metis le_less_trans)
  show "unat (bf_file_last b) < 2 ^ 63" if "bf_in_file b"
    using assms that unfolding buf_ok_def by (metis le_less_trans)
  show "unat (bf_pos b) + length (buf_bytes mem stored b) = unat (bf_last b)" if "bf_in_memory b"
    using assms that buf_size [OF assms] by (auto simp: buf_ok_def ngx_buf_size_def unat_minus)
  have "unat (bf_file_pos b) + unat (bf_file_last b - bf_file_pos b) = unat (bf_file_last b)" if "bf_in_file b"
    using assms that by (simp add: buf_ok_def unat_minus)
  moreover have "ngx_buf_size b = bf_file_last b - bf_file_pos b" if "bf_in_file b"
    using assms that by (auto simp: buf_ok_def ngx_buf_size_def)
  ultimately show "unat (bf_file_pos b) + length (buf_bytes mem stored b) = unat (bf_file_last b)" if "bf_in_file b"
    using that buf_size [OF assms] by simp
qed

lemma cut_front:
  assumes "buf_ok mem stored b" "unat n \<le> length (buf_bytes mem stored b)"
  shows "buf_bytes mem stored (cut_front n b) = drop (unat n) (buf_bytes mem stored b)" "buf_ok mem stored (cut_front n b)"
proof -
  note bb = buf_bounds [OF assms(1)]
  have m: "unat (bf_pos b) + unat n \<le> unat (bf_last b)" "unat (bf_pos b + n) = unat (bf_pos b) + unat n" if "bf_in_memory b"
  proof -
    show le: "unat (bf_pos b) + unat n \<le> unat (bf_last b)" using assms(2) bb(1) [OF that] by linarith
    show "unat (bf_pos b + n) = unat (bf_pos b) + unat n" using le bb(2) [OF that] by (intro unat_plus) simp
  qed
  have f: "unat (bf_file_pos b) + unat n \<le> unat (bf_file_last b)" "unat (bf_file_pos b + n) = unat (bf_file_pos b) + unat n" if "bf_in_file b"
  proof -
    show le: "unat (bf_file_pos b) + unat n \<le> unat (bf_file_last b)" using assms(2) bb(3) [OF that] by linarith
    show "unat (bf_file_pos b + n) = unat (bf_file_pos b) + unat n" using le bb(4) [OF that] by (intro unat_plus) simp
  qed
  show "buf_bytes mem stored (cut_front n b) = drop (unat n) (buf_bytes mem stored b)"
    using m f by (auto simp: buf_bytes_def cut_front_def add.commute)
  have "bf_last b - bf_pos b = bf_file_last b - bf_file_pos b \<Longrightarrow> bf_last b - (bf_pos b + n) = bf_file_last b - (bf_file_pos b + n)"
    by (simp add: diff_diff_add [symmetric])
  then show "buf_ok mem stored (cut_front n b)"
    using assms(1) m f by (auto simp: buf_ok_def cut_front_def)
qed

lemma cut_end:
  assumes "buf_ok mem stored b" "unat n \<le> length (buf_bytes mem stored b)"
  shows "buf_bytes mem stored (cut_end n b) = take (length (buf_bytes mem stored b) - unat n) (buf_bytes mem stored b)"
    "buf_ok mem stored (cut_end n b)"
proof -
  note bb = buf_bounds [OF assms(1)]
  have m: "unat (bf_pos b) + unat n \<le> unat (bf_last b)" "unat (bf_last b - n) = unat (bf_last b) - unat n" if "bf_in_memory b"
  proof -
    show le: "unat (bf_pos b) + unat n \<le> unat (bf_last b)" using assms(2) bb(1) [OF that] by linarith
    show "unat (bf_last b - n) = unat (bf_last b) - unat n" using le by (intro unat_minus) simp
  qed
  have f: "unat (bf_file_pos b) + unat n \<le> unat (bf_file_last b)" "unat (bf_file_last b - n) = unat (bf_file_last b) - unat n" if "bf_in_file b"
  proof -
    show le: "unat (bf_file_pos b) + unat n \<le> unat (bf_file_last b)" using assms(2) bb(3) [OF that] by linarith
    show "unat (bf_file_last b - n) = unat (bf_file_last b) - unat n" using le by (intro unat_minus) simp
  qed
  have eq: "drop p (take (l - k) xs) = take (l - p - k) (drop p (take l xs))" for p l k and xs :: "u_char list"
  proof -
    have "l - k - p = min (l - p - k) (l - p)" by simp
    then show ?thesis by (simp only: drop_take take_take)
  qed
  show "buf_bytes mem stored (cut_end n b) = take (length (buf_bytes mem stored b) - unat n) (buf_bytes mem stored b)"
  proof (cases "bf_in_memory b")
    case True
    have "length (buf_bytes mem stored b) = unat (bf_last b) - unat (bf_pos b)" using bb(1) [OF True] by simp
    then show ?thesis using m [OF True] True eq by (simp add: buf_bytes_def cut_end_def)
  next
    case False
    show ?thesis
    proof (cases "bf_in_file b")
      case True
      have "length (buf_bytes mem stored b) = unat (bf_file_last b) - unat (bf_file_pos b)" using bb(3) [OF True] by simp
      then show ?thesis using f [OF True] True False eq by (simp add: buf_bytes_def cut_end_def)
    qed (use False in \<open>simp add: buf_bytes_def cut_end_def\<close>)
  qed
  have "bf_last b - bf_pos b = bf_file_last b - bf_file_pos b \<Longrightarrow> bf_last b - n - bf_pos b = bf_file_last b - n - bf_file_pos b"
    by (simp only: diff_right_commute [of "bf_last b" n] diff_right_commute [of "bf_file_last b" n])
  then show "buf_ok mem stored (cut_end n b)"
    using assms(1) m f by (auto simp: buf_ok_def cut_end_def)
qed

section \<open>One range\<close>

text \<open>A range that has been accepted: it is not empty and its numbers are not negative.\<close>

definition range_ok :: "http_range \<Rightarrow> bool" where
  "range_ok rg \<longleftrightarrow> unat (rg_start rg) < unat (rg_end rg) \<and> unat (rg_end rg) < 2 ^ 63"

lemma sint_compare:
  "unat (x :: ngx_uint_t) < 2 ^ 63 \<Longrightarrow> unat (y :: ngx_uint_t) < 2 ^ 63 \<Longrightarrow> (sint x \<le> sint y \<longleftrightarrow> unat x \<le> unat y)"
  "unat (x :: ngx_uint_t) < 2 ^ 63 \<Longrightarrow> unat (y :: ngx_uint_t) < 2 ^ 63 \<Longrightarrow> (sint x < sint y \<longleftrightarrow> unat x < unat y)"
  by (simp_all only: sint_unat of_nat_le_iff of_nat_less_iff)

lemma cut_buf:
  assumes ok: "buf_ok mem stored buf" and rg: "range_ok rg" and pos: "unat offset + length (buf_bytes mem stored buf) < 2 ^ 63"
    and hit: "unat offset < unat (rg_end rg)" "unat (rg_start rg) < unat offset + length (buf_bytes mem stored buf)"
  defines "b1 \<equiv> (if sint (rg_start rg) > sint offset then cut_front (rg_start rg - offset) buf else buf)"
    and "stop \<equiv> offset + ngx_buf_size buf"
  shows "buf_ok mem stored b1" "buf_bytes mem stored b1 = drop (unat (rg_start rg) - unat offset) (buf_bytes mem stored buf)"
    "unat (rg_end rg) \<le> unat stop \<Longrightarrow>
      buf_bytes mem stored (cut_end (stop - rg_end rg) b1) = slice_at (unat (rg_start rg)) (unat (rg_end rg)) (unat offset) (buf_bytes mem stored buf)"
    "unat (rg_end rg) \<le> unat stop \<Longrightarrow> buf_ok mem stored (cut_end (stop - rg_end rg) b1)"
proof -
  let ?xs = "buf_bytes mem stored buf" and ?s = "unat (rg_start rg)" and ?e = "unat (rg_end rg)" and ?o = "unat offset"
  have stop: "unat stop = ?o + length ?xs" using pos buf_size [OF ok] by (simp add: stop_def unat_plus)
  have cmp: "sint (rg_start rg) > sint offset \<longleftrightarrow> ?s > ?o" using rg pos by (intro sint_compare) (simp_all add: range_ok_def)
  have d: "unat (rg_start rg - offset) = ?s - ?o" if "?s > ?o" using that by (simp add: unat_minus)
  have "buf_ok mem stored b1 \<and> buf_bytes mem stored b1 = drop (?s - ?o) ?xs"
  proof (cases "?s > ?o")
    case True
    then have "unat (rg_start rg - offset) \<le> length ?xs" using hit d by simp
    then show ?thesis using cut_front [OF ok, of "rg_start rg - offset"] d True cmp by (simp add: b1_def)
  next
    case False
    then show ?thesis using ok cmp by (simp add: b1_def)
  qed
  then show b1: "buf_ok mem stored b1" "buf_bytes mem stored b1 = drop (?s - ?o) ?xs" by simp_all
  assume e: "?e \<le> unat stop"
  then have n: "unat (stop - rg_end rg) = ?o + length ?xs - ?e" using stop by (simp add: unat_minus)
  have "?s < ?e" using rg by (simp add: range_ok_def)
  then have le: "unat (stop - rg_end rg) \<le> length (buf_bytes mem stored b1)" using n b1(2) hit e stop by simp
  have "length (buf_bytes mem stored b1) - unat (stop - rg_end rg) = ?e - ?o - (?s - ?o)" using n b1(2) hit e stop \<open>?s < ?e\<close> by simp
  then show "buf_bytes mem stored (cut_end (stop - rg_end rg) b1) = slice_at ?s ?e ?o ?xs"
    using cut_end(1) [OF b1(1) le] by (simp add: b1(2) slice_at_def drop_take)
  show "buf_ok mem stored (cut_end (stop - rg_end rg) b1)" by (rule cut_end(2) [OF b1(1) le])
qed

text \<open>What the loop has sent, and where it stands: behind the chain, or behind the range.\<close>

definition loop_done ::
  "buffer \<Rightarrow> buffer \<Rightarrow> http_range \<Rightarrow> nat \<Rightarrow> range_buf list \<Rightarrow> ngx_int_t \<times> range_buf list \<times> range_buf list \<times> range_buf list \<Rightarrow> bool"
where
  "loop_done mem stored rg off chain r \<longleftrightarrow>
     (let body = concat (map (buf_bytes mem stored) chain); (offset', out, behind, left) = r in
      concat (map (buf_bytes mem stored) behind) = [] \<and>
      concat (map (buf_bytes mem stored) out) = slice_at (unat (rg_start rg)) (unat (rg_end rg)) off body \<and>
      (unat offset' = off + length body \<or> unat (rg_end rg) \<le> unat offset' \<and> unat offset' \<le> off + length body))"

lemma loop_done_Cons:
  assumes "loop_done mem stored rg (off + length (buf_bytes mem stored buf)) chain (offset', out, behind, left)"
    and "behind' = behind \<or> behind' = skip_buf buf # behind"
    and "concat (map (buf_bytes mem stored) out1) = slice_at (unat (rg_start rg)) (unat (rg_end rg)) off (buf_bytes mem stored buf)"
  shows "loop_done mem stored rg off (buf # chain) (offset', out1 @ out, behind', left')"
  using assms skip_bytes [of mem stored buf] by (auto simp: loop_done_def Let_def slice_at_append add.assoc)

lemma singlepart_loop_spec:
  assumes "\<forall>b\<in>set chain. buf_ok mem stored b" "range_ok rg" "unat offset + length (concat (map (buf_bytes mem stored) chain)) < 2 ^ 63"
  shows "loop_done mem stored rg (unat offset) chain (singlepart_loop rg offset chain)"
  using assms
proof (induction chain arbitrary: offset)
  case Nil
  then show ?case by (simp add: loop_done_def)
next
  case (Cons buf chain)
  let ?b = "buf_bytes mem stored" and ?s = "unat (rg_start rg)" and ?e = "unat (rg_end rg)" and ?o = "unat offset"
  let ?stop = "offset + ngx_buf_size buf" and ?n = "length (buf_bytes mem stored buf)"
  have ok: "buf_ok mem stored buf" using Cons.prems(1) by simp
  have pos: "?o + ?n < 2 ^ 63" "?o + ?n + length (concat (map ?b chain)) < 2 ^ 63" using Cons.prems(3) by simp_all
  have stop: "unat ?stop = ?o + ?n" using pos(1) buf_size [OF ok] by (simp add: unat_plus)
  have rg: "?s < ?e" "?s < 2 ^ 63" "?e < 2 ^ 63" using Cons.prems(2) by (simp_all add: range_ok_def)
  have IH: "loop_done mem stored rg (?o + ?n) chain (singlepart_loop rg ?stop chain)"
    using Cons.IH [of ?stop] Cons.prems(1,2) pos(2) stop by simp
  obtain off1 out1 behind1 left1 where l: "singlepart_loop rg ?stop chain = (off1, out1, behind1, left1)"
    by (cases "singlepart_loop rg ?stop chain")
  have o63: "?o < 2 ^ 63" "unat ?stop < 2 ^ 63" using pos(1) stop by simp_all
  have skip_iff: "(sint (rg_end rg) \<le> sint offset \<or> sint (rg_start rg) \<ge> sint ?stop) \<longleftrightarrow> (?e \<le> ?o \<or> ?o + ?n \<le> ?s)"
    using sint_compare(1) [OF rg(3) o63(1)] sint_compare(1) [OF o63(2) rg(2)] stop by simp
  have ends_iff: "sint (rg_end rg) \<le> sint ?stop \<longleftrightarrow> ?e \<le> ?o + ?n" using sint_compare(1) [OF rg(3) o63(2)] stop by simp
  consider (special) "ngx_buf_special buf" | (skip) "\<not> ngx_buf_special buf" "?e \<le> ?o \<or> ?o + ?n \<le> ?s"
    | (ends) "\<not> ngx_buf_special buf" "?o < ?e" "?s < ?o + ?n" "?e \<le> ?o + ?n"
    | (more) "\<not> ngx_buf_special buf" "?o < ?e" "?s < ?o + ?n" "?o + ?n < ?e" by linarith
  then show ?case
  proof cases
    case special
    then show ?thesis using loop_done_Cons [OF IH [unfolded l], of behind1 "[buf]"] l special_bytes [OF special] by simp
  next
    case skip
    then have "slice_at ?s ?e ?o (?b buf) = []" using slice_at_behind slice_at_before by blast
    then show ?thesis using loop_done_Cons [OF IH [unfolded l], of "if out1 = [] then skip_buf buf # behind1 else behind1" "[]"] l skip skip_iff by simp
  next
    case ends
    note cb = cut_buf [OF ok Cons.prems(2) pos(1) ends(2,3)]
    let ?b1 = "if sint (rg_start rg) > sint offset then cut_front (rg_start rg - offset) buf else buf"
    have "singlepart_loop rg offset (buf # chain) =
        (?stop, [cut_end (?stop - rg_end rg) ?b1], [], cut_end (?stop - rg_end rg) ?b1 # chain)"
      using ends skip_iff ends_iff by (simp add: Let_def)
    moreover have "slice_at ?s ?e (?o + ?n) (concat (map ?b chain)) = []" using ends(4) by (rule slice_at_behind)
    ultimately show ?thesis using cb(3) stop ends(4) by (simp add: loop_done_def Let_def slice_at_append)
  next
    case more
    note cb = cut_buf [OF ok Cons.prems(2) pos(1) more(2,3)]
    let ?b1 = "if sint (rg_start rg) > sint offset then cut_front (rg_start rg - offset) buf else buf"
    have "singlepart_loop rg offset (buf # chain) = (off1, [?b1] @ out1, behind1, ?b1 # left1)"
      using more l skip_iff ends_iff by (simp add: Let_def)
    moreover have "?b ?b1 = slice_at ?s ?e ?o (?b buf)" using cb(2) more(4) by (simp add: slice_at_def)
    ultimately show ?thesis using loop_done_Cons [OF IH [unfolded l], of behind1 "[?b1]"] by simp
  qed
qed

text \<open>The calls of the filter for the parts of a body, and all that goes to the next filter.\<close>

fun body_calls :: "range_ctx option \<Rightarrow> range_buf list list \<Rightarrow> range_out list option" where
  "body_calls rctx [] = Some []"
| "body_calls rctx (chain # parts) =
     (case ngx_http_range_body_filter rctx chain of
        Some (Body_Next out, rctx, _) \<Rightarrow> map_option ((@) out) (body_calls rctx parts)
      | Some (Body_Done, rctx, _) \<Rightarrow> body_calls rctx parts
      | _ \<Rightarrow> None)"

fun out_bytes :: "buffer \<Rightarrow> buffer \<Rightarrow> range_out \<Rightarrow> buffer" where
  "out_bytes mem stored (Out_Text t) = t"
| "out_bytes mem stored (Out_Last t) = t"
| "out_bytes mem stored (Out_Buf b) = buf_bytes mem stored b"

abbreviation body_of :: "buffer \<Rightarrow> buffer \<Rightarrow> range_buf list \<Rightarrow> buffer" where
  "body_of mem stored chain \<equiv> concat (map (buf_bytes mem stored) chain)"

lemma single_calls:
  assumes "rc_ranges ctx = [rg]" "range_ok rg" "\<forall>chain\<in>set parts. \<forall>b\<in>set chain. buf_ok mem stored b"
    and "unat (rc_offset ctx) + length (concat (map (body_of mem stored) parts)) < 2 ^ 63"
  shows "\<exists>out. body_calls (Some ctx) parts = Some out \<and> concat (map (out_bytes mem stored) out) =
    slice_at (unat (rg_start rg)) (unat (rg_end rg)) (unat (rc_offset ctx)) (concat (map (body_of mem stored) parts))"
  using assms
proof (induction parts arbitrary: ctx)
  case (Cons chain parts)
  let ?o = "unat (rc_offset ctx)" and ?s = "unat (rg_start rg)" and ?e = "unat (rg_end rg)"
  let ?rest = "concat (map (body_of mem stored) parts)"
  obtain off1 out1 behind1 left1 where l: "singlepart_loop rg (rc_offset ctx) chain = (off1, out1, behind1, left1)"
    by (cases "singlepart_loop rg (rc_offset ctx) chain")
  have "loop_done mem stored rg ?o chain (off1, out1, behind1, left1)"
    using singlepart_loop_spec [of chain mem stored rg "rc_offset ctx"] Cons.prems l by simp
  then have d: "body_of mem stored (out1 @ behind1) = slice_at ?s ?e ?o (body_of mem stored chain)"
    "unat off1 = ?o + length (body_of mem stored chain) \<or> ?e \<le> unat off1 \<and> unat off1 \<le> ?o + length (body_of mem stored chain)"
    "body_of mem stored behind1 = []"
    by (simp_all add: loop_done_def Let_def)
  let ?ctx = "ctx\<lparr>rc_offset := off1\<rparr>"
  have "\<exists>out. body_calls (Some ?ctx) parts = Some out \<and>
      concat (map (out_bytes mem stored) out) = slice_at ?s ?e (unat (rc_offset ?ctx)) ?rest"
  proof (rule Cons.IH)
    have "?o + (length (body_of mem stored chain) + length ?rest) < 2 ^ 63" using Cons.prems(4) by simp
    moreover have "unat off1 \<le> ?o + length (body_of mem stored chain)" using d(2) by linarith
    ultimately show "unat (rc_offset ?ctx) + length ?rest < 2 ^ 63" by simp
  qed (use Cons.prems in simp_all)
  then obtain out where out: "body_calls (Some ?ctx) parts = Some out" "concat (map (out_bytes mem stored) out) = slice_at ?s ?e (unat off1) ?rest"
    by auto
  have tail: "slice_at ?s ?e (unat off1) ?rest = slice_at ?s ?e (?o + length (body_of mem stored chain)) ?rest"
    using d(2) by (auto simp: slice_at_behind)
  have map: "concat (map (out_bytes mem stored) (map Out_Buf bs)) = body_of mem stored bs" for bs
    by (simp add: o_def)
  show ?case
  proof (cases chain)
    case Nil
    then have "off1 = rc_offset ctx" using l by simp
    then show ?thesis using Nil out Cons.prems(1) tail by (simp add: ngx_http_range_body_filter_def)
  next
    case (Cons buf bufs)
    then have f: "ngx_http_range_body_filter (Some ctx) chain =
        Some (if out1 = [] then Body_Done else Body_Next (map Out_Buf (out1 @ behind1)), Some ?ctx, left1)"
      using l \<open>rc_ranges ctx = [rg]\<close> by (simp add: ngx_http_range_body_filter_def ngx_http_range_singlepart_body_def)
    let ?sent = "if out1 = [] then [] else map Out_Buf (out1 @ behind1)"
    have "concat (map (out_bytes mem stored) ?sent) = slice_at ?s ?e ?o (body_of mem stored chain)"
      using d(1) d(3) map [of "out1 @ behind1"] by (cases "out1 = []") simp_all
    then have "concat (map (out_bytes mem stored) (?sent @ out)) = slice_at ?s ?e ?o (concat (map (body_of mem stored) (chain # parts)))"
      using out(2) tail by (simp add: slice_at_append)
    moreover have "body_calls (Some ctx) (chain # parts) = Some (?sent @ out)" using f out(1) by simp
    ultimately show ?thesis by blast
  qed
qed simp

section \<open>Several ranges\<close>

lemma part_bytes:
  assumes ok: "buf_ok mem stored buf" and rg: "range_ok rg" "unat (rg_end rg) \<le> length (buf_bytes mem stored buf)"
  shows "buf_bytes mem stored (part_buf buf rg) = slice_at (unat (rg_start rg)) (unat (rg_end rg)) 0 (buf_bytes mem stored buf)"
proof -
  note bb = buf_bounds [OF ok]
  have se: "unat (rg_start rg) \<le> unat (rg_end rg)" "unat (rg_end rg) < 2 ^ 63" using rg(1) by (simp_all add: range_ok_def)
  have eq: "drop (p + s) (take (p + e) xs) = drop s (take e (drop p (take l xs)))" if "p + e \<le> l" for p s e l and xs :: "u_char list"
  proof -
    have "drop s (take e (drop p (take l xs))) = drop (p + s) (take (e + p) (take l xs))" by (simp add: take_drop add.commute)
    then show ?thesis using that by (simp add: min_absorb1 add.commute)
  qed
  show ?thesis
  proof (cases "bf_in_memory buf")
    case True
    have le: "unat (bf_pos buf) + unat (rg_end rg) \<le> unat (bf_last buf)" using bb(1) [OF True] rg(2) by linarith
    then have "unat (bf_pos buf + rg_end rg) = unat (bf_pos buf) + unat (rg_end rg)" "unat (bf_pos buf + rg_start rg) = unat (bf_pos buf) + unat (rg_start rg)"
      using bb(2) [OF True] se by (simp_all add: unat_plus)
    then show ?thesis using eq [OF le] True by (simp add: buf_bytes_def part_buf_def slice_at_def)
  next
    case mem: False
    show ?thesis
    proof (cases "bf_in_file buf")
      case True
      have le: "unat (bf_file_pos buf) + unat (rg_end rg) \<le> unat (bf_file_last buf)" using bb(3) [OF True] rg(2) by linarith
      then have "unat (bf_file_pos buf + rg_end rg) = unat (bf_file_pos buf) + unat (rg_end rg)"
        "unat (bf_file_pos buf + rg_start rg) = unat (bf_file_pos buf) + unat (rg_start rg)"
        using bb(4) [OF True] se by (simp_all add: unat_plus)
      then show ?thesis using eq [OF le] True mem by (simp add: buf_bytes_def part_buf_def slice_at_def)
    next
      case False
      then show ?thesis using mem by (simp add: buf_bytes_def part_buf_def)
    qed
  qed
qed

end
