(* ===== verification/Http_Range_Parse.thy ===== *)
theory Http_Range_Parse
  imports Http_Range_Body
begin

unbundle bit_operations_syntax

text \<open>
  Which ranges the parser of \<open>Http_Range\<close> accepts: those of the text of the header, cut to the length of the content.
\<close>

section \<open>Texts of ranges\<close>





section \<open>The steps of the parser\<close>











section \<open>Lists of ranges\<close>


















section \<open>Any text\<close>

text \<open>Whatever the text, the parser reads no further than the zero byte at its end.\<close>

lemma spaces_inside: "NUL \<in> set p \<Longrightarrow> \<exists>c q. rp_spaces p = Some (c # q) \<and> NUL \<in> set (c # q)"
  by (induction p) auto

lemma digits_inside: "NUL \<in> set p \<Longrightarrow> \<exists>w q. rp_digits v p = Some (w, q) \<and> NUL \<in> set q"
proof (induction v p rule: rp_digits.induct)
  case (2 v c p)
  show ?case
  proof (cases "ch_0 \<le> c \<and> c \<le> ch_9")
    case True
    then have "c \<noteq> NUL" by auto
    then show ?thesis using 2 True by simp
  next
    case False
    then show ?thesis using 2 by auto
  qed
qed simp

definition inside :: "('a \<times> 'b \<times> buffer) option option \<Rightarrow> bool" where
  "inside r \<longleftrightarrow> (case r of None \<Rightarrow> False | Some None \<Rightarrow> True | Some (Some (_, _, q)) \<Rightarrow> NUL \<in> set q)"

lemma end_inside:
  assumes "NUL \<in> set p"
  shows "inside (rp_end cl st p)"
proof -
  obtain w q where q: "rp_digits 0 p = Some (w, q)" "NUL \<in> set q" using digits_inside [OF assms] by blast
  obtain c r where r: "rp_spaces q = Some (c # r)" "NUL \<in> set (c # r)" using spaces_inside [OF q(2)] by blast
  show ?thesis using assms q(1) r by (cases p) (auto simp: inside_def rp_end_def Let_def split: option.splits simp del: rp_digits.simps)
qed

lemma one_inside:
  assumes "NUL \<in> set p"
  shows "inside (rp_one cl p)"
proof -
  obtain c q where q: "rp_spaces p = Some (c # q)" "NUL \<in> set (c # q)" using spaces_inside [OF assms] by blast
  show ?thesis
  proof (cases "c = ch_minus")
    case True
    then show ?thesis using q end_inside [of q cl None] by (simp add: rp_one_def)
  next
    case False
    obtain v r where r: "rp_digits 0 (c # q) = Some (v, r)" "NUL \<in> set r" using digits_inside [OF q(2)] by blast
    obtain c1 r1 where r1: "rp_spaces r = Some (c1 # r1)" "NUL \<in> set (c1 # r1)" using spaces_inside [OF r(2)] by blast
    show ?thesis
    proof (cases "c1 = ch_minus")
      case True
      then have "NUL \<in> set r1" using r1(2) by simp
      then obtain c2 r2 where r2: "rp_spaces r1 = Some (c2 # r2)" "NUL \<in> set (c2 # r2)" using spaces_inside by blast
      show ?thesis using q(1) False r(1) r1(1) True r2 end_inside [OF r2(2), of cl "Some v"]
        by (auto simp: rp_one_def inside_def simp del: rp_digits.simps)
    next
      case c1: False
      show ?thesis using q(1) False r(1) r1(1) c1 by (auto simp: rp_one_def inside_def simp del: rp_digits.simps)
    qed
  qed
qed

lemma end_bounds: "rp_end cl st p = Some (Some (s, e, q)) \<Longrightarrow> sint e \<le> sint cl"
proof (erule rp_end_steps)
  fix v q1
  assume e: "e = (let v = (case st of None \<Rightarrow> cl - 1 | Some _ \<Rightarrow> v) in if sint v \<ge> sint cl then cl else v + 1)"
  have "sint (w + 1) \<le> sint cl" if "\<not> sint cl \<le> sint w" for w :: ngx_int_t
  proof -
    have "sint cl < 2 ^ 63" "- (2 ^ 63) \<le> sint w" using sint_lt [of cl] sint_ge [of w] by simp_all
    then have "sint (w + 1) = sint w + 1" using that by (simp add: sint_word_ariths(1) signed_take_bit_int_eq_self)
    then show ?thesis using that by simp
  qed
  then show "sint e \<le> sint cl" by (simp add: e Let_def)
qed

lemma one_bounds: "rp_one cl p = Some (Some (s, e, q)) \<Longrightarrow> sint e \<le> sint cl"
  by (erule rp_one_steps) (auto dest: end_bounds)

lemma loop_inside:
  assumes "NUL \<in> set p" "\<forall>rg\<in>set rs. sint (rg_start rg) < sint (rg_end rg) \<and> sint (rg_end rg) \<le> sint cl"
  shows "\<exists>rc rs'. range_loop cl n sz rs p = Some (rc, rs') \<and>
    (\<forall>rg\<in>set rs'. sint (rg_start rg) < sint (rg_end rg) \<and> sint (rg_end rg) \<le> sint cl)"
  using assms
proof (induction "length p" arbitrary: n sz rs p rule: less_induct)
  case less
  note one = one_inside [OF less.prems(1), of cl]
  show ?case
  proof (cases "rp_one cl p")
    case None
    then show ?thesis using one by (simp add: inside_def)
  next
    case (Some r)
    show ?thesis
    proof (cases r)
      case None
      then show ?thesis using Some less.prems(2) by (simp add: range_loop.simps)
    next
      case (Some b)
      obtain s e q where b: "b = (s, e, q)" by (cases b)
      have r: "rp_one cl p = Some (Some (s, e, q))" using \<open>rp_one cl p = Some r\<close> Some b by simp
      have e: "sint e \<le> sint cl" using one_bounds [OF r] .
      let ?rs = "if sint s < sint e then rs @ [\<lparr>rg_start = s, rg_end = e, rg_content_range = []\<rparr>] else rs"
      have rs: "\<forall>rg\<in>set ?rs. sint (rg_start rg) < sint (rg_end rg) \<and> sint (rg_end rg) \<le> sint cl" using less.prems(2) e by auto
      have nul: "NUL \<in> set q" using one r by (simp add: inside_def)
      then obtain c q' where q: "q = c # q'" by (cases q) simp_all
      let ?sz = "if sint s < sint e then sz + (e - s) else sz" and ?n = "if sint s < sint e then n - 1 else n"
      consider (many) "sint s < sint e \<and> n = 0" | (more) "\<not> (sint s < sint e \<and> n = 0)" "c = ch_comma"
        | (last) "\<not> (sint s < sint e \<and> n = 0)" "c \<noteq> ch_comma" by blast
      then show ?thesis
      proof cases
        case many
        then have "range_loop cl n sz rs p = Some (Range_Declined, ?rs)" unfolding range_loop.simps [of cl n sz rs p] r by (simp add: Let_def)
        then show ?thesis using rs by blast
      next
        case more
        then have "range_loop cl n sz rs p = range_loop cl ?n ?sz ?rs q'"
          unfolding range_loop.simps [of cl n sz rs p] r q by (auto simp: Let_def)
        moreover have "length q' < length p" using rp_one_length [OF r] q by simp
        moreover have "NUL \<in> set q'" using nul q more(2) by simp
        ultimately show ?thesis using less.hyps [of q' ?rs ?n ?sz] rs by (simp only:)
      next
        case last
        then have "\<exists>rc. range_loop cl n sz rs p = Some (rc, ?rs)"
          unfolding range_loop.simps [of cl n sz rs p] r q by (auto simp: Let_def)
        then show ?thesis using rs by blast
      qed
    qed
  qed
qed

section \<open>What the parser promises\<close>






text \<open>
  C17.  Whatever the text of the header, the parser reads nothing behind the zero byte that ends it, and every range in its
  answer is not empty and ends within the content.
\<close>

theorem range_parse_inside:
  assumes "NUL \<in> set (drop 6 data)"
  shows "\<exists>rc rs. ngx_http_range_parse cl n data = Some (rc, rs) \<and>
    (\<forall>rg\<in>set rs. sint (rg_start rg) < sint (rg_end rg) \<and> sint (rg_end rg) \<le> sint cl)"
  using loop_inside [OF assms, of "[]" cl n 0] by (simp add: ngx_http_range_parse_def)

theorem range_parse_inside_witness:
  "\<exists>rc rs. ngx_http_range_parse 100 4 (bytes ''bytes=7-x,,'' @ [NUL]) = Some (rc, rs) \<and>
    (\<forall>rg\<in>set rs. sint (rg_start rg) < sint (rg_end rg) \<and> sint (rg_end rg) \<le> sint (100 :: ngx_int_t))"
  by (rule range_parse_inside) simp

text \<open>
  The beginning of a range is not bounded: of a content of 100 bytes the last 200 are asked for, and with a second range
  the sum of the sizes wraps, so that both are accepted although they begin before the content.
\<close>

lemma range_parse_negative_start:
  "\<exists>rs. ngx_http_range_parse 100 4 (bytes ''bytes=-200,-9223372036854775608'' @ [NUL]) = Some (Range_Ok, rs) \<and> map (sint \<circ> rg_start) rs = [- 100, - 9223372036854775508]"
  by (simp add: ngx_http_range_parse_def range_loop.simps rp_one_def rp_end_def of_char_def Let_def)

end
