(* ===== verification/Http_Range_Response.thy ===== *)
theory Http_Range_Response
  imports Http_Range_Parse
begin

unbundle bit_operations_syntax

text \<open>
  The header and the body of a partial response together: what is announced is what is sent.
\<close>

section \<open>Printing\<close>


text \<open>The number of a boundary: twenty digits.\<close>

definition boundary_text :: "ngx_uint_t \<Rightarrow> buffer" where
  "boundary_text v = replicate (20 - length (num_digits v 0)) ch_0 @ num_digits v 0"

lemma length_boundary_text [simp]: "length (boundary_text v) = 20"
  using num_digits_length [of v 0] by (simp add: boundary_text_def)





section \<open>The headers\<close>
















section \<open>The parts of a body\<close>




section \<open>A partial response\<close>











end
