(* ===== verification/Spec2Isabelle.thy ===== *)
theory Spec2Isabelle
  imports Http_Request_Line_Safety Http_Header_Line Http_Uri_Resolution Http_Status_Line Ngx_Number
    Ngx_Sort Http_Args Ngx_Base64 Ngx_Utf8 Ngx_Escape Ngx_Parse Camera_Threads Camera_Message
    Http_Date_Formats Ngx_Radix_Search Upstream_Conns Upstream_Ip_Hash
    Mp4_Tables Mp4_File Http_Range_Response
begin

text \<open>
  \<^bold>\<open>xhome\<close> is a home camera system.  A recorder on the camera (\<^verbatim>\<open>src/camera\<close>) collects frames
  and talks to a control server; a video-on-demand server (\<^verbatim>\<open>src/vod/nginx-1.2.9\<close>, a complete nginx) hands
  recordings out over HTTP; a live server (\<^verbatim>\<open>src/live\<close>, C++), a control service (\<^verbatim>\<open>src/control\<close>, Java)
  and an Android application (\<^verbatim>\<open>src/app\<close>, Java) surround them.  This development models the C code: the
  camera's own core and the part of nginx that turns untrusted bytes into decisions.

  \<^bold>\<open>How the parts interact.\<close>  The camera's producer calls \<^verbatim>\<open>pushFrame\<close>, the transfer thread
  \<^verbatim>\<open>popFrame\<close>, around a ring buffer, a mutex and a semaphore; a third thread answers control messages.  nginx
  reads a request into a buffer and calls \<^verbatim>\<open>ngx_http_parse_request_line\<close> and then
  \<^verbatim>\<open>ngx_http_parse_header_line\<close>, again and again while bytes arrive; a URI that the first marks as complex goes
  through \<^verbatim>\<open>ngx_http_parse_complex_uri\<close>; header values and arguments are looked up, numbers and escapes in
  them decoded by \<^verbatim>\<open>src/core/ngx_string.c\<close>.  A request that is passed on asks a balancer for a peer, and again when
  the peer fails; addresses are looked up in radix trees; dates are printed and read.  A recording that is requested
  from some time on goes through the MP4 module, which cuts the tables of the file before sending it; one that is requested in
  parts through the range filter, which reads the ranges, announces the parts and cuts the buffers of the body.

  \<^bold>\<open>Theories.\<close>
  \<^item> \<^verbatim>\<open>Xhome_Prelude\<close>: C types of an LP64 build as words, the bytes of ASCII, return codes, 256-bit
    character tables, and the scanning loop \<^const>\<open>scan\<close> that every byte-at-a-time parser of nginx runs, with
    the locale \<^verbatim>\<open>prefix_step\<close> under which such a loop can be suspended and resumed.
  \<^item> \<^verbatim>\<open>Http_Request_Line\<close>, \<^verbatim>\<open>Http_Request_Line_Safety\<close>: \<^verbatim>\<open>ngx_http_parse_request_line\<close> of
    \<^verbatim>\<open>src/http/ngx_http_parse.c\<close>, one definition per case of its switch (\<open>rl_start\<close> to \<open>rl_almost_done\<close>), the
    request structure as a record with optional indices for its pointers.  Resumption, the
    pointers (scheme, host and port included), round trip with a printed line, safety of a URI that is not marked as complex, and two defects.
  \<^item> \<^verbatim>\<open>Http_Header_Line\<close>, \<^verbatim>\<open>Ngx_Hash\<close>: \<^verbatim>\<open>ngx_http_parse_header_line\<close> with its running hash, the
    hash functions of \<^verbatim>\<open>src/core/ngx_hash.c\<close>.
  \<^item> \<^verbatim>\<open>Http_Complex_Uri\<close>, \<^verbatim>\<open>Http_Uri_Resolution\<close>: \<^verbatim>\<open>ngx_http_parse_complex_uri\<close> with its output buffer; that
    it ends, stays in bounds and leaves no dot segment; that it refines the segment-level resolution of the
    decoded path.
  \<^item> \<^verbatim>\<open>Http_Status_Line\<close>: \<^verbatim>\<open>ngx_http_parse_status_line\<close>, an invariant of its states, a round trip.
  \<^item> \<^verbatim>\<open>Http_Args\<close>: \<^verbatim>\<open>ngx_http_parse_unsafe_uri\<close>, \<^verbatim>\<open>ngx_http_parse_multi_header_lines\<close>, \<^verbatim>\<open>ngx_http_arg\<close>,
    \<^verbatim>\<open>ngx_http_split_args\<close>.
  \<^item> \<^verbatim>\<open>Ngx_String\<close>, \<^verbatim>\<open>Ngx_Sort\<close>, \<^verbatim>\<open>Ngx_Number\<close>, \<^verbatim>\<open>Ngx_Base64\<close>, \<^verbatim>\<open>Ngx_Utf8\<close>, \<^verbatim>\<open>Ngx_Escape\<close>:
    \<^verbatim>\<open>src/core/ngx_string.c\<close>: copies, comparisons and searches over an explicit memory; the stable sort (locale
    \<^verbatim>\<open>key_order\<close>); the number readers (locale \<^verbatim>\<open>number_reader\<close>, five interpretations) and \<^verbatim>\<open>ngx_sprintf_num\<close>; base64
    against bit strings (locale \<^verbatim>\<open>base64_tables\<close>, two interpretations); UTF-8 against the encoding of code points;
    URI and HTML escapes.
  \<^item> \<^verbatim>\<open>Ngx_Parse\<close>: sizes, offsets and times of \<^verbatim>\<open>src/core/ngx_parse.c\<close> (locale \<^verbatim>\<open>scaled_reader\<close>, which
    extends \<^verbatim>\<open>number_reader\<close>).
  \<^item> \<^verbatim>\<open>Ngx_Sprintf\<close>: the format interpreter \<^verbatim>\<open>ngx_vslprintf\<close> of \<^verbatim>\<open>src/core/ngx_string.c\<close>.
  \<^item> \<^verbatim>\<open>Ngx_Calendar\<close>, \<^verbatim>\<open>Ngx_Times\<close>, \<^verbatim>\<open>Http_Date_Formats\<close>: the Gregorian calendar, counted day by day;
    \<^verbatim>\<open>ngx_gmtime\<close> and \<^verbatim>\<open>ngx_http_time\<close> of \<^verbatim>\<open>src/core/ngx_times.c\<close> and \<^verbatim>\<open>ngx_http_parse_time\<close> of
    \<^verbatim>\<open>src/http/ngx_http_parse_time.c\<close> on words, that they compute it, and that reading inverts printing.
  \<^item> \<^verbatim>\<open>Ngx_Radix\<close>, \<^verbatim>\<open>Ngx_Radix_Spec\<close>, \<^verbatim>\<open>Ngx_Radix_Search\<close>: the radix trees of \<^verbatim>\<open>src/core/ngx_radix_tree.c\<close> over an
    explicit store of nodes with its free list; that the operations keep the shape of a tree, and that insertion,
    deletion and search are those of a table of prefixes (locale \<^verbatim>\<open>prefix_table\<close>, two interpretations).
  \<^item> \<^verbatim>\<open>Upstream_Next\<close>: a request at its upstream (\<^verbatim>\<open>ngx_http_upstream_connect\<close>, \<^verbatim>\<open>ngx_http_upstream_next\<close> of
    \<^verbatim>\<open>src/http/ngx_http_upstream.c\<close>) over any balancer (locale \<^verbatim>\<open>balancer\<close>): every request ends.
  \<^item> \<^verbatim>\<open>Upstream_Rr\<close>, \<^verbatim>\<open>Upstream_Rr_Fair\<close>, \<^verbatim>\<open>Upstream_Rr_Request\<close>: the smooth weighted round robin of
    \<^verbatim>\<open>src/http/ngx_http_upstream_round_robin.c\<close>: which peer is chosen, exact fairness, failover to the backup group, the
    order of the peers; it is a \<^verbatim>\<open>balancer\<close>.
  \<^item> \<^verbatim>\<open>Upstream_Least_Conn\<close>, \<^verbatim>\<open>Upstream_Least_Conn_Spec\<close>, \<^verbatim>\<open>Upstream_Conns\<close>, \<^verbatim>\<open>Upstream_Ip_Hash\<close>: the balancers of
    \<^verbatim>\<open>src/http/modules\<close> that are built on it, by least connections and by client address; both are interpretations of
    \<^verbatim>\<open>balancer\<close>, and the counters of connections are exact over any interleaving of requests (\<^const>\<open>lc_step\<close>).
  \<^item> \<^verbatim>\<open>Mp4_Atoms\<close>, \<^verbatim>\<open>Mp4_Tables\<close>, \<^verbatim>\<open>Mp4_Seek\<close>, \<^verbatim>\<open>Mp4_Track\<close>, \<^verbatim>\<open>Mp4_Moov\<close>, \<^verbatim>\<open>Mp4_File\<close>: the tables of samples and chunks of
    \<^verbatim>\<open>src/http/modules/ngx_http_mp4_module.c\<close>, read from bytes (locale \<^verbatim>\<open>mp4_entries\<close>, four interpretations), cut at a
    start time and moved: a cut track has the durations, sizes and positions of the samples from the start on (its last chunk
    apart, which the code drops in one case); the buffers of the moov atom that is sent, whose bytes are as many as the sizes
    kept for its headers say; and the bytes that are sent behind it are those of these samples.
  \<^item> \<^verbatim>\<open>Http_Range\<close>, \<^verbatim>\<open>Http_Range_Parse\<close>, \<^verbatim>\<open>Http_Range_Body\<close>, \<^verbatim>\<open>Http_Range_Response\<close>: partial content
    (\<^verbatim>\<open>src/http/modules/ngx_http_range_filter_module.c\<close>): the parser of the header \<^verbatim>\<open>Range\<close> against the meaning of ranges
    (suffixes longer than the content included, as long as the bytes asked for do not overflow), the buffers of a body as slices of memory and files, and both filters together.
  \<^item> \<^verbatim>\<open>Camera_Ring\<close>, \<^verbatim>\<open>Camera_Threads\<close>: \<^verbatim>\<open>src/camera/interface.c\<close>.  The ring over a byte memory, its
    refinement of a queue (locale \<^verbatim>\<open>frame_queue\<close>, interpreted on the ring), overwriting, and the interleavings of
    the threads as the step relation \<^const>\<open>cam_step\<close> with an invariant and a liveness theorem.
  \<^item> \<^verbatim>\<open>Camera_Message\<close>: \<^verbatim>\<open>getMsg\<close>, \<^verbatim>\<open>sendMsg\<close>, \<^verbatim>\<open>pollMsg\<close> of \<^verbatim>\<open>src/camera/MessageHandler.c\<close> and one round of
    \<^verbatim>\<open>src/camera/AVdataTransfer.c\<close>; sockets, allocation and files are explicit state.

  \<^bold>\<open>Conventions.\<close>  A pointer into a buffer is an index, a nullable one an optional index.  A text
  with a length is a list; where reading outside it is possible, the memory is explicit and such a read is the value
  \<open>None\<close>, so a \<open>Some\<close> in a conclusion says that the access is inside.  Signed arithmetic wraps as in the compiled
  code.  The loops are total functions with a measure; only the endless loop of \<^verbatim>\<open>ngx_http_upstream_get_ip_hash_peer\<close>
  has fuel, and \<open>ih_rounds_enough\<close> proves that twenty rounds are enough; the two of \<^verbatim>\<open>myallocate\<close>, which may run forever,
  are partial functions whose divergence is \<open>None\<close>, and theorems that they return are proved as such.  The build is
  a 64-bit little-endian Unix build without debugging and without the branches for other systems.

  \<^bold>\<open>What the theorems do not cover.\<close>  The FIFO theorems of the ring hold for executions in which a push
  finds room; what happens otherwise is the subject of the theorems on overwriting and of those that show defects.
  The escape type \<^verbatim>\<open>NGX_ESCAPE_REFRESH\<close> is excluded from the round trip because it does not escape the percent sign.

  \<^bold>\<open>Not modelled.\<close>  In nginx: the event loop, processes, sockets and files (system calls), memory pools,
  red-black trees, the hash tables, configuration files, the tree of atoms of an MP4 file around the tables, the other HTTP modules, the bodies of upstream requests, cached
  connections and upstreams without servers of their own, the mail proxy.  In the
  camera: opening the socket and creating the threads (system calls) and the media muxer \<^verbatim>\<open>mux.c\<close>, which only calls
  a media library.  The live server is C++, the control service and the application are Java.
\<close>

section \<open>Properties of all balancers\<close>

text \<open>
  C27.  The data of the three balancers stay well formed under every operation: the groups keep a peer and their
  flags, effective weights lie between zero and the weight, the bits of the tried peers, the counters and the totals fit the
  groups, and a peer that was given is inside its group.
\<close>

theorem balancers_well_formed:
  "(rr_ok r \<longrightarrow> ngx_http_upstream_get_round_robin_peer now r = (rc, r') \<longrightarrow>
      rr_ok r' \<and> (rc = NGX_OK \<longrightarrow> holds_ok r' \<and> rr_ok (ngx_http_upstream_free_round_robin_peer now' failed r'))) \<and>
   (lc_ok l \<longrightarrow> ngx_http_upstream_get_least_conn_peer now l = (rc, l') \<longrightarrow>
      lc_ok l' \<and> (rc = NGX_OK \<longrightarrow> holds_ok l' \<and> lc_ok (ngx_http_upstream_free_least_conn_peer now' failed l'))) \<and>
   (ih_ok d \<longrightarrow> ngx_http_upstream_get_ip_hash_peer now d = (rc, d') \<longrightarrow>
      ih_ok d' \<and> (rc = NGX_OK \<longrightarrow> holds_ok d' \<and> ih_ok (ngx_http_upstream_free_round_robin_peer now' failed d')))"
  using rr.get_ok [of r now rc r'] rr.free_ok [of r' now' failed] lc.get_ok [of l now rc l'] lc.free_ok [of l' now' failed]
    ih.get_ok [of d now rc d'] ih.free_ok [of d' now' failed] by auto

theorem balancers_well_formed_witness:
  "\<exists>us. ngx_http_upstream_init_round_robin True sample_servers = Some us \<and>
     rr_ok (snd (ngx_http_upstream_get_round_robin_peer 0 (ngx_http_upstream_init_round_robin_peer us)))"
proof -
  obtain us where us: "ngx_http_upstream_init_round_robin True sample_servers = Some us" using sample_init by blast
  obtain rc r' where g: "ngx_http_upstream_get_round_robin_peer 0 (ngx_http_upstream_init_round_robin_peer us) = (rc, r')" by fastforce
  have "rr_ok r'"
    using balancers_well_formed [of "ngx_http_upstream_init_round_robin_peer us" 0 rc r' 0 False] init_rr_ok(1) [OF sample_servers_ok us] g
    by blast
  then show ?thesis using us g by auto
qed

end
